(* ===== verification/Prelude.thy ===== *)
theory Prelude
  imports Main "HOL-Library.Word"
begin

text \<open>
  What the components share: the widths of the machine integers, the operations of
  \<^verbatim>\<open>std::string_view\<close> the parsers use, little-endian bytes, the lemmas that read
  word arithmetic as arithmetic on the naturals, and the interface of a routine that
  consumes its input element by element (\<open>incremental\<close>).
\<close>

unbundle bit_operations_syntax

section \<open>Machine integers\<close>

type_synonym u8 = "8 word"
type_synonym u16 = "16 word"
type_synonym u32 = "32 word"
type_synonym u64 = "64 word"
type_synonym bytes = "8 word list"

named_theorems to_nat \<comment> \<open>rewrites that read word terms as naturals\<close>

lemmas word_nat_order [to_nat] = word_less_nat_alt word_le_nat_alt word_unat_eq_iff

lemma unat_add_exact:
  fixes a b :: "'a::len word"
  shows "unat a + unat b < 2 ^ LENGTH('a) \<Longrightarrow> unat (a + b) = unat a + unat b"
  by (simp add: unat_word_ariths)

lemma unat_mult_exact:
  fixes a b :: "'a::len word"
  shows "unat a * unat b < 2 ^ LENGTH('a) \<Longrightarrow> unat (a * b) = unat a * unat b"
  by (simp add: unat_word_ariths)

lemma unat_sub_exact:
  fixes a b :: "'a::len word"
  shows "b \<le> a \<Longrightarrow> unat (a - b) = unat a - unat b"
  by (simp add: unat_sub)

lemma unat_min [to_nat]: "unat (min a b) = min (unat a) (unat b)"
  by (simp add: min_def word_le_nat_alt)

lemma unat_max [to_nat]: "unat (max a b) = max (unat a) (unat b)"
  by (simp add: max_def word_le_nat_alt)

lemma unat_lt_u8: "unat (w :: u8) < 256"
  using unsigned_less [where 'a = nat, of w] by simp

lemma unat_lt_u16: "unat (w :: u16) < 65536"
  using unsigned_less [where 'a = nat, of w] by simp

lemma unat_lt_u32: "unat (w :: u32) < 4294967296"
  using unsigned_less [where 'a = nat, of w] by simp

lemma unat_lt_u64: "unat (w :: u64) < 18446744073709551616"
  using unsigned_less [where 'a = nat, of w] by simp

text \<open>Widening keeps the value; so does narrowing a value that fits.\<close>

lemma unat_widen:
  "LENGTH('a::len) \<le> LENGTH('b::len) \<Longrightarrow> unat (ucast (w :: 'a word) :: 'b word) = unat w"
proof -
  assume le: "LENGTH('a) \<le> LENGTH('b)"
  have "unat w < 2 ^ LENGTH('a)" by (rule unsigned_less)
  also have "\<dots> \<le> 2 ^ LENGTH('b)" using le by (simp add: power_increasing)
  finally show ?thesis by (simp add: unsigned_ucast_eq take_bit_nat_eq_self)
qed

lemma unat_ucast_32_64 [simp, to_nat]: "unat (ucast (w :: u32) :: u64) = unat w"
  by (rule unat_widen) simp

lemma unat_ucast_16_32 [simp, to_nat]: "unat (ucast (w :: u16) :: u32) = unat w"
  by (rule unat_widen) simp

lemma unat_ucast_8_32 [simp, to_nat]: "unat (ucast (w :: u8) :: u32) = unat w"
  by (rule unat_widen) simp

lemma unat_ucast_8_16 [simp, to_nat]: "unat (ucast (w :: u8) :: u16) = unat w"
  by (rule unat_widen) simp

lemma unat_ucast_64_32: "unat (w :: u64) < 4294967296 \<Longrightarrow> unat (ucast w :: u32) = unat w"
  by (simp add: unsigned_ucast_eq take_bit_nat_eq_self)

lemma unat_of_nat_32 [simp]: "n < 4294967296 \<Longrightarrow> unat (of_nat n :: u32) = n"
  by (simp add: unat_of_nat)

lemma unat_of_nat_64 [simp]: "n < 18446744073709551616 \<Longrightarrow> unat (of_nat n :: u64) = n"
  by (simp add: unat_of_nat)

lemma word_xor_left_cancel [simp]:
  fixes x y z :: "'a::len word"
  shows "x XOR y = x XOR z \<longleftrightarrow> y = z"
  by (metis xor.assoc xor.left_neutral xor_self_eq)

lemma word_xor_right_cancel [simp]:
  fixes x y z :: "'a::len word"
  shows "y XOR x = z XOR x \<longleftrightarrow> y = z"
  by (metis xor.commute word_xor_left_cancel)

lemma word_xor_eq_0 [simp]:
  fixes x y :: "'a::len word"
  shows "x XOR y = 0 \<longleftrightarrow> x = y"
  by (metis word_xor_left_cancel xor_self_eq)

lemma and_255_take_bit: "(x :: 'a::len word) AND 0xFF = take_bit 8 x"
proof -
  have "(mask 8 :: 'a word) = 0xFF" by (simp add: mask_eq_exp_minus_1)
  then show ?thesis by (simp add: take_bit_eq_mask)
qed

lemma unat_and_255: "unat ((x :: 'a::len word) AND 0xFF) < 256"
  using take_bit_nat_less_exp [of 8 "unat x"]
  by (simp add: and_255_take_bit unsigned_take_bit_eq)

lemma and_24_bits: "(x :: u32) AND 0x00FFFFFF = take_bit 24 x"
proof -
  have "(mask 24 :: u32) = 0x00FFFFFF" by (simp add: mask_eq_exp_minus_1)
  then show ?thesis by (simp add: take_bit_eq_mask)
qed

section \<open>Little-endian bytes\<close>

text \<open>Byte \<open>k\<close> of a word: \<^verbatim>\<open>(value >> (8 * k)) & 0xFF\<close>, narrowed.\<close>

definition byte_of :: "nat \<Rightarrow> 'a::len word \<Rightarrow> u8" where
  "byte_of k v = ucast (drop_bit (8 * k) v)"

definition le_bytes16 :: "u16 \<Rightarrow> bytes" where
  "le_bytes16 v = [byte_of 0 v, byte_of 1 v]"

definition le_bytes32 :: "u32 \<Rightarrow> bytes" where
  "le_bytes32 v = [byte_of 0 v, byte_of 1 v, byte_of 2 v, byte_of 3 v]"

lemma length_le_bytes [simp]: "length (le_bytes16 v) = 2" "length (le_bytes32 w) = 4"
  by (simp_all add: le_bytes16_def le_bytes32_def)

lemma bit_byte_of: "bit (byte_of k v) n \<longleftrightarrow> n < 8 \<and> bit v (8 * k + n)"
  by (auto simp: byte_of_def bit_simps dest: bit_imp_le_length)

lemma le16_bytes:
  fixes v :: u16
  shows "ucast (byte_of 0 v) OR push_bit 8 (ucast (byte_of (Suc 0) v)) = v"
proof (rule bit_word_eqI)
  fix n assume "n < LENGTH(16)"
  then show "bit (ucast (byte_of 0 v) OR push_bit 8 (ucast (byte_of (Suc 0) v)) :: u16) n = bit v n"
    by (cases "n < 8") (auto simp: bit_simps bit_byte_of)
qed

lemma le32_bytes:
  fixes v :: u32
  shows "ucast (byte_of 0 v) OR push_bit 8 (ucast (byte_of (Suc 0) v)) OR
    push_bit 16 (ucast (byte_of 2 v)) OR push_bit 24 (ucast (byte_of 3 v)) = v"
proof (rule bit_word_eqI)
  fix n assume "n < LENGTH(32)"
  then have "n < 8 \<or> (8 \<le> n \<and> n < 16) \<or> (16 \<le> n \<and> n < 24) \<or> (24 \<le> n \<and> n < 32)" by auto
  then show "bit (ucast (byte_of 0 v) OR push_bit 8 (ucast (byte_of (Suc 0) v)) OR
    push_bit 16 (ucast (byte_of 2 v)) OR push_bit 24 (ucast (byte_of 3 v)) :: u32) n = bit v n"
    by (elim disjE) (auto simp: bit_simps bit_byte_of)
qed

section \<open>String views\<close>

text \<open>
  A \<^verbatim>\<open>std::string_view\<close> is its characters; \<^verbatim>\<open>npos\<close> is \<^term>\<open>None\<close>.
  \<^verbatim>\<open>text.substr(0, end)\<close> with \<open>end = npos\<close> is the whole text.
\<close>

abbreviation char_code :: "char \<Rightarrow> nat" where
  "char_code c \<equiv> of_char c"

definition starts_with :: "string \<Rightarrow> string \<Rightarrow> bool" where
  "starts_with text pre \<longleftrightarrow> take (length pre) text = pre"

primrec find_char :: "char \<Rightarrow> string \<Rightarrow> nat option" where
  "find_char c [] = None"
| "find_char c (x # xs) = (if x = c then Some 0 else map_option Suc (find_char c xs))"

definition find_char_from :: "char \<Rightarrow> string \<Rightarrow> nat \<Rightarrow> nat option" where
  "find_char_from c text from = map_option ((+) from) (find_char c (drop from text))"

definition substr_to :: "string \<Rightarrow> nat option \<Rightarrow> string" where
  "substr_to text stop = (case stop of None \<Rightarrow> text | Some n \<Rightarrow> take n text)"

lemma starts_with_append [simp]: "starts_with (pre @ text) pre"
  by (simp add: starts_with_def)

lemma starts_withE:
  assumes "starts_with text pre"
  obtains rest where "text = pre @ rest"
  using assms unfolding starts_with_def by (metis append_take_drop_id)

lemma starts_with_iff: "starts_with text pre \<longleftrightarrow> (\<exists>rest. text = pre @ rest)"
  by (auto elim: starts_withE)

lemma find_char_None [simp]: "find_char c xs = None \<longleftrightarrow> c \<notin> set xs"
  by (induction xs) auto

lemma find_char_Some:
  "find_char c xs = Some n \<longleftrightarrow> n < length xs \<and> xs ! n = c \<and> c \<notin> set (take n xs)"
proof (induction xs arbitrary: n)
  case Nil
  then show ?case by simp
next
  case (Cons x xs)
  then show ?case by (cases n) auto
qed

lemma find_char_append [simp]: "c \<notin> set a \<Longrightarrow> find_char c (a @ c # b) = Some (length a)"
  by (induction a) auto

lemma find_char_split:
  assumes "find_char c xs = Some n"
  shows "xs = take n xs @ c # drop (Suc n) xs" and "c \<notin> set (take n xs)"
  using assms id_take_nth_drop [of n xs] by (auto simp: find_char_Some)

lemma find_char_less: "find_char c xs = Some n \<Longrightarrow> n < length xs"
  by (simp add: find_char_Some)

lemma substr_to_simps [simp]:
  "substr_to text None = text" "substr_to text (Some n) = take n text"
  by (simp_all add: substr_to_def)

section \<open>Routines that consume their input element by element\<close>

text \<open>
  Many routines of the program take their input in any split (\<^verbatim>\<open>update()\<close> of a
  checksum, \<^verbatim>\<open>feed()\<close> of a parser): a loop over the elements with one step each. What a
  caller relies on is proved here once: a run over an appended input is two runs, so the
  way the input is split does not matter, and what each step keeps every run keeps.
\<close>

locale incremental =
  fixes step :: "'s \<Rightarrow> 'b \<Rightarrow> 's"
    and run :: "'s \<Rightarrow> 'b list \<Rightarrow> 's"
  assumes run_Nil: "run s [] = s"
    and run_Cons: "run s (b # bs) = run (step s b) bs"
begin

lemma run_append: "run s (xs @ ys) = run (run s xs) ys"
  by (induction xs arbitrary: s) (simp_all add: run_Nil run_Cons)

lemma run_concat: "run s (concat xss) = foldl run s xss"
  by (induction xss arbitrary: s) (simp_all add: run_Nil run_append)

lemma split_independent: "concat xss = concat yss \<Longrightarrow> foldl run s xss = foldl run s yss"
  by (simp flip: run_concat)

lemma run_keeps:
  assumes "\<And>s b. I s \<Longrightarrow> I (step s b)" and "I s"
  shows "I (run s bs)"
  using assms(2) by (induction bs arbitrary: s) (auto simp: run_Nil run_Cons intro: assms(1))

lemma run_foldl: "run = foldl step"
proof (intro ext)
  show "run s bs = foldl step s bs" for s bs
    by (induction bs arbitrary: s) (simp_all add: run_Nil run_Cons)
qed

end

end
