(* ===== verification/Status.thy ===== *)
theory Status
  imports Prelude
begin

text \<open>
  \<^verbatim>\<open>common/status.hpp\<close>: the outcome of a fallible call. A \<^verbatim>\<open>Result<T>\<close> is a value
  or the \<^verbatim>\<open>Status\<close> that explains its absence, the sum \<open>status + 'a\<close> here. The handler
  that \<^verbatim>\<open>critical_error()\<close> calls does not return, so no value is read from a failed
  result: the callers modelled here test \<^verbatim>\<open>has_value()\<close> first.
\<close>

datatype status_code =
  Ok | Invalid_argument | Invalid_configuration | Buffer_too_small | Unavailable
| Io_error | Timeout | Busy | Internal_error

record status =
  code :: status_code
  message :: string

type_synonym 'a result = "status + 'a"

definition is_ok :: "status \<Rightarrow> bool" where
  "is_ok s \<longleftrightarrow> code s = Ok"

definition success :: status where
  "success = \<lparr>code = Ok, message = ''ok''\<rparr>"

definition ok_status_without_value :: status where
  "ok_status_without_value =
     \<lparr>code = Internal_error, message = ''a Result was built from an ok Status''\<rparr>"

text \<open>The constructor of a failed \<^verbatim>\<open>Result\<close>, and its \<^verbatim>\<open>error()\<close>.\<close>

definition result_of_error :: "status \<Rightarrow> 'a result" where
  "result_of_error e = Inl (if is_ok e then ok_status_without_value else e)"

definition has_value :: "'a result \<Rightarrow> bool" where
  "has_value r \<longleftrightarrow> (case r of Inl _ \<Rightarrow> False | Inr _ \<Rightarrow> True)"

definition result_status :: "'a result \<Rightarrow> status" where
  "result_status r = (case r of Inl e \<Rightarrow> e | Inr _ \<Rightarrow> success)"

text \<open>
  The call site of a critical error: the return address moved back into the call, the
  Thumb state bit cleared; none below 2.
\<close>

definition critical_site_of :: "u32 \<Rightarrow> u32" where
  "critical_site_of return_address =
     (if return_address < 2 then 0 else (return_address AND NOT 1) - 2)"

named_theorems status_defs \<comment> \<open>the constants of \<^verbatim>\<open>Status\<close> type, by component\<close>

lemma is_ok_success [simp]: "is_ok success"
  by (simp add: is_ok_def success_def)

lemma result_simps [simp]:
  "has_value (Inl e) = False" "has_value (Inr v) = True"
  "result_status (Inl e) = e" "result_status (Inr v) = success"
  by (simp_all add: has_value_def result_status_def)

text \<open>
  A failed result holds no ok status: a missing value always has a reason.
\<close>

lemma result_of_error_not_ok:
  "result_of_error e = Inl e' \<Longrightarrow> \<not> is_ok e'"
  by (auto simp: result_of_error_def is_ok_def ok_status_without_value_def split: if_splits)

lemma result_of_error_id [simp]: "\<not> is_ok e \<Longrightarrow> result_of_error e = Inl e"
  by (simp add: result_of_error_def)

lemma result_of_error_not_Inr [simp]: "result_of_error e \<noteq> Inr v"
  by (simp add: result_of_error_def)

section \<open>Loops that stop at the first failure\<close>

text \<open>
  The contract of a loop that feeds its input element by element and returns the first
  status that is not ok: the rest of the input is left unread. The state is the one at
  the failure.
\<close>

locale fallible_incremental =
  fixes step :: "'s \<Rightarrow> 'b \<Rightarrow> 's \<times> status"
    and run :: "'s \<Rightarrow> 'b list \<Rightarrow> 's \<times> status"
  assumes run_Nil: "run s [] = (s, success)"
    and run_Cons: "run s (b # bs) =
      (case step s b of (s', st) \<Rightarrow> if is_ok st then run s' bs else (s', st))"
begin

lemma run_append:
  "run s (xs @ ys) =
     (case run s xs of (s', st) \<Rightarrow> if is_ok st then run s' ys else (s', st))"
proof (induction xs arbitrary: s)
  case Nil
  then show ?case by (simp add: run_Nil)
next
  case (Cons x xs)
  then show ?case by (cases "step s x") (simp add: run_Cons)
qed

lemma run_keeps:
  assumes step: "\<And>s b. I s \<Longrightarrow> I (fst (step s b))" and "I s"
  shows "I (fst (run s bs))"
  using assms(2)
proof (induction bs arbitrary: s)
  case Nil
  then show ?case by (simp add: run_Nil)
next
  case (Cons b bs)
  then show ?case using step [of s b]
    by (cases "step s b") (simp add: run_Cons)
qed

lemma run_ok_keeps:
  assumes step: "\<And>s b. I s \<Longrightarrow> is_ok (snd (step s b)) \<and> I (fst (step s b))" and "I s"
  shows "is_ok (snd (run s bs)) \<and> I (fst (run s bs))"
  using assms(2)
proof (induction bs arbitrary: s)
  case Nil
  then show ?case by (simp add: run_Nil)
next
  case (Cons b bs)
  then show ?case using step [of s b]
    by (cases "step s b") (simp add: run_Cons)
qed

text \<open>A run that nothing stops: the way its input is cut does not matter.\<close>

lemma run_pieces:
  "is_ok (snd (run s (concat bss))) \<Longrightarrow> foldl (\<lambda>s bs. fst (run s bs)) s bss = fst (run s (concat bss))"
proof (induction bss arbitrary: s)
  case Nil
  then show ?case by (simp add: run_Nil)
next
  case (Cons bs bss)
  then show ?case by (cases "run s bs") (auto simp: run_append split: if_splits)
qed

end

end
