(* ===== verification/Crc32.thy ===== *)
theory Crc32
  imports Prelude
begin

text \<open>
  \<^verbatim>\<open>common/crc32.hpp\<close>: the zlib CRC-32 (reflected, table driven). The locale
  \<open>reflected_crc\<close> is what any reflected 32-bit CRC owes its users, given its bit step: the
  bit step is linear and injective when the polynomial's top coefficient is set, so a run
  over the bytes detects every change confined to four consecutive bytes. The table-driven
  CRC-32 here and the bitwise CRC-32C of the CDC mux protocol are its instances.
\<close>

section \<open>The routine\<close>

definition crc32_polynomial :: u32 where "crc32_polynomial = 0xEDB88320"
definition crc32_initial :: u32 where "crc32_initial = 0xFFFFFFFF"
definition crc32_final_xor :: u32 where "crc32_final_xor = 0xFFFFFFFF"
definition crc32_table_size :: nat where "crc32_table_size = 256"
definition crc32_bits_per_byte :: nat where "crc32_bits_per_byte = 8"
definition crc32_byte_mask :: u32 where "crc32_byte_mask = 0xFF"

text \<open>One turn of the table's inner loop.\<close>

definition crc32_remainder_bit :: "u32 \<Rightarrow> u32" where
  "crc32_remainder_bit remainder =
     (if remainder AND 1 \<noteq> 0 then drop_bit 1 remainder XOR crc32_polynomial
      else drop_bit 1 remainder)"

definition make_crc32_table :: "u32 list" where
  "make_crc32_table =
     map (\<lambda>byte. (crc32_remainder_bit ^^ crc32_bits_per_byte) (of_nat byte)) [0..<crc32_table_size]"

record crc32_object =
  crc_state :: u32

definition crc32_fresh :: crc32_object where
  "crc32_fresh = \<lparr>crc_state = crc32_initial\<rparr>"

definition crc32_update_byte :: "crc32_object \<Rightarrow> u8 \<Rightarrow> crc32_object" where
  "crc32_update_byte c byte =
     (let index = (crc_state c XOR ucast byte) AND crc32_byte_mask
      in c\<lparr>crc_state := drop_bit crc32_bits_per_byte (crc_state c) XOR
                         make_crc32_table ! unat index\<rparr>)"

primrec crc32_update :: "crc32_object \<Rightarrow> bytes \<Rightarrow> crc32_object" where
  "crc32_update c [] = c"
| "crc32_update c (byte # bytes) = crc32_update (crc32_update_byte c byte) bytes"

definition crc32_value :: "crc32_object \<Rightarrow> u32" where
  "crc32_value c = crc_state c XOR crc32_final_xor"

definition crc32_reset :: "crc32_object \<Rightarrow> crc32_object" where
  "crc32_reset c = c\<lparr>crc_state := crc32_initial\<rparr>"

definition crc32 :: "bytes \<Rightarrow> u32" where
  "crc32 bytes = crc32_value (crc32_update crc32_fresh bytes)"

section \<open>Reflected CRCs\<close>

text \<open>Up to four bytes as the word that holds them, the first byte lowest.\<close>

primrec le_word :: "bytes \<Rightarrow> u32" where
  "le_word [] = 0"
| "le_word (b # bs) = ucast b XOR push_bit 8 (le_word bs)"

lemma bit_le_word:
  "length bs \<le> 4 \<Longrightarrow> bit (le_word bs) n \<longleftrightarrow> n div 8 < length bs \<and> bit (bs ! (n div 8)) (n mod 8)"
proof (induction bs arbitrary: n)
  case Nil
  then show ?case by simp
next
  case (Cons b bs)
  show ?case
  proof (cases "n < 8")
    case True
    then show ?thesis by (auto simp: bit_simps)
  next
    case False
    then obtain m where n: "n = m + 8" by (metis le_add_diff_inverse2 not_less)
    have "\<not> bit b n" using False bit_imp_le_length [of b n] by auto
    moreover have "m div 8 < length bs \<Longrightarrow> m < 24" using Cons.prems by simp
    moreover have "(m + 8) div 8 = Suc (m div 8)" by simp
    ultimately show ?thesis using Cons.IH [of m] Cons.prems by (auto simp: bit_simps n)
  qed
qed

lemma le_word_inject:
  assumes "length bs = length bs'" and "length bs \<le> 4" and eq: "le_word bs = le_word bs'"
  shows "bs = bs'"
proof (rule nth_equalityI)
  show "length bs = length bs'" by fact
  fix i assume i: "i < length bs"
  show "bs ! i = bs' ! i"
  proof (rule bit_word_eqI)
    fix n assume n: "n < LENGTH(8)"
    show "bit (bs ! i) n = bit (bs' ! i) n"
      using bit_le_word [of bs "8 * i + n"] bit_le_word [of bs' "8 * i + n"] assms i n by simp
  qed
qed

locale reflected_crc =
  fixes poly :: u32
    and bit_step :: "u32 \<Rightarrow> u32"
  assumes bit_step: "bit_step r = drop_bit 1 r XOR (if bit r 0 then poly else 0)"
    and poly_top: "bit poly 31"
begin

definition byte_step :: "u32 \<Rightarrow> u8 \<Rightarrow> u32" where
  "byte_step s b = (bit_step ^^ 8) (s XOR ucast b)"

lemma bit_step_xor: "bit_step (x XOR y) = bit_step x XOR bit_step y"
  by (rule bit_word_eqI) (auto simp: bit_step bit_simps)

lemma bit_step_zero: "bit_step x = 0 \<Longrightarrow> x = 0"
proof (rule bit_word_eqI)
  fix n assume zero: "bit_step x = 0" and n: "n < LENGTH(32)"
  have "\<not> bit (bit_step x) 31" by (simp add: zero)
  then have odd: "\<not> bit x 0"
    using poly_top by (auto simp: bit_step bit_simps dest: bit_imp_le_length)
  have "\<not> bit (bit_step x) (n - 1)" by (simp add: zero)
  with odd show "bit x n = bit (0 :: u32) n"
    by (cases n) (auto simp: bit_step bit_simps)
qed

lemma steps_xor: "(bit_step ^^ k) (x XOR y) = (bit_step ^^ k) x XOR (bit_step ^^ k) y"
  by (induction k) (simp_all add: bit_step_xor)

lemma steps_zero: "(bit_step ^^ k) x = 0 \<Longrightarrow> x = 0"
  by (induction k) (auto dest: bit_step_zero)

lemma steps_inject: "(bit_step ^^ k) x = (bit_step ^^ k) y \<longleftrightarrow> x = y"
proof
  assume "(bit_step ^^ k) x = (bit_step ^^ k) y"
  then have "(bit_step ^^ k) (x XOR y) = 0" by (simp add: steps_xor)
  then have "x XOR y = 0" by (rule steps_zero)
  then show "x = y" by simp
qed simp

lemma steps_push:
  "(\<And>n. bit y n \<Longrightarrow> n + k < 32) \<Longrightarrow> (bit_step ^^ k) (push_bit k y) = y"
proof (induction k)
  case 0
  then show ?case by simp
next
  case (Suc k)
  have fits: "\<And>n. bit y n \<Longrightarrow> n + Suc k < 32" by (rule Suc.prems)
  have "bit_step (push_bit (Suc k) y) = push_bit k y"
  proof (rule bit_word_eqI)
    fix n
    show "bit (bit_step (push_bit (Suc k) y)) n = bit (push_bit k y) n"
      using fits [of "n - k"] by (auto simp: bit_step bit_simps simp del: push_bit_Suc)
  qed
  moreover have "(bit_step ^^ k) (push_bit k y) = y"
    using Suc.IH fits by fastforce
  ultimately show ?case by (simp add: funpow_Suc_right del: funpow.simps(2) push_bit_Suc)
qed

lemma run_inject_state: "foldl byte_step s bs = foldl byte_step s' bs \<longleftrightarrow> s = s'"
proof (induction bs arbitrary: s s')
  case Nil
  then show ?case by simp
next
  case (Cons b bs)
  then show ?case by (simp add: byte_step_def steps_inject)
qed

text \<open>Up to four bytes enter the register as one word.\<close>

lemma run_as_word:
  "length bs \<le> 4 \<Longrightarrow> foldl byte_step s bs = (bit_step ^^ (8 * length bs)) (s XOR le_word bs)"
proof (induction bs arbitrary: s)
  case Nil
  then show ?case by simp
next
  case (Cons b bs)
  have "\<And>n. bit (le_word bs) n \<Longrightarrow> n + 8 < 32"
    using Cons.prems by (auto simp: bit_le_word less_mult_imp_div_less)
  then have word: "(bit_step ^^ 8) (push_bit 8 (le_word bs)) = le_word bs" by (rule steps_push)
  have "foldl byte_step s (b # bs) = (bit_step ^^ (8 * length bs)) (byte_step s b XOR le_word bs)"
    using Cons by simp
  also have "byte_step s b XOR le_word bs = (bit_step ^^ 8) (s XOR le_word (b # bs))"
    using word by (simp only: byte_step_def le_word.simps steps_xor xor.assoc)
  finally have "foldl byte_step s (b # bs) =
      (bit_step ^^ (8 * length bs)) ((bit_step ^^ 8) (s XOR le_word (b # bs)))" .
  moreover have "8 * length (b # bs) = 8 * length bs + 8" by simp
  ultimately show ?case by (simp only: funpow_add comp_apply)
qed

text \<open>One byte at a time: the low byte through a table, the rest shifted down.\<close>

lemma byte_split: "(bit_step ^^ 8) x = drop_bit 8 x XOR (bit_step ^^ 8) (x AND 0xFF)"
proof -
  have "x = push_bit 8 (drop_bit 8 x) XOR (x AND 0xFF)"
    by (rule bit_word_eqI) (auto simp: and_255_take_bit bit_simps)
  then have "(bit_step ^^ 8) x = (bit_step ^^ 8) (push_bit 8 (drop_bit 8 x)) XOR (bit_step ^^ 8) (x AND 0xFF)"
    by (metis steps_xor)
  moreover have "(bit_step ^^ 8) (push_bit 8 (drop_bit 8 x)) = drop_bit 8 x"
    by (rule steps_push) (auto simp: bit_simps dest: bit_imp_le_length)
  ultimately show ?thesis by simp
qed

lemma burst_detected:
  assumes "length bs = length bs'" and "length bs \<le> 4"
  shows "foldl byte_step s (pre @ bs @ post) = foldl byte_step s (pre @ bs' @ post) \<longleftrightarrow> bs = bs'"
  using le_word_inject [of bs bs'] assms by (auto simp: run_inject_state run_as_word steps_inject)

end

lemma and_1_iff_bit: "(r :: u32) AND 1 \<noteq> 0 \<longleftrightarrow> bit r 0"
  by (simp add: and_one_eq bit_0 odd_iff_mod_2_eq_one even_iff_mod_2_eq_zero)

interpretation zlib: reflected_crc crc32_polynomial crc32_remainder_bit
proof
  show "crc32_remainder_bit r = drop_bit 1 r XOR (if bit r 0 then crc32_polynomial else 0)" for r
    by (simp add: crc32_remainder_bit_def and_1_iff_bit)
  show "bit crc32_polynomial 31" by (simp add: crc32_polynomial_def)
qed

interpretation crc_feed: incremental crc32_update_byte crc32_update
  by unfold_locales simp_all

section \<open>Correctness\<close>

lemma crc32_table_nth:
  "n < 256 \<Longrightarrow> make_crc32_table ! n = (crc32_remainder_bit ^^ 8) (of_nat n)"
  by (simp add: make_crc32_table_def crc32_bits_per_byte_def crc32_table_size_def)

lemma crc32_update_byte_step:
  "crc_state (crc32_update_byte c b) = zlib.byte_step (crc_state c) b"
proof -
  define x where "x = crc_state c XOR ucast b"
  have index: "unat (x AND 0xFF) < 256" by (rule unat_and_255)
  have "drop_bit 8 (ucast b :: u32) = 0"
    by (rule bit_word_eqI) (auto simp: bit_simps dest: bit_imp_le_length)
  then have "drop_bit 8 x = drop_bit 8 (crc_state c)"
    by (simp add: x_def drop_bit_xor)
  moreover have "zlib.byte_step (crc_state c) b =
      drop_bit 8 x XOR (crc32_remainder_bit ^^ 8) (x AND 0xFF)"
    unfolding zlib.byte_step_def x_def by (rule zlib.byte_split)
  ultimately show ?thesis using index
    by (simp add: crc32_update_byte_def x_def [symmetric] crc32_table_nth
        crc32_bits_per_byte_def crc32_byte_mask_def)
qed

lemma crc32_update_state: "crc_state (crc32_update c bs) = foldl zlib.byte_step (crc_state c) bs"
  by (induction bs arbitrary: c) (simp_all add: crc32_update_byte_step)

lemma crc32_foldl:
  "crc32 bs = foldl zlib.byte_step crc32_initial bs XOR crc32_final_xor"
  by (simp add: crc32_def crc32_value_def crc32_update_state crc32_fresh_def)

text \<open>
  C26. Fed in any split, the table-driven object yields the CRC of the whole input as the
  bitwise shift register computes it: eight remainder steps per byte, from the initial
  value, with the final inversion.
\<close>

theorem crc32_any_split_bitwise:
  "crc32_value (foldl crc32_update crc32_fresh chunks) =
     foldl (\<lambda>r byte. (crc32_remainder_bit ^^ 8) (r XOR ucast byte)) crc32_initial (concat chunks)
       XOR crc32_final_xor"
proof -
  have "zlib.byte_step = (\<lambda>r byte. (crc32_remainder_bit ^^ 8) (r XOR ucast byte))"
    by (intro ext) (rule zlib.byte_step_def)
  then show ?thesis
    by (simp add: crc_feed.run_concat [symmetric] crc32_value_def crc32_update_state crc32_fresh_def)
qed

text \<open>
  A change confined to four consecutive bytes of a message always changes its CRC-32,
  wherever the four bytes lie.
\<close>

theorem crc32_detects_burst:
  assumes "length bs = length bs'" and "length bs \<le> 4" and "bs \<noteq> bs'"
  shows "crc32 (pre @ bs @ post) \<noteq> crc32 (pre @ bs' @ post)"
  using assms zlib.burst_detected [of bs bs'] by (simp add: crc32_foldl)

theorem crc32_detects_burst_witness:
  "crc32 ([0x52] @ [0x49, 0x46] @ [0x46]) \<noteq> crc32 ([0x52] @ [0x49, 0x47] @ [0x46])"
  by (rule crc32_detects_burst) simp_all

end
