(* ===== verification/Decimal.thy ===== *)
theory Decimal
  imports Prelude
begin

text \<open>
  \<^verbatim>\<open>common/uint64_text.hpp\<close>, the bounded decimal and hexadecimal text of the status
  replies, and what the decimal parsers of the program share: the value of a digit string
  and its canonical spelling (no sign, no leading zero).
\<close>

section \<open>Digit strings\<close>

definition is_digit :: "char \<Rightarrow> bool" where
  "is_digit c \<longleftrightarrow> char_code CHR ''0'' \<le> char_code c \<and> char_code c \<le> char_code CHR ''9''"

definition digit_number :: "char \<Rightarrow> nat" where
  "digit_number c = char_code c - char_code CHR ''0''"

definition digits_value :: "string \<Rightarrow> nat" where
  "digits_value text = foldl (\<lambda>v c. v * 10 + digit_number c) 0 text"

definition canonical_decimal :: "string \<Rightarrow> bool" where
  "canonical_decimal text \<longleftrightarrow>
     text \<noteq> [] \<and> list_all is_digit text \<and> (length text > 1 \<longrightarrow> hd text \<noteq> CHR ''0'')"

definition digit_char :: "nat \<Rightarrow> char" where
  "digit_char d = char_of (48 + d)"

lemma digit_number_less: "is_digit c \<Longrightarrow> digit_number c < 10"
  by (auto simp: is_digit_def digit_number_def)

lemma digit_number_inject: "is_digit c \<Longrightarrow> is_digit d \<Longrightarrow> digit_number c = digit_number d \<longleftrightarrow> c = d"
  unfolding is_digit_def digit_number_def by (metis eq_diff_iff of_char_eq_iff)

lemma digit_number_0: "is_digit c \<Longrightarrow> digit_number c = 0 \<longleftrightarrow> c = CHR ''0''"
  using digit_number_inject [of c "CHR ''0''"] by (simp add: is_digit_def digit_number_def)

lemma digit_char [simp]: "d < 10 \<Longrightarrow> is_digit (digit_char d)" "d < 10 \<Longrightarrow> digit_number (digit_char d) = d"
  by (simp_all add: is_digit_def digit_number_def digit_char_def of_char_of)

lemma digits_value_snoc: "digits_value (ds @ [c]) = digits_value ds * 10 + digit_number c"
  by (simp add: digits_value_def)

lemma digits_value_Nil [simp]: "digits_value [] = 0"
  by (simp add: digits_value_def)

lemma digits_value_append:
  "digits_value (xs @ ys) = digits_value xs * 10 ^ length ys + digits_value ys"
proof (induction ys rule: rev_induct)
  case Nil
  then show ?case by simp
next
  case (snoc y ys)
  then show ?case
    by (simp add: digits_value_snoc algebra_simps flip: append_assoc)
qed

lemma digits_value_single [simp]: "digits_value [c] = digit_number c"
  by (simp add: digits_value_def)

lemma digits_value_Cons: "digits_value (c # cs) = digit_number c * 10 ^ length cs + digits_value cs"
  using digits_value_append [of "[c]" cs] by simp

lemma digit_char_number: "is_digit c \<Longrightarrow> digit_char (digit_number c) = c"
  using digit_number_inject [of "digit_char (digit_number c)" c] digit_number_less [of c] by simp

text \<open>The position of a digit in the table of digits is its number.\<close>

lemma find_digit:
  "find_char c ''0123456789'' = (if is_digit c then Some (digit_number c) else None)"
proof (cases "is_digit c")
  case True
  then obtain d where d: "c = digit_char d" "d < 10"
    using digit_char_number [of c] digit_number_less [of c] by metis
  then have "d \<in> {0, 1, 2, 3, 4, 5, 6, 7, 8, 9}" by auto
  moreover have "find_char (digit_char k) ''0123456789'' = Some k \<longleftrightarrow>
      find_char (char_of (48 + k)) ''0123456789'' = Some k" for k
    by (simp only: digit_char_def)
  ultimately have "find_char (digit_char d) ''0123456789'' = Some d"
    by (elim insertE emptyE; hypsubst; code_simp)
  then show ?thesis using d by simp
next
  case False
  then have "c \<notin> set ''0123456789''" by (auto simp: is_digit_def)
  then show ?thesis using False by auto
qed

lemma digits_value_less: "list_all is_digit ds \<Longrightarrow> digits_value ds < 10 ^ length ds"
proof (induction ds rule: rev_induct)
  case Nil
  then show ?case by simp
next
  case (snoc d ds)
  then show ?case using digit_number_less [of d] by (simp add: digits_value_snoc)
qed

lemma digits_value_lower:
  assumes "canonical_decimal ds" and "length ds > 1"
  shows "10 ^ (length ds - 1) \<le> digits_value ds"
proof -
  obtain c cs where ds: "ds = c # cs" using assms by (cases ds) auto
  have c: "is_digit c" "c \<noteq> CHR ''0''" using assms ds by (auto simp: canonical_decimal_def)
  then have "1 \<le> digit_number c" using digit_number_0 [of c] by simp
  then have "10 ^ length cs \<le> digit_number c * 10 ^ length cs" by simp
  also have "\<dots> \<le> digits_value (c # cs)" using digits_value_append [of "[c]" cs] by simp
  finally show ?thesis by (simp add: ds)
qed

lemma digits_value_inject:
  "\<lbrakk>list_all is_digit xs; list_all is_digit ys; length xs = length ys;
    digits_value xs = digits_value ys\<rbrakk> \<Longrightarrow> xs = ys"
proof (induction xs arbitrary: ys rule: rev_induct)
  case Nil
  then show ?case by simp
next
  case (snoc x xs)
  then obtain y ys' where ys: "ys = ys' @ [y]" by (metis append_butlast_last_id length_0_conv snoc_eq_iff_butlast)
  have d: "is_digit x" "is_digit y" using snoc.prems ys by auto
  have eq: "digits_value xs * 10 + digit_number x = digits_value ys' * 10 + digit_number y"
    using snoc.prems ys by (simp add: digits_value_snoc)
  have "digit_number x = digit_number y"
    using arg_cong [OF eq, of "\<lambda>n. n mod 10"] d by (simp add: digit_number_less)
  moreover from this have "digits_value xs = digits_value ys'" using eq by simp
  ultimately show ?case using snoc d ys by (simp add: digit_number_inject)
qed

text \<open>A number has one canonical spelling.\<close>

lemma canonical_decimal_inject:
  assumes "canonical_decimal xs" and "canonical_decimal ys" and eq: "digits_value xs = digits_value ys"
  shows "xs = ys"
proof -
  have less: False if "canonical_decimal as" "canonical_decimal bs" "digits_value as = digits_value bs"
      "length as < length bs" for as bs
  proof -
    have "as \<noteq> []" using that by (simp add: canonical_decimal_def)
    then have long: "length bs > 1" using that by (cases as) auto
    have "digits_value as < 10 ^ length as"
      using that(1) by (simp add: canonical_decimal_def digits_value_less)
    also have "\<dots> \<le> 10 ^ (length bs - 1)" using that by (intro power_increasing) auto
    also have "\<dots> \<le> digits_value bs" using that long by (intro digits_value_lower)
    finally show False using that by simp
  qed
  have "length xs = length ys" using less [of xs ys] less [of ys xs] assms by force
  then show ?thesis using assms by (auto simp: canonical_decimal_def intro: digits_value_inject)
qed

section \<open>The text of an integer\<close>

datatype radix = Decimal_radix | Hexadecimal_radix

primrec radix_base :: "radix \<Rightarrow> u64" where
  "radix_base Decimal_radix = 10"
| "radix_base Hexadecimal_radix = 16"

primrec radix_max_digits :: "radix \<Rightarrow> nat" where
  "radix_max_digits Decimal_radix = 20"
| "radix_max_digits Hexadecimal_radix = 16"

lemma radix_base_nat: "unat (radix_base r) \<in> {10, 16}"
  by (cases r) simp_all

text \<open>
  The do-while loop: the digits emitted from the least significant one on, \<open>count\<close> of
  them so far.
\<close>

function uint64_digits :: "radix \<Rightarrow> nat \<Rightarrow> nat \<Rightarrow> u64 \<Rightarrow> string" where
  "uint64_digits r minimum count value =
     (let digit = ''0123456789abcdef'' ! unat (value mod radix_base r);
          rest = value div radix_base r
      in digit # (if rest \<noteq> 0 \<or> Suc count < minimum
                  then uint64_digits r minimum (Suc count) rest else []))"
  by pat_completeness auto
termination
proof (relation "measure (\<lambda>(r, minimum, count, v). unat v + (minimum - count))", goal_cases)
  case 1
  show ?case by simp
next
  case (2 r minimum count v d v')
  have "unat v' = unat v div unat (radix_base r)" using 2 by (simp add: unat_div_distrib)
  moreover from this have "unat v \<noteq> 0 \<Longrightarrow> unat v' < unat v"
    using radix_base_nat [of r] by auto
  moreover have "unat v' = 0 \<longleftrightarrow> v' = 0" by (simp add: unat_eq_0)
  ultimately show ?case using 2 by (cases "unat v = 0") auto
qed

declare uint64_digits.simps [simp del]

definition uint64_text :: "radix \<Rightarrow> nat \<Rightarrow> u64 \<Rightarrow> string" where
  "uint64_text r minimum value = rev (uint64_digits r minimum 0 value)"

section \<open>Correctness of the text\<close>

lemma nth_digit_char: "n < 10 \<Longrightarrow> ''0123456789abcdef'' ! n = digit_char n"
proof -
  assume "n < 10"
  then have "n \<in> {0, 1, 2, 3, 4, 5, 6, 7, 8, 9}" by auto
  then have "digit_char n = ''0123456789abcdef'' ! n" by (auto simp: digit_char_def char_of_eq_iff)
  then show ?thesis by simp
qed

lemma digit_char_0: "n < 10 \<Longrightarrow> digit_char n = CHR ''0'' \<longleftrightarrow> n = 0"
  using digit_number_0 [of "digit_char n"] by simp

lemma uint64_digits_decimal:
  "list_all is_digit (uint64_digits Decimal_radix minimum count v) \<and>
   digits_value (rev (uint64_digits Decimal_radix minimum count v)) = unat v \<and>
   uint64_digits Decimal_radix minimum count v \<noteq> []"
proof (induction "Decimal_radix" minimum count v rule: uint64_digits.induct)
  case (1 minimum count v)
  have m: "unat (v mod 10) = unat v mod 10" "unat (v div 10) = unat v div 10"
    by (simp_all add: unat_mod_distrib unat_div_distrib)
  have z: "v div 10 = 0 \<longleftrightarrow> unat v div 10 = 0" using m(2) by (metis unat_eq_0)
  show ?case
  proof (cases "v div 10 \<noteq> 0 \<or> Suc count < minimum")
    case True
    then show ?thesis using 1 m
      by (subst (1 2 3) uint64_digits.simps) (simp add: Let_def nth_digit_char digits_value_snoc)
  next
    case False
    then have "unat v < 10" using z by auto
    then show ?thesis using m False
      by (subst (1 2 3) uint64_digits.simps) (simp add: Let_def nth_digit_char digits_value_snoc)
  qed
qed

lemma unat_10_64 [simp]: "unat (10 :: u64) = 10"
  by simp

lemma uint64_digits_last:
  "v \<noteq> 0 \<Longrightarrow> last (uint64_digits Decimal_radix (Suc 0) count v) \<noteq> CHR ''0''"
proof (induction "Decimal_radix" "Suc 0" count v rule: uint64_digits.induct)
  case (1 count v)
  have z: "v div 10 = 0 \<longleftrightarrow> unat v div 10 = 0"
    using unat_div_distrib [of v 10] by (metis unat_eq_0 unat_10_64)
  show ?case
  proof (cases "v div 10 = 0")
    case False
    then show ?thesis using 1 uint64_digits_decimal [of "Suc 0" "Suc count" "v div 10"]
      by (subst uint64_digits.simps) (simp add: Let_def)
  next
    case True
    then have "unat v < 10" "unat v \<noteq> 0" using z 1 by (auto simp: unat_eq_0)
    then show ?thesis using True nth_digit_char [of "unat v"] digit_char_0 [of "unat v"]
      by (subst uint64_digits.simps) (simp add: Let_def unat_mod_distrib)
  qed
qed

lemma uint64_text_value: "digits_value (uint64_text Decimal_radix minimum v) = unat v"
  by (simp add: uint64_text_def uint64_digits_decimal)

lemma uint64_text_canonical: "canonical_decimal (uint64_text Decimal_radix (Suc 0) v)"
proof -
  let ?ds = "uint64_digits Decimal_radix (Suc 0) 0 v"
  have "hd (rev ?ds) \<noteq> CHR ''0''" if "length ?ds > 1"
  proof -
    have "v \<noteq> 0"
    proof
      assume "v = 0"
      then have "length ?ds = 1" by (subst uint64_digits.simps) (simp add: Let_def)
      with that show False by simp
    qed
    then show ?thesis using uint64_digits_decimal [of "Suc 0" 0 v]
      by (simp add: hd_rev uint64_digits_last)
  qed
  then show ?thesis using uint64_digits_decimal [of "Suc 0" 0 v]
    by (auto simp: canonical_decimal_def uint64_text_def list_all_iff)
qed

text \<open>The text fits its storage: 20 decimal digits before the terminator.\<close>

lemma uint64_text_length: "length (uint64_text Decimal_radix (Suc 0) v) \<le> 20"
proof (rule ccontr)
  let ?t = "uint64_text Decimal_radix (Suc 0) v"
  assume long: "\<not> length ?t \<le> 20"
  have "(10 :: nat) ^ 20 \<le> 10 ^ (length ?t - 1)" using long by (intro power_increasing) auto
  also have "\<dots> \<le> digits_value ?t"
    using long uint64_text_canonical by (intro digits_value_lower) auto
  also have "\<dots> < 18446744073709551616" by (simp only: uint64_text_value unat_lt_u64)
  finally show False by simp
qed

end
