(* ===== verification/Pcm24.thy ===== *)
theory Pcm24
  imports Prelude
begin

text \<open>
  \<^verbatim>\<open>common/pcm24.hpp\<close>: a 24-bit sample in a 32-bit integer and its three little-endian
  bytes in a file. A \<^verbatim>\<open>Pcm24Sample\<close> is its signed value, an \<open>int\<close>.
\<close>

type_synonym pcm24_sample = int

definition pcm24_min :: pcm24_sample where "pcm24_min = -8388608"
definition pcm24_max :: pcm24_sample where "pcm24_max = 8388607"
definition pcm24_bytes_per_sample :: nat where "pcm24_bytes_per_sample = 3"

definition is_pcm24 :: "pcm24_sample \<Rightarrow> bool" where
  "is_pcm24 s \<longleftrightarrow> pcm24_min \<le> s \<and> s \<le> pcm24_max"

text \<open>The three bytes as the code reads and writes them through its byte pointer.\<close>

definition read_pcm24_le :: "u8 \<times> u8 \<times> u8 \<Rightarrow> pcm24_sample" where
  "read_pcm24_le = (\<lambda>(b0, b1, b2).
     let v = (ucast b0 OR push_bit 8 (ucast b1) OR push_bit 16 (ucast b2) :: u32)
     in if v \<ge> 0x00800000 then sint v - 0x01000000 else sint v)"

definition write_pcm24_le :: "pcm24_sample \<Rightarrow> u8 \<times> u8 \<times> u8" where
  "write_pcm24_le sample =
     (let v = (word_of_int sample :: u32) AND 0x00FFFFFF
      in (ucast v, ucast (drop_bit 8 v), ucast (drop_bit 16 v)))"

section \<open>Round trips\<close>

abbreviation le24 :: "u8 \<Rightarrow> u8 \<Rightarrow> u8 \<Rightarrow> u32" where
  "le24 b0 b1 b2 \<equiv> ucast b0 OR push_bit 8 (ucast b1) OR push_bit 16 (ucast b2)"

lemma le24_bytes:
  "le24 (ucast (take_bit 24 v)) (ucast (drop_bit 8 (take_bit 24 v))) (ucast (drop_bit 16 (take_bit 24 v)))
     = take_bit 24 v"
proof (rule bit_word_eqI)
  fix n assume "n < LENGTH(32)"
  then have "n < 8 \<or> (8 \<le> n \<and> n < 16) \<or> (16 \<le> n \<and> n < 24) \<or> 24 \<le> n" by auto
  then show "bit (le24 (ucast (take_bit 24 v)) (ucast (drop_bit 8 (take_bit 24 v)))
      (ucast (drop_bit 16 (take_bit 24 v)))) n = bit (take_bit 24 v) n"
    by (elim disjE) (auto simp: bit_simps dest: bit_imp_le_length)
qed

lemma le24_small: "take_bit 24 (le24 b0 b1 b2) = le24 b0 b1 b2"
  by (rule bit_word_eqI) (auto simp: bit_simps dest: bit_imp_le_length)

lemma le24_less: "uint (le24 b0 b1 b2) < 2 ^ 24"
  by (subst le24_small [symmetric]) (simp only: unsigned_take_bit_eq take_bit_int_less_exp)

lemma sint_small: "uint (v :: u32) < 2 ^ 31 \<Longrightarrow> sint v = uint v"
  by (simp add: sint_uint signed_take_bit_int_eq_self_iff order_trans [OF _ uint_ge_0])

lemma read_pcm24_value:
  "read_pcm24_le (b0, b1, b2) =
     (if uint (le24 b0 b1 b2) \<ge> 2 ^ 23 then uint (le24 b0 b1 b2) - 2 ^ 24 else uint (le24 b0 b1 b2))"
  using le24_less [of b0 b1 b2] sint_small [of "le24 b0 b1 b2"]
  by (simp add: read_pcm24_le_def Let_def word_le_def)

lemma uint_low_24: "uint (take_bit 24 (word_of_int s :: u32)) = s mod 2 ^ 24"
proof -
  have "uint (take_bit 24 (word_of_int s :: u32)) = take_bit 24 s"
    by (simp only: unsigned_take_bit_eq unsigned_of_int take_bit_take_bit) simp
  then show ?thesis by (simp only: take_bit_eq_mod)
qed

lemma read_is_pcm24: "is_pcm24 (read_pcm24_le (b0, b1, b2))"
  using le24_less [of b0 b1 b2] order_trans [OF _ uint_ge_0 [of "le24 b0 b1 b2"], of "- 8388608"]
  by (simp add: read_pcm24_value is_pcm24_def pcm24_min_def pcm24_max_def)

lemma read_write_pcm24:
  assumes "is_pcm24 s"
  shows "read_pcm24_le (write_pcm24_le s) = s"
proof -
  have range: "- (2 ^ 23) \<le> s" "s < 2 ^ 23"
    using assms by (simp_all add: is_pcm24_def pcm24_min_def pcm24_max_def)
  have "s mod 2 ^ 24 = (if 0 \<le> s then s else s + 2 ^ 24)"
    using range mod_pos_pos_trivial [of "s + 2 ^ 24" "2 ^ 24"] by simp
  then show ?thesis
    using range by (auto simp: write_pcm24_le_def Let_def and_24_bits read_pcm24_value le24_bytes uint_low_24)
qed

lemma write_read_pcm24: "write_pcm24_le (read_pcm24_le (b0, b1, b2)) = (b0, b1, b2)"
proof -
  have "read_pcm24_le (b0, b1, b2) mod 2 ^ 24 = uint (le24 b0 b1 b2)"
    using le24_less [of b0 b1 b2] uint_ge_0 [of "le24 b0 b1 b2"]
    by (auto simp: read_pcm24_value minus_mod_self2)
  then have "take_bit 24 (word_of_int (read_pcm24_le (b0, b1, b2)) :: u32) = le24 b0 b1 b2"
    by (metis uint_low_24 word_uint_eq_iff)
  moreover have "ucast (le24 b0 b1 b2) = b0"
    by (rule bit_word_eqI) (auto simp: bit_simps)
  moreover have "ucast (drop_bit 8 (le24 b0 b1 b2)) = b1"
    by (rule bit_word_eqI) (auto simp: bit_simps dest: bit_imp_le_length)
  moreover have "ucast (drop_bit 16 (le24 b0 b1 b2)) = b2"
    by (rule bit_word_eqI) (auto simp: bit_simps dest: bit_imp_le_length)
  ultimately show ?thesis by (simp add: write_pcm24_le_def Let_def and_24_bits)
qed

text \<open>
  The bytes of a file and the samples of the program are in bijection: any three bytes
  read as a 24-bit sample and are written back unchanged, and any 24-bit sample is read
  back from the bytes it is written as.
\<close>

theorem pcm24_roundtrip:
  "is_pcm24 (read_pcm24_le bytes) \<and> write_pcm24_le (read_pcm24_le bytes) = bytes \<and>
   (\<forall>s. is_pcm24 s \<longrightarrow> read_pcm24_le (write_pcm24_le s) = s)"
  by (cases bytes) (simp add: read_is_pcm24 write_read_pcm24 read_write_pcm24)

theorem pcm24_roundtrip_witness:
  "read_pcm24_le (write_pcm24_le (-8388608)) = -8388608 \<and> write_pcm24_le (read_pcm24_le (0, 0, 0x80)) = (0, 0, 0x80)"
  using pcm24_roundtrip [of "(0, 0, 0x80)"] by (simp add: is_pcm24_def pcm24_min_def pcm24_max_def)

end
