(* ===== verification/Attenuation.thy ===== *)
theory Attenuation
  imports Status Decimal Pcm24
begin

text \<open>
  \<^verbatim>\<open>common/attenuation.hpp\<close> and its table \<^verbatim>\<open>common/attenuation_gains.hpp\<close>: a level below
  full scale in tenths of a decibel, its Q1.31 gain, the rounding of a sample times the
  gain, and the spelling of a level in a playlist.
\<close>

section \<open>Attenuations and gains\<close>

definition max_tenths :: u32 where "max_tenths = 400"

definition bad_attenuation :: status where
  [status_defs]: "bad_attenuation = \<lparr>code = Invalid_argument, message = ''PLAYLIST_ATT''\<rparr>"

text \<open>
  The class \<^verbatim>\<open>Tenths\<close>: \<open>tenths_of\<close> alone makes one from a number, so its value is at
  most \<open>max_tenths\<close> (\<open>tenths_ok\<close>); the default is 0 dB. Ordered by its value.
\<close>

datatype tenths = Tenths (tenths_value: u32)

definition tenths_ok :: "tenths \<Rightarrow> bool" where
  "tenths_ok t \<longleftrightarrow> tenths_value t \<le> max_tenths"

definition tenths_of :: "u32 \<Rightarrow> tenths result" where
  "tenths_of n = (if n > max_tenths then Inl bad_attenuation else Inr (Tenths n))"

definition no_attenuation :: tenths where
  "no_attenuation = Tenths 0"

text \<open>The defaulted \<^verbatim>\<open>operator<=>\<close>.\<close>

definition tenths_at_most :: "tenths \<Rightarrow> tenths \<Rightarrow> bool" where
  "tenths_at_most a b \<longleftrightarrow> tenths_value a \<le> tenths_value b"

instantiation tenths :: linorder
begin

definition less_eq_tenths :: "tenths \<Rightarrow> tenths \<Rightarrow> bool" where
  "less_eq_tenths a b \<longleftrightarrow> tenths_at_most a b"

definition less_tenths :: "tenths \<Rightarrow> tenths \<Rightarrow> bool" where
  "less_tenths a b \<longleftrightarrow> \<not> tenths_at_most b a"

instance
  by standard (auto simp: less_eq_tenths_def less_tenths_def tenths_at_most_def intro: tenths.expand)

end

definition gains_q31 :: "u32 list" where
  "gains_q31 =
    [
     2147483648, 2122901606, 2098600952, 2074578466, 2050830962, 2027355295, 2004148350, 1981207054,
     1958528364, 1936109276, 1913946816, 1892038048, 1870380067, 1848970004, 1827805019, 1806882308,
     1786199097, 1765752645, 1745540242, 1725559208, 1705806895, 1686280685, 1666977990, 1647896251,
     1629032938, 1610385552, 1591951621, 1573728702, 1555714378, 1537906263, 1520301996, 1502899243,
     1485695697, 1468689079, 1451877134, 1435257634, 1418828376, 1402587182, 1386531899, 1370660400,
     1354970580, 1339460360, 1324127684, 1308970520, 1293986858, 1279174713, 1264532121, 1250057142,
     1235747856, 1221602367, 1207618800, 1193795302, 1180130041, 1166621204, 1153267001, 1140065663,
     1127015439, 1114114600, 1101361436, 1088754256, 1076291389, 1063971183, 1051792006, 1039752242,
     1027850297, 1016084592, 1004453568, 992955683, 981589413, 970353252, 959245710, 948265315,
     937410612, 926680161, 916072541, 905586346, 895220184, 884972684, 874842485, 864828246,
     854928639, 845142352, 835468087, 825904563, 816450512, 807104680, 797865829, 788732735,
     779704186, 770778986, 761955951, 753233914, 744611717, 736088217, 727662285, 719332803,
     711098669, 702958790, 694912087, 686957494, 679093957, 671320432, 663635891, 656039314,
     648529694, 641106036, 633767356, 626512681, 619341049, 612251511, 605243126, 598314965,
     591466110, 584695654, 578002698, 571386356, 564845750, 558380014, 551988291, 545669734,
     539423504, 533248774, 527144726, 521110550, 515145447, 509248626, 503419305, 497656712,
     491960082, 486328662, 480761704, 475258470, 469818231, 464440266, 459123863, 453868315,
     448672928, 443537011, 438459885, 433440876, 428479319, 423574557, 418725939, 413932823,
     409194573, 404510562, 399880168, 395302777, 390777784, 386304588, 381882595, 377511222,
     373189886, 368918017, 364695047, 360520418, 356393575, 352313971, 348281066, 344294326,
     340353221, 336457230, 332605836, 328798529, 325034803, 321314161, 317636108, 314000157,
     310405827, 306852641, 303340128, 299867822, 296435264, 293041997, 289687573, 286371547,
     283093479, 279852935, 276649485, 273482704, 270352174, 267257478, 264198207, 261173955,
     258184321, 255228910, 252307329, 249419191, 246564113, 243741717, 240951628, 238193478,
     235466900, 232771532, 230107019, 227473005, 224869143, 222295088, 219750497, 217235034,
     214748365, 212290161, 209860095, 207457847, 205083096, 202735529, 200414835, 198120705,
     195852836, 193610928, 191394682, 189203805, 187038007, 184897000, 182780502, 180688231,
     178619910, 176575265, 174554024, 172555921, 170580690, 168628069, 166697799, 164789625,
     162903294, 161038555, 159195162, 157372870, 155571438, 153790626, 152030200, 150289924,
     148569570, 146868908, 145187713, 143525763, 141882838, 140258718, 138653190, 137066040,
     135497058, 133946036, 132412768, 130897052, 129398686, 127917471, 126453212, 125005714,
     123574786, 122160237, 120761880, 119379530, 118013004, 116662120, 115326700, 114006566,
     112701544, 111411460, 110136144, 108875426, 107629139, 106397118, 105179201, 103975224,
     102785030, 101608459, 100445357, 99295568, 98158941, 97035325, 95924571, 94826532,
     93741061, 92668016, 91607254, 90558635, 89522018, 88497268, 87484249, 86482825,
     85492864, 84514235, 83546809, 82590456, 81645051, 80710468, 79786583, 78873273,
     77970419, 77077899, 76195595, 75323391, 74461172, 73608822, 72766228, 71933280,
     71109867, 70295879, 69491209, 68695749, 67909396, 67132043, 66363589, 65603931,
     64852969, 64110604, 63376736, 62651268, 61934105, 61225151, 60524313, 59831497,
     59146611, 58469565, 57800270, 57138636, 56484575, 55838001, 55198829, 54566973,
     53942350, 53324877, 52714473, 52111055, 51514545, 50924863, 50341930, 49765671,
     49196008, 48632866, 48076170, 47525847, 46981823, 46444027, 45912386, 45386832,
     44867293, 44353701, 43845988, 43344088, 42847932, 42357456, 41872594, 41393282,
     40919457, 40451056, 39988017, 39530278, 39077778, 38630459, 38188260, 37751122,
     37318989, 36891802, 36469505, 36052042, 35639357, 35231397, 34828107, 34429433,
     34035322, 33645723, 33260584, 32879853, 32503480, 32131416, 31763611, 31400016,
     31040583, 30685264, 30334013, 29986782, 29643526, 29304200, 28968757, 28637155,
     28309348, 27985293, 27664948, 27348270, 27035217, 26725748, 26419821, 26117395,
     25818432, 25522891, 25230733, 24941919, 24656411, 24374172, 24095163, 23819348,
     23546690, 23277153, 23010702, 22747301, 22486914, 22229509, 21975050, 21723503,
     21474836]"

text \<open>The class \<^verbatim>\<open>Gain\<close>: the table's entry for an attenuation.\<close>

definition gain_of :: "tenths \<Rightarrow> u32" where
  "gain_of t = gains_q31 ! unat (tenths_value t)"

definition q_bits :: nat where "q_bits = 31"
definition unity_q31 :: u32 where "unity_q31 = 2147483648"
definition tenths_per_db :: u32 where "tenths_per_db = 10"

text \<open>
  The 64-bit product as an \<open>int\<close>: every product that reaches it fits (\<open>product_fits\<close>
  below), and the arithmetic shift is floor division.
\<close>

definition round_q31 :: "int \<Rightarrow> int" where
  "round_q31 product =
     (let unity = 2147483648;
          half = unity div 2;
          quotient = product div 2 ^ q_bits;
          remainder = product - quotient * unity;
          odd_quotient = (quotient mod 2 \<noteq> 0)
      in quotient + (if remainder > half \<or> (remainder = half \<and> odd_quotient) then 1 else 0))"

definition attenuation_apply :: "u32 \<Rightarrow> pcm24_sample \<Rightarrow> pcm24_sample" where
  "attenuation_apply gain sample =
     sint (word_of_int (round_q31 (sample * uint gain)) :: 32 word)"

section \<open>The spelling of a level\<close>

text \<open>The loop over the ten digits, counting up to the one that matches.\<close>

primrec digit_from :: "string \<Rightarrow> u32 \<Rightarrow> char \<Rightarrow> u32 option" where
  "digit_from [] v character = None"
| "digit_from (candidate # candidates) v character =
     (if candidate = character then Some v else digit_from candidates (v + 1) character)"

definition digit :: "char \<Rightarrow> u32 option" where
  "digit character = digit_from ''0123456789'' 0 character"

primrec whole_decibels_from :: "u32 \<Rightarrow> string \<Rightarrow> u32 option" where
  "whole_decibels_from v [] = Some v"
| "whole_decibels_from v (character # characters) =
     (case digit character of
        None \<Rightarrow> None
      | Some place \<Rightarrow> whole_decibels_from (v * 10 + place) characters)"

definition whole_decibels :: "string \<Rightarrow> u32 option" where
  "whole_decibels text =
     (if text = [] \<or> length text > 2 \<or> (length text > 1 \<and> hd text = CHR ''0'') then None
      else whole_decibels_from 0 text)"

definition attenuation_parse :: "string \<Rightarrow> tenths result" where
  "attenuation_parse text =
     (let negative = starts_with text ''-'';
          magnitude = (if negative then drop 1 text else text);
          point = find_char CHR ''.'' magnitude;
          whole = whole_decibels (substr_to magnitude point);
          decimals = (case point of None \<Rightarrow> ''0'' | Some p \<Rightarrow> drop (p + 1) magnitude);
          tenth = (if length decimals = 1 then digit (hd decimals) else None)
      in case (whole, tenth) of
           (Some w, Some t) \<Rightarrow>
             (let tenths = w * tenths_per_db + t
              in if tenths \<noteq> 0 \<and> \<not> negative then Inl bad_attenuation else tenths_of tenths)
         | _ \<Rightarrow> Inl bad_attenuation)"

section \<open>The gain table and the rounding\<close>

lemma length_gains: "length gains_q31 = 401"
  by (simp add: gains_q31_def)

lemma gains_falling: "successively (>) gains_q31"
  by code_simp

lemma gains_q31_0: "gains_q31 ! 0 = unity_q31"
  by code_simp

lemma gains_sorted: "sorted_wrt (>) gains_q31"
  using gains_falling by (simp add: successively_iff_sorted_wrt_strong transp_on_def)

lemma gain_of_none [simp]: "gain_of no_attenuation = unity_q31"
  by (simp add: gain_of_def no_attenuation_def gains_q31_0)

lemma tenths_index: "tenths_ok t \<Longrightarrow> unat (tenths_value t) < length gains_q31"
  by (simp add: tenths_ok_def max_tenths_def length_gains word_le_nat_alt)

lemma gain_strict_antimono:
  "a < b \<Longrightarrow> tenths_ok b \<Longrightarrow> gain_of b < gain_of a"
  using tenths_index [of b] sorted_wrt_nth_less [OF gains_sorted]
  by (simp add: gain_of_def less_tenths_def tenths_at_most_def not_le word_less_nat_alt less_imp_le)

lemma gain_antimono: "a \<le> b \<Longrightarrow> tenths_ok b \<Longrightarrow> gain_of b \<le> gain_of a"
  using gain_strict_antimono [of a b] by (cases "a = b") (auto simp: order.order_iff_strict)

lemma gain_le_unity: "tenths_ok t \<Longrightarrow> uint (gain_of t) \<le> 2 ^ 31"
proof -
  assume ok: "tenths_ok t"
  have "no_attenuation \<le> t" by (simp add: less_eq_tenths_def tenths_at_most_def no_attenuation_def)
  then have "gain_of t \<le> unity_q31" using gain_antimono [of no_attenuation t] ok by simp
  then show ?thesis by (simp add: word_le_def unity_q31_def)
qed

lemma round_q31_alt:
  "round_q31 p = p div 2 ^ 31 +
     (if p mod 2 ^ 31 > 2 ^ 30 \<or> (p mod 2 ^ 31 = 2 ^ 30 \<and> odd (p div 2 ^ 31)) then 1 else 0)"
proof -
  have "p - p div 2 ^ 31 * 2147483648 = p mod 2 ^ 31"
    by (simp add: minus_div_mult_eq_mod)
  then show ?thesis by (simp add: round_q31_def Let_def q_bits_def odd_iff_mod_2_eq_one)
qed

lemma round_q31_nearest:
  "2 * \<bar>round_q31 p * 2 ^ 31 - p\<bar> \<le> 2 ^ 31 \<and>
   (2 * \<bar>round_q31 p * 2 ^ 31 - p\<bar> = 2 ^ 31 \<longrightarrow> even (round_q31 p))"
proof -
  define q r where "q = p div 2 ^ 31" and "r = p mod 2 ^ 31"
  have p: "p = q * 2 ^ 31 + r" by (simp add: q_def r_def)
  have r: "0 \<le> r" "r < 2 ^ 31" by (simp_all add: r_def)
  have round: "round_q31 p = q + (if r > 2 ^ 30 \<or> (r = 2 ^ 30 \<and> odd q) then 1 else 0)"
    by (simp add: round_q31_alt q_def r_def)
  show ?thesis
  proof (cases "r > 2 ^ 30 \<or> (r = 2 ^ 30 \<and> odd q)")
    case True
    then have R: "round_q31 p = q + 1" using round by simp
    have "round_q31 p * 2 ^ 31 - p = 2 ^ 31 - r" unfolding R using p by (simp add: algebra_simps)
    with True r show ?thesis by (auto simp: R)
  next
    case False
    then have R: "round_q31 p = q" using round by simp
    have "round_q31 p * 2 ^ 31 - p = - r" unfolding R using p by simp
    with False r show ?thesis by (auto simp: R)
  qed
qed

lemma round_q31_mono: "p \<le> p' \<Longrightarrow> round_q31 p \<le> round_q31 p'"
proof -
  assume le: "p \<le> p'"
  define q r where "q = p div 2 ^ 31" and "r = p mod 2 ^ 31"
  define q' r' where "q' = p' div 2 ^ 31" and "r' = p' mod 2 ^ 31"
  have "q \<le> q'" using le by (simp add: q_def q'_def zdiv_mono1)
  moreover have "r \<le> r'" if "q = q'"
    using le that by (simp add: r_def r'_def q_def q'_def flip: minus_div_mult_eq_mod)
  moreover have "round_q31 p = q + (if r > 2 ^ 30 \<or> (r = 2 ^ 30 \<and> odd q) then 1 else 0)"
    and "round_q31 p' = q' + (if r' > 2 ^ 30 \<or> (r' = 2 ^ 30 \<and> odd q') then 1 else 0)"
    by (simp_all add: round_q31_alt q_def r_def q'_def r'_def)
  ultimately show ?thesis by (cases "q = q'") auto
qed

lemma round_q31_unity [simp]: "round_q31 (s * 2 ^ 31) = s"
  by (simp add: round_q31_alt)

lemma product_range:
  fixes s g :: int
  assumes "0 \<le> g" "g \<le> 2 ^ 31"
  shows "min s 0 * 2 ^ 31 \<le> s * g" and "s * g \<le> max s 0 * 2 ^ 31"
proof -
  show "min s 0 * 2 ^ 31 \<le> s * g"
  proof (cases "0 \<le> s")
    case True
    then show ?thesis using assms by simp
  next
    case False
    then show ?thesis using assms mult_left_mono_neg [of g "2 ^ 31" s] by simp
  qed
  show "s * g \<le> max s 0 * 2 ^ 31"
  proof (cases "0 \<le> s")
    case True
    then show ?thesis using assms mult_left_mono [of g "2 ^ 31" s] by simp
  next
    case False
    then show ?thesis using assms mult_nonpos_nonneg [of s g] by simp
  qed
qed

text \<open>Every product that reaches the 64-bit arithmetic fits in it.\<close>

lemma product_fits:
  assumes "is_pcm24 s" and "tenths_ok t"
  shows "\<bar>s * uint (gain_of t)\<bar> < 2 ^ 63"
  using product_range [of "uint (gain_of t)" s] gain_le_unity [OF assms(2)] assms(1)
  by (auto simp: is_pcm24_def pcm24_min_def pcm24_max_def)

lemma rounded_between:
  assumes "tenths_ok t"
  shows "min s 0 \<le> round_q31 (s * uint (gain_of t))"
    and "round_q31 (s * uint (gain_of t)) \<le> max s 0"
  using product_range [of "uint (gain_of t)" s] gain_le_unity [OF assms]
    round_q31_mono round_q31_unity by (metis uint_ge_0)+

lemma sint_pcm24: "- (2 ^ 23) \<le> r \<Longrightarrow> r < 2 ^ 23 \<Longrightarrow> sint (word_of_int r :: 32 word) = r"
  by (simp add: signed_of_int signed_take_bit_int_eq_self_iff)

lemma attenuation_apply_round:
  assumes "is_pcm24 s" and "tenths_ok t"
  shows "attenuation_apply (gain_of t) s = round_q31 (s * uint (gain_of t))"
  using rounded_between [OF assms(2), of s] assms(1) unfolding attenuation_apply_def
  by (intro sint_pcm24) (auto simp: is_pcm24_def pcm24_min_def pcm24_max_def)

text \<open>
  C40. A sample at an attenuation becomes the sample times the table's gain, rounded half to
  even, exactly: no 64-bit overflow and no narrowing changes it, it stays a 24-bit sample,
  and it is never further from zero than the sample. 0 dB passes every sample unchanged.
\<close>

theorem attenuation_apply_exact:
  assumes "is_pcm24 s" and "tenths_ok t"
  defines "r \<equiv> attenuation_apply (gain_of t) s"
    and "p \<equiv> s * uint (gain_of t)"
  shows "\<bar>p\<bar> < 2 ^ 63 \<and> 2 * \<bar>r * 2 ^ 31 - p\<bar> \<le> 2 ^ 31 \<and>
    (2 * \<bar>r * 2 ^ 31 - p\<bar> = 2 ^ 31 \<longrightarrow> even r) \<and>
    is_pcm24 r \<and> min s 0 \<le> r \<and> r \<le> max s 0 \<and> (t = no_attenuation \<longrightarrow> r = s)"
proof -
  have r: "r = round_q31 p"
    using assms(1,2) unfolding r_def p_def by (rule attenuation_apply_round)
  have between: "min s 0 \<le> r" "r \<le> max s 0"
    using rounded_between [OF assms(2)] by (simp_all add: r p_def)
  then have "is_pcm24 r"
    using assms(1) by (auto simp: is_pcm24_def pcm24_min_def pcm24_max_def)
  moreover have "r = s" if "t = no_attenuation"
    using that round_q31_unity [of s] by (simp add: r p_def unity_q31_def)
  moreover have "\<bar>p\<bar> < 2 ^ 63" unfolding p_def using assms(1,2) by (rule product_fits)
  ultimately show ?thesis using between round_q31_nearest [of p] by (simp only: r) blast
qed

theorem attenuation_apply_exact_witness:
  "is_pcm24 (attenuation_apply (gain_of no_attenuation) (-5)) \<and>
   attenuation_apply (gain_of no_attenuation) (-5) = -5"
  using attenuation_apply_exact [of "-5" no_attenuation]
  by (simp add: is_pcm24_def pcm24_min_def pcm24_max_def tenths_ok_def no_attenuation_def max_tenths_def)

text \<open>
  A larger attenuation never gives a louder sample: of two attenuations of the same
  sample, the deeper one is at most as far from zero.
\<close>

theorem attenuation_monotone:
  assumes "is_pcm24 s" and "tenths_ok b" and "a \<le> b"
  shows "\<bar>attenuation_apply (gain_of b) s\<bar> \<le> \<bar>attenuation_apply (gain_of a) s\<bar>"
proof -
  have a: "tenths_ok a" using assms by (auto simp: tenths_ok_def less_eq_tenths_def tenths_at_most_def)
  have gain: "uint (gain_of b) \<le> uint (gain_of a)"
    using gain_antimono [OF assms(3,2)] by (simp add: word_le_def)
  have "min s 0 \<le> round_q31 (s * uint (gain_of b)) \<and> round_q31 (s * uint (gain_of b)) \<le> max s 0"
    and "min s 0 \<le> round_q31 (s * uint (gain_of a)) \<and> round_q31 (s * uint (gain_of a)) \<le> max s 0"
    using rounded_between [OF assms(2)] rounded_between [OF a] by simp_all
  moreover have "round_q31 (s * uint (gain_of b)) \<le> round_q31 (s * uint (gain_of a))" if "0 \<le> s"
    using that gain by (intro round_q31_mono mult_left_mono) auto
  moreover have "round_q31 (s * uint (gain_of a)) \<le> round_q31 (s * uint (gain_of b))" if "s \<le> 0"
    using that gain by (intro round_q31_mono mult_left_mono_neg) auto
  ultimately show ?thesis using assms a by (cases "0 \<le> s") (auto simp: attenuation_apply_round)
qed

theorem attenuation_monotone_witness:
  "\<bar>attenuation_apply (gain_of (Tenths 200)) 10000\<bar> \<le> \<bar>attenuation_apply (gain_of (Tenths 5)) 10000\<bar>"
  by (rule attenuation_monotone)
    (simp_all add: is_pcm24_def pcm24_min_def pcm24_max_def tenths_ok_def max_tenths_def less_eq_tenths_def tenths_at_most_def)

section \<open>The grammar of a level\<close>

lemma digit_iff: "digit c = Some v \<longleftrightarrow> is_digit c \<and> unat v = digit_number c"
proof
  assume "digit c = Some v"
  then consider "c = CHR ''0'' \<and> v = 0" | "c = CHR ''1'' \<and> v = 1" | "c = CHR ''2'' \<and> v = 2"
    | "c = CHR ''3'' \<and> v = 3" | "c = CHR ''4'' \<and> v = 4" | "c = CHR ''5'' \<and> v = 5"
    | "c = CHR ''6'' \<and> v = 6" | "c = CHR ''7'' \<and> v = 7" | "c = CHR ''8'' \<and> v = 8"
    | "c = CHR ''9'' \<and> v = 9"
    unfolding digit_def digit_from.simps by (simp split: if_splits)
  then show "is_digit c \<and> unat v = digit_number c"
    by cases (simp_all add: is_digit_def digit_number_def)
next
  assume c: "is_digit c \<and> unat v = digit_number c"
  then obtain d where d: "c = digit_char d" "d < 10"
    by (metis digit_char(1,2) digit_number_inject digit_number_less)
  then have "d \<in> {0, 1, 2, 3, 4, 5, 6, 7, 8, 9}" by auto
  then have "digit (''0123456789abcdef'' ! d) = Some (of_nat d)" by (auto simp: digit_def)
  then have "digit c = Some (of_nat d)" using d by (simp add: nth_digit_char)
  moreover have "v = of_nat d" using c d by (simp add: word_unat_eq_iff)
  ultimately show "digit c = Some v" by simp
qed

lemma whole_decibels_from_short:
  assumes "length xs \<le> 2" and "unat v = digits_value ds" and "list_all is_digit ds"
    and "length ds + length xs \<le> 2"
  shows "whole_decibels_from v xs = Some w \<longleftrightarrow>
    list_all is_digit xs \<and> unat w = digits_value (ds @ xs)"
  using assms
proof (induction xs arbitrary: v ds)
  case Nil
  then show ?case by (auto simp: word_unat_eq_iff)
next
  case (Cons c xs)
  show ?case
  proof (cases "is_digit c")
    case True
    then obtain place where place: "digit c = Some place" "unat place = digit_number c"
      using digit_iff [of c "of_nat (digit_number c)"] digit_number_less [of c] by auto
    have "digits_value ds < 10 ^ length ds" using Cons.prems by (intro digits_value_less)
    also have "\<dots> \<le> 10 ^ 2" using Cons.prems by (intro power_increasing) auto
    finally have "unat (v * 10 + place) = digits_value (ds @ [c])"
      using Cons.prems place digit_number_less [OF True]
      by (simp add: unat_add_exact unat_mult_exact digits_value_snoc)
    then show ?thesis
      using Cons.IH [of "v * 10 + place" "ds @ [c]"] Cons.prems True place by simp
  next
    case False
    then have "digit c = None" using digit_iff [of c] by (cases "digit c") auto
    then show ?thesis using False by simp
  qed
qed

lemma whole_decibels_iff:
  "whole_decibels text = Some w \<longleftrightarrow>
     canonical_decimal text \<and> length text \<le> 2 \<and> unat w = digits_value text"
  using whole_decibels_from_short [where xs = "text" and v = 0 and ds = "[]" and w = w]
  by (auto simp: whole_decibels_def canonical_decimal_def)

text \<open>The spellings of a level: an optional sign, whole decibels, at most one decimal.\<close>

definition att_spelling :: "string \<Rightarrow> bool \<Rightarrow> string \<Rightarrow> nat \<Rightarrow> bool" where
  "att_spelling text negative whole tenth \<longleftrightarrow>
     canonical_decimal whole \<and> length whole \<le> 2 \<and> tenth < 10 \<and>
     (text = (if negative then ''-'' else []) @ whole @ ''.'' @ [digit_char tenth] \<or>
      text = (if negative then ''-'' else []) @ whole \<and> tenth = 0)"

lemma find_char_eq_iff:
  "find_char c xs = Some n \<longleftrightarrow> (\<exists>a b. xs = a @ c # b \<and> c \<notin> set a \<and> n = length a)"
proof
  assume f: "find_char c xs = Some n"
  then have "n = length (take n xs)" using find_char_less [OF f] by simp
  with find_char_split [OF f] show "\<exists>a b. xs = a @ c # b \<and> c \<notin> set a \<and> n = length a" by blast
qed auto

lemma digits_no_mark:
  "canonical_decimal w \<Longrightarrow> CHR ''.'' \<notin> set w \<and> CHR ''-'' \<notin> set w \<and> CHR '':'' \<notin> set w \<and> CHR '','' \<notin> set w"
  by (auto simp: canonical_decimal_def list_all_iff is_digit_def)

lemma canonical_not_minus: "canonical_decimal w \<Longrightarrow> \<not> starts_with (w @ r) ''-''"
  using digits_no_mark [of w] by (cases w) (auto simp: starts_with_def canonical_decimal_def)

lemma attenuation_tenths:
  assumes "unat w < 100" and "unat t < 10"
  shows "unat (w * tenths_per_db + t) = 10 * unat w + unat t"
  using assms by (simp add: tenths_per_db_def unat_add_exact unat_mult_exact)

lemma append_mark_eq:
  "c \<notin> set a \<Longrightarrow> c \<notin> set a' \<Longrightarrow> a @ c # b = a' @ c # b' \<longleftrightarrow> a = a' \<and> b = b'"
proof (induction a arbitrary: a')
  case Nil
  then show ?case by (cases a') auto
next
  case (Cons x a)
  then show ?case by (cases a') auto
qed

text \<open>The magnitude: what the two \<^verbatim>\<open>has_value()\<close> tests of the code let through.\<close>

definition magnitude_tenths :: "string \<Rightarrow> u32 \<Rightarrow> u32 \<Rightarrow> bool" where
  "magnitude_tenths m w t \<longleftrightarrow>
     (\<exists>ds d. canonical_decimal ds \<and> length ds \<le> 2 \<and> d < 10 \<and> unat w = digits_value ds \<and>
        unat t = d \<and> (m = ds @ ''.'' @ [digit_char d] \<or> m = ds \<and> d = 0))"

lemma digit_zero: "digit CHR ''0'' = Some 0"
  by (simp add: digit_def)

lemma digit_Some_char: "digit c = Some t \<longleftrightarrow> unat t < 10 \<and> c = digit_char (unat t)"
  using digit_number_less [of c] digit_char [of "unat t"] digit_number_inject [of c "digit_char (unat t)"]
  by (auto simp: digit_iff)

lemma magnitude_iff:
  assumes "decimals = (case find_char CHR ''.'' m of None \<Rightarrow> ''0'' | Some p \<Rightarrow> drop (p + 1) m)"
  shows "whole_decibels (substr_to m (find_char CHR ''.'' m)) = Some w \<and>
    (if length decimals = 1 then digit (hd decimals) else None) = Some t \<longleftrightarrow> magnitude_tenths m w t"
proof (cases "find_char CHR ''.'' m")
  case None
  have read: "decimals = ''0''" "substr_to m (find_char CHR ''.'' m) = m"
    unfolding assms None by simp_all
  show ?thesis unfolding read using None
    by (auto simp: magnitude_tenths_def whole_decibels_iff digit_zero unat_eq_0)
next
  case (Some p)
  then obtain a b where m: "m = a @ CHR ''.'' # b" "CHR ''.'' \<notin> set a" "p = length a"
    by (auto simp: find_char_eq_iff)
  have "magnitude_tenths m w t \<longleftrightarrow>
      whole_decibels a = Some w \<and> unat t < 10 \<and> b = [digit_char (unat t)]"
    unfolding magnitude_tenths_def m(1) using m(2)
    by (auto simp: whole_decibels_iff append_mark_eq digits_no_mark dest: digits_no_mark)
  moreover have "decimals = b" "substr_to m (find_char CHR ''.'' m) = a"
    unfolding assms Some using m by simp_all
  ultimately show ?thesis by (auto simp: digit_Some_char length_Suc_conv)
qed

lemma att_spelling_sign:
  "att_spelling s negative ds d \<Longrightarrow> starts_with s ''-'' \<longleftrightarrow> negative"
  using canonical_not_minus [of ds] canonical_not_minus [of ds "[]"]
  by (auto simp: att_spelling_def starts_with_def split: if_splits)

lemma attenuation_parse_cases:
  "attenuation_parse s = Inr t \<longleftrightarrow>
     (\<exists>w d. magnitude_tenths (if starts_with s ''-'' then drop 1 s else s) w d \<and>
        t = Tenths (w * tenths_per_db + d) \<and> tenths_ok t \<and>
        (starts_with s ''-'' \<or> tenths_value t = 0))"
proof -
  let ?m = "if starts_with s ''-'' then drop 1 s else s"
  define decimals where
    "decimals = (case find_char CHR ''.'' ?m of None \<Rightarrow> ''0'' | Some p \<Rightarrow> drop (p + 1) ?m)"
  note mag = magnitude_iff [OF decimals_def]
  show ?thesis
    unfolding attenuation_parse_def Let_def decimals_def [symmetric] mag [symmetric]
    by (auto simp: tenths_of_def tenths_ok_def split: option.splits if_split_asm)
qed

text \<open>
  The spellings of an attenuation are exactly these: an optional minus sign, one or two
  digits without a leading zero, and at most one decimal. The value is the number of tenths
  spelt, at most 400; only zero may be spelt without the sign.
\<close>

theorem attenuation_parse_iff:
  "attenuation_parse s = Inr t \<longleftrightarrow>
     (\<exists>negative ds d. att_spelling s negative ds d \<and>
        unat (tenths_value t) = 10 * digits_value ds + d \<and> tenths_ok t \<and>
        (negative \<or> tenths_value t = 0))"
proof
  assume "attenuation_parse s = Inr t"
  then obtain w d where m: "magnitude_tenths (if starts_with s ''-'' then drop 1 s else s) w d"
    and t: "t = Tenths (w * tenths_per_db + d)" "tenths_ok t" "starts_with s ''-'' \<or> tenths_value t = 0"
    unfolding attenuation_parse_cases by blast
  obtain ds where ds: "canonical_decimal ds" "length ds \<le> 2" "unat d < 10" "unat w = digits_value ds"
    and s: "(if starts_with s ''-'' then drop 1 s else s) = ds @ ''.'' @ [digit_char (unat d)] \<or>
      (if starts_with s ''-'' then drop 1 s else s) = ds \<and> unat d = 0"
    using m unfolding magnitude_tenths_def by blast
  have "att_spelling s (starts_with s ''-'') ds (unat d)"
    using ds s by (cases s) (auto simp: att_spelling_def starts_with_def split: if_splits)
  moreover have "digits_value ds < 100"
    using ds digits_value_less [of ds] power_increasing [of "length ds" 2 "10 :: nat"]
    by (simp add: canonical_decimal_def)
  ultimately show "\<exists>negative ds d. att_spelling s negative ds d \<and>
        unat (tenths_value t) = 10 * digits_value ds + d \<and> tenths_ok t \<and>
        (negative \<or> tenths_value t = 0)"
    using t ds attenuation_tenths [of w d] by (metis tenths.sel)
next
  assume "\<exists>negative ds d. att_spelling s negative ds d \<and>
        unat (tenths_value t) = 10 * digits_value ds + d \<and> tenths_ok t \<and>
        (negative \<or> tenths_value t = 0)"
  then obtain negative ds d where s: "att_spelling s negative ds d"
    and t: "unat (tenths_value t) = 10 * digits_value ds + d" "tenths_ok t" "negative \<or> tenths_value t = 0"
    by blast
  have sign: "starts_with s ''-'' \<longleftrightarrow> negative" using s by (rule att_spelling_sign)
  have small: "digits_value ds < 100" "d < 10"
    using s digits_value_less [of ds] power_increasing [of "length ds" 2 "10 :: nat"]
    by (auto simp: att_spelling_def canonical_decimal_def)
  have w: "unat (of_nat (digits_value ds) :: u32) = digits_value ds" "unat (of_nat d :: u32) = d"
    using small by simp_all
  have "magnitude_tenths (if starts_with s ''-'' then drop 1 s else s) (of_nat (digits_value ds)) (of_nat d)"
    using s unfolding magnitude_tenths_def w sign
    by (intro exI [of _ ds] exI [of _ d]) (auto simp: att_spelling_def)
  moreover have "t = Tenths (of_nat (digits_value ds) * tenths_per_db + of_nat d)"
    using t small w attenuation_tenths [of "of_nat (digits_value ds)" "of_nat d"]
    by (metis tenths.exhaust_sel word_unat_eq_iff)
  ultimately show "attenuation_parse s = Inr t"
    using t sign unfolding attenuation_parse_cases by blast
qed

end
