(* ===== verification/CutSchedule.thy ===== *)
theory CutSchedule
  imports Status Decimal "HOL-Library.Sublist"
begin

text \<open>
  \<^verbatim>\<open>common/cut_schedule.hpp\<close>: the schedule of dropped frames (DROP) and inserted zeros
  (ZERO) of a play. Here: the entries, the list they are given in, the rules a schedule
  keeps (\<^verbatim>\<open>validate()\<close>) and the spelling of the CUT command. The stage that applies a
  schedule is in theory \<open>CutStage\<close>.

  \<^verbatim>\<open>OutputFrames\<close> and \<^verbatim>\<open>SentFrames\<close> wrap one 32-bit count each; they are named apart
  and compared as the count. The array behind a \<^verbatim>\<open>CutList\<close> is seen through its
  \<^verbatim>\<open>count_\<close> first entries only, which are the list here.
\<close>

type_synonym output_frames = u32
type_synonym sent_frames = u32

datatype cut_kind = Drop | Zero

record cut_entry =
  offset :: output_frames
  entry_length :: u32
  kind :: cut_kind

type_synonym cut_list = "cut_entry list"
type_synonym valid_schedule = "cut_entry list"

definition max_entries :: nat where "max_entries = 16"
definition min_length :: u32 where "min_length = 1"
definition max_length :: u32 where "max_length = 4800"
definition max_drop_balance_frames :: u64 where
  "max_drop_balance_frames = ucast (3 * max_length)"

definition bad_syntax :: status where
  [status_defs]: "bad_syntax = \<lparr>code = Invalid_argument, message = ''BAD_REQUEST''\<rparr>"
definition too_many_entries :: status where
  [status_defs]: "too_many_entries = \<lparr>code = Buffer_too_small, message = ''CUT_TOO_MANY''\<rparr>"
definition length_out_of_range :: status where
  [status_defs]: "length_out_of_range = \<lparr>code = Invalid_argument, message = ''CUT_RANGE''\<rparr>"
definition entries_unsorted :: status where
  [status_defs]: "entries_unsorted = \<lparr>code = Invalid_argument, message = ''CUT_UNSORTED''\<rparr>"
definition entries_overlap :: status where
  [status_defs]: "entries_overlap = \<lparr>code = Invalid_argument, message = ''CUT_OVERLAP''\<rparr>"
definition drop_run_too_long :: status where
  [status_defs]: "drop_run_too_long = \<lparr>code = Invalid_argument, message = ''CUT_DROP_RUN''\<rparr>"

definition cut_list_push :: "cut_list \<Rightarrow> cut_entry \<Rightarrow> cut_list \<times> status" where
  "cut_list_push l e =
     (if length l = max_entries then (l, too_many_entries) else (l @ [e], success))"

section \<open>The rules of a schedule\<close>

definition covered_end :: "cut_entry \<Rightarrow> u64" where
  "covered_end e =
     (let covered = (if kind e = Drop then ucast (entry_length e) else 0 :: u64)
      in ucast (offset e) + covered)"

definition check_order :: "cut_entry \<Rightarrow> cut_entry \<Rightarrow> status" where
  "check_order earlier later =
     (if offset later < offset earlier then entries_unsorted
      else
        let zeros_at_one_offset =
          kind earlier = Zero \<and> kind later = Zero \<and> offset later = offset earlier
        in if ucast (offset later) < covered_end earlier \<or> zeros_at_one_offset
           then entries_overlap else success)"

text \<open>The loop of \<^verbatim>\<open>check_drop_balance()\<close>, with its two variables.\<close>

fun drop_balance_from :: "u64 \<Rightarrow> u64 \<Rightarrow> cut_entry list \<Rightarrow> status" where
  "drop_balance_from balance previous_end [] = success"
| "drop_balance_from balance previous_end (e # es) =
     (if kind e \<noteq> Drop then drop_balance_from balance previous_end es
      else
        let between = ucast (offset e) - min previous_end (ucast (offset e));
            balance' = balance - min balance between + ucast (entry_length e)
        in if balance' > max_drop_balance_frames then drop_run_too_long
           else drop_balance_from balance' (covered_end e) es)"

definition check_drop_balance :: "cut_entry list \<Rightarrow> status" where
  "check_drop_balance es = drop_balance_from 0 0 es"

text \<open>The loop of \<^verbatim>\<open>validate()\<close> over neighbouring entries.\<close>

fun check_orders :: "cut_entry list \<Rightarrow> status" where
  "check_orders (e # f # es) =
     (let ordered = check_order e f in if is_ok ordered then check_orders (f # es) else ordered)"
| "check_orders es = success"

definition length_refused :: "cut_entry \<Rightarrow> bool" where
  "length_refused e \<longleftrightarrow> entry_length e < min_length \<or> entry_length e > max_length"

definition validate :: "cut_list \<Rightarrow> valid_schedule result" where
  "validate l =
     (if list_ex length_refused l then Inl length_out_of_range
      else
        let ordered = check_orders l in
        if \<not> is_ok ordered then Inl ordered
        else
          let balanced = check_drop_balance l in
          if \<not> is_ok balanced then Inl balanced else Inr l)"

section \<open>The spelling of a CUT command\<close>

definition command_name :: string where "command_name = ''CUT''"
definition entries_prefix :: string where "entries_prefix = ''CUT:''"
definition entry_separator :: char where "entry_separator = CHR '',''"
definition field_separator :: char where "field_separator = CHR '':''"
definition drop_name :: string where "drop_name = ''drop''"
definition zero_name :: string where "zero_name = ''zero''"

definition is_command :: "string \<Rightarrow> bool" where
  "is_command text \<longleftrightarrow> text = command_name \<or> starts_with text entries_prefix"

definition digits :: string where "digits = ''0123456789''"

text \<open>The loop of \<^verbatim>\<open>parse_uint32()\<close>: the value so far in 64 bits, refused past 32.\<close>

fun parse_uint32_from :: "u64 \<Rightarrow> string \<Rightarrow> u32 result" where
  "parse_uint32_from v [] = Inr (ucast v)"
| "parse_uint32_from v (c # cs) =
     (case find_char c digits of
        None \<Rightarrow> Inl bad_syntax
      | Some digit \<Rightarrow>
          let v' = v * of_nat (length digits) + of_nat digit
          in if v' > 0xFFFFFFFF then Inl bad_syntax else parse_uint32_from v' cs)"

definition parse_uint32 :: "string \<Rightarrow> u32 result" where
  "parse_uint32 text =
     (if text = [] \<or> (length text > 1 \<and> hd text = hd digits) then Inl bad_syntax
      else parse_uint32_from 0 text)"

definition parse_kind :: "string \<Rightarrow> cut_kind result" where
  "parse_kind text =
     (if text = drop_name then Inr Drop else if text = zero_name then Inr Zero
      else Inl bad_syntax)"

definition parse_entry :: "string \<Rightarrow> cut_entry result" where
  "parse_entry text =
     (case find_char field_separator text of
        None \<Rightarrow> Inl bad_syntax
      | Some first \<Rightarrow>
          (case find_char_from field_separator text (first + 1) of
             None \<Rightarrow> Inl bad_syntax
           | Some second \<Rightarrow>
               (case (parse_uint32 (take first text),
                      parse_uint32 (take (second - first - 1) (drop (first + 1) text)),
                      parse_kind (drop (second + 1) text)) of
                  (Inr off, Inr len, Inr k) \<Rightarrow>
                    Inr \<lparr>offset = off, entry_length = len, kind = k\<rparr>
                | _ \<Rightarrow> Inl bad_syntax)))"

text \<open>
  The loop of \<^verbatim>\<open>parse_entries()\<close>: \<open>passes\<close> counts the passes left, one more than the
  entries a list holds at first.
\<close>

fun parse_entries_from :: "nat \<Rightarrow> cut_list \<Rightarrow> string \<Rightarrow> cut_list result" where
  "parse_entries_from 0 l remaining = Inl bad_syntax"
| "parse_entries_from (Suc passes) l remaining =
     (let separator = find_char entry_separator remaining in
      case parse_entry (substr_to remaining separator) of
        Inl _ \<Rightarrow> Inl bad_syntax
      | Inr e \<Rightarrow>
          (case cut_list_push l e of (l', pushed) \<Rightarrow>
             if \<not> is_ok pushed then Inl bad_syntax
             else
               (case separator of
                  None \<Rightarrow> Inr l'
                | Some p \<Rightarrow> parse_entries_from passes l' (drop (p + 1) remaining))))"

definition parse_entries :: "string \<Rightarrow> cut_list result" where
  "parse_entries text = parse_entries_from (max_entries + 1) [] text"

definition parse_command :: "string \<Rightarrow> cut_list result" where
  "parse_command text =
     (if text = command_name then Inr []
      else if \<not> starts_with text entries_prefix then Inl bad_syntax
      else parse_entries (drop (length entries_prefix) text))"


declare of_nat_unat [simp del] \<comment> \<open>\<open>int (unat w)\<close> stays as it is\<close>

section \<open>Canonical numbers\<close>

lemma cut_refusals [simp]:
  "\<not> is_ok bad_syntax" "\<not> is_ok too_many_entries" "\<not> is_ok length_out_of_range"
  "\<not> is_ok entries_unsorted" "\<not> is_ok entries_overlap" "\<not> is_ok drop_run_too_long"
  by (simp_all add: is_ok_def status_defs)

lemma find_char_digits: "find_char c digits = (if is_digit c then Some (digit_number c) else None)"
  unfolding digits_def by (rule find_digit)

lemma length_digits: "length digits = 10"
  by (simp add: digits_def)

lemma parse_uint32_from_iff:
  assumes "unat v < 2 ^ 32"
  shows "parse_uint32_from v cs = Inr w \<longleftrightarrow>
    list_all is_digit cs \<and> unat v * 10 ^ length cs + digits_value cs = unat w"
  using assms
proof (induction cs arbitrary: v)
  case Nil
  then show ?case by (auto simp: to_nat unat_ucast_64_32)
next
  case (Cons c cs)
  define v' where "v' = v * of_nat (length digits) + (of_nat (digit_number c) :: u64)"
  show ?case
  proof (cases "is_digit c")
    case True
    have v': "unat v' = unat v * 10 + digit_number c"
      using Cons.prems digit_number_less [OF True]
      by (simp add: v'_def length_digits unat_add_exact unat_mult_exact)
    have whole: "unat v * 10 ^ length (c # cs) + digits_value (c # cs) =
        unat v' * 10 ^ length cs + digits_value cs"
      by (simp add: v' digits_value_Cons algebra_simps)
    have step: "parse_uint32_from v (c # cs) =
        (if v' > 0xFFFFFFFF then Inl bad_syntax else parse_uint32_from v' cs)"
      using True by (simp add: v'_def find_char_digits Let_def)
    have "unat v' \<le> unat v' * 10 ^ length cs" by simp
    then have "unat v' > 0xFFFFFFFF \<Longrightarrow>
        unat v' * 10 ^ length cs + digits_value cs \<noteq> unat w"
      using unat_lt_u32 [of w] by linarith
    moreover have "v' > 0xFFFFFFFF \<longleftrightarrow> unat v' > 0xFFFFFFFF" by (simp add: word_less_nat_alt)
    ultimately show ?thesis
      using Cons.IH [of v'] True unfolding step whole by (cases "v' > 0xFFFFFFFF") simp_all
  next
    case False
    then show ?thesis by (simp add: find_char_digits)
  qed
qed

lemma parse_uint32_iff:
  "parse_uint32 s = Inr v \<longleftrightarrow> canonical_decimal s \<and> digits_value s = unat v"
  using parse_uint32_from_iff [of 0 s v]
  by (auto simp: parse_uint32_def canonical_decimal_def digits_def)

text \<open>The one spelling of a 32-bit number.\<close>

definition spell_number :: "u32 \<Rightarrow> string" where
  "spell_number v = uint64_text Decimal_radix (Suc 0) (ucast v)"

lemma spell_number: "canonical_decimal (spell_number v)" "digits_value (spell_number v) = unat v"
  by (simp_all add: spell_number_def uint64_text_canonical uint64_text_value)

lemma parse_uint32_spell: "parse_uint32 s = Inr v \<longleftrightarrow> s = spell_number v"
  using spell_number [of v] canonical_decimal_inject [of s "spell_number v"]
  by (auto simp: parse_uint32_iff)

lemma canonical_marks:
  "canonical_decimal w \<Longrightarrow> CHR '':'' \<notin> set w" "canonical_decimal w \<Longrightarrow> CHR '','' \<notin> set w"
  by (auto simp: canonical_decimal_def list_all_iff is_digit_def)

section \<open>Spellings and parses of entries agree\<close>

definition spell_kind :: "cut_kind \<Rightarrow> string" where
  "spell_kind k = (case k of Drop \<Rightarrow> drop_name | Zero \<Rightarrow> zero_name)"

definition spell_entry :: "cut_entry \<Rightarrow> string" where
  "spell_entry e = spell_number (offset e) @ field_separator #
     spell_number (entry_length e) @ field_separator # spell_kind (kind e)"

fun spell_entries :: "cut_entry list \<Rightarrow> string" where
  "spell_entries [] = []"
| "spell_entries [e] = spell_entry e"
| "spell_entries (e # es) = spell_entry e @ entry_separator # spell_entries es"

lemma parse_kind_spell: "parse_kind s = Inr k \<longleftrightarrow> s = spell_kind k"
  by (cases k) (auto simp: parse_kind_def spell_kind_def drop_name_def zero_name_def)

lemma parse_entry_fields:
  assumes "field_separator \<notin> set a" and "field_separator \<notin> set b"
  shows "parse_entry (a @ field_separator # b @ field_separator # c) =
    (case (parse_uint32 a, parse_uint32 b, parse_kind c) of
       (Inr off, Inr len, Inr k) \<Rightarrow> Inr \<lparr>offset = off, entry_length = len, kind = k\<rparr>
     | _ \<Rightarrow> Inl bad_syntax)"
  using assms by (simp add: parse_entry_def find_char_from_def)

lemma parse_entry_some_fields:
  assumes "parse_entry s = Inr e"
  obtains a b c where "s = a @ field_separator # b @ field_separator # c"
    "field_separator \<notin> set a" "field_separator \<notin> set b"
proof -
  from assms obtain first second where
    f: "find_char field_separator s = Some first" and
    g: "find_char field_separator (drop (Suc first) s) = Some second"
    by (auto simp: parse_entry_def find_char_from_def split: option.splits)
  show thesis
    using that find_char_split [OF f] find_char_split [OF g] by metis
qed

lemma parse_entry_spell: "parse_entry s = Inr e \<longleftrightarrow> s = spell_entry e"
proof
  assume p: "parse_entry s = Inr e"
  then obtain a b c where s: "s = a @ field_separator # b @ field_separator # c"
    and no: "field_separator \<notin> set a" "field_separator \<notin> set b"
    by (rule parse_entry_some_fields)
  from p have "parse_uint32 a = Inr (offset e)" "parse_uint32 b = Inr (entry_length e)"
    "parse_kind c = Inr (kind e)"
    unfolding s parse_entry_fields [OF no] by (auto split: sum.splits)
  then show "s = spell_entry e"
    by (simp add: s spell_entry_def parse_uint32_spell parse_kind_spell)
next
  assume s: "s = spell_entry e"
  have "field_separator \<notin> set (spell_number v)" for v
    using spell_number [of v] canonical_marks by (simp add: field_separator_def)
  then show "parse_entry s = Inr e"
    unfolding s spell_entry_def
    by (simp add: parse_entry_fields parse_uint32_spell [THEN iffD2] parse_kind_spell [THEN iffD2])
qed

lemma spell_entry_no_separator: "entry_separator \<notin> set (spell_entry e)"
  using canonical_marks(2) [OF spell_number(1)]
  by (auto simp: spell_entry_def entry_separator_def field_separator_def spell_kind_def
      drop_name_def zero_name_def split: cut_kind.splits)

lemma cut_list_push_ok:
  "is_ok (snd (cut_list_push l e)) \<longleftrightarrow> length l \<noteq> max_entries"
  by (simp add: cut_list_push_def)

lemma parse_entries_from_spell:
  assumes "length l \<le> max_entries"
  shows "parse_entries_from passes l s = Inr l' \<longleftrightarrow>
    (\<exists>es. es \<noteq> [] \<and> l' = l @ es \<and> s = spell_entries es \<and> length es \<le> passes \<and>
      length l' \<le> max_entries)"
  using assms
proof (induction passes arbitrary: l s)
  case 0
  then show ?case by auto
next
  case (Suc passes)
  show ?case
  proof (cases "find_char entry_separator s")
    case None
    have more: "spell_entries es \<noteq> s" if "length es > 1" for es
    proof -
      from that obtain e f es' where "es = e # f # es'" by (cases es; cases "tl es") auto
      then show ?thesis using None by auto
    qed
    show ?thesis
    proof
      assume "parse_entries_from (Suc passes) l s = Inr l'"
      then obtain e where "parse_entry s = Inr e" "l' = l @ [e]" "length l \<noteq> max_entries"
        by (simp add: None cut_list_push_def split: sum.splits if_splits
            del: find_char_None)
      then show "\<exists>es. es \<noteq> [] \<and> l' = l @ es \<and> s = spell_entries es \<and> length es \<le> Suc passes \<and>
          length l' \<le> max_entries"
        using Suc.prems by (intro exI [of _ "[e]"]) (simp add: parse_entry_spell)
    next
      assume "\<exists>es. es \<noteq> [] \<and> l' = l @ es \<and> s = spell_entries es \<and> length es \<le> Suc passes \<and>
          length l' \<le> max_entries"
      then obtain es where es: "es \<noteq> []" "l' = l @ es" "s = spell_entries es" "length l' \<le> max_entries"
        by blast
      then obtain e where e: "es = [e]" using more [of es] by (cases es; cases "tl es") auto
      then have "parse_entry s = Inr e" using es by (simp add: parse_entry_spell)
      then show "parse_entries_from (Suc passes) l s = Inr l'"
        unfolding parse_entries_from.simps None using es(2,4) e
        by (simp add: cut_list_push_def)
    qed
  next
    case (Some p)
    note split = find_char_split [OF Some]
    have step: "parse_entries_from (Suc passes) l s = Inr l' \<longleftrightarrow>
        (\<exists>e. take p s = spell_entry e \<and> length l \<noteq> max_entries \<and>
           parse_entries_from passes (l @ [e]) (drop (Suc p) s) = Inr l')"
      unfolding parse_entry_spell [symmetric]
      by (auto simp: Some cut_list_push_def split: sum.splits)
    have shape: "s = spell_entries es \<and> es \<noteq> [] \<longleftrightarrow>
        (\<exists>e es'. es = e # es' \<and> es' \<noteq> [] \<and> take p s = spell_entry e \<and> drop (Suc p) s = spell_entries es')"
      for es
    proof
      assume s: "s = spell_entries es \<and> es \<noteq> []"
      then obtain e es' where es: "es = e # es'" by (cases es) auto
      have "es' \<noteq> []"
        using Some s spell_entry_no_separator [of e] by (auto simp: es dest: find_char_split(1)) 
           (metis find_char_None option.distinct(1))
      then obtain f fs where "es' = f # fs" by (cases es') auto
      then have "s = spell_entry e @ entry_separator # spell_entries es'" using s es by simp
      moreover from this have "p = length (spell_entry e)"
        using Some spell_entry_no_separator [of e] by simp
      ultimately show "\<exists>e es'. es = e # es' \<and> es' \<noteq> [] \<and> take p s = spell_entry e \<and>
          drop (Suc p) s = spell_entries es'"
        using es \<open>es' \<noteq> []\<close> by simp
    next
      assume "\<exists>e es'. es = e # es' \<and> es' \<noteq> [] \<and> take p s = spell_entry e \<and>
          drop (Suc p) s = spell_entries es'"
      then obtain e f fs where "es = e # f # fs" "take p s = spell_entry e"
        "drop (Suc p) s = spell_entries (f # fs)" by (metis list.exhaust)
      then show "s = spell_entries es \<and> es \<noteq> []" using split(1) by simp
    qed
    have "parse_entries_from passes (l @ [e]) t = Inr l' \<longleftrightarrow>
        (\<exists>es. es \<noteq> [] \<and> l' = (l @ [e]) @ es \<and> t = spell_entries es \<and> length es \<le> passes \<and>
          length l' \<le> max_entries)" if "length l \<noteq> max_entries" for e t
      using Suc.IH [of "l @ [e]" t] Suc.prems that by simp
    then have "parse_entries_from (Suc passes) l s = Inr l' \<longleftrightarrow>
        (\<exists>e es'. es' \<noteq> [] \<and> take p s = spell_entry e \<and> length l \<noteq> max_entries \<and>
          l' = (l @ [e]) @ es' \<and> drop (Suc p) s = spell_entries es' \<and> length es' \<le> passes \<and>
          length l' \<le> max_entries)"
      unfolding step by blast
    also have "\<dots> \<longleftrightarrow> (\<exists>es. (\<exists>e es'. es = e # es' \<and> es' \<noteq> [] \<and> take p s = spell_entry e \<and>
          drop (Suc p) s = spell_entries es') \<and> l' = l @ es \<and> length es \<le> Suc passes \<and>
          length l' \<le> max_entries)"
      by auto
    finally show ?thesis unfolding shape [symmetric] by blast
  qed
qed

section \<open>Valid schedules\<close>

text \<open>
  What \<^verbatim>\<open>validate()\<close> promises, over any two entries and not just neighbours: the later one
  starts at or after the end of what the earlier one covers, and two ZEROs never share a
  place.
\<close>

definition entry_end :: "cut_entry \<Rightarrow> nat" where
  "entry_end e = unat (offset e) + (if kind e = Drop then unat (entry_length e) else 0)"

definition follows :: "cut_entry \<Rightarrow> cut_entry \<Rightarrow> bool" where
  "follows e f \<longleftrightarrow> entry_end e \<le> unat (offset f) \<and>
     \<not> (kind e = Zero \<and> kind f = Zero \<and> offset e = offset f)"

definition length_ok :: "cut_entry \<Rightarrow> bool" where
  "length_ok e \<longleftrightarrow> 1 \<le> unat (entry_length e) \<and> unat (entry_length e) \<le> 4800"

text \<open>
  The excess of a run of DROPs: the frames they discard, less the frames of output between
  one and the next. The drop balance is the largest excess of the runs that end at a DROP,
  so the rule is that no run of successive DROPs has an excess above three lengths.
\<close>

fun run_excess :: "cut_entry list \<Rightarrow> int" where
  "run_excess [] = 0"
| "run_excess [e] = int (unat (entry_length e))"
| "run_excess (e # f # es) =
     int (unat (entry_length e)) - (int (unat (offset f)) - int (entry_end e)) + run_excess (f # es)"

definition drops :: "cut_entry list \<Rightarrow> cut_entry list" where
  "drops es = filter (\<lambda>e. kind e = Drop) es"

definition schedule_ok :: "cut_entry list \<Rightarrow> bool" where
  "schedule_ok es \<longleftrightarrow> list_all length_ok es \<and> sorted_wrt follows es \<and>
     (\<forall>run. sublist run (drops es) \<longrightarrow> run_excess run \<le> 3 * 4800)"

lemma covered_end_nat: "unat (covered_end e) = entry_end e"
  using unat_lt_u32 [of "offset e"] unat_lt_u32 [of "entry_length e"]
  by (simp add: covered_end_def entry_end_def unat_add_exact)

lemma check_order_ok: "is_ok (check_order e f) \<longleftrightarrow> follows e f"
proof -
  have "ucast (offset f) < covered_end e \<longleftrightarrow> unat (offset f) < entry_end e"
    by (simp add: word_less_nat_alt covered_end_nat)
  then show ?thesis
    by (auto simp: check_order_def follows_def Let_def word_less_nat_alt entry_end_def not_less)
qed

lemma follows_trans:
  "length_ok f \<Longrightarrow> follows e f \<Longrightarrow> follows f g \<Longrightarrow> follows e g"
  by (auto simp: follows_def entry_end_def length_ok_def split: if_splits)
     (metis cut_kind.exhaust le_antisym word_unat_eq_iff)+

lemma check_orders_ok:
  "list_all length_ok es \<Longrightarrow> is_ok (check_orders es) \<longleftrightarrow> sorted_wrt follows es"
proof (induction es rule: check_orders.induct)
  case (1 e f es)
  then show ?case
    using follows_trans [of f e]
    by (auto simp: check_order_ok Let_def list_all_iff)
qed auto

lemma length_refused_iff: "length_refused e \<longleftrightarrow> \<not> length_ok e"
  by (auto simp: length_refused_def length_ok_def min_length_def max_length_def
      word_less_nat_alt not_le)

lemma run_excess_Cons:
  "run_excess (e # es) = int (unat (entry_length e)) +
    (if es = [] then 0 else run_excess es - (int (unat (offset (hd es))) - int (entry_end e)))"
  by (cases es) auto

lemma all_sublists_Cons:
  "(\<forall>run. sublist run (x # xs) \<longrightarrow> P run) \<longleftrightarrow>
     P [] \<and> (\<forall>run. prefix run xs \<longrightarrow> P (x # run)) \<and> (\<forall>run. sublist run xs \<longrightarrow> P run)"
  by (auto simp: sublist_Cons_right prefix_Cons)

lemma drop_balance_from_ok:
  assumes "list_all length_ok es" and "sorted_wrt follows es" and "unat b \<le> 14400"
    and "\<forall>e \<in> set (drops es). unat pe \<le> unat (offset e)"
  shows "is_ok (drop_balance_from b pe es) \<longleftrightarrow>
    (\<forall>run. prefix run (drops es) \<longrightarrow> run \<noteq> [] \<longrightarrow>
       int (unat b) - (int (unat (offset (hd run))) - int (unat pe)) + run_excess run \<le> 14400) \<and>
    (\<forall>run. sublist run (drops es) \<longrightarrow> run_excess run \<le> 14400)"
  using assms
proof (induction es arbitrary: b pe)
  case Nil
  then show ?case by (simp add: drops_def)
next
  case (Cons e es)
  show ?case
  proof (cases "kind e = Drop")
    case False
    then show ?thesis using Cons by (simp add: drops_def)
  next
    case True
    have ds: "drops (e # es) = e # drops es" using True by (simp add: drops_def)
    define len where "len = int (unat (entry_length e))"
    define gap where "gap = int (unat (offset e)) - int (unat pe)"
    define g where "g run = (if run = [] then 0 else
      run_excess run - (int (unat (offset (hd run))) - int (entry_end e)))" for run
    define b' where "b' = b - min b (ucast (offset e) - min pe (ucast (offset e))) + ucast (entry_length e)"
    have pe: "unat pe \<le> unat (offset e)" using Cons.prems ds by simp
    have len: "1 \<le> len" "len \<le> 4800" using Cons.prems by (simp_all add: length_ok_def len_def)
    have "unat (ucast (offset e) - min pe (ucast (offset e))) = unat (offset e) - unat pe"
      using pe by (simp add: unat_sub_exact unat_min min_def word_le_nat_alt)
    then have "unat (b - min b (ucast (offset e) - min pe (ucast (offset e)))) =
        unat b - (unat (offset e) - unat pe)"
      by (simp add: unat_sub_exact unat_min)
    then have b': "int (unat b') = max len (int (unat b) - gap + len)"
      using Cons.prems(3) len pe unfolding b'_def
      by (subst unat_add_exact) (auto simp: len_def gap_def)
    have later: "\<forall>f \<in> set (drops es). unat (covered_end e) \<le> unat (offset f)"
      using Cons.prems by (auto simp: drops_def covered_end_nat follows_def)
    have rest: "list_all length_ok es" "sorted_wrt follows es" using Cons.prems by auto
    have ex: "run_excess (e # run) = len + g run" for run
      by (simp add: run_excess_Cons g_def len_def)
    have step: "is_ok (drop_balance_from b pe (e # es)) \<longleftrightarrow>
        int (unat b') \<le> 14400 \<and> is_ok (drop_balance_from b' (covered_end e) es)"
      using True by (auto simp: b'_def Let_def word_less_nat_alt max_drop_balance_frames_def max_length_def)
    have tail: "is_ok (drop_balance_from b' (covered_end e) es) \<longleftrightarrow>
        (\<forall>run. prefix run (drops es) \<longrightarrow> run \<noteq> [] \<longrightarrow> int (unat b') + g run \<le> 14400) \<and>
        (\<forall>run. sublist run (drops es) \<longrightarrow> run_excess run \<le> 14400)"
      if "int (unat b') \<le> 14400"
      using Cons.IH [OF rest _ later, of b'] that by (simp add: g_def covered_end_nat algebra_simps)
    have "is_ok (drop_balance_from b pe (e # es)) \<longleftrightarrow>
        (\<forall>run. prefix run (drops es) \<longrightarrow> int (unat b') + g run \<le> 14400) \<and>
        (\<forall>run. sublist run (drops es) \<longrightarrow> run_excess run \<le> 14400)"
      unfolding step using tail by (auto simp: g_def)
    moreover have "max x y + z \<le> 14400 \<longleftrightarrow> x + z \<le> 14400 \<and> y + z \<le> 14400" for x y z :: int
      by auto
    ultimately have "is_ok (drop_balance_from b pe (e # es)) \<longleftrightarrow>
        (\<forall>run. prefix run (drops es) \<longrightarrow> len + g run \<le> 14400) \<and>
        (\<forall>run. prefix run (drops es) \<longrightarrow> int (unat b) - gap + (len + g run) \<le> 14400) \<and>
        (\<forall>run. sublist run (drops es) \<longrightarrow> run_excess run \<le> 14400)"
      unfolding b' by (simp only: add.assoc) blast
    then show ?thesis
      unfolding ds all_sublists_Cons prefix_Cons by (auto simp: ex gap_def)
  qed
qed

lemma check_drop_balance_ok:
  assumes "list_all length_ok es" and "sorted_wrt follows es"
  shows "is_ok (check_drop_balance es) \<longleftrightarrow>
    (\<forall>run. sublist run (drops es) \<longrightarrow> run_excess run \<le> 3 * 4800)"
proof -
  have "run_excess run - int (unat (offset (hd run))) \<le> 14400" if "run_excess run \<le> 14400" for run
    using that by simp
  then show ?thesis
    unfolding check_drop_balance_def
    using drop_balance_from_ok [OF assms, of 0 0] by (auto intro: prefix_imp_sublist)
qed

lemma validate_accepts: "validate l = Inr l \<longleftrightarrow> schedule_ok l"
proof -
  have "list_ex length_refused l \<longleftrightarrow> \<not> list_all length_ok l"
    by (auto simp: list_ex_iff list_all_iff length_refused_iff)
  then show ?thesis
    using check_orders_ok [of l] check_drop_balance_ok [of l]
    by (auto simp: validate_def schedule_ok_def Let_def)
qed

text \<open>
  C34. The text after \<^verbatim>\<open>CUT:\<close> parses to a list of entries exactly when it is the canonical
  spelling of that list and the list holds one to 16 entries: parsing and spelling are
  inverse, and every other text is refused.
\<close>

theorem parse_entries_iff:
  "parse_entries s = Inr es \<longleftrightarrow>
     s = spell_entries es \<and> 0 < length es \<and> length es \<le> max_entries"
  by (auto simp: parse_entries_def parse_entries_from_spell max_entries_def)

text \<open>
  C16. A list of entries is accepted as a schedule, unchanged, exactly when every entry is 1
  to 4800 frames long, any entry ends at or before the start of each later one with no two
  ZEROs at one place, and no run of successive DROPs has an excess of more than three
  lengths of 4800 frames.
\<close>

theorem validate_iff: "validate l = Inr s \<longleftrightarrow> s = l \<and> schedule_ok l"
  using validate_accepts [of l] by (auto simp: validate_def Let_def split: if_splits)

end
