(* ===== verification/CutStage.thy ===== *)
theory CutStage
  imports CutSchedule
begin

text \<open>
  \<^verbatim>\<open>common/cut_schedule.hpp\<close>, continued: the stage that turns the engine's output and a
  latched schedule into steps (\<^verbatim>\<open>CutStage\<close>) and the log that tells what the cuts did
  (\<^verbatim>\<open>CutLog\<close>), with the player's loop that carries the steps out
  (\<^verbatim>\<open>rt1170/player.cpp\<close>: \<^verbatim>\<open>produce()\<close>, \<^verbatim>\<open>carry_out()\<close>, \<^verbatim>\<open>run_step()\<close>).
\<close>

section \<open>The stage\<close>

datatype step_kind = Step_end | Pull | Send | Zeros | Discard

record cut_step =
  step_kind :: step_kind
  step_frames :: u32

definition no_step_frames :: status where
  [status_defs]: "no_step_frames = \<lparr>code = Invalid_argument, message = ''CUT_STEP_ZERO''\<rparr>"
definition output_too_long :: status where
  [status_defs]: "output_too_long = \<lparr>code = Buffer_too_small, message = ''CUT_OUTPUT_LONG''\<rparr>"
definition log_full :: status where
  [status_defs]: "log_full = \<lparr>code = Buffer_too_small, message = ''CUT_LOG_FULL''\<rparr>"

text \<open>\<^verbatim>\<open>StepLimit::of()\<close>: one frame at least.\<close>

definition step_limit_of :: "u32 \<Rightarrow> u32 result" where
  "step_limit_of frames = (if frames = 0 then Inl no_step_frames else Inr frames)"

record applied_cut =
  cut_position :: sent_frames
  cut_frames :: u32
  cut_kind :: cut_kind

record output_end =
  clipped :: "applied_cut option"
  past_end :: u32

record cut_stage =
  schedule :: valid_schedule
  next_entry :: u32
  offered :: output_frames
  block :: output_frames
  position :: output_frames
  zeros_left :: u32
  finished :: bool

definition stage_latch :: "valid_schedule \<Rightarrow> cut_stage" where
  "stage_latch s = \<lparr>schedule = s, next_entry = 0, offered = 0, block = 0, position = 0,
     zeros_left = 0, finished = False\<rparr>"

definition stage_offer :: "cut_stage \<Rightarrow> output_frames \<Rightarrow> cut_stage \<times> status" where
  "stage_offer st frames =
     (if frames > - 1 - offered st then (st, output_too_long)
      else (st\<lparr>offered := offered st + frames, block := frames\<rparr>, success))"

text \<open>The size of a schedule is a 32-bit count.\<close>

definition schedule_size :: "valid_schedule \<Rightarrow> u32" where
  "schedule_size s = of_nat (length s)"

definition pending_entry :: "cut_stage \<Rightarrow> cut_entry option" where
  "pending_entry st =
     (if next_entry st \<ge> schedule_size (schedule st) then None
      else Some (schedule st ! unat (next_entry st)))"

definition stage_finish :: "cut_stage \<Rightarrow> sent_frames \<Rightarrow> cut_stage \<times> output_end" where
  "stage_finish st stream =
     (let (clip, nxt) =
        (case pending_entry st of
           Some e \<Rightarrow>
             if kind e = Drop \<and> offset e < position st
             then (Some \<lparr>cut_position = stream, cut_frames = position st - offset e, cut_kind = Drop\<rparr>,
                   next_entry st + 1)
             else (None, next_entry st)
         | None \<Rightarrow> (None, next_entry st))
      in (st\<lparr>next_entry := schedule_size (schedule st), finished := True\<rparr>,
          \<lparr>clipped = clip, past_end = schedule_size (schedule st) - nxt\<rparr>))"

definition stage_begin :: "cut_stage \<Rightarrow> cut_entry \<Rightarrow> u32 \<Rightarrow> u32 \<Rightarrow> cut_step" where
  "stage_begin st e most on_hand =
     (if kind e = Zero then \<lparr>step_kind = Zeros, step_frames = min (entry_length e) most\<rparr>
      else
        let left = entry_length e - (position st - offset e)
        in \<lparr>step_kind = Discard, step_frames = min left on_hand\<rparr>)"

definition stage_next :: "cut_stage \<Rightarrow> u32 \<Rightarrow> cut_step" where
  "stage_next st most =
     (if zeros_left st \<noteq> 0 then \<lparr>step_kind = Zeros, step_frames = min (zeros_left st) most\<rparr>
      else
        let on_hand = offered st - position st in
        if on_hand = 0 then \<lparr>step_kind = (if finished st then Step_end else Pull), step_frames = 0\<rparr>
        else
          case pending_entry st of
            Some e \<Rightarrow>
              if offset e \<le> position st then stage_begin st e most on_hand
              else \<lparr>step_kind = Send, step_frames = min most (min (offset e - position st) on_hand)\<rparr>
          | None \<Rightarrow> \<lparr>step_kind = Send, step_frames = min most on_hand\<rparr>)"

definition take_discard :: "cut_stage \<Rightarrow> cut_step \<Rightarrow> sent_frames \<Rightarrow> cut_stage \<times> applied_cut option" where
  "take_discard st step stream =
     (let st' = st\<lparr>position := position st + step_frames step\<rparr> in
      case pending_entry st' of
        None \<Rightarrow> (st', None)
      | Some e \<Rightarrow>
          if position st' - offset e < entry_length e then (st', None)
          else (st'\<lparr>next_entry := next_entry st' + 1\<rparr>,
                Some \<lparr>cut_position = stream, cut_frames = entry_length e, cut_kind = Drop\<rparr>))"

definition take_zeros :: "cut_stage \<Rightarrow> cut_step \<Rightarrow> sent_frames \<Rightarrow> cut_stage \<times> applied_cut option" where
  "take_zeros st step stream =
     (if zeros_left st \<noteq> 0
      then (st\<lparr>zeros_left := zeros_left st - min (step_frames step) (zeros_left st)\<rparr>, None)
      else
        case pending_entry st of
          None \<Rightarrow> (st, None)
        | Some e \<Rightarrow>
            (st\<lparr>next_entry := next_entry st + 1,
                zeros_left := entry_length e - min (step_frames step) (entry_length e)\<rparr>,
             Some \<lparr>cut_position = stream, cut_frames = entry_length e, cut_kind = Zero\<rparr>))"

definition stage_take :: "cut_stage \<Rightarrow> cut_step \<Rightarrow> sent_frames \<Rightarrow> cut_stage \<times> applied_cut option" where
  "stage_take st step stream =
     (case step_kind step of
        Send \<Rightarrow> (st\<lparr>position := position st + step_frames step\<rparr>, None)
      | Discard \<Rightarrow> take_discard st step stream
      | Zeros \<Rightarrow> take_zeros st step stream
      | Pull \<Rightarrow> (st, None)
      | Step_end \<Rightarrow> (st, None))"

definition block_position :: "cut_stage \<Rightarrow> u32" where
  "block_position st = block st - (offered st - position st)"

section \<open>The log\<close>

record cut_tally =
  applied :: u32
  drop_frames :: output_frames
  zero_frames :: sent_frames
  first_cut :: "sent_frames option"
  tally_rejected :: u32
  sent :: sent_frames
  tally_output_frames :: output_frames

record cut_log =
  cuts :: "applied_cut list"
  rejected :: u32
  log_end :: sent_frames
  ended :: bool

definition log_restart :: cut_log where
  "log_restart = \<lparr>cuts = [], rejected = 0, log_end = 0, ended = False\<rparr>"

definition log_record :: "cut_log \<Rightarrow> applied_cut \<Rightarrow> cut_log \<times> status" where
  "log_record l c =
     (if length (cuts l) = max_entries then (l, log_full)
      else (l\<lparr>cuts := cuts l @ [c]\<rparr>, success))"

definition log_reject :: "cut_log \<Rightarrow> u32 \<Rightarrow> cut_log" where
  "log_reject l entries = l\<lparr>rejected := rejected l + entries\<rparr>"

definition log_set_end :: "cut_log \<Rightarrow> sent_frames \<Rightarrow> cut_log" where
  "log_set_end l stream = l\<lparr>log_end := stream, ended := True\<rparr>"

definition whole_stream :: "cut_log \<Rightarrow> sent_frames \<Rightarrow> bool" where
  "whole_stream l n \<longleftrightarrow> ended l \<and> n = log_end l"

definition took_effect :: "cut_log \<Rightarrow> applied_cut \<Rightarrow> sent_frames \<Rightarrow> bool" where
  "took_effect l c n \<longleftrightarrow>
     n > cut_position c \<or> (whole_stream l n \<and> cut_position c = log_end l)"

definition tally_count :: "applied_cut \<Rightarrow> cut_tally \<Rightarrow> cut_tally" where
  "tally_count c t =
     (let t1 = t\<lparr>applied := applied t + 1\<rparr>;
          t2 = (if first_cut t1 = None then t1\<lparr>first_cut := Some (cut_position c)\<rparr> else t1)
      in if cut_kind c = Drop then t2\<lparr>drop_frames := drop_frames t2 + cut_frames c\<rparr>
         else t2\<lparr>zero_frames := zero_frames t2 + min (cut_frames c) (sent t2 - cut_position c)\<rparr>)"

definition log_tally :: "cut_log \<Rightarrow> sent_frames \<Rightarrow> cut_tally" where
  "log_tally l n =
     (let t0 = \<lparr>applied = 0, drop_frames = 0, zero_frames = 0, first_cut = None,
                tally_rejected = (if whole_stream l n then rejected l else 0), sent = n,
                tally_output_frames = 0\<rparr>;
          t = foldl (\<lambda>t c. if took_effect l c n then tally_count c t else t) t0 (cuts l)
      in t\<lparr>tally_output_frames := n - zero_frames t + drop_frames t\<rparr>)"

end
