(* ===== verification/Producer.thy ===== *)
theory Producer
  imports CutStage Attenuation
begin

text \<open>
  The producer of a play (\<^verbatim>\<open>rt1170/player.cpp\<close>): it asks the cut stage for steps and
  carries each out, filling the output FIFO until the engine's output is done. The engine
  is outside the model: it is the list of blocks it puts out, and \<open>put\<close> is what becomes of
  one of its frames on the way to the FIFO (quantised, then attenuated). The FIFO is the
  list of every frame written to it so far, and \<^verbatim>\<open>stream_position()\<close> its length. The waits
  (\<^verbatim>\<open>pace_producer()\<close>, a full ring) and the operator's STOP are not modelled: they delay a
  pass or end the play.
\<close>

section \<open>The producer\<close>

record 'f producer =
  stage :: cut_stage
  engine_block :: "'f list"
  source :: "'f list list"
  fifo :: "pcm24_sample list"
  play_log :: cut_log
  eof_enqueued :: bool

definition stream_position :: "'f producer \<Rightarrow> sent_frames" where
  "stream_position p = of_nat (length (fifo p))"

definition log_cut :: "'f producer \<Rightarrow> applied_cut option \<Rightarrow> 'f producer \<times> status" where
  "log_cut p c =
     (case c of None \<Rightarrow> (p, success)
      | Some c \<Rightarrow> (case log_record (play_log p) c of (l, s) \<Rightarrow> (p\<lparr>play_log := l\<rparr>, s)))"

definition finish_output :: "'f producer \<Rightarrow> 'f producer \<times> status" where
  "finish_output p =
     (case stage_finish (stage p) (stream_position p) of (st, e) \<Rightarrow>
        (case log_cut (p\<lparr>stage := st\<rparr>) (clipped e) of (p', logged) \<Rightarrow>
           if \<not> is_ok logged then (p', logged)
           else (p'\<lparr>play_log := log_reject (play_log p') (past_end e)\<rparr>, success)))"

definition pull_block :: "'f producer \<Rightarrow> 'f producer \<times> status" where
  "pull_block p =
     (case source p of
        [] \<Rightarrow> finish_output p
      | b # bs \<Rightarrow>
          (case stage_offer (stage p) (of_nat (length b)) of (st, s) \<Rightarrow>
             (p\<lparr>stage := st, engine_block := b, source := bs\<rparr>, s)))"

definition run_step :: "('f \<Rightarrow> pcm24_sample) \<Rightarrow> cut_step \<Rightarrow> 'f producer \<Rightarrow> u32 \<Rightarrow> 'f producer \<times> status" where
  "run_step put step p from =
     (case step_kind step of
        Pull \<Rightarrow> pull_block p
      | Send \<Rightarrow>
          (p\<lparr>fifo := fifo p @ map put (take (unat (step_frames step)) (drop (unat from) (engine_block p)))\<rparr>,
           success)
      | Zeros \<Rightarrow> (p\<lparr>fifo := fifo p @ replicate (unat (step_frames step)) 0\<rparr>, success)
      | Discard \<Rightarrow> (p, success)
      | Step_end \<Rightarrow> (p, success))"

definition carry_out :: "('f \<Rightarrow> pcm24_sample) \<Rightarrow> cut_step \<Rightarrow> 'f producer \<Rightarrow> 'f producer \<times> status" where
  "carry_out put step p =
     (let before = stream_position p; from = block_position (stage p) in
      case stage_take (stage p) step before of (st, c) \<Rightarrow>
        (case log_cut (p\<lparr>stage := st\<rparr>) c of (p', logged) \<Rightarrow>
           if \<not> is_ok logged then (p', logged) else run_step put step p' from))"

definition end_stream :: "'f producer \<Rightarrow> 'f producer" where
  "end_stream p =
     p\<lparr>play_log := log_set_end (play_log p) (stream_position p), eof_enqueued := True\<rparr>"

text \<open>
  The loop of \<^verbatim>\<open>produce()\<close>, at most \<open>fuel\<close> passes: \<^term>\<open>None\<close> when they do not suffice.
\<close>

fun produce :: "nat \<Rightarrow> ('f \<Rightarrow> pcm24_sample) \<Rightarrow> u32 \<Rightarrow> 'f producer \<Rightarrow> ('f producer \<times> status) option" where
  "produce 0 put output_step p = None"
| "produce (Suc fuel) put output_step p =
     (let step = stage_next (stage p) output_step in
      if step_kind step = Step_end then Some (end_stream p, success)
      else
        case carry_out put step p of (p', done) \<Rightarrow>
          if \<not> is_ok done then Some (p', done) else produce fuel put output_step p')"

text \<open>The producer of a new play: the schedule latched, the log restarted.\<close>

definition new_play :: "valid_schedule \<Rightarrow> 'f list list \<Rightarrow> 'f producer" where
  "new_play s blocks = \<lparr>stage = stage_latch s, engine_block = [], source = blocks, fifo = [],
     play_log = log_restart, eof_enqueued = False\<rparr>"

section \<open>The cut stream\<close>

text \<open>
  What a schedule promises, over the whole of the engine's output \<open>xs\<close>, from frame \<open>pos\<close>
  on: a DROP takes its frames out, a ZERO puts its zeros in (here \<open>z\<close> of its place), and
  an entry at or past the end does nothing. \<open>cut_trace\<close> is the log that goes with it, \<open>n\<close>
  frames of the stream before, the output \<open>N\<close> frames long.
\<close>

fun cut_output :: "(nat \<Rightarrow> 'a) \<Rightarrow> nat \<Rightarrow> 'a list \<Rightarrow> cut_entry list \<Rightarrow> 'a list" where
  "cut_output z pos xs [] = xs"
| "cut_output z pos xs (e # es) =
     (let off = unat (offset e); len = unat (entry_length e) in
      if pos + length xs \<le> off then xs
      else take (off - pos) xs @
        (case kind e of
           Zero \<Rightarrow> replicate len (z off) @ cut_output z off (drop (off - pos) xs) es
         | Drop \<Rightarrow> cut_output z (off + len) (drop (off + len - pos) xs) es))"

fun cut_trace :: "nat \<Rightarrow> nat \<Rightarrow> nat \<Rightarrow> cut_entry list \<Rightarrow> (nat \<times> nat \<times> cut_kind) list" where
  "cut_trace N pos n [] = []"
| "cut_trace N pos n (e # es) =
     (let off = unat (offset e); len = unat (entry_length e); n' = n + (off - pos) in
      if N \<le> off then []
      else
        case kind e of
          Zero \<Rightarrow> (n', len, Zero) # cut_trace N off (n' + len) es
        | Drop \<Rightarrow> (n', min len (N - off), Drop) # cut_trace N (off + len) n' es)"

definition trace_of :: "applied_cut \<Rightarrow> nat \<times> nat \<times> cut_kind" where
  "trace_of c = (unat (cut_position c), unat (cut_frames c), cut_kind c)"

text \<open>Whether the next entries may still apply with the stage at \<open>pos\<close>.\<close>

definition ahead :: "nat \<Rightarrow> cut_entry list \<Rightarrow> bool" where
  "ahead pos es \<longleftrightarrow> list_all length_ok es \<and> sorted_wrt follows es \<and>
     (case es of [] \<Rightarrow> True
      | e # _ \<Rightarrow> pos \<le> unat (offset e) \<or> kind e = Drop \<and> pos < entry_end e)"

lemma follows_entry_end: "follows e f \<Longrightarrow> entry_end e \<le> unat (offset f)"
  by (simp add: follows_def)

lemma ahead_Cons:
  "ahead pos (e # es) \<Longrightarrow> entry_end e = p \<Longrightarrow> ahead p es"
  by (cases es) (auto simp: ahead_def dest: follows_entry_end)

lemma ahead_Nil [simp]: "ahead pos []"
  by (simp add: ahead_def)

lemma ahead_mono:
  "ahead pos (e # es) \<Longrightarrow> q \<le> unat (offset e) \<or> kind e = Drop \<and> q < entry_end e \<Longrightarrow> ahead q (e # es)"
  by (auto simp: ahead_def)

lemma cut_output_Nil: "ahead pos es \<Longrightarrow> cut_output z pos [] es = []"
proof (induction es arbitrary: pos)
  case (Cons e es)
  show ?case
  proof (cases "pos \<le> unat (offset e)")
    case False
    then have "kind e = Drop" using Cons.prems by (auto simp: ahead_def)
    then show ?thesis
      using Cons.IH [OF ahead_Cons [OF Cons.prems refl]] False by (simp add: entry_end_def Let_def)
  qed simp
qed simp

lemma cut_output_send:
  assumes "n \<le> length xs" and "\<And>e es'. es = e # es' \<Longrightarrow> pos + n \<le> unat (offset e)"
  shows "cut_output z pos xs es = take n xs @ cut_output z (pos + n) (drop n xs) es"
proof (cases es)
  case (Cons e es')
  then have "pos + n \<le> unat (offset e)" using assms(2) by simp
  then have "take (unat (offset e) - pos) xs =
      take n xs @ take (unat (offset e) - (pos + n)) (drop n xs)"
    by (simp flip: take_add)
  then show ?thesis using Cons assms(1) \<open>pos + n \<le> unat (offset e)\<close>
    by (auto simp: Let_def split: cut_kind.splits)
qed simp

lemma cut_output_discard_part:
  assumes "kind e = Drop" and "unat (offset e) \<le> pos" and "pos + n < entry_end e"
    and "n \<le> length xs" and "unat (offset e) < pos + length xs" and ahead: "ahead pos (e # es)"
  shows "cut_output z pos xs (e # es) = cut_output z (pos + n) (drop n xs) (e # es)"
proof (cases "n = length xs")
  case True
  have over: "cut_output z (pos + n) [] (e # es) = []"
    using assms by (intro cut_output_Nil ahead_mono [OF ahead]) simp
  have "cut_output z (entry_end e) [] es = []"
    using ahead by (intro cut_output_Nil) (rule ahead_Cons, simp_all)
  then show ?thesis using assms over True
    by (simp add: entry_end_def Let_def)
next
  case False
  then show ?thesis using assms by (auto simp: entry_end_def Let_def)
qed

lemma cut_output_discard_all:
  assumes "kind e = Drop" and "unat (offset e) \<le> pos" and "pos + n = entry_end e"
    and "unat (offset e) < pos + length xs"
  shows "cut_output z pos xs (e # es) = cut_output z (pos + n) (drop n xs) es"
proof -
  have "unat (offset e) + unat (entry_length e) - pos = n" using assms by (simp add: entry_end_def)
  then show ?thesis using assms by (simp add: entry_end_def Let_def)
qed

lemma cut_output_zero:
  assumes "kind e = Zero" and "unat (offset e) = pos" and "0 < length xs"
  shows "cut_output z pos xs (e # es) =
    replicate (unat (entry_length e)) (z pos) @ cut_output z pos xs es"
  using assms by (simp add: Let_def)

lemma cut_trace_send:
  assumes "\<And>e es'. es = e # es' \<Longrightarrow> pos + k \<le> unat (offset e)"
  shows "cut_trace N (pos + k) (n + k) es = cut_trace N pos n es"
  using assms by (cases es) (auto simp: Let_def split: cut_kind.splits)

section \<open>One pass keeps what is promised\<close>

abbreviation pos_of :: "'f producer \<Rightarrow> nat" where
  "pos_of p \<equiv> unat (position (stage p))"

definition entries_left :: "'f producer \<Rightarrow> cut_entry list" where
  "entries_left p = drop (unat (next_entry (stage p))) (schedule (stage p))"

definition on_hand :: "'f producer \<Rightarrow> nat" where
  "on_hand p = unat (offered (stage p)) - pos_of p"

definition frames_left :: "'f producer \<Rightarrow> 'f list" where
  "frames_left p = drop (length (engine_block p) - on_hand p) (engine_block p) @ concat (source p)"

definition producer_ok :: "valid_schedule \<Rightarrow> nat \<Rightarrow> 'f producer \<Rightarrow> bool" where
  "producer_ok es N p \<longleftrightarrow>
     schedule (stage p) = es \<and> \<not> finished (stage p) \<and> pos_of p \<le> unat (offered (stage p)) \<and>
     unat (block (stage p)) = length (engine_block p) \<and> on_hand p \<le> length (engine_block p) \<and>
     unat (offered (stage p)) + length (concat (source p)) = N \<and>
     unat (next_entry (stage p)) \<le> length es \<and> ahead (pos_of p) (entries_left p) \<and>
     length (cuts (play_log p)) = unat (next_entry (stage p)) \<and>
     rejected (play_log p) = 0 \<and> \<not> ended (play_log p)"

definition stream_total :: "('f \<Rightarrow> pcm24_sample) \<Rightarrow> 'f producer \<Rightarrow> pcm24_sample list" where
  "stream_total put p = fifo p @ replicate (unat (zeros_left (stage p))) 0 @
     cut_output (\<lambda>_. 0) (pos_of p) (map put (frames_left p)) (entries_left p)"

definition trace_total :: "nat \<Rightarrow> 'f producer \<Rightarrow> (nat \<times> nat \<times> cut_kind) list" where
  "trace_total N p = map trace_of (cuts (play_log p)) @
     cut_trace N (pos_of p) (length (fifo p) + unat (zeros_left (stage p))) (entries_left p)"

definition zeros_ahead :: "cut_entry list \<Rightarrow> nat" where
  "zeros_ahead es = sum_list (map (\<lambda>e. if kind e = Zero then unat (entry_length e) else 0) es)"

definition passes_left :: "nat \<Rightarrow> 'f producer \<Rightarrow> nat" where
  "passes_left N p = length (source p) + (N - pos_of p) + unat (zeros_left (stage p)) +
     zeros_ahead (entries_left p)"

text \<open>What every pass but the last two does: it keeps the totals and comes closer to the end.\<close>

definition pass_ok :: "('f \<Rightarrow> pcm24_sample) \<Rightarrow> valid_schedule \<Rightarrow> nat \<Rightarrow> 'f producer \<Rightarrow> 'f producer \<Rightarrow> bool" where
  "pass_ok put es N p p' \<longleftrightarrow> producer_ok es N p' \<and> stream_total put p' = stream_total put p \<and>
     trace_total N p' = trace_total N p \<and> passes_left N p' < passes_left N p"

lemma entries_left_Cons:
  assumes "entries_left p = e # es'" and "schedule (stage p) = es" and "length es \<le> max_entries"
  shows "pending_entry (stage p) = Some e" and "unat (next_entry (stage p)) < length es"
    and "unat (next_entry (stage p) + 1) = Suc (unat (next_entry (stage p)))"
    and "drop (Suc (unat (next_entry (stage p)))) es = es'"
proof -
  let ?n = "unat (next_entry (stage p))"
  have d: "drop ?n es = e # es'" using assms by (simp add: entries_left_def)
  then show n: "?n < length es" by (metis drop_all leI list.distinct(1))
  have size: "unat (schedule_size es) = length es"
    using assms(3) by (simp add: schedule_size_def max_entries_def)
  have "es ! ?n = e" using d by (metis hd_drop_conv_nth list.sel(1) n)
  then show "pending_entry (stage p) = Some e"
    using n size assms(2) by (simp add: pending_entry_def word_le_nat_alt)
  show "unat (next_entry (stage p) + 1) = Suc ?n"
    using n assms(3) by (simp add: unat_add_exact max_entries_def)
  show "drop (Suc ?n) es = es'" using d by (metis drop_Suc list.sel(3) tl_drop)
qed

lemma entries_left_Nil:
  assumes "entries_left p = []" and "schedule (stage p) = es" and "length es \<le> max_entries"
  shows "pending_entry (stage p) = None"
  using assms by (simp add: entries_left_def pending_entry_def schedule_size_def max_entries_def
      word_le_nat_alt)

lemma unat_minus_one_max: "unat (- 1 :: u32) = 4294967295"
  by (simp add: unsigned_minus_1_eq_mask mask_eq_exp_minus_1)

lemma carry_out_log:
  assumes "stage_take (stage p) step (stream_position p) = (st, None)"
  shows "carry_out put step p = run_step put step (p\<lparr>stage := st\<rparr>) (block_position (stage p))"
  using assms by (simp add: carry_out_def log_cut_def)

lemma carry_out_log_Some:
  assumes "stage_take (stage p) step (stream_position p) = (st, Some c)"
    and "length (cuts (play_log p)) < max_entries"
  shows "carry_out put step p = run_step put step
    (p\<lparr>stage := st, play_log := (play_log p)\<lparr>cuts := cuts (play_log p) @ [c]\<rparr>\<rparr>) (block_position (stage p))"
  using assms by (simp add: carry_out_def log_cut_def log_record_def)

lemma producer_ok_pos: "producer_ok es N p \<Longrightarrow> pos_of p \<le> N"
  by (simp add: producer_ok_def)

lemma zeros_pass:
  assumes ok: "producer_ok es N p" and z: "zeros_left (stage p) \<noteq> 0" and "most \<noteq> 0"
  shows "\<exists>p'. carry_out put (stage_next (stage p) most) p = (p', success) \<and> pass_ok put es N p p'"
proof -
  let ?n = "min (zeros_left (stage p)) most"
  have n: "0 < unat ?n" "unat ?n \<le> unat (zeros_left (stage p))"
    using z assms(3) by (auto simp: unat_min unat_gt_0)
  have left: "unat (zeros_left (stage p) - min ?n (zeros_left (stage p))) = unat (zeros_left (stage p)) - unat ?n"
    by (simp add: unat_sub_exact unat_min)
  let ?p = "p\<lparr>stage := (stage p)\<lparr>zeros_left := zeros_left (stage p) - min ?n (zeros_left (stage p))\<rparr>,
    fifo := fifo p @ replicate (unat ?n) 0\<rparr>"
  have run: "carry_out put (stage_next (stage p) most) p = (?p, success)"
    using z by (subst carry_out_log) (auto simp: stage_next_def stage_take_def take_zeros_def run_step_def)
  have zeros: "replicate (unat ?n) (0 :: pcm24_sample) @ replicate (unat (zeros_left (stage p)) - unat ?n) 0 =
      replicate (unat (zeros_left (stage p))) 0"
    using n(2) by (simp flip: replicate_add)
  have "pass_ok put es N p ?p" using ok n left zeros producer_ok_pos [OF ok]
    by (auto simp: pass_ok_def producer_ok_def stream_total_def trace_total_def passes_left_def
        entries_left_def frames_left_def on_hand_def)
  then show ?thesis using run by blast
qed

lemma pull_pass:
  assumes ok: "producer_ok es N p" and z: "zeros_left (stage p) = 0" and h: "on_hand p = 0"
    and src: "source p = b # bs" and N: "N < 2 ^ 32"
  shows "\<exists>p'. carry_out put (stage_next (stage p) most) p = (p', success) \<and> pass_ok put es N p p'"
proof -
  have pos: "offered (stage p) = position (stage p)"
    using ok h by (auto simp: producer_ok_def on_hand_def to_nat)
  have fits: "unat (offered (stage p)) + length b < 2 ^ 32"
    using ok src N by (auto simp: producer_ok_def)
  then have b: "unat (of_nat (length b) :: u32) = length b" by simp
  have m1: "unat (- 1 - offered (stage p)) = 2 ^ 32 - 1 - unat (offered (stage p))"
    by (simp add: unat_sub_exact unat_minus_one_max)
  have room: "\<not> of_nat (length b) > - 1 - offered (stage p)"
    using fits b by (simp add: word_less_nat_alt m1)
  let ?p = "p\<lparr>stage := (stage p)\<lparr>offered := offered (stage p) + of_nat (length b), block := of_nat (length b)\<rparr>,
    engine_block := b, source := bs\<rparr>"
  have run: "carry_out put (stage_next (stage p) most) p = (?p, success)"
    using z pos ok room src
    by (subst carry_out_log)
       (auto simp: stage_next_def stage_take_def run_step_def pull_block_def stage_offer_def producer_ok_def)
  have more: "unat (offered (stage p) + of_nat (length b)) = unat (offered (stage p)) + length b"
    using fits b by (simp add: unat_add_exact)
  have "pass_ok put es N p ?p" using ok src pos b z more producer_ok_pos [OF ok]
    by (auto simp: pass_ok_def producer_ok_def stream_total_def trace_total_def passes_left_def
        entries_left_def frames_left_def on_hand_def)
  then show ?thesis using run by blast
qed

lemma length_frames_left: "producer_ok es N p \<Longrightarrow> length (frames_left p) = N - pos_of p"
  by (auto simp: producer_ok_def frames_left_def on_hand_def)

lemma on_hand_N: "producer_ok es N p \<Longrightarrow> pos_of p + on_hand p \<le> N"
  by (auto simp: producer_ok_def on_hand_def)

lemma on_hand_word:
  "producer_ok es N p \<Longrightarrow> unat (offered (stage p) - position (stage p)) = on_hand p"
  by (simp add: producer_ok_def on_hand_def unat_sub_exact word_le_nat_alt)

lemma block_position_nat:
  assumes "producer_ok es N p"
  shows "unat (block_position (stage p)) = length (engine_block p) - on_hand p"
  using assms on_hand_word [OF assms]
  by (simp add: block_position_def producer_ok_def unat_sub_exact word_le_nat_alt)

lemma advance_word:
  assumes "producer_ok es N p" and "unat n \<le> on_hand p"
  shows "unat (position (stage p) + n) = pos_of p + unat n"
  using assms unat_lt_u32 [of "offered (stage p)"]
  by (intro unat_add_exact) (auto simp: producer_ok_def on_hand_def)

lemma frames_left_advance:
  assumes "producer_ok es N p" and "k \<le> on_hand p"
  shows "drop (length (engine_block p) - (on_hand p - k)) (engine_block p) @ concat (source p) =
    drop k (frames_left p)"
proof -
  have "on_hand p \<le> length (engine_block p)" using assms by (simp add: producer_ok_def)
  then have "length (engine_block p) - (on_hand p - k) = k + (length (engine_block p) - on_hand p)"
    using assms(2) by simp
  then show ?thesis using assms(2) \<open>on_hand p \<le> _\<close> by (simp add: frames_left_def)
qed

lemma begin_zero_pass:
  assumes ok: "producer_ok es N p" and z: "zeros_left (stage p) = 0" and h: "0 < on_hand p"
    and es: "entries_left p = e # es'" and off: "unat (offset e) \<le> pos_of p" and e: "kind e = Zero"
    and most: "most \<noteq> 0" and cap: "length es \<le> max_entries" and fifo: "length (fifo p) < 2 ^ 32"
  shows "\<exists>p'. carry_out put (stage_next (stage p) most) p = (p', success) \<and> pass_ok put es N p p'"
proof -
  have sch: "schedule (stage p) = es" using ok by (simp add: producer_ok_def)
  note pend = entries_left_Cons [OF es sch cap]
  have ahead: "ahead (pos_of p) (e # es')" using ok es by (simp add: producer_ok_def)
  then have at: "unat (offset e) = pos_of p" "length_ok e" using off e by (auto simp: ahead_def)
  let ?n = "min (entry_length e) most"
  have n: "0 < unat ?n" "unat ?n \<le> unat (entry_length e)"
    using at most by (auto simp: unat_min unat_gt_0 length_ok_def)
  have left: "unat (entry_length e - ?n) = unat (entry_length e) - unat ?n"
    by (simp add: unat_sub_exact)
  let ?c = "\<lparr>cut_position = stream_position p, cut_frames = entry_length e, cut_kind = Zero\<rparr>"
  let ?p = "p\<lparr>stage := (stage p)\<lparr>next_entry := next_entry (stage p) + 1,
      zeros_left := entry_length e - min ?n (entry_length e)\<rparr>,
    play_log := (play_log p)\<lparr>cuts := cuts (play_log p) @ [?c]\<rparr>,
    fifo := fifo p @ replicate (unat ?n) 0\<rparr>"
  have hand: "offered (stage p) - position (stage p) \<noteq> 0"
    using on_hand_word [OF ok] h by (metis less_irrefl unat_0)
  have step: "stage_next (stage p) most = \<lparr>step_kind = Zeros, step_frames = ?n\<rparr>"
    using z hand pend(1) off e
    by (simp add: stage_next_def stage_begin_def Let_def word_le_nat_alt)
  have room: "length (cuts (play_log p)) < max_entries"
    using ok pend(2) cap by (auto simp: producer_ok_def)
  have run: "carry_out put (stage_next (stage p) most) p = (?p, success)"
    unfolding step using z pend(1) room
    by (subst carry_out_log_Some) (auto simp: stage_take_def take_zeros_def run_step_def)
  have N: "pos_of p < N" using on_hand_N [OF ok] h by simp
  then have frames: "0 < length (frames_left p)" using length_frames_left [OF ok] by simp
  have "replicate (unat ?n) (0 :: pcm24_sample) @ replicate (unat (entry_length e) - unat ?n) 0 =
      replicate (unat (entry_length e)) 0"
    using n(2) by (simp flip: replicate_add)
  moreover have same: "frames_left ?p = frames_left p"
    by (simp add: frames_left_def on_hand_def)
  moreover have tail: "entries_left ?p = es'"
    using pend sch by (simp add: entries_left_def)
  ultimately have stream: "stream_total put ?p = stream_total put p"
    using cut_output_zero [OF e at(1), of "map put (frames_left p)" "\<lambda>_. 0" es'] frames
    unfolding stream_total_def same tail es by (simp add: left z del: cut_output.simps)
  have trace: "trace_total N ?p = trace_total N p"
    unfolding trace_total_def tail es
    using N z e at fifo n by (simp add: left trace_of_def stream_position_def Let_def)
  have "zeros_ahead (e # es') = unat (entry_length e) + zeros_ahead es'"
    using e by (simp add: zeros_ahead_def)
  then have less: "passes_left N ?p < passes_left N p"
    using n z pend es sch N by (simp add: passes_left_def left entries_left_def)
  have "producer_ok es N ?p"
    using ok pend es sch ahead_Cons [OF ahead refl] at e
    by (simp add: producer_ok_def entries_left_def on_hand_def entry_end_def)
  then show ?thesis using run stream trace less by (auto simp: pass_ok_def)
qed

lemma discard_pass:
  assumes ok: "producer_ok es N p" and z: "zeros_left (stage p) = 0" and h: "0 < on_hand p"
    and es: "entries_left p = e # es'" and off: "unat (offset e) \<le> pos_of p" and e: "kind e = Drop"
    and cap: "length es \<le> max_entries" and fifo: "length (fifo p) < 2 ^ 32"
  shows "\<exists>p'. carry_out put (stage_next (stage p) most) p = (p', success) \<and> pass_ok put es N p p'"
proof -
  have sch: "schedule (stage p) = es" using ok by (simp add: producer_ok_def)
  note pend = entries_left_Cons [OF es sch cap]
  have ahead: "ahead (pos_of p) (e # es')" using ok es by (simp add: producer_ok_def)
  then have under: "pos_of p < entry_end e"
    using off e by (auto simp: ahead_def entry_end_def length_ok_def)
  let ?w = "offered (stage p) - position (stage p)"
  let ?left = "entry_length e - (position (stage p) - offset e)"
  let ?n = "min ?left ?w"
  have into: "unat (position (stage p) - offset e) = pos_of p - unat (offset e)"
    using off by (simp add: unat_sub_exact word_le_nat_alt)
  then have "unat ?left = entry_end e - pos_of p"
    using under off e by (subst unat_sub_exact) (auto simp: entry_end_def word_le_nat_alt)
  then have n: "unat ?n = min (entry_end e - pos_of p) (on_hand p)"
    using on_hand_word [OF ok] by (simp add: unat_min)
  then have n': "0 < unat ?n" "unat ?n \<le> on_hand p" "pos_of p + unat ?n \<le> entry_end e"
    using h under by auto
  note pos' = advance_word [OF ok n'(2)]
  have N: "pos_of p < N" "pos_of p + unat ?n \<le> N" using on_hand_N [OF ok] h n'(2) by simp_all
  then have offN: "unat (offset e) < N" "unat (offset e) < pos_of p + length (frames_left p)"
    using off length_frames_left [OF ok] by simp_all
  have hand: "?w \<noteq> 0" using on_hand_word [OF ok] h by (metis less_irrefl unat_0)
  have step: "stage_next (stage p) most = \<lparr>step_kind = Discard, step_frames = ?n\<rparr>"
    using z hand pend(1) off e
    by (simp add: stage_next_def stage_begin_def Let_def word_le_nat_alt)
  have gone: "unat (position (stage p) + ?n - offset e) = pos_of p + unat ?n - unat (offset e)"
    using pos' off by (subst unat_sub_exact) (auto simp: word_le_nat_alt)
  have keep: "pending_entry ((stage p)\<lparr>position := q\<rparr>) = Some e" for q
    using pend(1) by (simp add: pending_entry_def split: if_splits)
  have frames: "drop (length (engine_block p) - (unat (offered (stage p)) - (pos_of p + unat ?n))) (engine_block p) @
      concat (source p) = drop (unat ?n) (frames_left p)"
    using frames_left_advance [OF ok n'(2)] by (simp add: on_hand_def)
  show ?thesis
  proof (cases "pos_of p + unat ?n < entry_end e")
    case True
    then have "unat (position (stage p) + ?n - offset e) < unat (entry_length e)"
      using gone off e by (simp add: entry_end_def)
    then have short: "position (stage p) + ?n - offset e < entry_length e"
      by (simp add: word_less_nat_alt)
    let ?p = "p\<lparr>stage := (stage p)\<lparr>position := position (stage p) + ?n\<rparr>\<rparr>"
    have run: "carry_out put (stage_next (stage p) most) p = (?p, success)"
      unfolding step using z keep short
      by (subst carry_out_log) (auto simp: stage_take_def take_discard_def run_step_def Let_def)
    have view: "frames_left ?p = drop (unat ?n) (frames_left p)" "entries_left ?p = e # es'"
      "pos_of ?p = pos_of p + unat ?n" "on_hand ?p = on_hand p - unat ?n"
      using frames es pos' by (simp_all add: frames_left_def on_hand_def entries_left_def)
    have "stream_total put ?p = stream_total put p"
      using cut_output_discard_part [OF e off True, of "map put (frames_left p)" es' "\<lambda>_. 0"]
        offN n'(2) length_frames_left [OF ok] on_hand_N [OF ok] ahead
      unfolding stream_total_def view es by (simp add: z drop_map del: cut_output.simps)
    moreover have "trace_total N ?p = trace_total N p"
    proof -
      have "unat (offset e) - (pos_of p + unat ?n) = 0" "unat (offset e) - pos_of p = 0"
        using off by simp_all
      then show ?thesis
        unfolding trace_total_def view es using e by (simp add: Let_def del: diff_is_0_eq)
    qed
    moreover have "passes_left N ?p < passes_left N p"
      unfolding passes_left_def view es using N n'(1) by simp
    moreover have "producer_ok es N ?p"
      using ok n'(2) ahead_mono [OF ahead, of "pos_of p + unat ?n"] True e
      unfolding producer_ok_def view by (auto simp: on_hand_def)
    ultimately show ?thesis using run by (auto simp: pass_ok_def)
  next
    case False
    then have all: "pos_of p + unat ?n = entry_end e" using n'(3) by simp
    then have "\<not> unat (position (stage p) + ?n - offset e) < unat (entry_length e)"
      using gone off e by (simp add: entry_end_def)
    then have whole: "\<not> position (stage p) + ?n - offset e < entry_length e"
      by (simp add: word_less_nat_alt)
    let ?c = "\<lparr>cut_position = stream_position p, cut_frames = entry_length e, cut_kind = Drop\<rparr>"
    let ?p = "p\<lparr>stage := (stage p)\<lparr>position := position (stage p) + ?n, next_entry := next_entry (stage p) + 1\<rparr>,
      play_log := (play_log p)\<lparr>cuts := cuts (play_log p) @ [?c]\<rparr>\<rparr>"
    have room: "length (cuts (play_log p)) < max_entries"
      using ok pend(2) cap by (auto simp: producer_ok_def)
    have run: "carry_out put (stage_next (stage p) most) p = (?p, success)"
      unfolding step using z keep whole room
      by (subst carry_out_log_Some) (auto simp: stage_take_def take_discard_def run_step_def Let_def)
    have view: "frames_left ?p = drop (unat ?n) (frames_left p)" "entries_left ?p = es'"
      "pos_of ?p = pos_of p + unat ?n" "on_hand ?p = on_hand p - unat ?n"
      using frames pend sch pos' by (simp_all add: frames_left_def on_hand_def entries_left_def)
    have "stream_total put ?p = stream_total put p"
      using cut_output_discard_all [OF e off all, of "map put (frames_left p)" "\<lambda>_. 0" es'] offN
      unfolding stream_total_def view es by (simp add: z drop_map del: cut_output.simps)
    moreover have "trace_total N ?p = trace_total N p"
      unfolding trace_total_def view es using off offN e fifo all N
      by (simp add: Let_def trace_of_def stream_position_def z entry_end_def)
    moreover have "passes_left N ?p < passes_left N p"
      unfolding passes_left_def view es using N n'(1) e by (simp add: zeros_ahead_def)
    moreover have "producer_ok es N ?p"
      using ok n'(2) ahead_Cons [OF ahead refl] all pend
      unfolding producer_ok_def view by (auto simp: on_hand_def)
    ultimately show ?thesis using run by (auto simp: pass_ok_def)
  qed
qed

lemma send_pass:
  assumes ok: "producer_ok es N p" and z: "zeros_left (stage p) = 0" and h: "0 < on_hand p"
    and far: "\<And>e es'. entries_left p = e # es' \<Longrightarrow> pos_of p < unat (offset e)"
    and most: "most \<noteq> 0" and cap: "length es \<le> max_entries"
  shows "\<exists>p'. carry_out put (stage_next (stage p) most) p = (p', success) \<and> pass_ok put es N p p'"
proof -
  have sch: "schedule (stage p) = es" using ok by (simp add: producer_ok_def)
  have ahead: "ahead (pos_of p) (entries_left p)" using ok by (simp add: producer_ok_def)
  let ?w = "offered (stage p) - position (stage p)"
  have hand: "?w \<noteq> 0" using on_hand_word [OF ok] h by (metis less_irrefl unat_0)
  obtain n where step: "stage_next (stage p) most = \<lparr>step_kind = Send, step_frames = n\<rparr>"
    and n: "0 < unat n" "unat n \<le> on_hand p"
    and until: "\<And>e es'. entries_left p = e # es' \<Longrightarrow> pos_of p + unat n \<le> unat (offset e)"
  proof (cases "entries_left p")
    case Nil
    let ?n = "min most ?w"
    have "stage_next (stage p) most = \<lparr>step_kind = Send, step_frames = ?n\<rparr>"
      using z hand entries_left_Nil [OF Nil sch cap] by (simp add: stage_next_def Let_def)
    moreover have "0 < unat ?n" "unat ?n \<le> on_hand p"
      using on_hand_word [OF ok] h most by (auto simp: unat_min unat_gt_0)
    ultimately show thesis using that Nil by auto
  next
    case (Cons e es')
    let ?n = "min most (min (offset e - position (stage p)) ?w)"
    have far': "pos_of p < unat (offset e)" using far Cons by blast
    then have gap: "unat (offset e - position (stage p)) = unat (offset e) - pos_of p"
      by (simp add: unat_sub_exact word_le_nat_alt)
    have "stage_next (stage p) most = \<lparr>step_kind = Send, step_frames = ?n\<rparr>"
      using z hand entries_left_Cons(1) [OF Cons sch cap] far'
      by (simp add: stage_next_def Let_def word_le_nat_alt)
    moreover have "0 < unat ?n" "unat ?n \<le> on_hand p" "pos_of p + unat ?n \<le> unat (offset e)"
      using on_hand_word [OF ok] h most gap far' by (auto simp: unat_min unat_gt_0)
    ultimately show thesis using that Cons by auto
  qed
  note pos' = advance_word [OF ok n(2)]
  have N: "pos_of p < N" "pos_of p + unat n \<le> N" using on_hand_N [OF ok] h n(2) by simp_all
  let ?out = "map put (take (unat n) (frames_left p))"
  let ?p = "p\<lparr>stage := (stage p)\<lparr>position := position (stage p) + n\<rparr>, fifo := fifo p @ ?out\<rparr>"
  have "take (unat n) (drop (length (engine_block p) - on_hand p) (engine_block p)) =
      take (unat n) (frames_left p)"
    using n(2) ok by (auto simp: frames_left_def producer_ok_def)
  then have run: "carry_out put (stage_next (stage p) most) p = (?p, success)"
    unfolding step using z block_position_nat [OF ok]
    by (subst carry_out_log) (auto simp: stage_take_def run_step_def Let_def)
  have view: "frames_left ?p = drop (unat n) (frames_left p)" "entries_left ?p = entries_left p"
    "pos_of ?p = pos_of p + unat n" "on_hand ?p = on_hand p - unat n"
    using frames_left_advance [OF ok n(2)] pos'
    by (simp_all add: frames_left_def on_hand_def entries_left_def)
  have long: "unat n \<le> length (frames_left p)"
    using length_frames_left [OF ok] N by simp
  have "stream_total put ?p = stream_total put p"
    using cut_output_send [of "unat n" "map put (frames_left p)" "entries_left p" "pos_of p" "\<lambda>_. 0"]
      until long
    unfolding stream_total_def view by (simp add: z drop_map take_map)
  moreover have "trace_total N ?p = trace_total N p"
    using cut_trace_send [of "entries_left p" "pos_of p" "unat n" N "length (fifo p)"] until long
    unfolding trace_total_def view by (simp add: z)
  moreover have "passes_left N ?p < passes_left N p"
    unfolding passes_left_def view using N n(1) by simp
  moreover have "ahead (pos_of p + unat n) (entries_left p)"
    using ahead until by (cases "entries_left p") (auto intro: ahead_mono)
  then have "producer_ok es N ?p"
    using ok n(2) unfolding producer_ok_def view pos' by (auto simp: on_hand_def)
  ultimately show ?thesis using run by (auto simp: pass_ok_def)
qed

lemma one_pass:
  assumes "producer_ok es N p" and "zeros_left (stage p) \<noteq> 0 \<or> 0 < on_hand p \<or> source p \<noteq> []"
    and "most \<noteq> 0" and "length es \<le> max_entries" and "length (fifo p) < 2 ^ 32" and "N < 2 ^ 32"
  shows "\<exists>p'. carry_out put (stage_next (stage p) most) p = (p', success) \<and> pass_ok put es N p p'"
proof (cases "zeros_left (stage p) = 0")
  case False
  then show ?thesis using assms zeros_pass by blast
next
  case z: True
  show ?thesis
  proof (cases "on_hand p = 0")
    case True
    then obtain b bs where "source p = b # bs" using assms(2) z by (cases "source p") auto
    then show ?thesis using assms z True pull_pass by blast
  next
    case False
    show ?thesis
    proof (cases "\<exists>e es'. entries_left p = e # es' \<and> unat (offset e) \<le> pos_of p")
      case True
      then obtain e es' where e: "entries_left p = e # es'" "unat (offset e) \<le> pos_of p" by blast
      show ?thesis
      proof (cases "kind e")
        case Drop
        then show ?thesis using discard_pass [OF assms(1) z _ e] assms False by blast
      next
        case Zero
        then show ?thesis using begin_zero_pass [OF assms(1) z _ e] assms False by blast
      qed
    next
      case far: False
      then have "\<And>e es'. entries_left p = e # es' \<Longrightarrow> pos_of p < unat (offset e)"
        by (metis not_le)
      then show ?thesis using send_pass [OF assms(1) z] assms False by blast
    qed
  qed
qed

lemma pass_not_end:
  assumes "producer_ok es N p" and "zeros_left (stage p) \<noteq> 0 \<or> 0 < on_hand p \<or> source p \<noteq> []"
  shows "step_kind (stage_next (stage p) most) \<noteq> Step_end"
  using assms
  by (auto simp: stage_next_def stage_begin_def Let_def producer_ok_def split: option.splits)

section \<open>The play\<close>

text \<open>What a finished play left behind, the engine's output \<open>N\<close> frames long.\<close>

definition play_done :: "valid_schedule \<Rightarrow> nat \<Rightarrow> pcm24_sample list \<Rightarrow> (nat \<times> nat \<times> cut_kind) list \<Rightarrow>
    'f producer \<Rightarrow> bool" where
  "play_done es N stream trace p \<longleftrightarrow>
     fifo p = stream \<and> map trace_of (cuts (play_log p)) = trace \<and>
     rejected (play_log p) = of_nat (length es - length trace) \<and>
     ended (play_log p) \<and> log_end (play_log p) = of_nat (length stream) \<and> eof_enqueued p"

lemma finish_pass:
  assumes ok: "producer_ok es N p" and z: "zeros_left (stage p) = 0" and h: "on_hand p = 0"
    and src: "source p = []" and cap: "length es \<le> max_entries" and fifo: "length (fifo p) < 2 ^ 32"
    and "2 \<le> fuel"
  shows "\<exists>p'. produce fuel put most p = Some (p', success) \<and>
    play_done es N (stream_total put p) (trace_total N p) p'"
proof -
  have sch: "schedule (stage p) = es" using ok by (simp add: producer_ok_def)
  have pos: "offered (stage p) = position (stage p)" "pos_of p = N"
    using ok h src by (auto simp: producer_ok_def on_hand_def to_nat)
  have ahead: "ahead (pos_of p) (entries_left p)" using ok by (simp add: producer_ok_def)
  have pulls: "stage_next (stage p) most = \<lparr>step_kind = Pull, step_frames = 0\<rparr>"
    using z pos ok by (simp add: stage_next_def producer_ok_def)
  have none: "frames_left p = []" using src h by (simp add: frames_left_def)
  then have stream: "stream_total put p = fifo p"
    using cut_output_Nil [OF ahead] z by (simp add: stream_total_def)
  have size: "unat (schedule_size es) = length es" "unat (next_entry (stage p)) \<le> length es"
    using cap ok by (simp_all add: schedule_size_def max_entries_def producer_ok_def)
  have count: "length (cuts (play_log p)) = unat (next_entry (stage p))" "rejected (play_log p) = 0"
    using ok by (simp_all add: producer_ok_def)
  obtain p' where fin: "finish_output p = (p', success)" and same: "fifo p' = fifo p"
      "zeros_left (stage p') = 0" "offered (stage p') = position (stage p')" "finished (stage p')"
    and log: "map trace_of (cuts (play_log p')) = trace_total N p"
      "rejected (play_log p') = of_nat (length es - length (trace_total N p))"
  proof (cases "\<exists>e es'. entries_left p = e # es' \<and> unat (offset e) < pos_of p")
    case True
    then obtain e es' where es: "entries_left p = e # es'" "unat (offset e) < pos_of p" by blast
    note pend = entries_left_Cons [OF es(1) sch cap]
    have e: "kind e = Drop" "N < entry_end e" using ahead es pos by (auto simp: ahead_def)
    let ?c = "\<lparr>cut_position = stream_position p, cut_frames = position (stage p) - offset e, cut_kind = Drop\<rparr>"
    have "next_entry (stage p) < schedule_size es" "next_entry (stage p) + 1 \<le> schedule_size es"
      using pend(2,3) size by (simp_all add: word_less_nat_alt word_le_nat_alt)
    then have past: "schedule_size es - (next_entry (stage p) + 1) =
        of_nat (length es - Suc (unat (next_entry (stage p))))"
      using pend(3) size cap by (simp add: word_unat_eq_iff unat_sub_exact max_entries_def)
    have "ahead (entry_end e) es'" using ahead_Cons [OF _ refl] ahead es(1) by simp
    then have "cut_trace N (entry_end e) n es' = []" for n
      using e(2) ahead es(1) by (cases es') (auto simp: Let_def ahead_def dest: follows_entry_end)
    moreover have "unat (position (stage p) - offset e) = N - unat (offset e)"
      using es(2) pos(2) by (simp add: unat_sub_exact word_le_nat_alt)
    ultimately have trace: "trace_total N p = map trace_of (cuts (play_log p) @ [?c])"
      unfolding trace_total_def es(1) using es(2) pos(2) e z fifo
      by (auto simp: Let_def trace_of_def stream_position_def entry_end_def)
    have room: "length (cuts (play_log p)) < max_entries" using count pend(2) cap by simp
    show thesis
    proof (rule that)
      show "finish_output p = (p\<lparr>stage := (stage p)\<lparr>next_entry := schedule_size es, finished := True\<rparr>,
          play_log := (play_log p)\<lparr>cuts := cuts (play_log p) @ [?c],
            rejected := schedule_size es - (next_entry (stage p) + 1)\<rparr>\<rparr>, success)"
        using pend(1) e es(2) room count sch
        by (simp add: finish_output_def stage_finish_def word_less_nat_alt log_cut_def log_record_def
            log_reject_def)
    qed (use z pos trace past count in simp_all)
  next
    case False
    then have past_all: "\<And>e es'. entries_left p = e # es' \<Longrightarrow> N \<le> unat (offset e)"
      using pos(2) by (metis not_le)
    have keep: "(case pending_entry (stage p) of
        None \<Rightarrow> (None, next_entry (stage p))
      | Some e \<Rightarrow>
          if kind e = Drop \<and> offset e < position (stage p)
          then (Some \<lparr>cut_position = stream_position p, cut_frames = position (stage p) - offset e,
                   cut_kind = Drop\<rparr>, next_entry (stage p) + 1)
          else (None, next_entry (stage p))) = (None, next_entry (stage p))"
      using entries_left_Nil [OF _ sch cap] entries_left_Cons(1) [OF _ sch cap] past_all pos(2)
      by (cases "entries_left p") (auto simp: word_less_nat_alt not_less)
    have past: "schedule_size es - next_entry (stage p) = of_nat (length es - unat (next_entry (stage p)))"
      using size cap by (simp add: word_unat_eq_iff unat_sub_exact word_le_nat_alt max_entries_def)
    have trace: "trace_total N p = map trace_of (cuts (play_log p))"
      using past_all by (cases "entries_left p") (auto simp: trace_total_def Let_def)
    show thesis
    proof (rule that)
      show "finish_output p = (p\<lparr>stage := (stage p)\<lparr>next_entry := schedule_size es, finished := True\<rparr>,
          play_log := (play_log p)\<lparr>rejected := schedule_size es - next_entry (stage p)\<rparr>\<rparr>, success)"
        unfolding finish_output_def stage_finish_def keep
        using sch count by (simp add: log_cut_def log_reject_def)
    qed (use z pos trace past count in simp_all)
  qed
  have carry: "carry_out put (stage_next (stage p) most) p = (p', success)"
    unfolding pulls using fin src
    by (subst carry_out_log) (auto simp: stage_take_def run_step_def pull_block_def)
  have stop: "step_kind (stage_next (stage p') most) = Step_end"
    using same by (simp add: stage_next_def)
  obtain k where "fuel = Suc (Suc k)" using assms(7) by (metis Suc_le_D numeral_2_eq_2 Suc_le_mono)
  then have "produce fuel put most p = Some (end_stream p', success)"
    using carry pulls stop by (simp add: Let_def)
  moreover have "play_done es N (stream_total put p) (trace_total N p) (end_stream p')"
    using log same stream
    by (simp add: play_done_def end_stream_def log_set_end_def stream_position_def)
  ultimately show ?thesis by blast
qed

lemma produce_from:
  assumes "producer_ok es N p" and "most \<noteq> 0" and "length es \<le> max_entries"
    and "length (stream_total put p) < 2 ^ 32" and "N < 2 ^ 32" and "passes_left N p + 2 \<le> fuel"
  shows "\<exists>p'. produce fuel put most p = Some (p', success) \<and>
    play_done es N (stream_total put p) (trace_total N p) p'"
  using assms
proof (induction fuel arbitrary: p)
  case 0
  then show ?case by simp
next
  case (Suc fuel)
  have fifo: "length (fifo p) < 2 ^ 32" using Suc.prems(4) by (simp add: stream_total_def)
  show ?case
  proof (cases "zeros_left (stage p) \<noteq> 0 \<or> 0 < on_hand p \<or> source p \<noteq> []")
    case True
    obtain p' where step: "carry_out put (stage_next (stage p) most) p = (p', success)"
      and pass: "pass_ok put es N p p'"
      using one_pass [OF Suc.prems(1) True Suc.prems(2,3) fifo Suc.prems(5)] by blast
    have "produce (Suc fuel) put most p = produce fuel put most p'"
      using step pass_not_end [OF Suc.prems(1) True] by (simp add: Let_def)
    then show ?thesis using Suc.IH [of p'] Suc.prems pass by (simp add: pass_ok_def)
  next
    case False
    then show ?thesis using Suc.prems fifo by (intro finish_pass) auto
  qed
qed

lemma zeros_ahead_bound: "list_all length_ok es \<Longrightarrow> zeros_ahead es \<le> 4800 * length es"
  by (induction es) (auto simp: zeros_ahead_def length_ok_def)

text \<open>
  C1. A play of any valid schedule ends, and the stream it put into the FIFO is the engine's
  output with the DROPs' frames taken out and the ZEROs' zeros put in, whatever blocks the
  engine puts its output out in and whatever the step limit (one frame at least). The log
  holds each cut that applied, in order, at its place in the stream, and counts the entries
  at or past the end of the output. As many passes as blocks, frames and zeros, and two more,
  suffice.
\<close>

theorem produce_plays_cut_stream:
  assumes "schedule_ok es" and "length es \<le> max_entries" and "most \<noteq> 0"
    and "length (concat blocks) < 2 ^ 32"
    and "length (cut_output (\<lambda>_. 0) 0 (map put (concat blocks)) es) < 2 ^ 32"
    and "length blocks + length (concat blocks) + 16 * 4800 + 2 \<le> fuel"
  shows "\<exists>p. produce fuel put most (new_play es blocks) = Some (p, success) \<and>
    play_done es (length (concat blocks))
      (cut_output (\<lambda>_. 0) 0 (map put (concat blocks)) es)
      (cut_trace (length (concat blocks)) 0 0 es) p"
proof -
  let ?p = "new_play es blocks :: 'a producer" and ?N = "length (concat blocks)"
  have ahead: "ahead 0 es" using assms(1) by (auto simp: ahead_def schedule_ok_def split: list.splits)
  have ok: "producer_ok es ?N ?p"
    using ahead by (simp add: producer_ok_def new_play_def stage_latch_def on_hand_def
        entries_left_def log_restart_def)
  have totals: "stream_total put ?p = cut_output (\<lambda>_. 0) 0 (map put (concat blocks)) es"
    "trace_total ?N ?p = cut_trace ?N 0 0 es"
    by (simp_all add: stream_total_def trace_total_def new_play_def stage_latch_def
        frames_left_def on_hand_def entries_left_def log_restart_def)
  have "zeros_ahead es \<le> 16 * 4800"
    using zeros_ahead_bound [of es] assms(1,2) by (simp add: schedule_ok_def max_entries_def)
  then have "passes_left ?N ?p + 2 \<le> fuel"
    using assms(6) by (simp add: passes_left_def new_play_def stage_latch_def entries_left_def)
  then show ?thesis
    using produce_from [OF ok assms(3,2), of put fuel] assms(4,5) unfolding totals by blast
qed

text \<open>
  The worked example of the header (\<^verbatim>\<open>stage_holds()\<close>): ten frames in blocks of 4 and 6, a
  ZERO of 2 before frame 1, a DROP of frames 3 to 5, and a ZERO at the output's end.
\<close>

definition worked_example :: cut_list where
  "worked_example =
     [\<lparr>offset = 1, entry_length = 2, kind = Zero\<rparr>,
      \<lparr>offset = 3, entry_length = 3, kind = Drop\<rparr>,
      \<lparr>offset = 10, entry_length = 1, kind = Zero\<rparr>]"

lemma worked_example_ok: "schedule_ok worked_example"
proof -
  have "validate worked_example = Inr worked_example" by code_simp
  then show ?thesis by (simp add: validate_accepts)
qed

lemma produce_plays_cut_stream_witness:
  "\<exists>p. produce 80000 (\<lambda>x. x) 4 (new_play worked_example [[10, 11, 12, 13], [14, 15, 16, 17, 18, 19]]) =
       Some (p, success) \<and>
     play_done worked_example 10 [10, 0, 0, 11, 12, 16, 17, 18, 19] [(1, 2, Zero), (5, 3, Drop)] p"
proof -
  let ?blocks = "[[10, 11, 12, 13], [14, 15, 16, 17, 18, 19]] :: int list list"
  have N: "length (concat ?blocks) = 10" by simp
  have out: "cut_output (\<lambda>_. 0) 0 (map (\<lambda>x. x) (concat ?blocks)) worked_example =
      [10, 0, 0, 11, 12, 16, 17, 18, 19]"
    by code_simp
  have trace: "cut_trace 10 0 0 worked_example = [(1, 2, Zero), (5, 3, Drop)]"
    by code_simp
  show ?thesis
    using produce_plays_cut_stream [of worked_example 4 ?blocks "\<lambda>x. x" 80000, unfolded N out trace]
      worked_example_ok
    by (simp add: worked_example_def max_entries_def)
qed

end
