(* ===== verification/CutTally.thy ===== *)
theory CutTally
  imports Producer
begin

text \<open>
  What a play's log says of the frames a route confirmed sent (\<^verbatim>\<open>CutLog::tally()\<close>): the
  tally of every prefix of the stream is exact.
\<close>

declare upt_Suc [simp del]

section \<open>The log of a schedule, on the naturals\<close>

definition zeros_in :: "(nat \<times> nat \<times> cut_kind) list \<Rightarrow> nat \<Rightarrow> nat" where
  "zeros_in L n = sum_list (map (\<lambda>(p, f, k). if k = Zero then min f (n - p) else 0) L)"

definition drops_in :: "(nat \<Rightarrow> bool) \<Rightarrow> (nat \<times> nat \<times> cut_kind) list \<Rightarrow> nat" where
  "drops_in eff L = sum_list (map (\<lambda>(p, f, k). if k = Drop \<and> eff p then f else 0) L)"

lemma zeros_in_simps [simp]:
  "zeros_in [] n = 0"
  "zeros_in ((p, f, k) # L) n = (if k = Zero then min f (n - p) else 0) + zeros_in L n"
  by (simp_all add: zeros_in_def)

lemma drops_in_simps [simp]:
  "drops_in eff [] = 0"
  "drops_in eff ((p, f, k) # L) = (if k = Drop \<and> eff p then f else 0) + drops_in eff L"
  by (simp_all add: drops_in_def)

lemma zeros_in_before: "\<forall>(p, f, k) \<in> set L. n \<le> p \<Longrightarrow> zeros_in L n = 0"
  by (induction L) auto

lemma drops_in_before: "\<forall>(p, f, k) \<in> set L. \<not> eff p \<Longrightarrow> drops_in eff L = 0"
  by (induction L) auto

text \<open>The axis of a stream: the frames of the output up to each of its frames.\<close>

definition stream_axis :: "nat \<Rightarrow> nat \<Rightarrow> cut_entry list \<Rightarrow> nat list" where
  "stream_axis N pos es = cut_output id pos [Suc pos..<Suc N] es"

text \<open>The stream with its inserted zeros marked.\<close>

definition stream_marks :: "nat \<Rightarrow> nat \<Rightarrow> cut_entry list \<Rightarrow> bool list" where
  "stream_marks N pos es = cut_output (\<lambda>_. True) pos (replicate (N - pos) False) es"

lemma map_cut_output:
  "map f (cut_output z pos xs es) = cut_output (f \<circ> z) pos (map f xs) es"
  by (induction es arbitrary: pos xs)
     (auto simp: Let_def take_map drop_map split: cut_kind.splits)

lemma length_cut_output:
  assumes "length xs = length ys"
  shows "length (cut_output z pos xs es) = length (cut_output z' pos ys es)"
proof -
  have "map (\<lambda>_. ()) xs = map (\<lambda>_. ()) ys" using assms by (simp add: map_replicate_const)
  then have "map (\<lambda>_. ()) (cut_output z pos xs es) = map (\<lambda>_. ()) (cut_output z' pos ys es)"
    by (simp add: map_cut_output comp_def)
  then show ?thesis by (rule map_eq_imp_length_eq)
qed

lemma length_axis:
  assumes "length xs = N - pos"
  shows "length (cut_output z pos xs es) = length (stream_axis N pos es)"
    "length (stream_marks N pos es) = length (stream_axis N pos es)"
  using assms unfolding stream_axis_def stream_marks_def by (auto intro: length_cut_output)

lemma stream_axis_past: "pos \<le> unat (offset e) \<Longrightarrow> N \<le> unat (offset e) \<Longrightarrow> stream_axis N pos (e # es) = [Suc pos..<Suc N]"
  by (auto simp: stream_axis_def Let_def)

lemma stream_marks_past: "pos \<le> unat (offset e) \<Longrightarrow> N \<le> unat (offset e) \<Longrightarrow> stream_marks N pos (e # es) = replicate (N - pos) False"
  by (auto simp: stream_marks_def Let_def)

text \<open>The part of the stream before an entry, and the part from it on.\<close>

lemma stream_axis_entry:
  assumes "pos \<le> unat (offset e)" and "unat (offset e) < N"
  shows "stream_axis N pos (e # es) = [Suc pos..<Suc (unat (offset e))] @
    (if kind e = Zero then replicate (unat (entry_length e)) (unat (offset e)) @ stream_axis N (unat (offset e)) es
     else stream_axis N (entry_end e) es)"
proof -
  have "\<not> pos + length [Suc pos..<Suc N] \<le> unat (offset e)" using assms by simp
  moreover have "take (unat (offset e) - pos) [Suc pos..<Suc N] = [Suc pos..<Suc (unat (offset e))]"
    using assms by (simp add: take_upt)
  moreover have "drop (unat (offset e) - pos) [Suc pos..<Suc N] = [Suc (unat (offset e))..<Suc N]"
    "drop (entry_end e - pos) [Suc pos..<Suc N] = [Suc (entry_end e)..<Suc N]"
    using assms by (simp_all add: entry_end_def)
  ultimately show ?thesis
    by (cases "kind e") (simp_all add: stream_axis_def Let_def entry_end_def)
qed

lemma stream_marks_entry:
  assumes "pos \<le> unat (offset e)" and "unat (offset e) < N"
  shows "stream_marks N pos (e # es) = replicate (unat (offset e) - pos) False @
    (if kind e = Zero then replicate (unat (entry_length e)) True @ stream_marks N (unat (offset e)) es
     else stream_marks N (entry_end e) es)"
  using assms
  by (cases "kind e") (auto simp: stream_marks_def Let_def entry_end_def min_def)

lemma cut_trace_places:
  "c \<in> set (cut_trace N pos n es) \<Longrightarrow> n \<le> fst c"
proof (induction es arbitrary: pos n)
  case (Cons e es)
  then show ?case
    by (auto simp: Let_def split: if_splits cut_kind.splits dest!: Cons.IH)
qed simp

lemma cut_trace_before:
  assumes "m \<le> n"
  shows "zeros_in (cut_trace N pos n es) m = 0"
    and "drops_in (\<lambda>p. p < m) (cut_trace N pos n es) = 0"
  using assms cut_trace_places [of _ N pos n es]
  by (intro zeros_in_before drops_in_before; fastforce)+

text \<open>Every prefix of the stream: its length, less its zeros, and the frames dropped.\<close>

lemma trace_prefix:
  assumes "ahead pos es" and "\<And>e es'. es = e # es' \<Longrightarrow> pos \<le> unat (offset e)"
    and "0 < k" and "k \<le> length (stream_axis N pos es)"
  shows "k + pos + drops_in (\<lambda>p. p < n + k) (cut_trace N pos n es) =
      stream_axis N pos es ! (k - 1) + zeros_in (cut_trace N pos n es) (n + k) \<and>
    zeros_in (cut_trace N pos n es) (n + k) = length (filter (\<lambda>b. b) (take k (stream_marks N pos es)))"
  using assms
proof (induction es arbitrary: pos n k)
  case Nil
  then show ?case
    by (auto simp: stream_axis_def stream_marks_def nth_append)
next
  case (Cons e es)
  let ?off = "unat (offset e)" and ?len = "unat (entry_length e)"
  let ?g = "?off - pos"
  have pos: "pos \<le> ?off" using Cons.prems(2) by blast
  show ?case
  proof (cases "N \<le> ?off")
    case True
    then show ?thesis using Cons.prems(3,4) pos
      by (simp add: stream_axis_past stream_marks_past Let_def)
  next
    case False
    then have N: "?off < N" by simp
    note axis = stream_axis_entry [OF pos N, of es] and marks = stream_marks_entry [OF pos N, of es]
    have next_ok: "ahead (entry_end e) es" by (rule ahead_Cons [OF Cons.prems(1) refl])
    then have next_pos: "entry_end e \<le> unat (offset f)" if "es = f # fs" for f fs
      using that Cons.prems(1) by (auto simp: ahead_def dest: follows_entry_end)
    show ?thesis
    proof (cases "k \<le> ?g")
      case True
      have far: "\<forall>c \<in> set (cut_trace N pos n (e # es)). n + k \<le> fst c"
        using True N cut_trace_places by (fastforce simp: Let_def split: cut_kind.splits)
      have "zeros_in (cut_trace N pos n (e # es)) (n + k) = 0"
        "drops_in (\<lambda>p. p < n + k) (cut_trace N pos n (e # es)) = 0"
        using far by (auto intro!: zeros_in_before drops_in_before)
      moreover have "k - Suc 0 < ?g" using True Cons.prems(3) by linarith
      ultimately show ?thesis using True Cons.prems(3) unfolding axis marks
        by (simp add: nth_append cut_trace.simps)
    next
      case past: False
      show ?thesis
      proof (cases "kind e")
        case Zero
        have trace: "cut_trace N pos n (e # es) = (n + ?g, ?len, Zero) # cut_trace N ?off (n + ?g + ?len) es"
          using N Zero by (simp add: Let_def)
        show ?thesis
        proof (cases "k \<le> ?g + ?len")
          case True
          then have "\<not> k - Suc 0 < ?g" "k + pos - Suc ?off < ?len"
            using past pos by linarith+
          then show ?thesis using True past pos Zero cut_trace_before [of "n + k" "n + ?g + ?len"]
            unfolding axis marks trace by (simp add: nth_append)
        next
          case False
          define j where "j = k - (?g + ?len)"
          then have k: "k = ?g + ?len + j" "0 < j" using False by simp_all
          have "j \<le> length (stream_axis N ?off es)"
            using Cons.prems(4) k(1) Zero unfolding axis by simp
          then have IH: "j + ?off + drops_in (\<lambda>p. p < n + ?g + ?len + j) (cut_trace N ?off (n + ?g + ?len) es) =
              stream_axis N ?off es ! (j - 1) + zeros_in (cut_trace N ?off (n + ?g + ?len) es) (n + ?g + ?len + j) \<and>
            zeros_in (cut_trace N ?off (n + ?g + ?len) es) (n + ?g + ?len + j) =
              length (filter (\<lambda>b. b) (take j (stream_marks N ?off es)))"
            using Cons.IH [of ?off j "n + ?g + ?len"] next_ok next_pos Zero k(2)
            by (simp add: entry_end_def)
          moreover obtain i where i: "j = Suc i" using k(2) by (cases j) auto
          ultimately show ?thesis using Zero unfolding axis marks trace k(1)
            by (simp add: nth_append add.assoc) (use pos in linarith)
        qed
      next
        case Drop
        have trace: "cut_trace N pos n (e # es) =
            (n + ?g, min ?len (N - ?off), Drop) # cut_trace N (entry_end e) (n + ?g) es"
          using N Drop by (simp add: Let_def entry_end_def)
        define j where "j = k - ?g"
        then have k: "k = ?g + j" "0 < j" using past by simp_all
        have long: "j \<le> length (stream_axis N (entry_end e) es)"
          using Cons.prems(4) k(1) Drop unfolding axis by simp
        have "entry_end e < N"
        proof (rule ccontr)
          assume "\<not> entry_end e < N"
          then have "stream_axis N (entry_end e) es = []"
            using cut_output_Nil [OF next_ok] by (simp add: stream_axis_def)
          then show False using long k(2) by simp
        qed
        then have whole: "min ?len (N - ?off) = ?len" using Drop by (simp add: entry_end_def)
        have "j + entry_end e + drops_in (\<lambda>p. p < n + ?g + j) (cut_trace N (entry_end e) (n + ?g) es) =
            stream_axis N (entry_end e) es ! (j - 1) + zeros_in (cut_trace N (entry_end e) (n + ?g) es) (n + ?g + j) \<and>
          zeros_in (cut_trace N (entry_end e) (n + ?g) es) (n + ?g + j) =
            length (filter (\<lambda>b. b) (take j (stream_marks N (entry_end e) es)))"
          using Cons.IH [OF next_ok next_pos k(2) long, where n = "n + ?g"] by (simp add: add.assoc)
        moreover obtain i where i: "j = Suc i" using k(2) by (cases j) auto
        moreover have "kind e \<noteq> Zero" "entry_end e = ?off + ?len" using Drop by (simp_all add: entry_end_def)
        ultimately show ?thesis using whole unfolding axis marks trace k(1)
          by (simp add: nth_append add.assoc) (use pos in linarith)
      qed
    qed
  qed
qed

lemma cut_trace_over: "ahead pos es \<Longrightarrow> N \<le> pos \<Longrightarrow> (\<And>e es'. es = e # es' \<Longrightarrow> pos \<le> unat (offset e)) \<Longrightarrow>
    cut_trace N pos n es = [] \<and> stream_axis N pos es = []"
  using cut_output_Nil [of pos es id] by (cases es) (force simp: Let_def stream_axis_def)+

text \<open>The whole stream: the whole output, each DROP counted.\<close>

lemma trace_whole:
  assumes "ahead pos es" and "\<And>e es'. es = e # es' \<Longrightarrow> pos \<le> unat (offset e)" and "pos \<le> N"
    and "n + length (stream_axis N pos es) \<le> m"
  shows "length (stream_axis N pos es) + pos + drops_in (\<lambda>q. q \<le> m) (cut_trace N pos n es) =
    N + zeros_in (cut_trace N pos n es) m"
  using assms
proof (induction es arbitrary: pos n)
  case Nil
  then show ?case by (simp add: stream_axis_def)
next
  case (Cons e es)
  let ?off = "unat (offset e)" and ?len = "unat (entry_length e)"
  have pos: "pos \<le> ?off" using Cons.prems(2) by blast
  show ?case
  proof (cases "N \<le> ?off")
    case True
    then show ?thesis using Cons.prems(3) pos by (simp add: stream_axis_past Let_def)
  next
    case False
    then have N: "?off < N" by simp
    note axis = stream_axis_entry [OF pos N, of es]
    have next_ok: "ahead (entry_end e) es" by (rule ahead_Cons [OF Cons.prems(1) refl])
    then have next_pos: "entry_end e \<le> unat (offset f)" if "es = f # fs" for f fs
      using that Cons.prems(1) by (auto simp: ahead_def dest: follows_entry_end)
    show ?thesis
    proof (cases "kind e")
      case Zero
      have "n + (?off - pos) + ?len + length (stream_axis N ?off es) \<le> m"
        using Cons.prems(4) Zero unfolding axis by simp
      moreover from this have "length (stream_axis N ?off es) + ?off + drops_in (\<lambda>q. q \<le> m) (cut_trace N ?off (n + (?off - pos) + ?len) es) =
          N + zeros_in (cut_trace N ?off (n + (?off - pos) + ?len) es) m"
        using Cons.IH [of ?off "n + (?off - pos) + ?len"] next_ok next_pos Zero N by (simp add: entry_end_def)
      ultimately show ?thesis using Zero N pos unfolding axis by (simp add: Let_def)
    next
      case Drop
      show ?thesis
      proof (cases "entry_end e \<le> N")
        case True
        moreover have "n + (?off - pos) + length (stream_axis N (entry_end e) es) \<le> m"
          using Cons.prems(4) Drop unfolding axis by simp
        ultimately have "length (stream_axis N (entry_end e) es) + entry_end e +
            drops_in (\<lambda>q. q \<le> m) (cut_trace N (entry_end e) (n + (?off - pos)) es) =
            N + zeros_in (cut_trace N (entry_end e) (n + (?off - pos)) es) m"
          by (intro Cons.IH next_ok next_pos)
        moreover have "n + (?off - pos) \<le> m" using Cons.prems(4) unfolding axis by simp
        moreover have "min ?len (N - ?off) = ?len" using True Drop by (simp add: entry_end_def)
        ultimately show ?thesis using Drop N pos unfolding axis
          by (simp add: Let_def entry_end_def)
      next
        case False
        then have "cut_trace N (entry_end e) k es = [] \<and> stream_axis N (entry_end e) es = []" for k
          using cut_trace_over [OF next_ok _ next_pos] by simp
        moreover have "n + (?off - pos) \<le> m" using Cons.prems(4) unfolding axis by simp
        moreover have "min ?len (N - ?off) = N - ?off" using False Drop by (simp add: entry_end_def)
        ultimately show ?thesis using Drop N pos unfolding axis
          by (simp add: Let_def entry_end_def)
      qed
    qed
  qed
qed

lemma length_cut_trace:
  "sorted_wrt follows es \<Longrightarrow>
   length (cut_trace N pos n es) = length (filter (\<lambda>e. unat (offset e) < N) es)"
proof (induction es arbitrary: pos n)
  case (Cons e es)
  have "unat (offset e) \<le> unat (offset f)" if "f \<in> set es" for f
    using Cons.prems that by (force simp: follows_def entry_end_def split: if_splits)
  then have none: "N \<le> unat (offset e) \<Longrightarrow> filter (\<lambda>e. unat (offset e) < N) es = []"
    by (force simp: filter_empty_conv)
  show ?case using Cons none by (auto simp: Let_def split: cut_kind.splits)
qed simp

lemma stream_axis_bound:
  assumes "ahead pos es" and "\<And>e es'. es = e # es' \<Longrightarrow> pos \<le> unat (offset e)"
  shows "x \<in> set (stream_axis N pos es) \<Longrightarrow> x \<le> N"
  using assms
proof (induction es arbitrary: pos)
  case Nil
  then show ?case by (simp add: stream_axis_def)
next
  case (Cons e es)
  have pos: "pos \<le> unat (offset e)" using Cons.prems by blast
  have next_ok: "ahead (entry_end e) es" by (rule ahead_Cons [OF Cons.prems(2) refl])
  then have next_pos: "entry_end e \<le> unat (offset f)" if "es = f # fs" for f fs
    using that Cons.prems by (auto simp: ahead_def dest: follows_entry_end)
  show ?case
  proof (cases "N \<le> unat (offset e)")
    case True
    then show ?thesis using Cons.prems(1) pos by (simp add: stream_axis_past)
  next
    case False
    then show ?thesis using Cons.IH [OF _ next_ok next_pos] Cons.prems(1)
      by (cases "kind e") (auto simp: stream_axis_entry [OF pos] entry_end_def)
  qed
qed

section \<open>The places of the cuts\<close>

text \<open>Where in the stream the cut of an entry is: at its offset in the output, later by the zeros of
  the entries before it and earlier by the frames they drop.\<close>

definition cut_place :: "cut_entry list \<Rightarrow> nat \<Rightarrow> nat" where
  "cut_place es i =
     unat (offset (es ! i)) + (\<Sum>e\<leftarrow>take i es. if kind e = Zero then unat (entry_length e) else 0)
       - (\<Sum>e\<leftarrow>take i es. if kind e = Drop then unat (entry_length e) else 0)"

lemma follows_offset: "sorted_wrt follows (e # es) \<Longrightarrow> f \<in> set es \<Longrightarrow> entry_end e \<le> unat (offset f)"
  by (simp add: follows_def)

lemma cut_trace_place:
  assumes "sorted_wrt follows es" and "\<And>e es'. es = e # es' \<Longrightarrow> pos \<le> unat (offset e)"
    and "i < length (cut_trace N pos n es)"
  shows "fst (cut_trace N pos n es ! i) + pos + (\<Sum>e\<leftarrow>take i es. if kind e = Drop then unat (entry_length e) else 0) =
    n + unat (offset (es ! i)) + (\<Sum>e\<leftarrow>take i es. if kind e = Zero then unat (entry_length e) else 0)"
  using assms
proof (induction es arbitrary: pos n i)
  case Nil
  then show ?case by simp
next
  case (Cons e es)
  have pos: "pos \<le> unat (offset e)" using Cons.prems(2) by blast
  have inside: "unat (offset e) < N" using Cons.prems(3) by (auto simp: Let_def split: if_splits)
  have next_pos: "entry_end e \<le> unat (offset f)" if "es = f # fs" for f fs
    using follows_offset [OF Cons.prems(1)] that by simp
  have sorted: "sorted_wrt follows es" using Cons.prems(1) by simp
  show ?case
  proof (cases i)
    case 0
    then show ?thesis using pos inside by (cases "kind e") (simp_all add: Let_def)
  next
    case (Suc j)
    show ?thesis
    proof (cases "kind e")
      case Zero
      then have "j < length (cut_trace N (unat (offset e)) (n + (unat (offset e) - pos) + unat (entry_length e)) es)"
        using Cons.prems(3) inside Suc by (simp add: Let_def)
      from Cons.IH [OF sorted _ this] next_pos show ?thesis
        using Zero inside pos Suc by (simp add: Let_def entry_end_def)
    next
      case Drop
      then have "j < length (cut_trace N (entry_end e) (n + (unat (offset e) - pos)) es)"
        using Cons.prems(3) inside Suc by (simp add: Let_def entry_end_def)
      from Cons.IH [OF sorted _ this] next_pos show ?thesis
        using Drop inside pos Suc by (simp add: Let_def entry_end_def)
    qed
  qed
qed

lemma cut_trace_within:
  assumes "ahead pos es" and "\<And>e es'. es = e # es' \<Longrightarrow> pos \<le> unat (offset e)"
  shows "c \<in> set (cut_trace N pos n es) \<Longrightarrow> fst c \<le> n + length (stream_axis N pos es)"
  using assms
proof (induction es arbitrary: pos n)
  case Nil
  then show ?case by simp
next
  case (Cons e es)
  have pos: "pos \<le> unat (offset e)" using Cons.prems(3) by blast
  have inside: "unat (offset e) < N" using Cons.prems(1) by (auto simp: Let_def split: if_splits)
  have next_ok: "ahead (entry_end e) es" by (rule ahead_Cons [OF Cons.prems(2) refl])
  then have next_pos: "entry_end e \<le> unat (offset f)" if "es = f # fs" for f fs
    using that Cons.prems(2) by (auto simp: ahead_def dest: follows_entry_end)
  show ?case
    using Cons.prems(1) Cons.IH [OF _ next_ok next_pos] pos inside
    by (cases "kind e") (fastforce simp: stream_axis_entry [OF pos inside] Let_def entry_end_def)+
qed

text \<open>The entries whose cuts are within the first \<open>n\<close> frames of the stream, all inside the output in the end.\<close>

definition cuts_within :: "cut_entry list \<Rightarrow> nat \<Rightarrow> nat \<Rightarrow> bool \<Rightarrow> nat" where
  "cuts_within es N n whole =
     length (filter (\<lambda>i. unat (offset (es ! i)) < N \<and> (whole \<or> cut_place es i < n)) [0..<length es])"

lemma trace_inside:
  assumes "sorted_wrt follows es" and "i < length es"
  shows "unat (offset (es ! i)) < N \<longleftrightarrow> i < length (cut_trace N pos n es)"
  using assms
proof (induction es arbitrary: pos n i)
  case Nil
  then show ?case by simp
next
  case (Cons e es)
  have "unat (offset e) \<le> unat (offset f)" if "f \<in> set es" for f
    using follows_offset [OF Cons.prems(1) that] by (simp add: entry_end_def split: if_splits)
  then have later: "unat (offset e) \<le> unat (offset ((e # es) ! i))"
    using Cons.prems(2) by (cases i) auto
  show ?case
  proof (cases i)
    case 0
    then show ?thesis by (cases "kind e") (simp_all add: Let_def)
  next
    case (Suc j)
    then show ?thesis using later Cons.IH [of j] Cons.prems by (cases "kind e") (auto simp: Let_def)
  qed
qed

lemma length_filter_indices: "length (filter P xs) = length (filter (\<lambda>i. P (xs ! i)) [0..<length xs])"
proof -
  have "filter P xs = map ((!) xs) (filter (\<lambda>i. P (xs ! i)) [0..<length xs])"
    by (simp add: filter_map [unfolded comp_def, symmetric] map_nth)
  then show ?thesis by (metis length_map)
qed

lemma cuts_within_trace:
  assumes "ahead 0 es" and "n \<le> length (stream_axis N 0 es)"
  defines "L \<equiv> cut_trace N 0 0 es" and "whole \<equiv> n = length (stream_axis N 0 es)"
  shows "length (filter (\<lambda>c. fst c < n \<or> whole \<and> fst c = n) L) = cuts_within es N n whole"
proof -
  have sorted: "sorted_wrt follows es" using assms(1) by (simp add: ahead_def)
  have short: "length L \<le> length es"
    using length_cut_trace [OF sorted, of N 0 0] by (simp add: L_def)
  have "fst (L ! i) < n \<or> whole \<and> fst (L ! i) = n \<longleftrightarrow> whole \<or> cut_place es i < n" if "i < length L" for i
  proof -
    have "fst (L ! i) \<le> length (stream_axis N 0 es)"
      using cut_trace_within [OF assms(1), of "L ! i" N 0] that by (simp add: L_def)
    moreover have "fst (L ! i) = cut_place es i"
      using cut_trace_place [OF sorted, of 0 i N 0] that by (simp add: L_def cut_place_def)
    ultimately show ?thesis using assms(2) by (auto simp: whole_def)
  qed
  then have "filter (\<lambda>i. fst (L ! i) < n \<or> whole \<and> fst (L ! i) = n) [0..<length L] =
      filter (\<lambda>i. whole \<or> cut_place es i < n) [0..<length L]"
    by (intro filter_cong) auto
  also have "\<dots> = filter (\<lambda>i. i < length L \<and> (whole \<or> cut_place es i < n)) [0..<length es]"
  proof -
    have "[0..<length es] = [0..<length L] @ [length L..<length es]" using short upt_add_eq_append [of 0 "length L" "length es - length L"] by simp
    moreover have "filter (\<lambda>i. i < length L \<and> (whole \<or> cut_place es i < n)) [0..<length L] =
        filter (\<lambda>i. whole \<or> cut_place es i < n) [0..<length L]" by (intro filter_cong) auto
    ultimately show ?thesis by (simp add: filter_empty_conv)
  qed
  also have "\<dots> = filter (\<lambda>i. unat (offset (es ! i)) < N \<and> (whole \<or> cut_place es i < n)) [0..<length es]"
    using trace_inside [OF sorted, of _ N 0 0] by (intro filter_cong) (auto simp: L_def)
  finally show ?thesis by (simp add: length_filter_indices [of _ L] cuts_within_def)
qed

lemma cut_trace_first:
  "c \<in> set (cut_trace N pos n es) \<Longrightarrow> fst (hd (cut_trace N pos n es)) \<le> fst c"
proof (cases es)
  case (Cons e es')
  assume "c \<in> set (cut_trace N pos n es)"
  then show ?thesis using Cons cut_trace_places [of c N _ _ es']
    by (cases "kind e") (fastforce simp: Let_def split: if_splits)+
qed simp

lemma find_hd:
  assumes "\<And>x y. P y \<Longrightarrow> f x \<le> f y \<Longrightarrow> P x" and "\<forall>x \<in> set xs. f (hd xs) \<le> (f x :: nat)"
  shows "find P xs = (if filter P xs = [] then None else Some (hd xs))"
proof (cases xs)
  case (Cons x ys)
  show ?thesis
  proof (cases "P x")
    case False
    then have "\<not> P y" if "y \<in> set ys" for y using assms that Cons by auto
    then show ?thesis using False Cons by (auto simp: find_None_iff filter_empty_conv)
  qed (simp add: Cons)
qed simp

section \<open>The tally\<close>

lemma tally_fold:
  assumes "\<And>c. c \<in> set cs \<Longrightarrow> took_effect l c n \<longleftrightarrow> eff (unat (cut_position c))"
    and "\<And>p. eff p \<Longrightarrow> p \<le> unat n" and "\<And>p. p < unat n \<Longrightarrow> eff p" and "sent t = n"
  shows "let t' = foldl (\<lambda>t c. if took_effect l c n then tally_count c t else t) t cs in
    sent t' = n \<and> tally_rejected t' = tally_rejected t \<and>
    applied t' = applied t + of_nat (length (filter (\<lambda>c. eff (unat (cut_position c))) cs)) \<and>
    first_cut t' = (if first_cut t = None then map_option cut_position (find (\<lambda>c. eff (unat (cut_position c))) cs)
                    else first_cut t) \<and>
    drop_frames t' = drop_frames t + of_nat (drops_in eff (map trace_of cs)) \<and>
    zero_frames t' = zero_frames t + of_nat (zeros_in (map trace_of cs) (unat n))"
  using assms
proof (induction cs arbitrary: t)
  case Nil
  then show ?case by simp
next
  case (Cons c cs)
  have zero: "min (cut_frames c) (n - cut_position c) =
      of_nat (min (unat (cut_frames c)) (unat n - unat (cut_position c)))"
    if "eff (unat (cut_position c))"
  proof -
    have "cut_position c \<le> n" using Cons.prems(2) [OF that] by (simp add: word_le_nat_alt)
    then show ?thesis
      by (simp add: word_unat_eq_iff unat_min unat_sub_exact min_less_iff_disj unat_lt_u32)
  qed
  let ?t = "if took_effect l c n then tally_count c t else t"
  have step: "sent ?t = n \<and> tally_rejected ?t = tally_rejected t \<and>
    applied ?t = applied t + of_bool (eff (unat (cut_position c))) \<and>
    first_cut ?t = (if first_cut t = None \<and> eff (unat (cut_position c)) then Some (cut_position c) else first_cut t) \<and>
    drop_frames ?t = drop_frames t + of_nat (drops_in eff [trace_of c]) \<and>
    zero_frames ?t = zero_frames t + of_nat (zeros_in [trace_of c] (unat n))"
  proof (cases "eff (unat (cut_position c))")
    case True
    then show ?thesis using Cons.prems(1,4) zero [OF True]
      by (cases "cut_kind c") (auto simp: trace_of_def tally_count_def Let_def)
  next
    case False
    then have "\<not> unat (cut_position c) < unat n" using Cons.prems(3) by blast
    then show ?thesis using False Cons.prems(1,4) by (auto simp: trace_of_def)
  qed
  show ?case
  proof (cases "eff (unat (cut_position c))")
    case True
    then have "took_effect l c n" using Cons.prems(1) by simp
    then show ?thesis using step Cons.IH [of ?t] Cons.prems True
      by (cases "first_cut t") (simp_all add: Let_def trace_of_def)
  next
    case False
    then have "\<not> took_effect l c n" using Cons.prems(1) by simp
    then show ?thesis using step Cons.IH [of ?t] Cons.prems False by (simp add: Let_def trace_of_def)
  qed
qed

text \<open>A cut at place \<open>q\<close> took effect within the first \<open>n\<close> frames.\<close>

definition reached :: "nat \<Rightarrow> bool \<Rightarrow> nat \<Rightarrow> bool" where
  "reached n whole q \<longleftrightarrow> q < n \<or> whole \<and> q = n"

lemma tally_of_done:
  assumes "play_done es N stream L p" and "n \<le> length stream" and "length stream < 2 ^ 32"
  defines "t \<equiv> log_tally (play_log p) (of_nat n)" and "eff \<equiv> reached n (n = length stream)"
  shows "sent t = of_nat n" "zero_frames t = of_nat (zeros_in L n)" "drop_frames t = of_nat (drops_in eff L)"
    "tally_output_frames t = of_nat n - of_nat (zeros_in L n) + of_nat (drops_in eff L)"
    "tally_rejected t = (if n = length stream then of_nat (length es - length L) else 0)"
    "applied t = of_nat (length (filter (\<lambda>c. eff (unat (cut_position c))) (cuts (play_log p))))"
    "first_cut t = map_option cut_position (find (\<lambda>c. eff (unat (cut_position c))) (cuts (play_log p)))"
proof -
  let ?l = "play_log p" and ?w = "of_nat n :: u32"
  have w: "unat ?w = n" using assms(2,3) by simp
  have log: "map trace_of (cuts ?l) = L" "ended ?l" "log_end ?l = of_nat (length stream)"
      "rejected ?l = of_nat (length es - length L)"
    using assms(1) by (simp_all add: play_done_def)
  have whole: "whole_stream ?l ?w \<longleftrightarrow> n = length stream"
    using log assms(3) w by (auto simp: whole_stream_def word_unat_eq_iff)
  have e: "eff q \<Longrightarrow> q \<le> unat ?w" "q < unat ?w \<Longrightarrow> eff q" for q
    using w by (auto simp: eff_def reached_def)
  have "took_effect ?l c ?w \<longleftrightarrow> eff (unat (cut_position c))" for c
    using log assms(3) w whole
    by (auto simp: took_effect_def eff_def reached_def word_less_nat_alt word_unat_eq_iff)
  note fold = tally_fold [of "cuts ?l" ?l ?w eff, OF this e, unfolded w log(1) Let_def]
  show "sent t = of_nat n" "zero_frames t = of_nat (zeros_in L n)" "drop_frames t = of_nat (drops_in eff L)"
    "tally_output_frames t = of_nat n - of_nat (zeros_in L n) + of_nat (drops_in eff L)"
    "tally_rejected t = (if n = length stream then of_nat (length es - length L) else 0)"
    "applied t = of_nat (length (filter (\<lambda>c. eff (unat (cut_position c))) (cuts ?l)))"
    "first_cut t = map_option cut_position (find (\<lambda>c. eff (unat (cut_position c))) (cuts ?l))"
    using fold whole log(4) w unfolding t_def log_tally_def Let_def by simp_all
qed

text \<open>The cuts that took effect are those whose places are within the prefix, and the first entry's first.\<close>

lemma cuts_reached:
  assumes "ahead 0 es" and "map trace_of cs = cut_trace N 0 0 es" and "n \<le> length (stream_axis N 0 es)"
  defines "whole \<equiv> n = length (stream_axis N 0 es)"
  shows "length (filter (\<lambda>c. reached n whole (unat (cut_position c))) cs) = cuts_within es N n whole"
    and "map_option cut_position (find (\<lambda>c. reached n whole (unat (cut_position c))) cs) =
      (if cuts_within es N n whole = 0 then None else Some (offset (es ! 0)))"
proof -
  let ?L = "cut_trace N 0 0 es" and ?P = "\<lambda>c. reached n whole (unat (cut_position c))"
  have sorted: "sorted_wrt follows es" using assms(1) by (simp add: ahead_def)
  have "length (filter ?P cs) = length (filter (\<lambda>c. reached n whole (fst c)) ?L)"
    by (simp add: assms(2) [symmetric] filter_map comp_def trace_of_def)
  then show marked: "length (filter ?P cs) = cuts_within es N n whole"
    using cuts_within_trace [OF assms(1,3)] by (simp add: reached_def whole_def)
  have hd: "fst (hd ?L) = unat (cut_position (hd cs))" "?L \<noteq> []" if "cs \<noteq> []"
    using that by (simp_all add: assms(2) [symmetric] hd_map trace_of_def)
  have place: "cut_position (hd cs) = offset (es ! 0)" if "cs \<noteq> []"
    using cut_trace_place [OF sorted, of 0 0 N 0] hd [OF that] by (simp add: hd_conv_nth word_unat_eq_iff)
  have "unat (cut_position (hd cs)) \<le> unat (cut_position c)" if "c \<in> set cs" for c
  proof -
    have "trace_of c \<in> set ?L" "cs \<noteq> []" using that by (auto simp flip: assms(2))
    then show ?thesis using cut_trace_first [of "trace_of c" N 0 0 es] hd(1) by (simp add: trace_of_def)
  qed
  then have find: "find ?P cs = (if filter ?P cs = [] then None else Some (hd cs))"
    by (intro find_hd [where f = "\<lambda>c. unat (cut_position c)"]) (auto simp: reached_def)
  show "map_option cut_position (find ?P cs) =
      (if cuts_within es N n whole = 0 then None else Some (offset (es ! 0)))"
  proof (cases "filter ?P cs = []")
    case True
    then show ?thesis using marked find by simp
  next
    case False
    then have "cs \<noteq> []" "cuts_within es N n whole \<noteq> 0" by (auto simp flip: marked)
    then show ?thesis using place find False by simp
  qed
qed

text \<open>
  C14. The tally of a finished play is exact for every prefix of its stream. Of the first
  \<open>n\<close> frames it counts the inserted zeros, tells up to which frame of the engine's output
  they go (the whole output, trailing DROP included, once the whole stream is confirmed) and
  how many frames of it were dropped, counts the cuts whose place in the stream is within them,
  tells the place of the first (the first entry's offset), and counts the entries past the end
  of the output only once the whole stream is confirmed.
\<close>

theorem tally_exact_prefix:
  assumes "schedule_ok es" and "length es \<le> max_entries" and "N < 2 ^ 32"
    and "play_done es N stream (cut_trace N 0 0 es) p"
    and "length stream = length (stream_axis N 0 es)" and "length stream < 2 ^ 32"
    and "0 < n" and "n \<le> length stream"
  shows "let t = log_tally (play_log p) (of_nat n); whole = (n = length stream);
             zeros = length (filter (\<lambda>b. b) (take n (stream_marks N 0 es)));
             covered = (if whole then N else stream_axis N 0 es ! (n - 1)) in
    unat (sent t) = n \<and> unat (zero_frames t) = zeros \<and> unat (tally_output_frames t) = covered \<and>
    unat (drop_frames t) + n = covered + zeros \<and>
    unat (applied t) = cuts_within es N n whole \<and>
    first_cut t = (if cuts_within es N n whole = 0 then None else Some (offset (es ! 0))) \<and>
    unat (tally_rejected t) = (if whole then length (filter (\<lambda>e. N \<le> unat (offset e)) es) else 0)"
proof -
  let ?L = "cut_trace N 0 0 es" and ?whole = "n = length stream"
  let ?Z = "zeros_in ?L n" and ?D = "drops_in (reached n ?whole) ?L"
  note fields = tally_of_done [OF assms(4,8,6)]
  have sorted: "sorted_wrt follows es" using assms(1) by (simp add: schedule_ok_def)
  have ahead: "ahead 0 es" using assms(1) by (auto simp: ahead_def schedule_ok_def split: list.splits)
  have prefix: "n + drops_in (\<lambda>q. q < n) ?L = stream_axis N 0 es ! (n - 1) + ?Z"
    and zeros: "?Z = length (filter (\<lambda>b. b) (take n (stream_marks N 0 es)))"
    using trace_prefix [OF ahead _ assms(7), of N 0] assms(5,8) by simp_all
  have "?Z \<le> n" unfolding zeros by (rule order_trans [OF length_filter_le]) simp
  define covered where "covered = (if ?whole then N else stream_axis N 0 es ! (n - 1))"
  have axis: "n + ?D = covered + ?Z"
  proof (cases ?whole)
    case True
    then have "reached n ?whole = (\<lambda>q. q \<le> n)" by (auto simp: reached_def fun_eq_iff)
    then show ?thesis using True trace_whole [OF ahead _ _, of N 0 n] assms(5) by (simp add: covered_def)
  next
    case False
    then have "reached n ?whole = (\<lambda>q. q < n)" by (auto simp: reached_def fun_eq_iff)
    then show ?thesis using False prefix by (simp add: covered_def)
  qed
  have small: "covered < 2 ^ 32"
    using stream_axis_bound [OF ahead, of "stream_axis N 0 es ! (n - 1)" N] assms(3,5,7,8)
    by (auto simp: covered_def intro: le_less_trans nth_mem)
  have few: "?D < 2 ^ 32" and sum: "n - ?Z + ?D = covered"
    using axis small \<open>?Z \<le> n\<close> by linarith+
  have "of_nat n - of_nat ?Z + of_nat ?D = (of_nat covered :: u32)"
    using sum \<open>?Z \<le> n\<close> by (metis of_nat_add of_nat_diff)
  moreover have "length es - length ?L = length (filter (\<lambda>e. N \<le> unat (offset e)) es)"
    using length_cut_trace [OF sorted, of N 0 0] sum_length_filter_compl [of "\<lambda>e. unat (offset e) < N" es]
    by (simp add: not_less)
  moreover have "length (filter Q es) < 2 ^ 32" for Q
    using assms(2) by (intro le_less_trans [OF length_filter_le]) (simp add: max_entries_def)
  moreover have "cuts_within es N n ?whole < 2 ^ 32"
    unfolding cuts_within_def using assms(2) by (intro le_less_trans [OF length_filter_le]) (simp add: max_entries_def)
  moreover have "map trace_of (cuts (play_log p)) = ?L" using assms(4) by (simp add: play_done_def)
  note cuts_reached [OF ahead this, of n]
  ultimately show ?thesis unfolding Let_def covered_def [symmetric] zeros [symmetric]
    using fields assms(5,6,8) small few axis \<open>?Z \<le> n\<close> by simp
qed

definition worked_play :: "int producer" where
  "worked_play = \<lparr>stage = stage_latch worked_example, engine_block = [], source = [],
     fifo = [10, 0, 0, 11, 12, 16, 17, 18, 19],
     play_log = \<lparr>cuts = [\<lparr>cut_position = 1, cut_frames = 2, cut_kind = Zero\<rparr>,
         \<lparr>cut_position = 5, cut_frames = 3, cut_kind = Drop\<rparr>],
       rejected = 1, log_end = 9, ended = True\<rparr>, eof_enqueued = True\<rparr>"

lemma tally_exact_prefix_witness:
  "unat (tally_output_frames (log_tally (play_log worked_play) 6)) = 7 \<and>
   unat (applied (log_tally (play_log worked_play) 6)) = 2 \<and>
   first_cut (log_tally (play_log worked_play) 6) = Some 1 \<and>
   unat (applied (log_tally (play_log worked_play) 5)) = 1"
proof -
  have axis: "stream_axis 10 0 worked_example = [1, 1, 1, 2, 3, 7, 8, 9, 10]"
    by code_simp
  have "cut_trace 10 0 0 worked_example = [(1, 2, Zero), (5, 3, Drop)]"
    by code_simp
  then have "play_done worked_example 10 (fifo worked_play) (cut_trace 10 0 0 worked_example) worked_play"
    by (simp add: play_done_def worked_play_def worked_example_def trace_of_def)
  moreover have "length worked_example \<le> max_entries"
    by (simp add: worked_example_def max_entries_def)
  moreover have "cuts_within worked_example 10 6 False = 2" "cuts_within worked_example 10 5 False = 1"
    "offset (worked_example ! 0) = 1" by code_simp+
  ultimately show ?thesis
    using tally_exact_prefix [OF worked_example_ok, of 10 "fifo worked_play" worked_play 6]
      tally_exact_prefix [OF worked_example_ok, of 10 "fifo worked_play" worked_play 5]
    by (simp add: axis worked_play_def Let_def)
qed

end
