(* ===== verification/FinitePlayback.thy ===== *)
theory FinitePlayback
  imports Status
begin

text \<open>
  \<^verbatim>\<open>common/finite_playback.hpp\<close> and \<^verbatim>\<open>.cpp\<close>: the order and the watermarks of a finite
  prepared playback (produced, written, committed, read, consumed). The scheduler hands out
  one action at a time with a ticket; its owner carries the action out and completes the
  ticket. Counts are 64-bit words, blocks 32-bit words widened as the code widens them.
\<close>

section \<open>State\<close>

datatype state = Unconfigured | Ready | Running | Cancelling | Completed | Failed | Cancelled

datatype action_kind = Produce | Write | Visibility_barrier | Read | Finalize

record config =
  total_frames :: u64
  measured_rate :: u32
  margin_frames :: u64
  queue_capacity :: u32
  max_block :: u32

record action =
  token :: u64
  first_frame :: u64
  frames :: u32
  action_kind :: action_kind

record scheduler =
  config :: config
  required_lead_frames :: u64
  produced :: u64
  written :: u64
  committed :: u64
  read :: u64
  consumed :: u64
  next_token :: u64
  pending_action :: action
  first_status :: status
  sched_state :: state
  action_pending :: bool
  started :: bool
  artifact_finalized :: bool
  owner_released :: bool

record snapshot =
  snap_state :: state
  snap_total :: u64
  snap_required_lead :: u64
  snap_produced :: u64
  snap_written :: u64
  snap_committed :: u64
  snap_read :: u64
  snap_consumed :: u64
  snap_started :: bool
  snap_finalized :: bool
  snap_pending :: bool
  snap_released :: bool
  snap_action :: action
  snap_first_status :: status

definition playback_sample_rate_hz :: u64 where "playback_sample_rate_hz = 48000"

definition no_action :: action where
  "no_action = \<lparr>token = 0, first_frame = 0, frames = 0, action_kind = Produce\<rparr>"

definition no_config :: config where
  "no_config = \<lparr>total_frames = 0, measured_rate = 0, margin_frames = 0, queue_capacity = 0,
     max_block = 0\<rparr>"

definition scheduler_fresh :: scheduler where
  "scheduler_fresh = \<lparr>config = no_config, required_lead_frames = 0, produced = 0, written = 0,
     committed = 0, read = 0, consumed = 0, next_token = 1, pending_action = no_action,
     first_status = success, sched_state = Unconfigured, action_pending = False,
     started = False, artifact_finalized = False, owner_released = True\<rparr>"

section \<open>Operations\<close>

definition invalid_config :: status where
  [status_defs]: "invalid_config =
     \<lparr>code = Invalid_configuration, message = ''invalid finite playback configuration''\<rparr>"

definition invalid_argument :: "string \<Rightarrow> status" where
  [status_defs]: "invalid_argument m = \<lparr>code = Invalid_argument, message = m\<rparr>"

definition busy_status :: "string \<Rightarrow> status" where
  [status_defs]: "busy_status m = \<lparr>code = Busy, message = m\<rparr>"

definition io_error :: "string \<Rightarrow> status" where
  [status_defs]: "io_error m = \<lparr>code = Io_error, message = m\<rparr>"

definition unavailable :: "string \<Rightarrow> status" where
  [status_defs]: "unavailable m = \<lparr>code = Unavailable, message = m\<rparr>"

definition required_lead :: "config \<Rightarrow> u64" where
  "required_lead c =
     (let rate = ucast (measured_rate c) :: u64;
          deficit = if rate < playback_sample_rate_hz then playback_sample_rate_hz - rate else 0;
          whole_seconds = total_frames c div playback_sample_rate_hz;
          remainder = total_frames c mod playback_sample_rate_hz;
          fractional_numerator = remainder * deficit;
          fractional_frames = (fractional_numerator + playback_sample_rate_hz - 1) div playback_sample_rate_hz;
          base = whole_seconds * deficit + fractional_frames;
          lead_without_margin = min base (total_frames c);
          remaining = total_frames c - lead_without_margin
      in if margin_frames c \<ge> remaining then total_frames c else lead_without_margin + margin_frames c)"

definition is_terminal :: "scheduler \<Rightarrow> bool" where
  "is_terminal s \<longleftrightarrow> sched_state s = Completed \<or> sched_state s = Failed \<or> sched_state s = Cancelled"

definition latch :: "scheduler \<Rightarrow> status \<Rightarrow> state \<Rightarrow> scheduler \<times> status" where
  "latch s reason st =
     (let first = (if is_ok (first_status s)
                   then if is_ok reason
                        then \<lparr>code = Internal_error, message = ''finite playback latched an empty failure''\<rparr>
                        else reason
                   else first_status s)
      in (s\<lparr>first_status := first, sched_state := st\<rparr>, first))"

definition reset_run :: "scheduler \<Rightarrow> config \<Rightarrow> u64 \<Rightarrow> scheduler" where
  "reset_run s c lead = s\<lparr>config := c, required_lead_frames := lead, produced := 0, written := 0,
     committed := 0, read := 0, consumed := 0, pending_action := no_action,
     first_status := success, action_pending := False, started := False,
     artifact_finalized := False, owner_released := False\<rparr>"

definition configure :: "scheduler \<Rightarrow> config \<Rightarrow> scheduler \<times> status" where
  "configure s c =
     (let released_terminal = is_terminal s \<and> owner_released s in
      if action_pending s \<or> (sched_state s \<noteq> Unconfigured \<and> \<not> released_terminal)
      then (s, busy_status ''finite playback is still active'')
      else if total_frames c = 0 \<or> measured_rate c = 0 \<or> queue_capacity c = 0 \<or> max_block c = 0 \<or>
        max_block c > queue_capacity c
      then (s, invalid_config)
      else ((reset_run s c (required_lead c))\<lparr>sched_state := Ready\<rparr>, success))"

definition begin_action :: "scheduler \<Rightarrow> action_kind \<Rightarrow> u64 \<Rightarrow> u32 \<Rightarrow> scheduler \<times> action result" where
  "begin_action s k first n =
     (if action_pending s
      then (s, Inl (busy_status ''finite playback already has an outstanding action''))
      else if next_token s = - 1
      then (s, Inl (io_error ''finite playback action ticket space exhausted''))
      else
        let a = \<lparr>token = next_token s, first_frame = first, frames = n, action_kind = k\<rparr>
        in (s\<lparr>next_token := next_token s + 1, pending_action := a, action_pending := True\<rparr>, Inr a))"

definition active :: "scheduler \<Rightarrow> bool" where
  "active s \<longleftrightarrow> sched_state s = Ready \<or> sched_state s = Running"

definition begin_produce :: "scheduler \<Rightarrow> u32 \<Rightarrow> scheduler \<times> action result" where
  "begin_produce s n =
     (if \<not> active s then (s, Inl invalid_config)
      else if n = 0 \<or> n > max_block (config s) \<or> ucast n > total_frames (config s) - produced s
      then (s, Inl (invalid_argument ''invalid finite playback production range''))
      else
        let staging_used = produced s - written s in
        if ucast n > ucast (max_block (config s)) - staging_used
        then (s, Inl (busy_status ''finite playback producer staging is full''))
        else begin_action s Produce (produced s) n)"

definition begin_write :: "scheduler \<Rightarrow> u32 \<Rightarrow> scheduler \<times> action result" where
  "begin_write s n =
     (if \<not> active s then (s, Inl invalid_config)
      else if written s \<noteq> committed s \<or> n = 0 \<or> n > max_block (config s) \<or> ucast n > produced s - written s
      then (s, Inl (invalid_argument ''invalid finite playback write range''))
      else begin_action s Write (written s) n)"

definition begin_visibility_barrier :: "scheduler \<Rightarrow> scheduler \<times> action result" where
  "begin_visibility_barrier s =
     (if \<not> active s \<or> written s = committed s then (s, Inl invalid_config)
      else
        let pending_frames = written s - committed s in
        if pending_frames > ucast (max_block (config s))
        then (s, Inl (io_error ''finite playback visibility range exceeds one block''))
        else begin_action s Visibility_barrier (committed s) (ucast pending_frames))"

definition begin_read :: "scheduler \<Rightarrow> u32 \<Rightarrow> scheduler \<times> action result" where
  "begin_read s n =
     (if \<not> active s then (s, Inl invalid_config)
      else if n = 0 \<or> n > max_block (config s) \<or> ucast n > committed s - read s
      then (s, Inl (invalid_argument ''finite playback read exceeds committed data''))
      else
        let queued_frames = read s - consumed s in
        if ucast n > ucast (queue_capacity (config s)) - queued_frames
        then (s, Inl (busy_status ''finite playback queue is full''))
        else begin_action s Read (read s) n)"

definition begin_finalize :: "scheduler \<Rightarrow> scheduler \<times> action result" where
  "begin_finalize s =
     (let total = total_frames (config s) in
      if sched_state s \<noteq> Running \<or> produced s \<noteq> total \<or> written s \<noteq> total \<or> committed s \<noteq> total \<or>
        read s \<noteq> total \<or> consumed s \<noteq> total \<or> artifact_finalized s
      then (s, Inl invalid_config)
      else begin_action s Finalize total 0)"

definition next_action :: "scheduler \<Rightarrow> scheduler \<times> action result" where
  "next_action s =
     (if action_pending s
      then (s, Inl (busy_status ''finite playback already has an outstanding action''))
      else if \<not> active s then (s, Inl invalid_config)
      else
        let block = ucast (max_block (config s)) :: u64;
            total = total_frames (config s);
            capacity = ucast (queue_capacity (config s)) :: u64 in
        if sched_state s = Ready then
          (let prefill = min capacity total;
               committed_target = max (required_lead_frames s) prefill in
           if committed s < committed_target then
             if written s > committed s then begin_visibility_barrier s
             else if produced s > written s
             then begin_write s (ucast (min block (produced s - written s)))
             else begin_produce s (ucast (min block (total - produced s)))
           else if read s - consumed s < prefill then
             let room = capacity - (read s - consumed s);
                 unread = committed s - read s;
                 count = min block (min room unread) in
             if count > 0 then begin_read s (ucast count)
             else (s, Inl (busy_status ''finite playback is ready to start''))
           else (s, Inl (busy_status ''finite playback is ready to start'')))
        else
          let room = capacity - (read s - consumed s);
              committed_unread = committed s - read s;
              refill_frames = min block committed_unread in
          if refill_frames > 0 \<and> room \<ge> refill_frames then begin_read s (ucast refill_frames)
          else if written s > committed s then begin_visibility_barrier s
          else if produced s > written s
          then begin_write s (ucast (min block (produced s - written s)))
          else if produced s < total
          then begin_produce s (ucast (min block (total - produced s)))
          else if consumed s = total then begin_finalize s
          else (s, Inl (busy_status ''finite playback is waiting for queue consumption'')))"

definition action_matches :: "scheduler \<Rightarrow> action \<Rightarrow> bool" where
  "action_matches s a \<longleftrightarrow> action_pending s \<and> token a = token (pending_action s) \<and>
     first_frame a = first_frame (pending_action s) \<and> frames a = frames (pending_action s) \<and>
     action_kind a = action_kind (pending_action s)"

text \<open>The second half of \<^verbatim>\<open>complete()\<close>: the watermark an action moves.\<close>

definition complete_action :: "scheduler \<Rightarrow> action \<Rightarrow> scheduler \<times> status" where
  "complete_action s a =
     (let n = ucast (frames a) :: u64 in
      case action_kind a of
        Produce \<Rightarrow>
          if first_frame a \<noteq> produced s
          then latch s (io_error ''finite playback producer cursor changed'') Failed
          else (s\<lparr>produced := produced s + n\<rparr>, success)
      | Write \<Rightarrow>
          if first_frame a \<noteq> written s \<or> n > produced s - written s
          then latch s (io_error ''finite playback writer cursor changed'') Failed
          else (s\<lparr>written := written s + n\<rparr>, success)
      | Visibility_barrier \<Rightarrow>
          if first_frame a \<noteq> committed s \<or> first_frame a + n \<noteq> written s
          then latch s (io_error ''finite playback visibility watermark changed'') Failed
          else (s\<lparr>committed := written s\<rparr>, success)
      | Read \<Rightarrow>
          if first_frame a \<noteq> read s \<or> first_frame a + n > committed s
          then latch s (io_error ''finite playback read crossed its committed watermark'') Failed
          else (s\<lparr>read := read s + n\<rparr>, success)
      | Finalize \<Rightarrow> (s\<lparr>artifact_finalized := True, sched_state := Completed\<rparr>, success))"

definition complete :: "scheduler \<Rightarrow> action \<Rightarrow> status \<Rightarrow> u32 \<Rightarrow> scheduler \<times> status" where
  "complete s a operation_status frame_count =
     (if \<not> action_matches s a
      then (s, invalid_argument ''finite playback action ticket mismatch'')
      else
        let s' = s\<lparr>action_pending := False, pending_action := no_action\<rparr> in
        if sched_state s' = Cancelling \<or> sched_state s' = Failed
        then (if sched_state s' = Cancelling then s'\<lparr>sched_state := Cancelled\<rparr> else s', first_status s')
        else if \<not> is_ok operation_status then latch s' operation_status Failed
        else if action_kind a = Visibility_barrier \<or> action_kind a = Finalize then
          if frame_count \<noteq> 0
          then latch s' (io_error ''finite playback action returned an unexpected frame count'') Failed
          else complete_action s' a
        else if frame_count \<noteq> frames a
        then latch s' (io_error ''finite playback action completed a short frame count'') Failed
        else complete_action s' a)"

definition start :: "scheduler \<Rightarrow> scheduler \<times> status" where
  "start s =
     (if sched_state s \<noteq> Ready then (s, invalid_config)
      else
        let required_prefill = min (ucast (queue_capacity (config s))) (total_frames (config s)) in
        if committed s < required_lead_frames s \<or> read s - consumed s < required_prefill
        then (s, busy_status ''finite playback lead or queue prefill is not ready'')
        else (s\<lparr>started := True, sched_state := Running\<rparr>, success))"

definition consume :: "scheduler \<Rightarrow> u32 \<Rightarrow> scheduler \<times> status" where
  "consume s n =
     (if \<not> started s \<or> sched_state s \<noteq> Running \<or> n = 0 \<or> n > max_block (config s)
      then (s, invalid_argument ''invalid finite playback consume request'')
      else if ucast n > read s - consumed s
      then latch s \<lparr>code = Timeout, message = ''finite playback queue underrun''\<rparr> Failed
      else (s\<lparr>consumed := consumed s + ucast n\<rparr>, success))"

definition fail :: "scheduler \<Rightarrow> status \<Rightarrow> scheduler \<times> status" where
  "fail s reason =
     (if is_terminal s then (s, first_status s)
      else if sched_state s = Unconfigured then (s, invalid_config)
      else if is_ok reason
      then latch s \<lparr>code = Internal_error, message = ''finite playback failed without an error status''\<rparr> Failed
      else latch s reason Failed)"

definition cancel :: "scheduler \<Rightarrow> scheduler \<times> status" where
  "cancel s =
     (if is_terminal s then (s, first_status s)
      else if sched_state s = Unconfigured then (s, invalid_config)
      else latch s (unavailable ''finite playback cancelled'')
        (if action_pending s then Cancelling else Cancelled))"

definition release :: "scheduler \<Rightarrow> scheduler \<times> status" where
  "release s =
     (if \<not> is_terminal s \<or> action_pending s
      then (s, busy_status ''finite playback is not terminal and settled'')
      else (s\<lparr>owner_released := True\<rparr>, success))"

definition take_snapshot :: "scheduler \<Rightarrow> snapshot" where
  "take_snapshot s = \<lparr>snap_state = sched_state s, snap_total = total_frames (config s),
     snap_required_lead = required_lead_frames s, snap_produced = produced s,
     snap_written = written s, snap_committed = committed s, snap_read = read s,
     snap_consumed = consumed s, snap_started = started s, snap_finalized = artifact_finalized s,
     snap_pending = action_pending s, snap_released = owner_released s,
     snap_action = pending_action s, snap_first_status = first_status s\<rparr>"

section \<open>The invariant\<close>

text \<open>Where an outstanding action stands among the watermarks.\<close>

definition action_fits :: "scheduler \<Rightarrow> action \<Rightarrow> bool" where
  "action_fits s a \<longleftrightarrow>
     (let n = unat (frames a); first = unat (first_frame a) in
      case action_kind a of
        Produce \<Rightarrow> first = unat (produced s) \<and> first + n \<le> unat (total_frames (config s)) \<and>
          first + n \<le> unat (written s) + unat (max_block (config s))
      | Write \<Rightarrow> first = unat (written s) \<and> first + n \<le> unat (produced s) \<and>
          written s = committed s \<and> n \<le> unat (max_block (config s))
      | Visibility_barrier \<Rightarrow> first = unat (committed s) \<and> first + n = unat (written s)
      | Read \<Rightarrow> first = unat (read s) \<and> first + n \<le> unat (committed s) \<and>
          first + n \<le> unat (consumed s) + unat (queue_capacity (config s))
      | Finalize \<Rightarrow> consumed s = total_frames (config s))"

definition watermarks_ok :: "scheduler \<Rightarrow> bool" where
  "watermarks_ok s \<longleftrightarrow>
     unat (consumed s) \<le> unat (read s) \<and> unat (read s) \<le> unat (committed s) \<and>
     unat (committed s) \<le> unat (written s) \<and> unat (written s) \<le> unat (produced s) \<and>
     unat (produced s) \<le> unat (total_frames (config s)) \<and>
     unat (produced s) \<le> unat (written s) + unat (max_block (config s)) \<and>
     unat (written s) \<le> unat (committed s) + unat (max_block (config s)) \<and>
     unat (read s) \<le> unat (consumed s) + unat (queue_capacity (config s))"

definition status_ok :: "scheduler \<Rightarrow> bool" where
  "status_ok s \<longleftrightarrow>
     (is_ok (first_status s) \<longleftrightarrow> sched_state s \<in> {Unconfigured, Ready, Running, Completed}) \<and>
     (sched_state s = Completed \<longrightarrow> consumed s = total_frames (config s) \<and> artifact_finalized s) \<and>
     (sched_state s = Cancelling \<longrightarrow> action_pending s)"

definition scheduler_inv :: "scheduler \<Rightarrow> bool" where
  "scheduler_inv s \<longleftrightarrow> watermarks_ok s \<and> status_ok s \<and>
     (action_pending s \<longrightarrow> action_fits s (pending_action s) \<and> sched_state s \<notin> {Unconfigured, Completed, Cancelled})"

text \<open>What an owner may call, in any order and with any arguments.\<close>

datatype operation =
  Op_configure config | Op_produce u32 | Op_write u32 | Op_barrier | Op_read u32 | Op_finalize
| Op_next | Op_complete action status u32 | Op_start | Op_consume u32 | Op_fail status
| Op_cancel | Op_release

fun apply_op :: "operation \<Rightarrow> scheduler \<Rightarrow> scheduler" where
  "apply_op (Op_configure c) s = fst (configure s c)"
| "apply_op (Op_produce n) s = fst (begin_produce s n)"
| "apply_op (Op_write n) s = fst (begin_write s n)"
| "apply_op Op_barrier s = fst (begin_visibility_barrier s)"
| "apply_op (Op_read n) s = fst (begin_read s n)"
| "apply_op Op_finalize s = fst (begin_finalize s)"
| "apply_op Op_next s = fst (next_action s)"
| "apply_op (Op_complete a st n) s = fst (complete s a st n)"
| "apply_op Op_start s = fst (start s)"
| "apply_op (Op_consume n) s = fst (consume s n)"
| "apply_op (Op_fail r) s = fst (fail s r)"
| "apply_op Op_cancel s = fst (cancel s)"
| "apply_op Op_release s = fst (release s)"

inductive reachable :: "scheduler \<Rightarrow> bool" where
  fresh: "reachable scheduler_fresh"
| step: "reachable s \<Longrightarrow> reachable (apply_op op s)"

lemma refusals_not_ok [simp]:
  "\<not> is_ok invalid_config" "\<not> is_ok (invalid_argument m)" "\<not> is_ok (busy_status m)"
  "\<not> is_ok (io_error m)" "\<not> is_ok (unavailable m)"
  by (simp_all add: is_ok_def status_defs)

text \<open>The watermarks stand whatever becomes of the other fields.\<close>

lemma watermarks_ok_update [simp]:
  "watermarks_ok (s\<lparr>first_status := r\<rparr>) = watermarks_ok s"
  "watermarks_ok (s\<lparr>sched_state := st\<rparr>) = watermarks_ok s"
  "watermarks_ok (s\<lparr>next_token := t\<rparr>) = watermarks_ok s"
  "watermarks_ok (s\<lparr>action_pending := b\<rparr>) = watermarks_ok s"
  "watermarks_ok (s\<lparr>pending_action := q\<rparr>) = watermarks_ok s"
  "watermarks_ok (s\<lparr>started := b\<rparr>) = watermarks_ok s"
  "watermarks_ok (s\<lparr>artifact_finalized := b\<rparr>) = watermarks_ok s"
  "watermarks_ok (s\<lparr>owner_released := b\<rparr>) = watermarks_ok s"
  by (simp_all add: watermarks_ok_def)

lemma action_fits_update [simp]:
  "action_fits (s\<lparr>first_status := r\<rparr>) a = action_fits s a"
  "action_fits (s\<lparr>sched_state := st\<rparr>) a = action_fits s a"
  "action_fits (s\<lparr>next_token := t\<rparr>) a = action_fits s a"
  "action_fits (s\<lparr>action_pending := b\<rparr>) a = action_fits s a"
  "action_fits (s\<lparr>pending_action := q\<rparr>) a = action_fits s a"
  "action_fits (s\<lparr>started := b\<rparr>) a = action_fits s a"
  "action_fits (s\<lparr>artifact_finalized := b\<rparr>) a = action_fits s a"
  "action_fits (s\<lparr>owner_released := b\<rparr>) a = action_fits s a"
  by (cases "action_kind a"; simp add: action_fits_def Let_def)+

lemma begin_action_inv:
  assumes "scheduler_inv s" and "active s"
    and "\<And>t. action_fits s \<lparr>token = t, first_frame = f, frames = n, action_kind = k\<rparr>"
  shows "scheduler_inv (fst (begin_action s k f n))"
  using assms by (auto simp: begin_action_def scheduler_inv_def status_ok_def active_def Let_def)

lemma begin_produce_inv:
  assumes "scheduler_inv s" shows "scheduler_inv (fst (begin_produce s n))"
proof (cases "active s \<and> \<not> (n = 0 \<or> n > max_block (config s) \<or> ucast n > total_frames (config s) - produced s) \<and>
    \<not> ucast n > ucast (max_block (config s)) - (produced s - written s)")
  case True
  have w: "produced s \<le> total_frames (config s)" "written s \<le> produced s"
    "produced s - written s \<le> ucast (max_block (config s))"
    using assms by (auto simp: scheduler_inv_def watermarks_ok_def word_le_nat_alt unat_sub)
  have "unat n \<le> unat (total_frames (config s)) - unat (produced s)"
    "unat n \<le> unat (max_block (config s)) - (unat (produced s) - unat (written s))"
    using True w by (simp_all add: word_less_nat_alt not_less unat_sub_exact)
  then have "action_fits s \<lparr>token = t, first_frame = produced s, frames = n, action_kind = Produce\<rparr>" for t
    using assms by (auto simp: action_fits_def Let_def scheduler_inv_def watermarks_ok_def)
  then show ?thesis using True assms by (simp add: begin_produce_def begin_action_inv Let_def)
next
  case False
  then show ?thesis using assms by (auto simp: begin_produce_def Let_def)
qed

lemma begin_write_inv:
  assumes "scheduler_inv s" shows "scheduler_inv (fst (begin_write s n))"
proof (cases "active s \<and> \<not> (written s \<noteq> committed s \<or> n = 0 \<or> n > max_block (config s) \<or>
    ucast n > produced s - written s)")
  case True
  have w: "written s \<le> produced s"
    using assms by (auto simp: scheduler_inv_def watermarks_ok_def word_le_nat_alt)
  have "unat n \<le> unat (produced s) - unat (written s)" "unat n \<le> unat (max_block (config s))"
    using True w by (simp_all add: word_less_nat_alt not_less unat_sub_exact)
  then have "action_fits s \<lparr>token = t, first_frame = written s, frames = n, action_kind = Write\<rparr>" for t
    using assms True by (auto simp: action_fits_def Let_def scheduler_inv_def watermarks_ok_def)
  then show ?thesis using True assms by (simp add: begin_write_def begin_action_inv)
next
  case False
  then show ?thesis using assms by (auto simp: begin_write_def)
qed

lemma begin_visibility_barrier_inv:
  assumes "scheduler_inv s" shows "scheduler_inv (fst (begin_visibility_barrier s))"
proof (cases "active s \<and> written s \<noteq> committed s \<and> \<not> written s - committed s > ucast (max_block (config s))")
  case True
  have "committed s \<le> written s"
    using assms by (auto simp: scheduler_inv_def watermarks_ok_def word_le_nat_alt)
  then have d: "unat (written s - committed s) = unat (written s) - unat (committed s)"
    by (rule unat_sub_exact)
  moreover have "unat (written s - committed s) \<le> unat (max_block (config s))"
    using True by (simp add: word_less_nat_alt not_less)
  ultimately have "unat (ucast (written s - committed s) :: u32) = unat (written s) - unat (committed s)"
    using unat_lt_u32 [of "max_block (config s)"] by (simp add: unat_ucast_64_32)
  then have "action_fits s \<lparr>token = t, first_frame = committed s, frames = ucast (written s - committed s),
      action_kind = Visibility_barrier\<rparr>" for t
    using assms by (auto simp: action_fits_def Let_def scheduler_inv_def watermarks_ok_def)
  then show ?thesis using True assms by (simp add: begin_visibility_barrier_def begin_action_inv Let_def)
next
  case False
  then show ?thesis using assms by (auto simp: begin_visibility_barrier_def Let_def)
qed

lemma begin_read_inv:
  assumes "scheduler_inv s" shows "scheduler_inv (fst (begin_read s n))"
proof (cases "active s \<and> \<not> (n = 0 \<or> n > max_block (config s) \<or> ucast n > committed s - read s) \<and>
    \<not> ucast n > ucast (queue_capacity (config s)) - (read s - consumed s)")
  case True
  have w: "read s \<le> committed s" "consumed s \<le> read s"
    "read s - consumed s \<le> ucast (queue_capacity (config s))"
    using assms by (auto simp: scheduler_inv_def watermarks_ok_def word_le_nat_alt unat_sub)
  have "unat n \<le> unat (committed s) - unat (read s)"
    "unat n \<le> unat (queue_capacity (config s)) - (unat (read s) - unat (consumed s))"
    using True w by (simp_all add: word_less_nat_alt not_less unat_sub_exact)
  then have "action_fits s \<lparr>token = t, first_frame = read s, frames = n, action_kind = Read\<rparr>" for t
    using assms by (auto simp: action_fits_def Let_def scheduler_inv_def watermarks_ok_def)
  then show ?thesis using True assms by (simp add: begin_read_def begin_action_inv Let_def)
next
  case False
  then show ?thesis using assms by (auto simp: begin_read_def Let_def)
qed

lemma begin_finalize_inv:
  assumes "scheduler_inv s" shows "scheduler_inv (fst (begin_finalize s))"
  using assms by (auto simp: begin_finalize_def Let_def active_def action_fits_def intro!: begin_action_inv)

lemma next_action_inv:
  assumes "scheduler_inv s" shows "scheduler_inv (fst (next_action s))"
  using assms
  by (simp add: next_action_def Let_def begin_produce_inv begin_write_inv begin_read_inv
      begin_visibility_barrier_inv begin_finalize_inv)

lemma latch_inv:
  assumes "scheduler_inv s" and "st = Failed \<or> st = Cancelled \<and> \<not> action_pending s \<or>
    st = Cancelling \<and> action_pending s"
  shows "scheduler_inv (fst (latch s r st))"
  using assms
  by (auto simp: latch_def scheduler_inv_def status_ok_def is_ok_def Let_def)

lemma action_matches_fits:
  "scheduler_inv s \<Longrightarrow> action_matches s a \<Longrightarrow> action_fits s a"
  by (auto simp: scheduler_inv_def action_matches_def action_fits_def)

lemma first_plus_frames:
  assumes "scheduler_inv s" and "action_fits s a" and "action_kind a \<noteq> Finalize"
  shows "unat (first_frame a + ucast (frames a)) = unat (first_frame a) + unat (frames a)"
proof -
  have "unat (first_frame a) + unat (frames a) \<le> unat (total_frames (config s))"
    using assms
    by (cases "action_kind a") (auto simp: action_fits_def Let_def scheduler_inv_def watermarks_ok_def)
  then have "unat (first_frame a) + unat (frames a) < 2 ^ 64"
    using unat_lt_u64 [of "total_frames (config s)"] by simp
  then show ?thesis by (simp add: unat_add_exact)
qed

text \<open>A completed action moves its own watermark, and no further than the next one allows.\<close>

lemma complete_action_ok:
  assumes inv: "scheduler_inv s" and fits: "action_fits s a" and idle: "\<not> action_pending s"
    and "active s"
  shows "scheduler_inv (fst (complete_action s a)) \<and> snd (complete_action s a) = success"
proof -
  let ?n = "ucast (frames a) :: u64"
  have marks: "watermarks_ok s" and st: "status_ok s" "is_ok (first_status s)"
    using inv assms(4) by (auto simp: scheduler_inv_def status_ok_def active_def)
  note add = first_plus_frames [OF inv fits]
  show ?thesis
  proof (cases "action_kind a")
    case Produce
    then have first: "first_frame a = produced s"
      using fits by (simp add: action_fits_def Let_def word_unat_eq_iff)
    then have "watermarks_ok (s\<lparr>produced := produced s + ?n\<rparr>)"
      using marks fits add Produce by (auto simp: watermarks_ok_def action_fits_def Let_def)
    then show ?thesis using st idle Produce first
      by (simp add: complete_action_def Let_def scheduler_inv_def status_ok_def)
  next
    case Write
    then have first: "first_frame a = written s"
      using fits by (simp add: action_fits_def Let_def word_unat_eq_iff)
    then have "watermarks_ok (s\<lparr>written := written s + ?n\<rparr>)"
      using marks fits add Write by (auto simp: watermarks_ok_def action_fits_def Let_def)
    moreover have "unat (frames a) \<le> unat (produced s) - unat (written s)" "written s \<le> produced s"
      using marks fits Write
      by (auto simp: watermarks_ok_def action_fits_def Let_def word_le_nat_alt)
    then have "\<not> ?n > produced s - written s" by (simp add: word_less_nat_alt unat_sub_exact)
    ultimately show ?thesis using st idle Write first
      by (simp add: complete_action_def Let_def scheduler_inv_def status_ok_def)
  next
    case Visibility_barrier
    then have "first_frame a = committed s" "first_frame a + ?n = written s"
      using fits add by (simp_all add: action_fits_def Let_def word_unat_eq_iff)
    moreover have "watermarks_ok (s\<lparr>committed := written s\<rparr>)"
      using marks by (simp add: watermarks_ok_def)
    ultimately show ?thesis using st idle Visibility_barrier
      by (simp add: complete_action_def Let_def scheduler_inv_def status_ok_def)
  next
    case Read
    then have first: "first_frame a = read s"
      using fits by (simp add: action_fits_def Let_def word_unat_eq_iff)
    then have "watermarks_ok (s\<lparr>read := read s + ?n\<rparr>)"
      using marks fits add Read by (auto simp: watermarks_ok_def action_fits_def Let_def)
    moreover have "\<not> first_frame a + ?n > committed s"
      using fits add Read by (simp add: action_fits_def Let_def word_less_nat_alt)
    ultimately show ?thesis using st idle Read first
      by (simp add: complete_action_def Let_def scheduler_inv_def status_ok_def)
  next
    case Finalize
    have "watermarks_ok (s\<lparr>artifact_finalized := True, sched_state := Completed\<rparr>)"
      using marks by (simp add: watermarks_ok_def)
    then show ?thesis using st idle fits Finalize
      by (simp add: complete_action_def action_fits_def Let_def scheduler_inv_def status_ok_def)
  qed
qed

text \<open>The outcome of a matching ticket while the scheduler is active.\<close>

lemma complete_active:
  assumes "action_matches s a" and "active s"
  shows "complete s a st n =
    (let s' = s\<lparr>action_pending := False, pending_action := no_action\<rparr> in
     if \<not> is_ok st then latch s' st Failed
     else if action_kind a = Visibility_barrier \<or> action_kind a = Finalize then
       if n \<noteq> 0 then latch s' (io_error ''finite playback action returned an unexpected frame count'') Failed
       else complete_action s' a
     else if n \<noteq> frames a
     then latch s' (io_error ''finite playback action completed a short frame count'') Failed
     else complete_action s' a)"
proof -
  have "sched_state s \<noteq> Cancelling" "sched_state s \<noteq> Failed" using assms(2) by (auto simp: active_def)
  then show ?thesis using assms(1) by (simp add: complete_def Let_def)
qed

lemma settled_inv:
  assumes "scheduler_inv s" and "active s"
  shows "scheduler_inv (s\<lparr>action_pending := False, pending_action := q\<rparr>)"
  using assms by (auto simp: scheduler_inv_def status_ok_def active_def)

lemma complete_inv:
  assumes "scheduler_inv s" shows "scheduler_inv (fst (complete s a st n))"
proof (cases "action_matches s a")
  case True
  have fits: "action_fits s a" using action_matches_fits [OF assms True] .
  have pend: "action_pending s" using True by (simp add: action_matches_def)
  show ?thesis
  proof (cases "active s")
    case active: True
    define s' where "s' = s\<lparr>action_pending := False, pending_action := no_action\<rparr>"
    have s': "scheduler_inv s'" "active s'" "action_fits s' a" "\<not> action_pending s'"
      using settled_inv [OF assms active] active fits by (simp_all add: s'_def active_def)
    show ?thesis
      unfolding complete_active [OF True active] s'_def [symmetric] Let_def
      using complete_action_ok [OF s'(1,3,4,2)] latch_inv [OF s'(1)] by simp
  next
    case False
    then have "sched_state s \<in> {Cancelling, Failed, Cancelled}"
      using assms pend by (cases "sched_state s") (auto simp: scheduler_inv_def active_def)
    then have "sched_state s \<in> {Cancelling, Failed}"
      using assms pend by (auto simp: scheduler_inv_def)
    then show ?thesis using True assms
      by (auto simp: complete_def Let_def scheduler_inv_def status_ok_def)
  qed
qed (use assms in \<open>simp add: complete_def\<close>)

lemma start_inv: "scheduler_inv s \<Longrightarrow> scheduler_inv (fst (start s))"
  by (auto simp: start_def Let_def scheduler_inv_def status_ok_def)

lemma consume_inv:
  assumes "scheduler_inv s" shows "scheduler_inv (fst (consume s n))"
proof (cases "\<not> (\<not> started s \<or> sched_state s \<noteq> Running \<or> n = 0 \<or> n > max_block (config s)) \<and>
    \<not> ucast n > read s - consumed s")
  case True
  have "consumed s \<le> read s"
    using assms by (simp add: scheduler_inv_def watermarks_ok_def word_le_nat_alt)
  then have n: "unat n \<le> unat (read s) - unat (consumed s)"
    using True by (simp add: word_less_nat_alt not_less unat_sub_exact)
  have "unat (consumed s) \<le> unat (read s)"
    using assms by (simp add: scheduler_inv_def watermarks_ok_def)
  then have c: "unat (consumed s + ucast n) = unat (consumed s) + unat n"
    using n unat_lt_u64 [of "read s"] by (simp add: unat_add_exact)
  have nz: "unat n \<noteq> 0" using True by (simp add: unat_eq_0)
  have marks: "watermarks_ok s" using assms by (simp add: scheduler_inv_def)
  let ?s = "s\<lparr>consumed := consumed s + ucast n\<rparr>"
  have "watermarks_ok ?s" using marks n by (auto simp: watermarks_ok_def c)
  moreover have "action_fits ?s a" if "action_fits s a" for a
  proof (cases "action_kind a")
    case Finalize
    then have "consumed s = total_frames (config s)" using that by (simp add: action_fits_def Let_def)
    then show ?thesis using marks n nz by (auto simp: watermarks_ok_def)
  qed (use that in \<open>auto simp: action_fits_def Let_def c\<close>)
  ultimately show ?thesis using True assms
    by (auto simp: consume_def scheduler_inv_def status_ok_def)
next
  case False
  then show ?thesis using assms latch_inv [OF assms] by (auto simp: consume_def)
qed

lemma configure_inv: "scheduler_inv s \<Longrightarrow> scheduler_inv (fst (configure s c))"
  by (auto simp: configure_def Let_def reset_run_def scheduler_inv_def watermarks_ok_def status_ok_def)

lemma fail_cancel_inv:
  assumes "scheduler_inv s"
  shows "scheduler_inv (fst (fail s r))" and "scheduler_inv (fst (cancel s))"
    and "scheduler_inv (fst (release s))"
proof -
  show "scheduler_inv (fst (fail s r))" using assms by (simp add: fail_def latch_inv)
  show "scheduler_inv (fst (cancel s))" using assms by (simp add: cancel_def latch_inv)
  show "scheduler_inv (fst (release s))" using assms
    by (auto simp: release_def scheduler_inv_def status_ok_def)
qed

lemmas operation_inv = configure_inv begin_produce_inv begin_write_inv begin_visibility_barrier_inv
  begin_read_inv begin_finalize_inv next_action_inv complete_inv start_inv consume_inv fail_cancel_inv

lemma apply_op_inv: "scheduler_inv s \<Longrightarrow> scheduler_inv (apply_op op s)"
  by (cases op) (simp_all add: operation_inv)

lemma fresh_inv: "scheduler_inv scheduler_fresh"
  by (simp add: scheduler_fresh_def no_config_def scheduler_inv_def watermarks_ok_def status_ok_def)

lemma reachable_inv: "reachable s \<Longrightarrow> scheduler_inv s"
  by (induction rule: reachable.induct) (simp_all add: fresh_inv apply_op_inv)

text \<open>
  C9. Whatever an owner calls and in whatever order, nothing is consumed that was not read,
  nothing read that was not committed, nothing committed that was not written and nothing
  written that was not produced; at most one block is staged, the queue never exceeds its
  capacity, a run fails or is cancelled exactly when it has a first error, and it completes
  only with every frame consumed.
\<close>

theorem reachable_watermarks:
  assumes "reachable s"
  shows "consumed s \<le> read s \<and> read s \<le> committed s \<and> committed s \<le> written s \<and>
    written s \<le> produced s \<and> produced s \<le> total_frames (config s) \<and>
    produced s - written s \<le> ucast (max_block (config s)) \<and>
    read s - consumed s \<le> ucast (queue_capacity (config s)) \<and>
    (is_ok (first_status s) \<longleftrightarrow> sched_state s \<notin> {Failed, Cancelling, Cancelled}) \<and>
    (sched_state s \<noteq> Completed \<or> consumed s = total_frames (config s) \<and> artifact_finalized s)"
proof -
  have "sched_state s \<in> {Unconfigured, Ready, Running, Completed} \<longleftrightarrow>
      sched_state s \<notin> {Failed, Cancelling, Cancelled}"
    by (cases "sched_state s") simp_all
  then show ?thesis using reachable_inv [OF assms]
    by (auto simp: scheduler_inv_def watermarks_ok_def status_ok_def word_le_nat_alt unat_sub)
qed

lemma reachable_watermarks_witness:
  "is_ok (first_status (apply_op Op_next (apply_op (Op_configure
     \<lparr>total_frames = 100, measured_rate = 24000, margin_frames = 0, queue_capacity = 16, max_block = 8\<rparr>)
     scheduler_fresh)))"
proof -
  let ?s = "apply_op Op_next (apply_op (Op_configure
     \<lparr>total_frames = 100, measured_rate = 24000, margin_frames = 0, queue_capacity = 16, max_block = 8\<rparr>)
     scheduler_fresh)"
  have "reachable ?s" by (intro reachable.intros)
  moreover have "sched_state ?s = Ready" by code_simp
  ultimately show ?thesis using reachable_watermarks [of ?s] by simp
qed

text \<open>What settling an action does: its own watermark moves by its frames, the others stay.\<close>

definition settles :: "scheduler \<Rightarrow> action \<Rightarrow> scheduler \<Rightarrow> bool" where
  "settles s a s' \<longleftrightarrow>
     (case action_kind a of
        Produce \<Rightarrow> produced s' = produced s + ucast (frames a) \<and> written s' = written s \<and> committed s' = committed s \<and> read s' = read s
      | Write \<Rightarrow> written s' = written s + ucast (frames a) \<and> produced s' = produced s \<and> committed s' = committed s \<and> read s' = read s
      | Visibility_barrier \<Rightarrow> committed s' = written s \<and> produced s' = produced s \<and> written s' = written s \<and> read s' = read s
      | Read \<Rightarrow> read s' = read s + ucast (frames a) \<and> produced s' = produced s \<and> written s' = written s \<and> committed s' = committed s
      | Finalize \<Rightarrow> artifact_finalized s' \<and> sched_state s' = Completed)"

lemma latch_not_ok: "\<not> is_ok reason \<Longrightarrow> \<not> is_ok (snd (latch s reason st))"
  by (simp add: latch_def Let_def)

lemma complete_action_settles:
  assumes "is_ok (snd (complete_action s a))"
  shows "settles s a (fst (complete_action s a))"
  using assms latch_not_ok [OF refusals_not_ok(4)]
  by (auto simp: complete_action_def settles_def Let_def split: action_kind.splits if_splits)

text \<open>
  C35. An owner that completes the ticket it was given with the exact frame count is never
  told its cursor changed or its watermark was crossed, whatever it called in between: while the
  playback is active this succeeds and moves the action's own watermark by exactly its frames; once
  it is cancelling or failed the answer is the error latched first and the playback is over.
  Either way no ticket is left.
\<close>

theorem exact_ticket_completes:
  assumes "reachable s" and "action_pending s"
    and "n = (if action_kind (pending_action s) \<in> {Visibility_barrier, Finalize} then 0
              else frames (pending_action s))"
  shows "let (s', st) = complete s (pending_action s) success n in
    (if active s then st = success \<and> settles s (pending_action s) s'
     else st = first_status s \<and> \<not> is_ok st \<and> is_terminal s') \<and> \<not> action_pending s'"
proof -
  have inv: "scheduler_inv s" using assms(1) by (rule reachable_inv)
  then have fits: "action_fits s (pending_action s)" and
    states: "active s \<or> sched_state s = Cancelling \<or> sched_state s = Failed"
    using assms(2) by (auto simp: scheduler_inv_def active_def intro: state.exhaust [of "sched_state s"])
  have matches: "action_matches s (pending_action s)" using assms(2) by (simp add: action_matches_def)
  let ?s = "s\<lparr>action_pending := False, pending_action := no_action\<rparr>"
  show ?thesis
  proof (cases "active s")
    case True
    have ok: "snd (complete_action ?s (pending_action s)) = success"
      using settled_inv [OF inv True] fits True by (intro complete_action_ok [THEN conjunct2]) (simp_all add: active_def)
    then have "settles ?s (pending_action s) (fst (complete_action ?s (pending_action s)))"
      by (intro complete_action_settles) (simp add: is_ok_def success_def)
    then have "settles s (pending_action s) (fst (complete_action ?s (pending_action s)))"
      by (simp add: settles_def split: action_kind.splits)
    moreover have "\<not> action_pending (fst (complete_action ?s (pending_action s)))"
      by (simp add: complete_action_def latch_def Let_def split: action_kind.splits)
    ultimately show ?thesis using matches assms(3) True ok by (simp add: complete_active Let_def case_prod_beta)
  next
    case False
    then have "sched_state s = Cancelling \<or> sched_state s = Failed" using states by blast
    then show ?thesis using matches inv False
      by (auto simp: complete_def Let_def scheduler_inv_def status_ok_def is_terminal_def)
  qed
qed

lemma exact_ticket_completes_witness:
  "produced (fst (complete (apply_op Op_next (apply_op (Op_configure
     \<lparr>total_frames = 100, measured_rate = 24000, margin_frames = 0, queue_capacity = 16, max_block = 8\<rparr>)
     scheduler_fresh)) \<lparr>token = 1, first_frame = 0, frames = 8, action_kind = Produce\<rparr> success 8)) = 8 \<and>
   code (snd (complete (apply_op Op_cancel (apply_op Op_next (apply_op (Op_configure
     \<lparr>total_frames = 100, measured_rate = 24000, margin_frames = 0, queue_capacity = 16, max_block = 8\<rparr>)
     scheduler_fresh))) \<lparr>token = 1, first_frame = 0, frames = 8, action_kind = Produce\<rparr> success 8)) = Unavailable"
proof -
  let ?s = "apply_op Op_next (apply_op (Op_configure
     \<lparr>total_frames = 100, measured_rate = 24000, margin_frames = 0, queue_capacity = 16, max_block = 8\<rparr>)
     scheduler_fresh)"
  let ?c = "apply_op Op_cancel ?s"
  have reached: "reachable ?s" "reachable ?c" by (intro reachable.intros)+
  have pending: "action_pending ?s" "action_pending ?c" by code_simp+
  have active: "active ?s" "\<not> active ?c" "code (first_status ?c) = Unavailable" "produced ?s = 0" by code_simp+
  have "pending_action ?s = \<lparr>token = 1, first_frame = 0, frames = 8, action_kind = Produce\<rparr>"
    "pending_action ?c = \<lparr>token = 1, first_frame = 0, frames = 8, action_kind = Produce\<rparr>"
    by code_simp+
  then show ?thesis
    using exact_ticket_completes [OF reached(1) pending(1), of 8] exact_ticket_completes [OF reached(2) pending(2), of 8] active
    by (auto simp: settles_def case_prod_beta)
qed

section \<open>The lead\<close>

lemma unat_rate: "unat (ucast (r :: u32) :: u64) = unat r" by simp

lemma required_lead_exact:
  "unat (required_lead c) =
     min (unat (total_frames c))
       ((unat (total_frames c) * (48000 - unat (measured_rate c)) + 47999) div 48000 + unat (margin_frames c))"
proof -
  define T where "T = unat (total_frames c)"
  define d where "d = 48000 - unat (measured_rate c)"
  define m where "m = unat (margin_frames c)"
  let ?rate = "ucast (measured_rate c) :: u64"
  let ?deficit = "if ?rate < playback_sample_rate_hz then playback_sample_rate_hz - ?rate else 0"
  let ?whole = "total_frames c div playback_sample_rate_hz"
  let ?rem = "total_frames c mod playback_sample_rate_hz"
  have T: "T < 2 ^ 64" unfolding T_def using unat_lt_u64 by simp
  have hz: "unat playback_sample_rate_hz = 48000" by (simp add: playback_sample_rate_hz_def)
  have deficit: "unat ?deficit = d"
    by (auto simp: d_def hz unat_sub_exact word_less_nat_alt word_le_nat_alt)
  have d: "d \<le> 48000" by (simp add: d_def)
  have parts: "unat ?whole = T div 48000" "unat ?rem = T mod 48000"
    by (simp_all add: T_def unat_div_distrib unat_mod_distrib hz)
  have "T mod 48000 * d \<le> 47999 * 48000" using d by (intro mult_le_mono) auto
  then have num: "unat (?rem * ?deficit + playback_sample_rate_hz - 1) = T mod 48000 * d + 47999"
  proof -
    assume small: "T mod 48000 * d \<le> 47999 * 48000"
    have m: "unat (?rem * ?deficit) = T mod 48000 * d"
      using small parts deficit by (subst unat_mult_exact) simp_all
    have "?rem * ?deficit + playback_sample_rate_hz - 1 = ?rem * ?deficit + 47999"
      by (simp add: playback_sample_rate_hz_def)
    moreover have "unat (?rem * ?deficit + 47999) = T mod 48000 * d + 47999"
      using small m by (subst unat_add_exact) simp_all
    ultimately show ?thesis by (simp only:)
  qed
  have "T div 48000 * d \<le> T div 48000 * 48000" using d by (intro mult_le_mono) auto
  then have whole: "T div 48000 * d \<le> T" by linarith
  have mul: "unat (?whole * ?deficit) = T div 48000 * d"
    using whole T parts deficit by (subst unat_mult_exact) simp_all
  have "T * d = 48000 * (T div 48000 * d) + T mod 48000 * d"
    by (metis (no_types, lifting) add_mult_distrib mult.assoc mult_div_mod_eq)
  then have ceil: "(T * d + 47999) div 48000 = T div 48000 * d + (T mod 48000 * d + 47999) div 48000"
    by simp
  have "T * d \<le> T * 48000" using d by (intro mult_le_mono) auto
  then have base_T: "(T * d + 47999) div 48000 \<le> T" by linarith
  have frac: "unat ((?rem * ?deficit + playback_sample_rate_hz - 1) div playback_sample_rate_hz) =
      (T mod 48000 * d + 47999) div 48000"
    by (simp add: unat_div_distrib num hz)
  define base where "base = ?whole * ?deficit +
    (?rem * ?deficit + playback_sample_rate_hz - 1) div playback_sample_rate_hz"
  have base: "unat base = (T * d + 47999) div 48000"
    unfolding base_def using mul frac ceil base_T T by (subst unat_add_exact) simp_all
  have le: "base \<le> total_frames c" using base base_T by (simp add: word_le_nat_alt T_def)
  then have min: "min base (total_frames c) = base" by simp
  have lead: "required_lead c = (if margin_frames c \<ge> total_frames c - base then total_frames c
      else base + margin_frames c)"
    by (simp add: required_lead_def Let_def min flip: base_def)
  have room: "unat (total_frames c - base) = T - unat base"
    using le by (simp add: unat_sub_exact T_def)
  have exact: "unat (required_lead c) = min T ((T * d + 47999) div 48000 + m)"
  proof (cases "margin_frames c \<ge> total_frames c - base")
    case True
    then show ?thesis using lead room base by (simp add: word_le_nat_alt T_def m_def)
  next
    case False
    then have "m < T - unat base" using room by (simp add: word_le_nat_alt m_def)
    then show ?thesis using False lead base T
      by (simp add: m_def unat_add_exact)
  qed
  then show ?thesis by (simp add: T_def d_def m_def)
qed

text \<open>
  C39. The lead is the frames the producer falls behind over the whole play, rounded up, plus
  the margin, and never more than the play; no intermediate product wraps. It suffices: with
  the producer at its measured rate, the lead and what it produces while \<open>played\<close> frames
  play, whole frames only, cover them.
\<close>

theorem required_lead_suffices:
  "unat (required_lead c) =
     min (unat (total_frames c))
       ((unat (total_frames c) * (48000 - unat (measured_rate c)) + 47999) div 48000 + unat (margin_frames c)) \<and>
   min played (unat (total_frames c)) \<le>
     unat (required_lead c) + unat (measured_rate c) * min played (unat (total_frames c)) div 48000"
proof -
  define T where "T = unat (total_frames c)"
  define d where "d = 48000 - unat (measured_rate c)"
  define m where "m = unat (margin_frames c)"
  define q where "q = min played T"
  have "q \<le> min T ((T * d + 47999) div 48000 + m) + unat (measured_rate c) * q div 48000"
  proof (cases "T \<le> (T * d + 47999) div 48000 + m")
    case True
    then show ?thesis by (simp add: q_def)
  next
    case False
    have "48000 \<le> unat (measured_rate c) + d" by (simp add: d_def)
    then have "q * 48000 \<le> q * unat (measured_rate c) + q * d"
      by (metis add_mult_distrib2 mult_le_mono2)
    also have "q * d \<le> T * d" by (simp add: q_def)
    finally have "q * 48000 \<le> unat (measured_rate c) * q + T * d" by (simp add: mult.commute)
    then have "q \<le> (T * d + 47999) div 48000 + unat (measured_rate c) * q div 48000" by linarith
    then show ?thesis using False by simp
  qed
  then show ?thesis using required_lead_exact [of c] by (simp add: T_def d_def m_def q_def)
qed

section \<open>A play comes to its end\<close>

text \<open>
  One turn of an owner that always carries its actions out: it takes the next action and
  completes it in full; when there is none, it starts a play that is ready, and otherwise
  lets the audio clock consume a block of what is queued.
\<close>

definition owner_turn :: "scheduler \<Rightarrow> scheduler" where
  "owner_turn s =
     (case next_action s of
        (s', Inr a) \<Rightarrow>
          fst (complete s' a success
            (if action_kind a \<in> {Visibility_barrier, Finalize} then 0 else frames a))
      | (s', Inl _) \<Rightarrow>
          if sched_state s' = Ready then fst (start s')
          else fst (consume s' (ucast (min (ucast (max_block (config s'))) (read s' - consumed s')))))"

definition behind :: "u64 \<Rightarrow> nat \<Rightarrow> nat" where
  "behind T n = unat T - n"

definition frames_to_go :: "scheduler \<Rightarrow> nat" where
  "frames_to_go s =
     (let total = total_frames (config s) in
      behind total (unat (produced s)) + behind total (unat (written s)) +
      behind total (unat (committed s)) + behind total (unat (read s)) + behind total (unat (consumed s)))"

lemma behind_less: "x + n \<le> unat T \<Longrightarrow> 0 < n \<Longrightarrow> behind T (x + n) < behind T x"
  by (simp add: behind_def)

definition turns_left :: "scheduler \<Rightarrow> nat" where
  "turns_left s = frames_to_go s + (if sched_state s = Ready then 2 else 1)"

definition playing :: "nat \<Rightarrow> scheduler \<Rightarrow> bool" where
  "playing limit s \<longleftrightarrow> scheduler_inv s \<and> \<not> action_pending s \<and> active s \<and>
     0 < unat (max_block (config s)) \<and> unat (max_block (config s)) \<le> unat (queue_capacity (config s)) \<and>
     unat (required_lead_frames s) \<le> unat (total_frames (config s)) \<and>
     (sched_state s = Ready \<longrightarrow> consumed s = 0) \<and> (sched_state s = Running \<longrightarrow> started s) \<and>
     \<not> artifact_finalized s \<and> unat (next_token s) + turns_left s \<le> limit"

lemma unat_narrow_min:
  "unat (ucast (min (ucast (b :: u32)) (x :: u64)) :: u32) = min (unat b) (unat x)"
  using unat_lt_u32 [of b] by (subst unat_ucast_64_32) (auto simp: unat_min)

text \<open>An action begun and completed at once.\<close>

lemma action_turn:
  assumes p: "playing limit s" and limit: "limit < 2 ^ 64 - 1"
    and next_is: "next_action s = begin_action s k f n"
    and fits: "\<And>t. action_fits s \<lparr>token = t, first_frame = f, frames = n, action_kind = k\<rparr>"
  shows "\<exists>t. owner_turn s = fst (complete_action (s\<lparr>next_token := next_token s + 1,
      pending_action := no_action, action_pending := False\<rparr>)
      \<lparr>token = t, first_frame = f, frames = n, action_kind = k\<rparr>) \<and>
    snd (complete_action (s\<lparr>next_token := next_token s + 1,
      pending_action := no_action, action_pending := False\<rparr>)
      \<lparr>token = t, first_frame = f, frames = n, action_kind = k\<rparr>) = success \<and>
    scheduler_inv (owner_turn s) \<and> unat (next_token s + 1) = Suc (unat (next_token s))"
proof -
  let ?a = "\<lparr>token = next_token s, first_frame = f, frames = n, action_kind = k\<rparr>"
  let ?s = "s\<lparr>next_token := next_token s + 1, pending_action := ?a, action_pending := True\<rparr>"
  let ?d = "s\<lparr>next_token := next_token s + 1, pending_action := no_action, action_pending := False\<rparr>"
  have t: "unat (next_token s) < 2 ^ 64 - 1" using p limit by (auto simp: playing_def)
  then have "next_token s \<noteq> - 1"
    by (auto simp: unsigned_minus_1_eq_mask mask_eq_exp_minus_1)
  then have "begin_action s k f n = (?s, Inr ?a)"
    using p by (simp add: begin_action_def playing_def Let_def)
  then have begun: "next_action s = (?s, Inr ?a)" by (simp only: next_is)
  have m: "action_matches ?s ?a" by (simp add: action_matches_def)
  have "active ?s" using p by (simp add: playing_def active_def)
  have d: "scheduler_inv ?d" "active ?d" "\<not> action_pending ?d"
    using p by (auto simp: playing_def scheduler_inv_def status_ok_def active_def)
  have "action_fits ?d ?a" using fits by simp
  note ok = complete_action_ok [OF d(1) this d(3,2)]
  have same: "?s\<lparr>action_pending := False, pending_action := no_action\<rparr> = ?d" by simp
  have all: "complete ?s ?a success (if action_kind ?a \<in> {Visibility_barrier, Finalize} then 0 else frames ?a) =
      complete_action ?d ?a"
    unfolding complete_active [OF m \<open>active ?s\<close>] Let_def same by auto
  have turn: "owner_turn s = fst (complete_action ?d ?a)"
    unfolding owner_turn_def begun all [symmetric] by (simp only: prod.case sum.case)
  have inv: "scheduler_inv (owner_turn s)" unfolding turn by (rule ok [THEN conjunct1])
  have "unat (next_token s + 1) = Suc (unat (next_token s))"
    using t by (simp add: unat_add_exact)
  then show ?thesis
    by (intro exI [of _ "next_token s"] conjI turn inv ok [THEN conjunct2])
qed

lemma complete_action_effect:
  assumes "snd (complete_action s a) = success"
  shows "fst (complete_action s a) =
    (case action_kind a of
       Produce \<Rightarrow> s\<lparr>produced := produced s + ucast (frames a)\<rparr>
     | Write \<Rightarrow> s\<lparr>written := written s + ucast (frames a)\<rparr>
     | Visibility_barrier \<Rightarrow> s\<lparr>committed := written s\<rparr>
     | Read \<Rightarrow> s\<lparr>read := read s + ucast (frames a)\<rparr>
     | Finalize \<Rightarrow> s\<lparr>artifact_finalized := True, sched_state := Completed\<rparr>)"
proof -
  have "\<not> is_ok (snd (latch s' (io_error m) st))" for s' m st by (simp add: latch_def Let_def)
  then have "snd (latch s' (io_error m) st) \<noteq> success" for s' m st by (metis is_ok_success)
  then show ?thesis using assms
    by (cases "action_kind a") (auto simp: complete_action_def Let_def split: if_splits)
qed

lemma advance_turn:
  assumes p: "playing limit s" and limit: "limit < 2 ^ 64 - 1"
    and next_is: "next_action s = begin_action s k f n"
    and fits: "\<And>t. action_fits s \<lparr>token = t, first_frame = f, frames = n, action_kind = k\<rparr>"
    and k: "k \<noteq> Finalize" and n: "0 < unat n"
  shows "playing limit (owner_turn s) \<and> turns_left (owner_turn s) < turns_left s"
proof -
  let ?d = "s\<lparr>next_token := next_token s + 1, pending_action := no_action, action_pending := False\<rparr>"
  obtain t where turn: "owner_turn s = fst (complete_action ?d
        \<lparr>token = t, first_frame = f, frames = n, action_kind = k\<rparr>)"
    and ok: "snd (complete_action ?d \<lparr>token = t, first_frame = f, frames = n, action_kind = k\<rparr>) = success"
    and inv: "scheduler_inv (owner_turn s)" and tok: "unat (next_token s + 1) = Suc (unat (next_token s))"
    using action_turn [OF p limit next_is fits] by blast
  note eff = turn [unfolded complete_action_effect [OF ok], simplified]
  have marks: "watermarks_ok s" using p by (simp add: playing_def scheduler_inv_def)
  have ok_s: "scheduler_inv s" using p by (simp add: playing_def)
  note add = first_plus_frames [OF ok_s fits, simplified, OF k]
  have first: "f = (case k of Produce \<Rightarrow> produced s | Write \<Rightarrow> written s
      | Visibility_barrier \<Rightarrow> committed s | Read \<Rightarrow> read s | Finalize \<Rightarrow> f)"
    using fits [of 0] by (cases k) (auto simp: action_fits_def Let_def word_unat_eq_iff)
  let ?T = "unat (total_frames (config s))"
  have top: "unat f + unat n \<le> ?T"
    using k fits [of 0] marks by (cases k) (auto simp: action_fits_def Let_def watermarks_ok_def)
  then have sub: "behind (total_frames (config s)) (unat f + unat n) < behind (total_frames (config s)) (unat f)" using n by (rule behind_less)
  have written: "k = Visibility_barrier \<Longrightarrow> unat (written s) = unat f + unat n"
    using fits [of 0] by (simp add: action_fits_def Let_def)
  have go: "frames_to_go (owner_turn s) < frames_to_go s"
    using k sub add first written by (cases k) (simp_all add: eff frames_to_go_def Let_def)
  moreover have "sched_state (owner_turn s) = sched_state s \<and> config (owner_turn s) = config s \<and>
      required_lead_frames (owner_turn s) = required_lead_frames s \<and> consumed (owner_turn s) = consumed s \<and>
      started (owner_turn s) = started s \<and> artifact_finalized (owner_turn s) = artifact_finalized s \<and>
      next_token (owner_turn s) = next_token s + 1 \<and> \<not> action_pending (owner_turn s)"
    using k by (cases k) (simp_all add: eff)
  ultimately show ?thesis using p inv tok by (auto simp: playing_def active_def turns_left_def)
qed

lemma finalize_turn:
  assumes p: "playing limit s" and limit: "limit < 2 ^ 64 - 1"
    and "sched_state s = Running" and "next_action s = begin_action s Finalize f n"
    and "consumed s = total_frames (config s)"
  shows "scheduler_inv (owner_turn s) \<and> sched_state (owner_turn s) = Completed"
proof -
  have "\<And>t. action_fits s \<lparr>token = t, first_frame = f, frames = n, action_kind = Finalize\<rparr>"
    using assms(5) by (simp add: action_fits_def Let_def)
  from action_turn [OF p limit assms(4) this] show ?thesis
    by (auto simp: complete_action_def Let_def)
qed

text \<open>A request that keeps the watermarks is granted, and its completion is progress.\<close>

lemma produce_turn:
  assumes p: "playing limit s" and limit: "limit < 2 ^ 64 - 1" and next_is: "next_action s = begin_produce s n"
    and n: "0 < unat n" "unat n \<le> unat (max_block (config s))"
    and top: "unat (produced s) + unat n \<le> unat (total_frames (config s))" and all: "produced s = written s"
  shows "playing limit (owner_turn s) \<and> turns_left (owner_turn s) < turns_left s"
proof -
  have "active s" "produced s \<le> total_frames (config s)"
    using p by (auto simp: playing_def scheduler_inv_def watermarks_ok_def word_le_nat_alt)
  then have "begin_produce s n = begin_action s Produce (produced s) n"
    using n top all
    by (auto simp: begin_produce_def Let_def word_less_nat_alt unat_sub_exact)
  then show ?thesis
    using n top all by (intro advance_turn [OF p limit, where k = Produce and f = "produced s" and n = "n"]) (simp_all add: next_is action_fits_def Let_def)
qed

lemma write_turn:
  assumes p: "playing limit s" and limit: "limit < 2 ^ 64 - 1" and next_is: "next_action s = begin_write s n"
    and n: "0 < unat n" "unat n \<le> unat (max_block (config s))"
    and top: "unat (written s) + unat n \<le> unat (produced s)" and all: "written s = committed s"
  shows "playing limit (owner_turn s) \<and> turns_left (owner_turn s) < turns_left s"
proof -
  have "active s" "written s \<le> produced s"
    using p by (auto simp: playing_def scheduler_inv_def watermarks_ok_def word_le_nat_alt)
  then have "begin_write s n = begin_action s Write (written s) n"
    using n top all by (auto simp: begin_write_def word_less_nat_alt unat_sub_exact)
  then show ?thesis
    using n top all by (intro advance_turn [OF p limit, where k = Write and f = "written s" and n = "n"]) (simp_all add: next_is action_fits_def Let_def)
qed

lemma barrier_turn:
  assumes p: "playing limit s" and limit: "limit < 2 ^ 64 - 1"
    and next_is: "next_action s = begin_visibility_barrier s" and more: "committed s < written s"
  shows "playing limit (owner_turn s) \<and> turns_left (owner_turn s) < turns_left s"
proof -
  let ?n = "written s - committed s"
  have n: "unat ?n = unat (written s) - unat (committed s)" using more by (simp add: unat_sub_exact)
  have small: "unat ?n \<le> unat (max_block (config s))"
    using n p by (auto simp: playing_def scheduler_inv_def watermarks_ok_def)
  then have u: "unat (ucast ?n :: u32) = unat (written s) - unat (committed s)"
    using n unat_lt_u32 [of "max_block (config s)"] by (simp add: unat_ucast_64_32)
  have "active s" using p by (simp add: playing_def)
  then have "begin_visibility_barrier s = begin_action s Visibility_barrier (committed s) (ucast ?n)"
    using small more by (auto simp: begin_visibility_barrier_def Let_def word_less_nat_alt)
  then show ?thesis
    using u more
    by (intro advance_turn [OF p limit, where k = Visibility_barrier and f = "committed s" and n = "ucast ?n"]) (simp_all add: next_is action_fits_def Let_def word_less_nat_alt)
qed

lemma read_turn:
  assumes p: "playing limit s" and limit: "limit < 2 ^ 64 - 1" and next_is: "next_action s = begin_read s n"
    and n: "0 < unat n" "unat n \<le> unat (max_block (config s))"
    and top: "unat (read s) + unat n \<le> unat (committed s)"
    and room: "unat (read s) + unat n \<le> unat (consumed s) + unat (queue_capacity (config s))"
  shows "playing limit (owner_turn s) \<and> turns_left (owner_turn s) < turns_left s"
proof -
  have "active s" "read s \<le> committed s" "consumed s \<le> read s"
      "unat (read s) - unat (consumed s) \<le> unat (queue_capacity (config s))"
    using p by (auto simp: playing_def scheduler_inv_def watermarks_ok_def word_le_nat_alt)
  then have "begin_read s n = begin_action s Read (read s) n"
    using n top room
    by (auto simp: begin_read_def Let_def word_less_nat_alt unat_sub_exact word_le_nat_alt)
  then show ?thesis
    using n top room by (intro advance_turn [OF p limit, where k = Read and f = "read s" and n = "n"]) (simp_all add: next_is action_fits_def Let_def)
qed

text \<open>Before the play: the lead is built, the queue filled, the play started.\<close>

lemma ready_turn:
  assumes p: "playing limit s" and limit: "limit < 2 ^ 64 - 1" and ready: "sched_state s = Ready"
  shows "playing limit (owner_turn s) \<and> turns_left (owner_turn s) < turns_left s"
proof -
  let ?T = "total_frames (config s)" and ?B = "max_block (config s)" and ?C = "queue_capacity (config s)"
  define prefill where "prefill = min (ucast ?C) ?T"
  define target where "target = max (required_lead_frames s) prefill"
  have marks: "watermarks_ok s" and idle: "\<not> action_pending s" "active s" "consumed s = 0"
    and block: "0 < unat ?B" "unat ?B \<le> unat ?C"
    using p ready by (auto simp: playing_def scheduler_inv_def)
  have target: "unat target \<le> unat ?T" "unat prefill \<le> unat target" "unat prefill \<le> unat ?C"
    using p by (auto simp: target_def prefill_def unat_max unat_min playing_def)
  note next_def = next_action_def [of s, unfolded Let_def, folded prefill_def, folded target_def]
  consider (barrier) "committed s < target" "committed s < written s"
    | (store) "committed s < target" "written s = committed s" "written s < produced s"
    | (produce) "committed s < target" "written s = committed s" "produced s = written s"
    | (fill) "\<not> committed s < target" "read s < prefill"
    | (go) "\<not> committed s < target" "\<not> read s < prefill"
    using marks unfolding watermarks_ok_def word_less_nat_alt word_unat_eq_iff by linarith
  then show ?thesis
  proof cases
    case barrier
    then have "next_action s = begin_visibility_barrier s" using idle ready by (simp add: next_def)
    then show ?thesis using barrier_turn [OF p limit] barrier by blast
  next
    case store
    let ?n = "ucast (min (ucast ?B) (produced s - written s)) :: u32"
    have "unat ?n = min (unat ?B) (unat (produced s) - unat (written s))"
      using store by (simp add: unat_narrow_min unat_sub_exact)
    moreover have nx: "next_action s = begin_write s ?n" using idle ready store by (simp add: next_def)
    ultimately show ?thesis
      using store block by (intro write_turn [OF p limit nx]) (auto simp: word_less_nat_alt)
  next
    case produce
    let ?n = "ucast (min (ucast ?B) (?T - produced s)) :: u32"
    have less: "unat (produced s) < unat ?T" using produce target by (simp add: word_less_nat_alt)
    then have "unat ?n = min (unat ?B) (unat ?T - unat (produced s))"
      by (simp add: unat_narrow_min unat_sub_exact word_le_nat_alt)
    moreover have nx: "next_action s = begin_produce s ?n" using idle ready produce by (simp add: next_def)
    ultimately show ?thesis
      using produce block less by (intro produce_turn [OF p limit nx]) auto
  next
    case fill
    let ?x = "min (ucast ?C - read s) (committed s - read s)"
    have le: "unat (read s) < unat prefill" "unat (read s) < unat (committed s)" "unat (read s) < unat ?C"
      using fill target by (auto simp: word_less_nat_alt)
    have n: "unat (min (ucast ?B) ?x) = min (unat ?B) (min (unat ?C - unat (read s)) (unat (committed s) - unat (read s)))"
      using le by (simp add: unat_min unat_sub_exact word_le_nat_alt)
    then have u: "unat (ucast (min (ucast ?B) ?x) :: u32) = unat (min (ucast ?B) ?x)"
      by (simp add: unat_narrow_min unat_min)
    have "min (ucast ?B) ?x > 0" using n block le by (simp add: word_less_nat_alt)
    then have nx: "next_action s = begin_read s (ucast (min (ucast ?B) ?x))"
      using idle ready fill by (simp add: next_def)
    show ?thesis
      using block le idle by (intro read_turn [OF p limit nx]) (auto simp: u n)
  next
    case go
    then have none: "next_action s = (s, Inl (busy_status ''finite playback is ready to start''))"
      using idle ready by (simp add: next_def)
    have "\<not> committed s < required_lead_frames s"
      using go(1) unfolding target_def by (metis less_max_iff_disj)
    then have "owner_turn s = s\<lparr>started := True, sched_state := Running\<rparr>"
      using go idle ready by (simp add: owner_turn_def none start_def Let_def flip: prefill_def)
    then show ?thesis using p ready
      by (auto simp: playing_def turns_left_def frames_to_go_def scheduler_inv_def status_ok_def active_def Let_def)
  qed
qed

text \<open>During the play: the queue is refilled, the staging emptied, the clock consumes.\<close>

lemma running_turn:
  assumes p: "playing limit s" and limit: "limit < 2 ^ 64 - 1" and run: "sched_state s = Running"
  shows "playing limit (owner_turn s) \<and> turns_left (owner_turn s) < turns_left s \<or>
    scheduler_inv (owner_turn s) \<and> sched_state (owner_turn s) = Completed"
proof -
  let ?T = "total_frames (config s)" and ?B = "max_block (config s)" and ?C = "queue_capacity (config s)"
  define room where "room = ucast ?C - (read s - consumed s)"
  define refill where "refill = min (ucast ?B) (committed s - read s)"
  have marks: "watermarks_ok s" and idle: "\<not> action_pending s" "active s" "started s" "\<not> artifact_finalized s"
    and block: "0 < unat ?B" "unat ?B \<le> unat ?C"
    using p run by (auto simp: playing_def scheduler_inv_def)
  have queued: "unat (read s - consumed s) = unat (read s) - unat (consumed s)"
    using marks by (simp add: watermarks_ok_def unat_sub_exact word_le_nat_alt)
  then have room: "unat room = unat ?C - (unat (read s) - unat (consumed s))"
    using marks unfolding room_def
    by (subst unat_sub_exact) (auto simp: watermarks_ok_def word_le_nat_alt)
  have refill: "unat refill = min (unat ?B) (unat (committed s) - unat (read s))"
    using marks by (simp add: refill_def watermarks_ok_def unat_min unat_sub_exact word_le_nat_alt)
  note next_def = next_action_def [of s, unfolded Let_def, folded room_def refill_def]
  consider (refill) "0 < refill" "refill \<le> room"
    | (barrier) "\<not> (0 < refill \<and> refill \<le> room)" "committed s < written s"
    | (store) "\<not> (0 < refill \<and> refill \<le> room)" "written s = committed s" "written s < produced s"
    | (produce) "\<not> (0 < refill \<and> refill \<le> room)" "written s = committed s" "produced s = written s" "produced s < ?T"
    | (drain) "\<not> (0 < refill \<and> refill \<le> room)" "written s = committed s" "produced s = written s" "produced s = ?T"
    using marks unfolding watermarks_ok_def word_less_nat_alt word_unat_eq_iff by linarith
  then show ?thesis
  proof cases
    case refill
    have nx: "next_action s = begin_read s (ucast refill)" using idle run refill by (simp add: next_def)
    have u: "unat (ucast refill :: u32) = unat refill"
      unfolding refill_def by (simp add: unat_narrow_min unat_min)
    have "0 < unat refill" "unat refill \<le> unat room" using refill by (simp_all add: word_less_nat_alt word_le_nat_alt)
    then have "unat (read s) + unat refill \<le> unat (committed s)"
      "unat (read s) + unat refill \<le> unat (consumed s) + unat ?C" "unat refill \<le> unat ?B"
      using marks room \<open>unat refill = _\<close> by (auto simp: watermarks_ok_def)
    then show ?thesis using read_turn [OF p limit nx] \<open>0 < unat refill\<close> by (simp add: u)
  next
    case barrier
    then have "next_action s = begin_visibility_barrier s" using idle run by (auto simp: next_def)
    then show ?thesis using barrier_turn [OF p limit] barrier by blast
  next
    case store
    let ?n = "ucast (min (ucast ?B) (produced s - written s)) :: u32"
    have "unat ?n = min (unat ?B) (unat (produced s) - unat (written s))"
      using store by (simp add: unat_narrow_min unat_sub_exact)
    moreover have nx: "next_action s = begin_write s ?n" using idle run store by (auto simp: next_def)
    ultimately have "playing limit (owner_turn s) \<and> turns_left (owner_turn s) < turns_left s"
      using store block by (intro write_turn [OF p limit nx]) (auto simp: word_less_nat_alt)
    then show ?thesis ..
  next
    case produce
    let ?n = "ucast (min (ucast ?B) (?T - produced s)) :: u32"
    have less: "unat (produced s) < unat ?T" using produce by (simp add: word_less_nat_alt)
    then have "unat ?n = min (unat ?B) (unat ?T - unat (produced s))"
      by (simp add: unat_narrow_min unat_sub_exact word_le_nat_alt)
    moreover have nx: "next_action s = begin_produce s ?n" using idle run produce by (auto simp: next_def)
    ultimately have "playing limit (owner_turn s) \<and> turns_left (owner_turn s) < turns_left s"
      using produce block less by (intro produce_turn [OF p limit nx]) auto
    then show ?thesis ..
  next
    case drain
    have commit: "committed s = ?T" using drain by simp
    show ?thesis
    proof (cases "consumed s = ?T")
      case True
      then have "read s = ?T" using marks commit by (simp add: watermarks_ok_def word_unat_eq_iff)
      then have "begin_finalize s = begin_action s Finalize ?T 0"
        using True drain run idle by (simp add: begin_finalize_def Let_def)
      moreover have "next_action s = begin_finalize s"
        using True idle run drain by (auto simp: next_def)
      ultimately show ?thesis using finalize_turn [OF p limit run] True by simp
    next
      case False
      let ?n = "ucast (min (ucast ?B) (read s - consumed s)) :: u32"
      have none: "next_action s = (s, Inl (busy_status ''finite playback is waiting for queue consumption''))"
        using False idle run drain by (auto simp: next_def)
      have "unat (consumed s) \<noteq> unat ?T" using False by (simp add: word_unat_eq_iff)
      moreover have "\<not> (0 < unat refill \<and> unat refill \<le> unat room)"
        using drain(1) by (simp add: word_less_nat_alt word_le_nat_alt)
      ultimately have some: "unat (consumed s) < unat (read s)"
        using marks block commit room refill by (auto simp: watermarks_ok_def)
      have n: "unat ?n = min (unat ?B) (unat (read s) - unat (consumed s))"
        by (simp add: unat_narrow_min queued)
      then have "?n \<noteq> 0" "\<not> ?n > ?B" "\<not> ucast ?n > read s - consumed s"
        using some block by (auto simp: word_unat_eq_iff word_less_nat_alt queued)
      then have turn: "owner_turn s = s\<lparr>consumed := consumed s + ucast ?n\<rparr>"
        using run idle by (simp add: owner_turn_def none consume_def del: unat_ucast_32_64)
      have inv: "scheduler_inv (owner_turn s)"
        using consume_inv [of s ?n] p \<open>?n \<noteq> 0\<close> \<open>\<not> ?n > ?B\<close> \<open>\<not> ucast ?n > _\<close> run idle
        by (simp add: turn consume_def playing_def)
      have add: "unat (consumed s + ucast ?n) = unat (consumed s) + unat ?n"
        using n some unat_lt_u64 [of "read s"] by (subst unat_add_exact) auto
      have "unat (consumed s) + unat ?n \<le> unat ?T" "0 < unat ?n"
        using n some block marks by (auto simp: watermarks_ok_def)
      then have "behind ?T (unat (consumed s) + unat ?n) < behind ?T (unat (consumed s))"
        by (rule behind_less)
      then have "frames_to_go (owner_turn s) < frames_to_go s"
        by (simp add: turn frames_to_go_def add Let_def)
      then show ?thesis using inv p run by (simp add: turn playing_def turns_left_def active_def)
    qed
  qed
qed

lemma playing_turns:
  assumes "playing limit s" and "limit < 2 ^ 64 - 1" and "turns_left s \<le> k"
  shows "\<exists>n \<le> k. scheduler_inv ((owner_turn ^^ n) s) \<and> sched_state ((owner_turn ^^ n) s) = Completed"
  using assms
proof (induction k arbitrary: s)
  case 0
  then show ?case by (simp add: turns_left_def split: if_splits)
next
  case (Suc k)
  have "sched_state s = Ready \<or> sched_state s = Running"
    using Suc.prems(1) by (simp add: playing_def active_def)
  then consider "playing limit (owner_turn s)" "turns_left (owner_turn s) < turns_left s"
    | "scheduler_inv (owner_turn s)" "sched_state (owner_turn s) = Completed"
    using ready_turn [OF Suc.prems(1,2)] running_turn [OF Suc.prems(1,2)] by blast
  then show ?case
  proof cases
    case 1
    then obtain n where n: "n \<le> k" "scheduler_inv ((owner_turn ^^ n) (owner_turn s))"
      "sched_state ((owner_turn ^^ n) (owner_turn s)) = Completed"
      using Suc.IH [of "owner_turn s"] Suc.prems by auto
    then show ?thesis by (intro exI [of _ "Suc n"]) (simp add: funpow_swap1)
  next
    case 2
    then show ?thesis by (intro exI [of _ "1 :: nat"]) simp
  qed
qed

text \<open>
  C2. A playback that was configured comes to its end: an owner that carries its actions
  out, starts a ready play and lets the clock consume what is queued reaches \<open>Completed\<close>
  within five turns a frame and two more, with every frame consumed and no error latched.
  No state of the scheduler is stuck.
\<close>

theorem playback_completes:
  assumes "configure scheduler_fresh c = (s, success)"
    and "5 * unat (total_frames c) + 4 < 2 ^ 64 - 1"
  shows "\<exists>n \<le> 5 * unat (total_frames c) + 2.
    sched_state ((owner_turn ^^ n) s) = Completed \<and>
    consumed ((owner_turn ^^ n) s) = total_frames (config ((owner_turn ^^ n) s)) \<and>
    is_ok (first_status ((owner_turn ^^ n) s))"
proof -
  have valid: "max_block c \<noteq> 0 \<and> max_block c \<le> queue_capacity c"
    and s: "s = (reset_run scheduler_fresh c (required_lead c))\<lparr>sched_state := Ready\<rparr>"
    using assms(1)
    by (auto simp: configure_def scheduler_fresh_def is_terminal_def Let_def is_ok_def status_defs
        success_def not_less split: if_splits)
  have lead: "unat (required_lead c) \<le> unat (total_frames c)"
    by (simp add: required_lead_exact)
  have "scheduler_inv s"
    unfolding s using configure_inv [OF fresh_inv, of c] assms(1) s by simp
  moreover have left: "turns_left s = 5 * unat (total_frames c) + 2"
    by (simp add: s turns_left_def frames_to_go_def behind_def reset_run_def Let_def)
  ultimately have "playing (5 * unat (total_frames c) + 3) s"
    using valid lead
    by (auto simp: playing_def s reset_run_def active_def scheduler_fresh_def word_le_nat_alt unat_gt_0)
  from playing_turns [OF this _ order_refl] left assms(2)
  obtain n where "n \<le> 5 * unat (total_frames c) + 2" "scheduler_inv ((owner_turn ^^ n) s)"
    "sched_state ((owner_turn ^^ n) s) = Completed" by auto
  then show ?thesis
    by (intro exI [of _ n]) (auto simp: scheduler_inv_def status_ok_def)
qed

text \<open>
  C29. The first error of a run stays its error, and the run stays ended: whatever an owner
  calls afterwards other than \<open>configure\<close> changes neither the latched status nor a
  watermark.
\<close>

theorem first_error_stays:
  assumes "reachable s" and "\<not> is_ok (first_status s)" and "\<And>c. op \<noteq> Op_configure c"
  shows "first_status (apply_op op s) = first_status s \<and>
    produced (apply_op op s) = produced s \<and> written (apply_op op s) = written s \<and>
    committed (apply_op op s) = committed s \<and> read (apply_op op s) = read s \<and>
    consumed (apply_op op s) = consumed s \<and> \<not> active (apply_op op s)"
    (is "?ended (apply_op op s)")
proof -
  have st: "sched_state s \<in> {Failed, Cancelling, Cancelled}"
    using reachable_inv [OF assms(1)] assms(2)
    by (cases "sched_state s") (auto simp: scheduler_inv_def status_ok_def)
  then have ended: "\<not> active s" by (auto simp: active_def)
  then have begins: "fst (begin_produce s n) = s" "fst (begin_write s n) = s"
    "fst (begin_visibility_barrier s) = s" "fst (begin_read s n) = s" "fst (begin_finalize s) = s"
    "fst (next_action s) = s" for n
    by (auto simp: begin_produce_def begin_write_def begin_visibility_barrier_def begin_read_def
        begin_finalize_def next_action_def active_def Let_def)
  have matches: "action_matches s a \<Longrightarrow> sched_state s \<noteq> Cancelled" for a
    using reachable_inv [OF assms(1)] by (auto simp: scheduler_inv_def action_matches_def)
  have same: "fst (start s) = s" "fst (consume s n) = s" for n
    using st by (auto simp: start_def consume_def)
  have settle: "?ended (fst (complete s a r n))" for a r n
    using st matches [of a] by (cases "action_matches s a") (auto simp: complete_def Let_def active_def)
  have "?ended (fst (fail s r))" "?ended (fst (cancel s))" "?ended (fst (release s))" for r
    using st assms(2)
    by (auto simp: fail_def cancel_def release_def latch_def is_terminal_def active_def Let_def)
  note ends = this begins same settle ended
  show ?thesis
  proof (cases op)
    case (Op_configure c)
    then show ?thesis using assms(3) by blast
  qed (use ends in simp_all)
qed

definition sample_config :: config where
  "sample_config = \<lparr>total_frames = 100, measured_rate = 24000, margin_frames = 0,
     queue_capacity = 16, max_block = 8\<rparr>"

lemma playback_completes_witness:
  "\<exists>n \<le> 502. sched_state ((owner_turn ^^ n) (fst (configure scheduler_fresh sample_config))) = Completed"
proof -
  have "configure scheduler_fresh sample_config = (fst (configure scheduler_fresh sample_config), success)"
    by code_simp
  from playback_completes [OF this] show ?thesis by (auto simp: sample_config_def)
qed

lemma first_error_stays_witness:
  "first_status (apply_op Op_next (apply_op Op_cancel
     (apply_op (Op_configure sample_config) scheduler_fresh))) = unavailable ''finite playback cancelled''"
proof -
  let ?s = "apply_op Op_cancel (apply_op (Op_configure sample_config) scheduler_fresh)"
  have r: "reachable ?s" by (intro reachable.intros)
  have "first_status ?s = unavailable ''finite playback cancelled''" by code_simp
  then show ?thesis using first_error_stays [OF r, of Op_next] by simp
qed

end
