(* ===== verification/Wav.thy ===== *)
theory Wav
  imports Status
begin

text \<open>
  \<^verbatim>\<open>common/wav.hpp\<close>: the validator of a PCM WAV file. The reader is the file's size and a
  callback, a function from a place and a length to bytes or a failure; a null callback is
  \<^term>\<open>None\<close>. The routines return an error or what they read; what the code leaves in its
  out-parameters after an error is not used by any caller and not modelled.
\<close>

section \<open>The reader\<close>

definition wav_header_byte_limit :: u32 where "wav_header_byte_limit = 65536"

datatype wav_error = Wav_io | Invalid_riff | Missing_format | Missing_data | Unsupported_format

record wav_payload =
  payload_offset :: u32
  payload_bytes :: u32
  payload_bits :: u16
  payload_frame :: u16

definition wav_read_past_end :: status where
  [status_defs]: "wav_read_past_end =
     \<lparr>code = Invalid_argument, message = ''a WAV read past the end of the file''\<rparr>"

definition wav_read_unready :: status where
  [status_defs]: "wav_read_unready =
     \<lparr>code = Invalid_argument, message = ''a WAV read without a reader or a destination''\<rparr>"

record wav_reader =
  file_size :: u32
  read_at :: "(u32 \<Rightarrow> nat \<Rightarrow> bytes result) option"

definition wav_fourcc :: "char \<Rightarrow> char \<Rightarrow> char \<Rightarrow> char \<Rightarrow> u32" where
  "wav_fourcc a b c d =
     (of_char a :: u32) OR push_bit 8 (of_char b) OR push_bit 16 (of_char c) OR push_bit 24 (of_char d)"

definition wav_read_le16 :: "bytes \<Rightarrow> u16" where
  "wav_read_le16 bs = ucast (bs ! 0) OR push_bit 8 (ucast (bs ! 1))"

definition wav_read_le32 :: "bytes \<Rightarrow> u32" where
  "wav_read_le32 bs = ucast (bs ! 0) OR push_bit 8 (ucast (bs ! 1)) OR
     push_bit 16 (ucast (bs ! 2)) OR push_bit 24 (ucast (bs ! 3))"

definition wav_read_exact :: "wav_reader \<Rightarrow> u32 \<Rightarrow> nat \<Rightarrow> bytes result" where
  "wav_read_exact r off n =
     (case read_at r of
        None \<Rightarrow> Inl wav_read_unready
      | Some f \<Rightarrow>
          if off > file_size r \<or> n > unat (file_size r - off) then Inl wav_read_past_end
          else f off n)"

section \<open>The chunks\<close>

record wav_format =
  audio_format :: u16
  channels :: u16
  sample_rate :: u32
  byte_rate :: u32
  block_align :: u16
  bits_per_sample :: u16
  have_format :: bool
  have_data :: bool

record riff_state =
  riff_end :: u32
  cursor :: u32
  header_bytes :: u32

record wav_chunk =
  chunk_id :: u32
  chunk_offset :: u32
  chunk_bytes :: u32
  chunk_next :: u32

definition no_format :: wav_format where
  "no_format = \<lparr>audio_format = 0, channels = 0, sample_rate = 0, byte_rate = 0, block_align = 0,
     bits_per_sample = 0, have_format = False, have_data = False\<rparr>"

definition no_payload :: wav_payload where
  "no_payload = \<lparr>payload_offset = 0, payload_bytes = 0, payload_bits = 0, payload_frame = 0\<rparr>"

definition riff_start :: riff_state where
  "riff_start = \<lparr>riff_end = 0, cursor = 12, header_bytes = 12\<rparr>"

definition read_riff_header :: "wav_reader \<Rightarrow> riff_state \<Rightarrow> wav_error + riff_state" where
  "read_riff_header r st =
     (if file_size r < 12 then Inl Wav_io
      else
        case wav_read_exact r 0 12 of
          Inl _ \<Rightarrow> Inl Wav_io
        | Inr header \<Rightarrow>
            let riff_bytes = wav_read_le32 (drop 4 header) in
            if wav_read_le32 header \<noteq> wav_fourcc CHR ''R'' CHR ''I'' CHR ''F'' CHR ''F'' \<or>
              wav_read_le32 (drop 8 header) \<noteq> wav_fourcc CHR ''W'' CHR ''A'' CHR ''V'' CHR ''E'' \<or>
              riff_bytes < 4 \<or> riff_bytes > - 1 - 8 \<or> riff_bytes + 8 \<noteq> file_size r
            then Inl Invalid_riff
            else Inr (st\<lparr>riff_end := riff_bytes + 8\<rparr>))"

definition data_id :: u32 where
  "data_id = wav_fourcc CHR ''d'' CHR ''a'' CHR ''t'' CHR ''a''"

definition format_id :: u32 where
  "format_id = wav_fourcc CHR ''f'' CHR ''m'' CHR ''t'' CHR '' ''"

definition read_chunk :: "wav_reader \<Rightarrow> riff_state \<Rightarrow> wav_error + (riff_state \<times> wav_chunk)" where
  "read_chunk r st =
     (if riff_end st - cursor st < 8 \<or> header_bytes st > wav_header_byte_limit - 8
      then Inl Invalid_riff
      else
        case wav_read_exact r (cursor st) 8 of
          Inl _ \<Rightarrow> Inl Invalid_riff
        | Inr header \<Rightarrow>
            let id = wav_read_le32 header;
                n = wav_read_le32 (drop 4 header);
                off = cursor st + 8 in
            if n > riff_end st - off then Inl Invalid_riff
            else
              let padded = n + (n AND 1) in
              if padded < n \<or> padded > riff_end st - off then Inl Invalid_riff
              else
                let c = \<lparr>chunk_id = id, chunk_offset = off, chunk_bytes = n, chunk_next = off + padded\<rparr>;
                    h = header_bytes st + 8 in
                if id \<noteq> data_id then
                  if padded > wav_header_byte_limit - h then Inl Invalid_riff
                  else Inr (st\<lparr>header_bytes := h + padded\<rparr>, c)
                else Inr (st\<lparr>header_bytes := h\<rparr>, c))"

definition read_format :: "wav_reader \<Rightarrow> wav_chunk \<Rightarrow> wav_format \<Rightarrow> wav_error + wav_format" where
  "read_format r c f =
     (if have_format f then Inl Invalid_riff
      else if chunk_bytes c < 16 then Inl Unsupported_format
      else
        case wav_read_exact r (chunk_offset c) 16 of
          Inl _ \<Rightarrow> Inl Wav_io
        | Inr header \<Rightarrow>
            Inr (f\<lparr>audio_format := wav_read_le16 header, channels := wav_read_le16 (drop 2 header),
              sample_rate := wav_read_le32 (drop 4 header), byte_rate := wav_read_le32 (drop 8 header),
              block_align := wav_read_le16 (drop 12 header),
              bits_per_sample := wav_read_le16 (drop 14 header), have_format := True\<rparr>))"

text \<open>One pass of the loop of \<^verbatim>\<open>parse_riff()\<close>, and the loop.\<close>

definition riff_pass :: "wav_reader \<Rightarrow> riff_state \<Rightarrow> wav_payload \<Rightarrow> wav_format \<Rightarrow>
    wav_error + (riff_state \<times> wav_payload \<times> wav_format)" where
  "riff_pass r st p f =
     (case read_chunk r st of
        Inl e \<Rightarrow> Inl e
      | Inr (st', c) \<Rightarrow>
          if chunk_id c = format_id then
            (case read_format r c f of
               Inl e \<Rightarrow> Inl e
             | Inr f' \<Rightarrow> Inr (st'\<lparr>cursor := chunk_next c\<rparr>, p, f'))
          else if chunk_id c = data_id then
            if have_data f then Inl Invalid_riff
            else Inr (st'\<lparr>cursor := chunk_next c\<rparr>,
              p\<lparr>payload_offset := chunk_offset c, payload_bytes := chunk_bytes c\<rparr>,
              f\<lparr>have_data := True\<rparr>)
          else Inr (st'\<lparr>cursor := chunk_next c\<rparr>, p, f))"

lemma even_up_nat:
  fixes n :: u32
  assumes "\<not> n + (n AND 1) < n"
  shows "unat (n + (n AND 1)) = unat n + unat n mod 2"
proof -
  have low: "unat (n AND 1) = unat n mod 2"
    by (simp add: and_one_eq unat_mod_distrib)
  have "n \<noteq> - 1"
  proof
    assume "n = - 1"
    then have "n + (n AND 1) = 0" by simp
    then show False using assms \<open>n = - 1\<close>
      by (simp add: word_less_nat_alt unsigned_minus_1_eq_mask mask_eq_exp_minus_1)
  qed
  then have "unat n \<noteq> 2 ^ 32 - 1"
    by (simp add: word_unat_eq_iff unsigned_minus_1_eq_mask mask_eq_exp_minus_1)
  then have "unat n + unat n mod 2 < 2 ^ 32"
    using unat_lt_u32 [of n] mod_less_divisor [of 2 "unat n"] by (simp del: mod_less_divisor)
  then show ?thesis using low by (simp add: unat_add_exact)
qed

text \<open>A chunk that was read lies inside the file, and the next one after it.\<close>

lemma read_chunk_inside:
  assumes "read_chunk r st = Inr (st', c)" and "cursor st \<le> riff_end st"
  shows "unat (chunk_offset c) = unat (cursor st) + 8"
    and "unat (chunk_offset c) + unat (chunk_bytes c) \<le> unat (chunk_next c)"
    and "unat (chunk_next c) \<le> unat (riff_end st)"
    and "unat (chunk_next c) \<le> unat (chunk_offset c) + unat (chunk_bytes c) + 1"
    and "riff_end st' = riff_end st" and "cursor st' = cursor st"
proof -
  let ?off = "cursor st + 8"
  obtain header where n: "chunk_bytes c = wav_read_le32 (drop 4 header)"
    and room: "\<not> riff_end st - cursor st < 8"
    and c: "chunk_offset c = ?off" "chunk_next c = ?off + (chunk_bytes c + (chunk_bytes c AND 1))"
    and fits: "\<not> chunk_bytes c + (chunk_bytes c AND 1) < chunk_bytes c"
      "\<not> chunk_bytes c + (chunk_bytes c AND 1) > riff_end st - ?off"
    and st': "riff_end st' = riff_end st" "cursor st' = cursor st"
    using assms(1) by (auto simp: read_chunk_def Let_def split: sum.splits if_splits)
  have left: "unat (riff_end st - cursor st) = unat (riff_end st) - unat (cursor st)"
    using assms(2) by (rule unat_sub_exact)
  then have "8 \<le> unat (riff_end st) - unat (cursor st)"
    using room by (simp add: word_less_nat_alt)
  then have off: "unat ?off = unat (cursor st) + 8" "?off \<le> riff_end st"
    using unat_lt_u32 [of "riff_end st"] by (simp_all add: word_le_nat_alt unat_add_exact)
  have pad: "unat (chunk_bytes c + (chunk_bytes c AND 1)) = unat (chunk_bytes c) + unat (chunk_bytes c) mod 2"
    by (rule even_up_nat [OF fits(1)])
  have "unat (chunk_bytes c + (chunk_bytes c AND 1)) \<le> unat (riff_end st) - unat ?off"
    using fits(2) off(2) by (simp add: word_less_nat_alt unat_sub_exact)
  then have top: "unat ?off + unat (chunk_bytes c + (chunk_bytes c AND 1)) \<le> unat (riff_end st)"
    using off by (simp add: word_le_nat_alt)
  then have next_nat: "unat (chunk_next c) = unat ?off + unat (chunk_bytes c + (chunk_bytes c AND 1))"
    unfolding c using unat_lt_u32 [of "riff_end st"] by (simp add: unat_add_exact)
  show "unat (chunk_offset c) = unat (cursor st) + 8" using off c by simp
  show "unat (chunk_offset c) + unat (chunk_bytes c) \<le> unat (chunk_next c)"
    "unat (chunk_next c) \<le> unat (riff_end st)"
    "unat (chunk_next c) \<le> unat (chunk_offset c) + unat (chunk_bytes c) + 1"
    unfolding next_nat pad c(1) using top unfolding pad by auto
  show "riff_end st' = riff_end st" "cursor st' = cursor st" by (rule st')+
qed

lemma riff_pass_advances:
  assumes "riff_pass r st p f = Inr (st', p', f')" and "cursor st < riff_end st"
  shows "unat (cursor st) + 8 \<le> unat (cursor st') \<and> unat (cursor st') \<le> unat (riff_end st') \<and>
    riff_end st' = riff_end st"
proof -
  obtain s c where c: "read_chunk r st = Inr (s, c)" and st': "st' = s\<lparr>cursor := chunk_next c\<rparr>"
    using assms(1) by (auto simp: riff_pass_def split: sum.splits if_splits prod.splits)
  then show ?thesis
    using read_chunk_inside [OF c less_imp_le [OF assms(2)]] by simp
qed

function riff_chunks :: "wav_reader \<Rightarrow> riff_state \<Rightarrow> wav_payload \<Rightarrow> wav_format \<Rightarrow>
    wav_error + (wav_payload \<times> wav_format)" where
  "riff_chunks r st p f =
     (if cursor st < riff_end st then
        (case riff_pass r st p f of
           Inl e \<Rightarrow> Inl e
         | Inr (st', p', f') \<Rightarrow> riff_chunks r st' p' f')
      else Inr (p, f))"
  by pat_completeness auto

termination
proof (relation "measure (\<lambda>(r, st, p, f). unat (riff_end st) - unat (cursor st))")
  fix r st p f x y st' z p' f'
  assume "cursor st < riff_end (st :: riff_state)" "riff_pass r st p f = Inr x" "(st', y) = x" "(p', f') = y"
  then have "riff_pass r st p f = Inr (st', p', f')" by simp
  from riff_pass_advances [OF this \<open>cursor st < riff_end st\<close>]
  show "((r, st', p', f'), r, st, p, f) \<in> measure (\<lambda>(r, st, p, f). unat (riff_end st) - unat (cursor st))"
    using \<open>cursor st < riff_end st\<close> by (auto simp: word_less_nat_alt)
qed simp

declare riff_chunks.simps [simp del]

definition parse_riff :: "wav_reader \<Rightarrow> wav_error + (wav_payload \<times> wav_format)" where
  "parse_riff r =
     (case read_riff_header r riff_start of
        Inl e \<Rightarrow> Inl e
      | Inr st \<Rightarrow> riff_chunks r st no_payload no_format)"

definition validate_pcm_wav :: "wav_reader \<Rightarrow> u16 \<Rightarrow> u16 \<Rightarrow> wav_error + wav_payload" where
  "validate_pcm_wav r required_channels required_bits =
     (case parse_riff r of
        Inl e \<Rightarrow> Inl e
      | Inr (p, f) \<Rightarrow>
          if \<not> have_format f then Inl Missing_format
          else if \<not> have_data f \<or> payload_bytes p = 0 then Inl Missing_data
          else
            let frame = (required_bits div 8) * required_channels in
            if (required_bits \<noteq> 16 \<and> required_bits \<noteq> 24) \<or>
              (required_channels \<noteq> 1 \<and> required_channels \<noteq> 2) \<or>
              (required_channels = 2 \<and> required_bits \<noteq> 24) \<or>
              audio_format f \<noteq> 1 \<or> channels f \<noteq> required_channels \<or> sample_rate f \<noteq> 48000 \<or>
              byte_rate f \<noteq> 48000 * ucast frame \<or> block_align f \<noteq> frame \<or>
              bits_per_sample f \<noteq> required_bits \<or> payload_bytes p mod ucast frame \<noteq> 0
            then Inl Unsupported_format
            else Inr (p\<lparr>payload_bits := bits_per_sample f, payload_frame := block_align f\<rparr>))"

definition validate_pcm_mono_48k_wav :: "wav_reader \<Rightarrow> u16 \<Rightarrow> wav_error + wav_payload" where
  "validate_pcm_mono_48k_wav r required_bits = validate_pcm_wav r 1 required_bits"

definition validate_pcm16_mono_48k_wav :: "wav_reader \<Rightarrow> wav_error + wav_payload" where
  "validate_pcm16_mono_48k_wav r = validate_pcm_mono_48k_wav r 16"

definition validate_pcm24_mono_48k_wav :: "wav_reader \<Rightarrow> wav_error + wav_payload" where
  "validate_pcm24_mono_48k_wav r = validate_pcm_mono_48k_wav r 24"

definition validate_pcm24_stereo_48k_wav :: "wav_reader \<Rightarrow> wav_error + wav_payload" where
  "validate_pcm24_stereo_48k_wav r = validate_pcm_wav r 2 24"

section \<open>What an accepted file promises\<close>

text \<open>Whatever the callback answers, the chunk walk keeps the payload inside the file.\<close>

definition payload_inside :: "riff_state \<Rightarrow> wav_payload \<Rightarrow> wav_format \<Rightarrow> bool" where
  "payload_inside st p f \<longleftrightarrow>
     (have_data f \<longrightarrow> 20 \<le> unat (payload_offset p) \<and>
        unat (payload_offset p) + unat (payload_bytes p) \<le> unat (riff_end st))"

lemma riff_pass_inside:
  assumes pass: "riff_pass r st p f = Inr (st', p', f')" and below: "cursor st < riff_end st"
    and low: "12 \<le> unat (cursor st)" and inside: "payload_inside st p f"
  shows "payload_inside st' p' f'" and "12 \<le> unat (cursor st')" and "riff_end st' = riff_end st"
proof -
  obtain s c where c: "read_chunk r st = Inr (s, c)"
    using pass by (auto simp: riff_pass_def split: sum.splits)
  note chunk = read_chunk_inside [OF c less_imp_le [OF below]]
  show "riff_end st' = riff_end st" "12 \<le> unat (cursor st')"
    using riff_pass_advances [OF pass below] low by simp_all
  consider (format) f2 where "read_format r c f = Inr f2" "st' = s\<lparr>cursor := chunk_next c\<rparr>" "p' = p" "f' = f2"
    | (data) "st' = s\<lparr>cursor := chunk_next c\<rparr>" "p' = p\<lparr>payload_offset := chunk_offset c, payload_bytes := chunk_bytes c\<rparr>"
    | (other) "st' = s\<lparr>cursor := chunk_next c\<rparr>" "p' = p" "f' = f"
    using pass c by (auto simp: riff_pass_def split: sum.splits if_splits)
  then show "payload_inside st' p' f'"
  proof cases
    case format
    then have "have_data f2 = have_data f"
      by (auto simp: read_format_def Let_def split: sum.splits if_splits)
    then show ?thesis using format inside chunk(5) by (simp add: payload_inside_def)
  next
    case data
    then show ?thesis using chunk low by (simp add: payload_inside_def)
  next
    case other
    then show ?thesis using inside chunk(5) by (simp add: payload_inside_def)
  qed
qed

lemma riff_chunks_inside:
  assumes "riff_chunks r st p f = Inr (p', f')" and "12 \<le> unat (cursor st)" and "payload_inside st p f"
  shows "have_data f' \<longrightarrow> 20 \<le> unat (payload_offset p') \<and>
    unat (payload_offset p') + unat (payload_bytes p') \<le> unat (riff_end st)"
  using assms
proof (induction r st p f rule: riff_chunks.induct)
  case (1 r st p f)
  show ?case
  proof (cases "cursor st < riff_end st")
    case False
    then show ?thesis using "1.prems" by (simp add: riff_chunks.simps payload_inside_def)
  next
    case True
    then obtain st1 p1 f1 where pass: "riff_pass r st p f = Inr (st1, p1, f1)"
      and rest: "riff_chunks r st1 p1 f1 = Inr (p', f')"
      using "1.prems"(1) by (subst (asm) riff_chunks.simps) (auto split: sum.splits)
    note step = riff_pass_inside [OF pass True "1.prems"(2,3)]
    show ?thesis using "1.IH" [OF True pass refl refl rest step(2,1)] step(3) by simp
  qed
qed

lemma parse_riff_inside:
  assumes "parse_riff r = Inr (p, f)" and "have_data f"
  shows "20 \<le> unat (payload_offset p)"
    and "unat (payload_offset p) + unat (payload_bytes p) \<le> unat (file_size r)"
proof -
  obtain st where header: "read_riff_header r riff_start = Inr st"
    and walk: "riff_chunks r st no_payload no_format = Inr (p, f)"
    using assms(1) by (auto simp: parse_riff_def split: sum.splits)
  have st: "cursor st = 12" "riff_end st = file_size r"
    using header by (auto simp: read_riff_header_def riff_start_def Let_def split: sum.splits if_splits)
  have "payload_inside st no_payload no_format"
    by (simp add: payload_inside_def no_format_def)
  from riff_chunks_inside [OF walk _ this] st assms(2)
  show "20 \<le> unat (payload_offset p)"
    and "unat (payload_offset p) + unat (payload_bytes p) \<le> unat (file_size r)" by simp_all
qed

text \<open>C21. An accepted WAV file promises its reader a payload to trust: whatever file and whatever
  callback, the payload of a file that \<^verbatim>\<open>validate_pcm_wav()\<close> accepts lies behind the RIFF
  header and inside the file, is not empty, is a whole number of frames, and a frame is the
  required channels of the required width, one of the three supported shapes.\<close>

theorem accepted_payload_inside:
  assumes "validate_pcm_wav r required_channels required_bits = Inr p"
  shows "20 \<le> unat (payload_offset p) \<and>
    unat (payload_offset p) + unat (payload_bytes p) \<le> unat (file_size r) \<and>
    0 < unat (payload_bytes p) \<and>
    unat (payload_frame p) dvd unat (payload_bytes p) \<and>
    unat (payload_frame p) = unat required_channels * (unat required_bits div 8) \<and>
    payload_bits p = required_bits \<and>
    (required_channels, required_bits) \<in> {(1, 16), (1, 24), (2, 24)}"
proof -
  obtain q f where parsed: "parse_riff r = Inr (q, f)" and data: "have_data f" "payload_bytes q \<noteq> 0"
    and shape: "(required_channels, required_bits) \<in> {(1, 16), (1, 24), (2, 24)}"
    and frame: "block_align f = (required_bits div 8) * required_channels"
    and bits: "bits_per_sample f = required_bits"
    and whole: "payload_bytes q mod ucast ((required_bits div 8) * required_channels :: u16) = 0"
    and p: "p = q\<lparr>payload_bits := bits_per_sample f, payload_frame := block_align f\<rparr>"
    using assms by (auto simp: validate_pcm_wav_def Let_def split: sum.splits if_splits)
  have "unat (block_align f) = unat required_channels * (unat required_bits div 8)"
    using shape frame by auto
  moreover have "unat (payload_bytes q) mod unat (block_align f) = 0"
    using shape frame arg_cong [OF whole, of unat] by (auto simp: unat_mod_distrib)
  moreover have "0 < unat (payload_bytes q)"
    using data(2) by (simp add: unat_gt_0)
  ultimately show ?thesis
    using parse_riff_inside [OF parsed data(1)] p shape bits by (simp add: dvd_eq_mod_eq_0)
qed

text \<open>A file of one frame: the 44 bytes of a canonical header and three bytes of data.\<close>

definition frame_file :: bytes where
  "frame_file =
     [0x52, 0x49, 0x46, 0x46, 40, 0, 0, 0, 0x57, 0x41, 0x56, 0x45,
      0x66, 0x6D, 0x74, 0x20, 16, 0, 0, 0, 1, 0, 1, 0, 0x80, 0xBB, 0, 0, 0x80, 0x32, 0x02, 0, 3, 0, 24, 0,
      0x64, 0x61, 0x74, 0x61, 3, 0, 0, 0, 1, 2, 3, 0]"

definition reader_of :: "bytes \<Rightarrow> wav_reader" where
  "reader_of contents = \<lparr>file_size = of_nat (length contents),
     read_at = Some (\<lambda>off n. Inr (take n (drop (unat off) contents)))\<rparr>"

lemma frame_file_accepted:
  "validate_pcm_wav (reader_of frame_file) 1 24 =
     Inr \<lparr>payload_offset = 44, payload_bytes = 3, payload_bits = 24, payload_frame = 3\<rparr>"
  by code_simp

theorem accepted_payload_inside_witness:
  "44 + 3 \<le> unat (file_size (reader_of frame_file)) \<and> unat (3 :: u16) dvd unat (3 :: u32)"
  using accepted_payload_inside [OF frame_file_accepted] by simp

end
