(* ===== verification/Sha256.thy ===== *)
theory Sha256
  imports Prelude
begin

text \<open>
  \<^verbatim>\<open>waveform-source/sha256.hpp\<close>: the incremental SHA-256 object. Its bytes are consumed
  one at a time into a block of 64, compressed when full; \<^verbatim>\<open>hex()\<close> pads a copy. The
  reference is the function of the whole message: pad it, cut it into blocks, compress them
  one after the other.
\<close>

section \<open>The object\<close>

record sha256 =
  sha_state :: "u32 list"
  sha_block :: bytes
  sha_used :: nat
  sha_total :: u64

definition sha_initial :: "u32 list" where
  "sha_initial = [0x6a09e667, 0xbb67ae85, 0x3c6ef372, 0xa54ff53a,
     0x510e527f, 0x9b05688c, 0x1f83d9ab, 0x5be0cd19]"

definition sha_fresh :: sha256 where
  "sha_fresh = \<lparr>sha_state = sha_initial, sha_block = replicate 64 0, sha_used = 0, sha_total = 0\<rparr>"

definition sha_constants :: "u32 list" where
  "sha_constants = concat [
     [0x428a2f98, 0x71374491, 0xb5c0fbcf, 0xe9b5dba5, 0x3956c25b, 0x59f111f1, 0x923f82a4, 0xab1c5ed5],
     [0xd807aa98, 0x12835b01, 0x243185be, 0x550c7dc3, 0x72be5d74, 0x80deb1fe, 0x9bdc06a7, 0xc19bf174],
     [0xe49b69c1, 0xefbe4786, 0x0fc19dc6, 0x240ca1cc, 0x2de92c6f, 0x4a7484aa, 0x5cb0a9dc, 0x76f988da],
     [0x983e5152, 0xa831c66d, 0xb00327c8, 0xbf597fc7, 0xc6e00bf3, 0xd5a79147, 0x06ca6351, 0x14292967],
     [0x27b70a85, 0x2e1b2138, 0x4d2c6dfc, 0x53380d13, 0x650a7354, 0x766a0abb, 0x81c2c92e, 0x92722c85],
     [0xa2bfe8a1, 0xa81a664b, 0xc24b8b70, 0xc76c51a3, 0xd192e819, 0xd6990624, 0xf40e3585, 0x106aa070],
     [0x19a4c116, 0x1e376c08, 0x2748774c, 0x34b0bcb5, 0x391c0cb3, 0x4ed8aa4a, 0x5b9cca4f, 0x682e6ff3],
     [0x748f82ee, 0x78a5636f, 0x84c87814, 0x8cc70208, 0x90befffa, 0xa4506ceb, 0xbef9a3f7, 0xc67178f2]]"

definition sha_block_word :: "bytes \<Rightarrow> nat \<Rightarrow> u32" where
  "sha_block_word block i =
     push_bit 24 (ucast (block ! (4 * i))) OR push_bit 16 (ucast (block ! (4 * i + 1))) OR
     push_bit 8 (ucast (block ! (4 * i + 2))) OR ucast (block ! (4 * i + 3))"

definition sha_extend :: "u32 list \<Rightarrow> nat \<Rightarrow> u32 list" where
  "sha_extend w i =
     (let s0 = word_rotr 7 (w ! (i - 15)) XOR word_rotr 18 (w ! (i - 15)) XOR drop_bit 3 (w ! (i - 15));
          s1 = word_rotr 17 (w ! (i - 2)) XOR word_rotr 19 (w ! (i - 2)) XOR drop_bit 10 (w ! (i - 2))
      in w[i := w ! (i - 16) + s0 + w ! (i - 7) + s1])"

definition sha_schedule :: "bytes \<Rightarrow> u32 list" where
  "sha_schedule block =
     foldl sha_extend (map (sha_block_word block) [0..<16] @ replicate 48 0) [16..<64]"

text \<open>One turn of the round loop over the eight working variables.\<close>

definition sha_round ::
  "u32 list \<Rightarrow> u32 \<times> u32 \<times> u32 \<times> u32 \<times> u32 \<times> u32 \<times> u32 \<times> u32 \<Rightarrow> nat \<Rightarrow>
    u32 \<times> u32 \<times> u32 \<times> u32 \<times> u32 \<times> u32 \<times> u32 \<times> u32" where
  "sha_round w = (\<lambda>(a, b, c, d, e, f, g, h) i.
     let s1 = word_rotr 6 e XOR word_rotr 11 e XOR word_rotr 25 e;
         t1 = h + s1 + ((e AND f) XOR (NOT e AND g)) + sha_constants ! i + w ! i;
         s0 = word_rotr 2 a XOR word_rotr 13 a XOR word_rotr 22 a;
         t2 = s0 + ((a AND b) XOR (a AND c) XOR (b AND c))
     in (t1 + t2, a, b, c, d + t1, e, f, g))"

definition sha_compress_state :: "u32 list \<Rightarrow> bytes \<Rightarrow> u32 list" where
  "sha_compress_state st block =
     (let w = sha_schedule block in
      case foldl (sha_round w)
        (st ! 0, st ! 1, st ! 2, st ! 3, st ! 4, st ! 5, st ! 6, st ! 7) [0..<64] of
        (a, b, c, d, e, f, g, h) \<Rightarrow>
          [st ! 0 + a, st ! 1 + b, st ! 2 + c, st ! 3 + d, st ! 4 + e, st ! 5 + f, st ! 6 + g, st ! 7 + h])"

definition sha_compress :: "sha256 \<Rightarrow> sha256" where
  "sha_compress s = s\<lparr>sha_state := sha_compress_state (sha_state s) (sha_block s)\<rparr>"

text \<open>The loop of \<^verbatim>\<open>update()\<close> over its bytes, and \<^verbatim>\<open>update()\<close>.\<close>

definition sha_absorb :: "sha256 \<Rightarrow> u8 \<Rightarrow> sha256" where
  "sha_absorb s b =
     (let s1 = s\<lparr>sha_block := (sha_block s)[sha_used s := b], sha_used := sha_used s + 1\<rparr>
      in if sha_used s1 = length (sha_block s1) then (sha_compress s1)\<lparr>sha_used := 0\<rparr> else s1)"

definition sha_update :: "sha256 \<Rightarrow> bytes \<Rightarrow> sha256" where
  "sha_update s input = foldl sha_absorb (s\<lparr>sha_total := sha_total s + of_nat (length input)\<rparr>) input"

text \<open>\<^verbatim>\<open>hex()\<close>: its padding loop ends only if the fill level meets 56.\<close>

partial_function (option) sha_pad_zeros :: "sha256 \<Rightarrow> sha256 option" where
  "sha_pad_zeros s =
     (if sha_used s \<noteq> 56 then sha_pad_zeros (sha_update s [0]) else Some s)"

definition sha_length_bytes :: "u64 \<Rightarrow> bytes" where
  "sha_length_bytes bits = map (\<lambda>i. byte_of i bits) (rev [0..<8])"

definition sha_word_text :: "u32 \<Rightarrow> string" where
  "sha_word_text w =
     map (\<lambda>shift. ''0123456789abcdef'' ! unat (drop_bit shift w AND 15)) [28, 24, 20, 16, 12, 8, 4, 0]"

definition sha_hex :: "sha256 \<Rightarrow> string option" where
  "sha_hex s =
     (let bits = sha_total s * 8 in
      case sha_pad_zeros (sha_update s [0x80]) of
        None \<Rightarrow> None
      | Some padded \<Rightarrow>
          Some (concat (map sha_word_text (sha_state (sha_update padded (sha_length_bytes bits))))))"

section \<open>The reference\<close>

definition sha_blocks :: "bytes \<Rightarrow> bytes list" where
  "sha_blocks msg = map (\<lambda>i. take 64 (drop (64 * i) msg)) [0..<length msg div 64]"

definition sha_pad_length :: "nat \<Rightarrow> nat" where
  "sha_pad_length n = (if n mod 64 \<le> 55 then 55 - n mod 64 else 119 - n mod 64)"

definition sha_padded :: "bytes \<Rightarrow> bytes" where
  "sha_padded msg =
     msg @ 0x80 # replicate (sha_pad_length (length msg)) 0 @ sha_length_bytes (of_nat (8 * length msg))"

definition sha256_text :: "bytes \<Rightarrow> string" where
  "sha256_text msg =
     concat (map sha_word_text (foldl sha_compress_state sha_initial (sha_blocks (sha_padded msg))))"

section \<open>The object holds the message it was fed\<close>

definition holds_message :: "bytes \<Rightarrow> sha256 \<Rightarrow> bool" where
  "holds_message msg s \<longleftrightarrow>
     sha_used s = length msg mod 64 \<and> length (sha_block s) = 64 \<and>
     take (sha_used s) (sha_block s) = drop (64 * (length msg div 64)) msg \<and>
     sha_state s = foldl sha_compress_state sha_initial (sha_blocks msg)"

lemma holds_fresh: "holds_message [] sha_fresh"
  by (simp add: holds_message_def sha_fresh_def sha_blocks_def)

lemma sha_blocks_snoc:
  "sha_blocks (msg @ [b]) =
     (if length msg mod 64 = 63
      then sha_blocks msg @ [drop (64 * (length msg div 64)) msg @ [b]] else sha_blocks msg)"
proof -
  let ?n = "length msg"
  have same: "take 64 (drop (64 * i) (msg @ [b])) = take 64 (drop (64 * i) msg)" if "i < ?n div 64" for i
  proof -
    have "64 * i + 64 \<le> 64 * (?n div 64)" using that by simp
    also have "\<dots> \<le> ?n" by simp
    finally show ?thesis by simp
  qed
  show ?thesis
  proof (cases "?n mod 64 = 63")
    case True
    then have parts: "Suc ?n div 64 = Suc (?n div 64)" "64 * (?n div 64) + 63 = ?n"
      using div_mult_mod_eq [of ?n 64] mod_Suc [of ?n 64] by (simp_all add: div_Suc)
    then have "take 64 (drop (64 * (?n div 64)) (msg @ [b])) = drop (64 * (?n div 64)) msg @ [b]"
      by (simp add: parts)
    then show ?thesis using True same by (simp add: sha_blocks_def parts)
  next
    case False
    then have "Suc ?n div 64 = ?n div 64" by (simp add: div_Suc mod_Suc)
    then show ?thesis using False same by (simp add: sha_blocks_def)
  qed
qed

lemma holds_absorb:
  assumes "holds_message msg s"
  shows "holds_message (msg @ [b]) (sha_absorb s b)"
proof -
  let ?n = "length msg"
  let ?block = "(sha_block s)[sha_used s := b]"
  have used: "sha_used s = ?n mod 64" "sha_used s < 64" and len: "length (sha_block s) = 64"
    and front: "take (sha_used s) (sha_block s) = drop (64 * (?n div 64)) msg"
    and state: "sha_state s = foldl sha_compress_state sha_initial (sha_blocks msg)"
    using assms mod_less_divisor [of 64 ?n] unfolding holds_message_def by (simp, simp, blast+)
  have tail: "take (Suc (sha_used s)) ?block = drop (64 * (?n div 64)) msg @ [b]"
    using used(2) len front by (simp add: take_Suc_conv_app_nth)
  show ?thesis
  proof (cases "?n mod 64 = 63")
    case True
    have "Suc (sha_used s) = 64" using True used by simp
    then have "?block = drop (64 * (?n div 64)) msg @ [b]" using tail len by simp
    then show ?thesis using True used len state minus_mult_div_eq_mod [of ?n 64]
      by (simp add: holds_message_def sha_absorb_def sha_compress_def Let_def sha_blocks_snoc mod_Suc div_Suc)
  next
    case False
    have "64 * (?n div 64) \<le> ?n" by simp
    then show ?thesis using False used len state tail
      by (simp add: holds_message_def sha_absorb_def Let_def sha_blocks_snoc mod_Suc div_Suc)
  qed
qed

lemma holds_total [simp]: "holds_message msg (s\<lparr>sha_total := t\<rparr>) = holds_message msg s"
  by (simp add: holds_message_def)

lemma holds_absorbs: "holds_message msg s \<Longrightarrow> holds_message (msg @ bs) (foldl sha_absorb s bs)"
  by (induction bs arbitrary: msg s) (simp, metis append.assoc append_Cons append_Nil foldl_Cons holds_absorb)

lemma holds_update: "holds_message msg s \<Longrightarrow> holds_message (msg @ bs) (sha_update s bs)"
  by (simp add: sha_update_def holds_absorbs)

lemma absorb_total:
  "sha_absorb (s\<lparr>sha_total := t\<rparr>) b = (sha_absorb s b)\<lparr>sha_total := t\<rparr>"
  by (simp add: sha_absorb_def sha_compress_def Let_def)

lemma sha_total_absorb [simp]: "sha_total (sha_absorb s b) = sha_total s"
  by (simp add: sha_absorb_def sha_compress_def Let_def)

lemma sha_total_absorbs: "sha_total (foldl sha_absorb s bs) = sha_total s"
  by (induction bs arbitrary: s) simp_all

lemma sha_total_update [simp]: "sha_total (sha_update s bs) = sha_total s + of_nat (length bs)"
  by (simp add: sha_update_def sha_total_absorbs)

text \<open>Feeding the object is one step a byte, so every fact of \<open>incremental\<close> holds of it.\<close>

interpretation sha_feed: incremental "\<lambda>s b. sha_update s [b]" sha_update
proof
  show "sha_update s [] = s" for s by (simp add: sha_update_def)
  show "sha_update s (b # bs) = sha_update (sha_update s [b]) bs" for s b bs
    by (simp add: sha_update_def absorb_total add.assoc)
qed

section \<open>The padding loop returns\<close>

text \<open>The zeros that fill a block of \<open>m\<close> bytes up to 56.\<close>

definition zeros_to_56 :: "nat \<Rightarrow> nat" where
  "zeros_to_56 n = (if n mod 64 \<le> 56 then 56 - n mod 64 else 120 - n mod 64)"

lemma zeros_to_56_0: "zeros_to_56 n = 0 \<longleftrightarrow> n mod 64 = 56"
  using mod_less_divisor [of 64 n] by (simp add: zeros_to_56_def, linarith)

lemma zeros_to_56_Suc: "zeros_to_56 n = Suc k \<Longrightarrow> zeros_to_56 (Suc n) = k"
  using mod_less_divisor [of 64 n]
  by (auto simp: zeros_to_56_def mod_Suc simp del: mod_less_divisor split: if_splits)

lemma zeros_after_marker: "zeros_to_56 (Suc n) = sha_pad_length n"
  using mod_less_divisor [of 64 n]
  by (simp add: zeros_to_56_def sha_pad_length_def mod_Suc del: mod_less_divisor split: if_splits)

lemma sha_pad_zeros_holds:
  assumes "holds_message msg s"
  shows "\<exists>s'. sha_pad_zeros s = Some s' \<and> holds_message (msg @ replicate (zeros_to_56 (length msg)) 0) s'"
  using assms
proof (induction "zeros_to_56 (length msg)" arbitrary: msg s)
  case 0
  then have "sha_used s = 56" using zeros_to_56_0 [of "length msg"] by (simp add: holds_message_def)
  then show ?case using 0 by (simp add: sha_pad_zeros.simps)
next
  case (Suc k)
  then have "sha_used s \<noteq> 56" using zeros_to_56_0 [of "length msg"] by (simp add: holds_message_def)
  then have step: "sha_pad_zeros s = sha_pad_zeros (sha_update s [0])"
    by (simp add: sha_pad_zeros.simps)
  have k: "k = zeros_to_56 (length (msg @ [0 :: u8]))"
    using zeros_to_56_Suc [OF Suc.hyps(2) [symmetric]] by simp
  obtain s' where "sha_pad_zeros (sha_update s [0]) = Some s'"
    and "holds_message ((msg @ [0]) @ replicate k 0) s'"
    using Suc.hyps(1) [OF k holds_update [OF Suc.prems, of "[0]"]] unfolding k [symmetric] by blast
  then show ?case using step by (simp flip: Suc.hyps(2))
qed

text \<open>The digest of what the object was fed, its count of bytes included.\<close>

definition sha_fed :: "bytes \<Rightarrow> sha256 \<Rightarrow> bool" where
  "sha_fed msg s \<longleftrightarrow> holds_message msg s \<and> sha_total s = of_nat (length msg)"

lemma sha_fed_fresh: "sha_fed [] sha_fresh"
  by (simp add: sha_fed_def holds_fresh) (simp add: sha_fresh_def)

lemma sha_fed_update: "sha_fed msg s \<Longrightarrow> sha_fed (msg @ bs) (sha_update s bs)"
  by (simp add: sha_fed_def holds_update)

lemma sha_fed_updates: "sha_fed msg s \<Longrightarrow> sha_fed (msg @ concat parts) (foldl sha_update s parts)"
  by (induction parts arbitrary: msg s) (simp, metis append.assoc concat.simps(2) foldl_Cons sha_fed_update)

lemma sha_hex_fed:
  assumes "sha_fed msg s"
  shows "sha_hex s = Some (sha256_text msg)"
proof -
  have bits: "sha_total s * 8 = of_nat (8 * length msg)" using assms by (simp add: sha_fed_def)
  have "holds_message msg s" using assms by (simp add: sha_fed_def)
  then obtain p where pad: "sha_pad_zeros (sha_update s [0x80]) = Some p"
    and p: "holds_message ((msg @ [0x80]) @ replicate (zeros_to_56 (length (msg @ [0x80 :: u8]))) 0) p"
    using sha_pad_zeros_holds [OF holds_update] by blast
  have "holds_message (sha_padded msg) (sha_update p (sha_length_bytes (of_nat (8 * length msg))))"
    using holds_update [OF p, of "sha_length_bytes (of_nat (8 * length msg))"]
    by (simp add: sha_padded_def zeros_after_marker)
  then show ?thesis
    using pad by (simp add: sha_hex_def sha256_text_def holds_message_def Let_def bits del: of_nat_mult)
qed

text \<open>C25. The digest does not depend on how the payload was split: fed any parts one after the
  other, the object's \<^verbatim>\<open>hex()\<close> returns (its padding loop ends) the text of SHA-256 of the
  whole payload, the reference that pads the message, cuts it into blocks of 64 bytes and
  compresses them in order.\<close>

theorem sha256_any_split:
  "sha_hex (foldl sha_update sha_fresh parts) = Some (sha256_text (concat parts))"
  using sha_hex_fed [OF sha_fed_updates [OF sha_fed_fresh]] by simp

end
