(* ===== verification/Playlist.thy ===== *)
theory Playlist
  imports CutSchedule Attenuation
begin

text \<open>
  \<^verbatim>\<open>common/playlist.hpp\<close>, first part: the items of a playlist file, the grammar of a line
  (\<^verbatim>\<open>parse_line()\<close>), the item table and the parser that reads the file's bytes in any
  split (\<^verbatim>\<open>FileParser\<close>), with the loop of \<^verbatim>\<open>parse_playlist_file()\<close> in
  \<^verbatim>\<open>rt1170/player.cpp\<close> that feeds it. Texts of bounded length are their characters. An
  option's parser returns the item it changed or the status that refuses it.
\<close>

section \<open>Items\<close>

definition fixed_text_from :: "nat \<Rightarrow> string \<Rightarrow> string" where
  "fixed_text_from capacity text = take capacity text"

definition name_stem_max_chars :: nat where "name_stem_max_chars = 8"
definition name_extension_max_chars :: nat where "name_extension_max_chars = 3"
definition name_max_chars :: nat where
  "name_max_chars = name_stem_max_chars + 1 + name_extension_max_chars"
definition label_max_chars :: nat where "label_max_chars = 24"
definition max_items :: nat where "max_items = 256"
definition max_line_chars :: nat where "max_line_chars = 511"
definition max_file_bytes :: u32 where "max_file_bytes = 262144"
definition frames_per_millisecond :: u32 where "frames_per_millisecond = 48"
definition milliseconds_per_second :: u32 where "milliseconds_per_second = 1000"
definition max_gap_seconds :: u32 where "max_gap_seconds = 3600"
definition max_gap_milliseconds :: u32 where
  "max_gap_milliseconds = max_gap_seconds * milliseconds_per_second"
definition gap_max_whole_digits :: nat where "gap_max_whole_digits = 4"
definition gap_max_decimals :: nat where "gap_max_decimals = 3"
definition decimal_radix :: u32 where "decimal_radix = 10"
definition min_duration_seconds :: u32 where "min_duration_seconds = 1"
definition max_duration_seconds :: u32 where "max_duration_seconds = 86400"
definition duration_max_whole_digits :: nat where "duration_max_whole_digits = 5"

type_synonym gap_frames = u32
type_synonym duration_frames = u32
type_synonym line_number = u32

definition gap_milliseconds :: "gap_frames \<Rightarrow> u32" where
  "gap_milliseconds gap = gap div frames_per_millisecond"

datatype route = Codec | Usb

record offered_routes =
  usb_offered :: bool

definition playlist_syntax :: status where
  [status_defs]: "playlist_syntax = \<lparr>code = Invalid_argument, message = ''PLAYLIST_SYNTAX''\<rparr>"
definition bad_file :: status where
  [status_defs]: "bad_file = \<lparr>code = Invalid_argument, message = ''PLAYLIST_FILE''\<rparr>"
definition bad_gap :: status where
  [status_defs]: "bad_gap = \<lparr>code = Invalid_argument, message = ''PLAYLIST_GAP''\<rparr>"
definition bad_route :: status where
  [status_defs]: "bad_route = \<lparr>code = Invalid_argument, message = ''PLAYLIST_ROUTE''\<rparr>"
definition route_unavailable :: status where
  [status_defs]: "route_unavailable = \<lparr>code = Unavailable, message = ''PLAYLIST_ROUTE_UNAVAILABLE''\<rparr>"
definition bad_label :: status where
  [status_defs]: "bad_label = \<lparr>code = Invalid_argument, message = ''PLAYLIST_LABEL''\<rparr>"
definition duplicate_label :: status where
  [status_defs]: "duplicate_label = \<lparr>code = Invalid_argument, message = ''PLAYLIST_LABEL_DUPLICATE''\<rparr>"
definition bad_scenario :: status where
  [status_defs]: "bad_scenario = \<lparr>code = Invalid_argument, message = ''PLAYLIST_SCN''\<rparr>"
definition bad_seed :: status where
  [status_defs]: "bad_seed = \<lparr>code = Invalid_argument, message = ''PLAYLIST_SEED''\<rparr>"
definition seed_without_scenario :: status where
  [status_defs]: "seed_without_scenario = \<lparr>code = Invalid_argument, message = ''PLAYLIST_SEED_NO_SCN''\<rparr>"
definition bad_cut :: status where
  [status_defs]: "bad_cut = \<lparr>code = Invalid_argument, message = ''PLAYLIST_CUT''\<rparr>"
definition bad_duration :: status where
  [status_defs]: "bad_duration = \<lparr>code = Invalid_argument, message = ''PLAYLIST_DUR''\<rparr>"
definition line_too_long :: status where
  [status_defs]: "line_too_long = \<lparr>code = Buffer_too_small, message = ''PLAYLIST_LINE_TOO_LONG''\<rparr>"
definition too_many_items :: status where
  [status_defs]: "too_many_items = \<lparr>code = Buffer_too_small, message = ''PLAYLIST_TOO_MANY''\<rparr>"
definition no_items :: status where
  [status_defs]: "no_items = \<lparr>code = Invalid_argument, message = ''PLAYLIST_EMPTY''\<rparr>"
definition playlist_unreadable :: status where
  [status_defs]: "playlist_unreadable = \<lparr>code = Io_error, message = ''PLAYLIST_OPEN''\<rparr>"
definition playlist_too_large :: status where
  [status_defs]: "playlist_too_large = \<lparr>code = Buffer_too_small, message = ''PLAYLIST_TOO_LARGE''\<rparr>"

definition wav_extension :: string where "wav_extension = ''WAV''"
definition scenario_extension :: string where "scenario_extension = ''SCN''"
definition usb_route_name :: string where "usb_route_name = ''USB''"
definition codec_route_name :: string where "codec_route_name = ''CODEC''"
definition label_key :: string where "label_key = ''label=''"
definition scenario_key :: string where "scenario_key = ''scn=''"
definition seed_key :: string where "seed_key = ''seed=''"
definition cut_key :: string where "cut_key = ''cut=''"
definition attenuation_key :: string where "attenuation_key = ''att=''"
definition duration_key :: string where "duration_key = ''dur=''"
definition horizontal_tab :: char where "horizontal_tab = CHR 0x09"
definition separators :: string where "separators = [CHR '' '', horizontal_tab]"
definition comment_mark :: char where "comment_mark = CHR ''#''"
definition extension_mark :: char where "extension_mark = CHR ''.''"
definition carriage_return :: char where "carriage_return = CHR 0x0D"
definition line_feed :: u8 where "line_feed = 10"

record item =
  item_file :: string
  item_gap :: gap_frames
  item_route :: route
  item_label :: string
  item_scenario :: string
  item_seed :: "u32 option"
  item_cuts :: valid_schedule
  item_attenuation :: tenths
  item_duration :: "duration_frames option"
  item_line :: line_number
  scenario_crc32 :: u32

definition fresh_item :: "line_number \<Rightarrow> item" where
  "fresh_item number = \<lparr>item_file = [], item_gap = 0, item_route = Codec, item_label = [],
     item_scenario = [], item_seed = None, item_cuts = [], item_attenuation = no_attenuation,
     item_duration = None, item_line = number, scenario_crc32 = 0\<rparr>"

section \<open>Names, numbers and routes\<close>

definition char_between :: "char \<Rightarrow> char \<Rightarrow> char \<Rightarrow> bool" where
  "char_between low high c \<longleftrightarrow> char_code low \<le> char_code c \<and> char_code c \<le> char_code high"

definition is_name_char :: "char \<Rightarrow> bool" where
  "is_name_char c \<longleftrightarrow>
     char_between CHR ''A'' CHR ''Z'' c \<or> char_between CHR ''0'' CHR ''9'' c \<or> c = CHR ''_''"

definition is_label_char :: "char \<Rightarrow> bool" where
  "is_label_char c \<longleftrightarrow>
     is_name_char c \<or> char_between CHR ''a'' CHR ''z'' c \<or> c = CHR ''-'' \<or> c = extension_mark"

text \<open>A \<^verbatim>\<open>char\<close> is unsigned on the target; either way a byte past 126 is refused.\<close>

definition is_line_char :: "char \<Rightarrow> bool" where
  "is_line_char c \<longleftrightarrow> char_between CHR '' '' CHR ''~'' c \<or> c = horizontal_tab"

definition is_name_stem :: "string \<Rightarrow> bool" where
  "is_name_stem stem \<longleftrightarrow>
     stem \<noteq> [] \<and> length stem \<le> name_stem_max_chars \<and> list_all is_name_char stem"

definition is_short_name :: "string \<Rightarrow> string \<Rightarrow> bool" where
  "is_short_name text extension \<longleftrightarrow>
     (case find_char extension_mark text of
        None \<Rightarrow> False
      | Some dot \<Rightarrow> is_name_stem (take dot text) \<and> drop (dot + 1) text = extension)"

definition is_playlist_name :: "string \<Rightarrow> bool" where
  "is_playlist_name text \<longleftrightarrow>
     (case find_char extension_mark text of
        None \<Rightarrow> is_name_stem text
      | Some dot \<Rightarrow>
          let extension = drop (dot + 1) text in
          is_name_stem (take dot text) \<and> extension \<noteq> [] \<and>
          length extension \<le> name_extension_max_chars \<and> list_all is_name_char extension)"

definition digit_value :: "char \<Rightarrow> u32 option" where
  "digit_value c = map_option of_nat (find_char c ''0123456789'')"

text \<open>The loop of \<^verbatim>\<open>fraction_milliseconds()\<close> over the places after the point.\<close>

fun fraction_from :: "string \<Rightarrow> nat list \<Rightarrow> u32 \<Rightarrow> u32 option" where
  "fraction_from fraction [] ms = Some ms"
| "fraction_from fraction (place # places) ms =
     (case (if place < length fraction then digit_value (fraction ! place) else Some 0) of
        None \<Rightarrow> None
      | Some d \<Rightarrow> fraction_from fraction places (ms * decimal_radix + d))"

definition fraction_milliseconds :: "string \<Rightarrow> u32 option" where
  "fraction_milliseconds fraction =
     (if fraction = [] \<or> length fraction > gap_max_decimals then None
      else fraction_from fraction [0..<gap_max_decimals] 0)"

definition parse_milliseconds :: "string \<Rightarrow> nat \<Rightarrow> u32 option" where
  "parse_milliseconds text max_whole_digits =
     (let point = find_char extension_mark text;
          whole = substr_to text point in
      case parse_uint32 whole of
        Inl _ \<Rightarrow> None
      | Inr seconds \<Rightarrow>
          if length whole > max_whole_digits then None
          else
            (case (case point of None \<Rightarrow> Some 0 | Some p \<Rightarrow> fraction_milliseconds (drop (p + 1) text)) of
               None \<Rightarrow> None
             | Some fraction \<Rightarrow> Some (seconds * milliseconds_per_second + fraction)))"

definition parse_gap :: "string \<Rightarrow> gap_frames result" where
  "parse_gap text =
     (case parse_milliseconds text gap_max_whole_digits of
        None \<Rightarrow> Inl bad_gap
      | Some ms \<Rightarrow>
          if ms > max_gap_milliseconds then Inl bad_gap else Inr (ms * frames_per_millisecond))"

definition parse_duration :: "string \<Rightarrow> duration_frames result" where
  "parse_duration text =
     (let least = min_duration_seconds * milliseconds_per_second;
          most = max_duration_seconds * milliseconds_per_second in
      case parse_milliseconds text duration_max_whole_digits of
        None \<Rightarrow> Inl bad_duration
      | Some ms \<Rightarrow>
          if ms < least \<or> ms > most then Inl bad_duration else Inr (ms * frames_per_millisecond))"

definition parse_route :: "string \<Rightarrow> offered_routes \<Rightarrow> route result" where
  "parse_route text offered =
     (if text = codec_route_name then Inr Codec
      else if text \<noteq> usb_route_name then Inl bad_route
      else if \<not> usb_offered offered then Inl route_unavailable
      else Inr Usb)"

section \<open>Tokens and options\<close>

text \<open>\<^verbatim>\<open>find_first_not_of(separators)\<close> and \<^verbatim>\<open>find_first_of(separators)\<close> as the first
  place where a test holds.\<close>

primrec find_place :: "(char \<Rightarrow> bool) \<Rightarrow> string \<Rightarrow> nat option" where
  "find_place P [] = None"
| "find_place P (c # cs) = (if P c then Some 0 else map_option Suc (find_place P cs))"

definition tokens_next :: "string \<Rightarrow> string option \<times> string" where
  "tokens_next remaining =
     (case find_place (\<lambda>c. c \<notin> set separators) remaining of
        None \<Rightarrow> (None, [])
      | Some start \<Rightarrow>
          if remaining ! start = comment_mark then (None, [])
          else
            let tail = drop start remaining;
                token = substr_to tail (find_place (\<lambda>c. c \<in> set separators) tail)
            in (Some token, drop (length token) tail))"

definition option_value :: "string \<Rightarrow> string \<Rightarrow> string option" where
  "option_value token key = (if \<not> starts_with token key then None else Some (drop (length key) token))"

definition parse_label :: "string \<Rightarrow> item \<Rightarrow> item result" where
  "parse_label text it =
     (if text = [] \<or> length text > label_max_chars \<or> \<not> list_all is_label_char text then Inl bad_label
      else Inr (it\<lparr>item_label := fixed_text_from label_max_chars text\<rparr>))"

definition parse_scenario :: "string \<Rightarrow> item \<Rightarrow> item result" where
  "parse_scenario text it =
     (if \<not> is_short_name text scenario_extension then Inl bad_scenario
      else Inr (it\<lparr>item_scenario := fixed_text_from name_max_chars text\<rparr>))"

definition parse_seed :: "string \<Rightarrow> item \<Rightarrow> item result" where
  "parse_seed text it =
     (case parse_uint32 text of
        Inl _ \<Rightarrow> Inl bad_seed
      | Inr seed \<Rightarrow> Inr (it\<lparr>item_seed := Some seed\<rparr>))"

definition parse_cuts :: "string \<Rightarrow> item \<Rightarrow> item result" where
  "parse_cuts text it =
     (case parse_entries text of
        Inl _ \<Rightarrow> Inl bad_cut
      | Inr cuts \<Rightarrow>
          (case validate cuts of
             Inl e \<Rightarrow> Inl e
           | Inr valid \<Rightarrow> Inr (it\<lparr>item_cuts := valid\<rparr>)))"

definition parse_attenuation :: "string \<Rightarrow> item \<Rightarrow> item result" where
  "parse_attenuation text it =
     (case attenuation_parse text of
        Inl e \<Rightarrow> Inl e
      | Inr t \<Rightarrow> Inr (it\<lparr>item_attenuation := t\<rparr>))"

definition parse_item_duration :: "string \<Rightarrow> item \<Rightarrow> item result" where
  "parse_item_duration text it =
     (case parse_duration text of
        Inl e \<Rightarrow> Inl e
      | Inr frames \<Rightarrow> Inr (it\<lparr>item_duration := Some frames\<rparr>))"

type_synonym option_rule = "string \<times> (string \<Rightarrow> item \<Rightarrow> item result)"

definition option_rules :: "option_rule list" where
  "option_rules =
     [(label_key, parse_label), (scenario_key, parse_scenario), (seed_key, parse_seed),
      (cut_key, parse_cuts), (attenuation_key, parse_attenuation),
      (duration_key, parse_item_duration)]"

text \<open>The loop of \<^verbatim>\<open>parse_option()\<close>: the rules from \<open>index\<close> on, and the flags of those
  given so far.\<close>

fun parse_option_from ::
  "nat \<Rightarrow> option_rule list \<Rightarrow> string \<Rightarrow> item \<Rightarrow> bool list \<Rightarrow> item result \<times> bool list" where
  "parse_option_from index [] token it seen = (Inl playlist_syntax, seen)"
| "parse_option_from index ((key, parse) # rules) token it seen =
     (case option_value token key of
        Some text \<Rightarrow> (if \<not> seen ! index then parse text it else Inl playlist_syntax, seen[index := True])
      | None \<Rightarrow> parse_option_from (Suc index) rules token it seen)"

definition parse_option :: "string \<Rightarrow> item \<Rightarrow> bool list \<Rightarrow> item result \<times> bool list" where
  "parse_option token it seen = parse_option_from 0 option_rules token it seen"

definition parse_fields :: "string \<Rightarrow> string \<Rightarrow> string \<Rightarrow> offered_routes \<Rightarrow> item \<Rightarrow> item result" where
  "parse_fields file gap route offered it =
     (if \<not> is_short_name file wav_extension then Inl bad_file
      else
        case parse_gap gap of
          Inl e \<Rightarrow> Inl e
        | Inr frames \<Rightarrow>
            (case parse_route route offered of
               Inl e \<Rightarrow> Inl e
             | Inr output \<Rightarrow>
                 Inr (it\<lparr>item_file := fixed_text_from name_max_chars file, item_gap := frames,
                   item_route := output\<rparr>)))"

text \<open>Each token shortens what is left of the line, so the loop over the options ends.\<close>

lemma find_place_less: "find_place P xs = Some n \<Longrightarrow> n < length xs"
  by (induction xs arbitrary: n) (auto split: if_splits)

lemma find_place_Some:
  "find_place P xs = Some n \<longleftrightarrow> n < length xs \<and> P (xs ! n) \<and> (\<forall>c \<in> set (take n xs). \<not> P c)"
proof (induction xs arbitrary: n)
  case Nil
  then show ?case by simp
next
  case (Cons x xs)
  then show ?case by (cases n) auto
qed

lemma find_place_None: "find_place P xs = None \<longleftrightarrow> (\<forall>c \<in> set xs. \<not> P c)"
  by (induction xs) auto

lemma tokens_next_shorter:
  assumes "tokens_next remaining = (Some token, remaining')"
  shows "length remaining' < length remaining"
proof -
  obtain start where start: "find_place (\<lambda>c. c \<notin> set separators) remaining = Some start"
    and token: "token = substr_to (drop start remaining)
      (find_place (\<lambda>c. c \<in> set separators) (drop start remaining))"
    and rest: "remaining' = drop (length token) (drop start remaining)"
    using assms by (auto simp: tokens_next_def Let_def split: option.splits if_splits)
  have low: "start < length remaining" using start by (rule find_place_less)
  then obtain c cs where tail: "drop start remaining = c # cs" by (metis Cons_nth_drop_Suc)
  have "c \<notin> set separators"
    using start tail low by (simp add: find_place_Some nth_via_drop)
  then have "token \<noteq> []" unfolding token tail by (cases "find_place (\<lambda>c. c \<in> set separators) cs") auto
  then show ?thesis using low by (cases token) (simp_all add: rest)
qed

function parse_options :: "string \<Rightarrow> item \<Rightarrow> bool list \<Rightarrow> item result" where
  "parse_options remaining it seen =
     (case tokens_next remaining of
        (None, _) \<Rightarrow> Inr it
      | (Some token, remaining') \<Rightarrow>
          (case parse_option token it seen of
             (Inl e, _) \<Rightarrow> Inl e
           | (Inr it', seen') \<Rightarrow> parse_options remaining' it' seen'))"
  by pat_completeness auto

termination
  by (relation "measure (\<lambda>(remaining, it, seen). length remaining)")
    (auto dest: tokens_next_shorter [OF sym] tokens_next_shorter)

declare parse_options.simps [simp del]

definition parse_line :: "string \<Rightarrow> line_number \<Rightarrow> offered_routes \<Rightarrow> item option result" where
  "parse_line line number offered =
     (if \<not> list_all is_line_char line then Inl playlist_syntax
      else
        case tokens_next line of
          (None, _) \<Rightarrow> Inr None
        | (Some file, rest1) \<Rightarrow>
            (case tokens_next rest1 of
               (gap, rest2) \<Rightarrow>
                 (case tokens_next rest2 of
                    (route, rest3) \<Rightarrow>
                      if gap = None \<or> route = None then Inl playlist_syntax
                      else
                        (case parse_fields file (the gap) (the route) offered (fresh_item number) of
                           Inl e \<Rightarrow> Inl e
                         | Inr it \<Rightarrow>
                             (case parse_options rest3 it (replicate (length option_rules) False) of
                                Inl e \<Rightarrow> Inl e
                              | Inr it' \<Rightarrow>
                                  if item_seed it' \<noteq> None \<and> item_scenario it' = []
                                  then Inl seed_without_scenario
                                  else Inr (Some it'))))))"

section \<open>The item table and the file parser\<close>

text \<open>The table's first \<^verbatim>\<open>count_\<close> items, the only ones read, are the list.\<close>

type_synonym item_table = "item list"

definition table_push :: "item_table \<Rightarrow> item \<Rightarrow> item_table \<times> status" where
  "table_push table it =
     (if length table = max_items then (table, too_many_items)
      else if item_label it \<noteq> [] \<and> list_ex (\<lambda>earlier. item_label earlier = item_label it) table
      then (table, duplicate_label)
      else (table @ [it], success))"

record file_parser =
  parser_chars :: string
  parser_overflow :: bool
  parser_line :: line_number

definition parser_fresh :: file_parser where
  "parser_fresh = \<lparr>parser_chars = [], parser_overflow = False, parser_line = 1\<rparr>"

definition parser_append :: "file_parser \<Rightarrow> char \<Rightarrow> file_parser" where
  "parser_append p c =
     (if length (parser_chars p) = max_line_chars then p\<lparr>parser_overflow := True\<rparr>
      else p\<lparr>parser_chars := parser_chars p @ [c]\<rparr>)"

definition drop_carriage_return :: "string \<Rightarrow> string" where
  "drop_carriage_return line =
     (if line \<noteq> [] \<and> last line = carriage_return then butlast line else line)"

definition keep :: "item option result \<Rightarrow> item_table \<Rightarrow> item_table \<times> status" where
  "keep parsed table =
     (case parsed of
        Inl e \<Rightarrow> (table, e)
      | Inr None \<Rightarrow> (table, success)
      | Inr (Some it) \<Rightarrow> table_push table it)"

type_synonym parse_state = "file_parser \<times> item_table"

definition end_line :: "offered_routes \<Rightarrow> parse_state \<Rightarrow> parse_state \<times> status" where
  "end_line offered = (\<lambda>(p, table).
     case (if parser_overflow p then (table, line_too_long)
           else keep (parse_line (drop_carriage_return (parser_chars p)) (parser_line p) offered) table) of
       (table', st) \<Rightarrow>
         if is_ok st
         then ((p\<lparr>parser_line := parser_line p + 1, parser_chars := []\<rparr>, table'), st)
         else ((p, table'), st))"

definition feed_byte :: "offered_routes \<Rightarrow> parse_state \<Rightarrow> u8 \<Rightarrow> parse_state \<times> status" where
  "feed_byte offered = (\<lambda>(p, table) b.
     if b \<noteq> line_feed then ((parser_append p (char_of (unat b)), table), success)
     else end_line offered (p, table))"

primrec feed :: "offered_routes \<Rightarrow> parse_state \<Rightarrow> bytes \<Rightarrow> parse_state \<times> status" where
  "feed offered s [] = (s, success)"
| "feed offered s (b # bs) =
     (case feed_byte offered s b of (s', st) \<Rightarrow> if is_ok st then feed offered s' bs else (s', st))"

definition parser_finish :: "offered_routes \<Rightarrow> parse_state \<Rightarrow> parse_state \<times> status" where
  "parser_finish offered = (\<lambda>(p, table).
     case (if parser_chars p \<noteq> [] \<or> parser_overflow p then end_line offered (p, table)
           else ((p, table), success)) of
       ((p', table'), ended) \<Rightarrow>
         if \<not> is_ok ended then ((p', table'), ended)
         else if length table' = 0 then ((p'\<lparr>parser_line := 0\<rparr>, table'), no_items)
         else ((p', table'), success))"

text \<open>Feeding stops at the first refusal, as \<open>fallible_incremental\<close> has it.\<close>

interpretation file_feed: fallible_incremental "feed_byte offered" "feed offered"
  for offered :: offered_routes
  by unfold_locales simp_all

section \<open>Reading the file\<close>

text \<open>
  \<^verbatim>\<open>parse_playlist_file()\<close>: \<open>read\<close> stands for \<^verbatim>\<open>f_read()\<close> at a place of the open
  file, \<^term>\<open>None\<close> for a failure or a short count. The read buffer holds three bytes for each
  frame of an engine block.
\<close>

record playlist_check =
  check_status :: status
  check_line :: line_number
  check_detail :: "string option"

definition read_buffer_bytes :: u32 where "read_buffer_bytes = 3 * 2048"

lemma next_read:
  fixes at_byte size_bytes buffer :: u32
  assumes "at_byte < size_bytes"
  shows "unat (at_byte + min buffer (size_bytes - at_byte)) =
    unat at_byte + min (unat buffer) (unat size_bytes - unat at_byte)"
proof -
  have "unat (min buffer (size_bytes - at_byte)) = min (unat buffer) (unat size_bytes - unat at_byte)"
    using assms by (simp add: unat_min unat_sub_exact less_imp_le)
  then show ?thesis
    using assms unat_lt_u32 [of size_bytes] by (simp add: word_less_nat_alt unat_add_exact)
qed

function read_playlist :: "(u32 \<Rightarrow> u32 \<Rightarrow> bytes option) \<Rightarrow> offered_routes \<Rightarrow> u32 \<Rightarrow>
    u32 \<Rightarrow> parse_state \<Rightarrow> playlist_check \<times> item_table" where
  "read_playlist reader offered size_bytes at_byte s =
     (if at_byte < size_bytes then
        let requested = min read_buffer_bytes (size_bytes - at_byte) in
        (case reader at_byte requested of
           None \<Rightarrow> (\<lparr>check_status = playlist_unreadable, check_line = 0, check_detail = Some ''read''\<rparr>, snd s)
         | Some chunk \<Rightarrow>
             (case feed offered s chunk of
                (s', fed) \<Rightarrow>
                  if \<not> is_ok fed
                  then (\<lparr>check_status = fed, check_line = parser_line (fst s'), check_detail = None\<rparr>, snd s')
                  else read_playlist reader offered size_bytes (at_byte + requested) s'))
      else
        (case parser_finish offered s of
           (s', finished) \<Rightarrow>
             (\<lparr>check_status = finished, check_line = parser_line (fst s'), check_detail = None\<rparr>, snd s')))"
  by pat_completeness auto

termination
  by (relation "measure (\<lambda>(reader, offered, size_bytes, at_byte, s). unat size_bytes - unat at_byte)")
    (auto simp: next_read read_buffer_bytes_def word_less_nat_alt)

declare read_playlist.simps [simp del]

definition parse_playlist_file ::
  "(u32 \<Rightarrow> u32 \<Rightarrow> bytes option) \<Rightarrow> offered_routes \<Rightarrow> u32 \<Rightarrow> item_table \<Rightarrow> playlist_check \<times> item_table" where
  "parse_playlist_file reader offered size_bytes table =
     (if size_bytes > max_file_bytes
      then (\<lparr>check_status = playlist_too_large, check_line = 0, check_detail = None\<rparr>, table)
      else read_playlist reader offered size_bytes 0 (parser_fresh, table))"

end
