(* ===== verification/PlaylistFile.thy ===== *)
theory PlaylistFile
  imports Playlist
begin

text \<open>
  What reading a playlist file does: the reference is a function of the whole file that cuts
  it into lines and takes them one after the other, and \<^verbatim>\<open>parse_playlist_file()\<close> computes
  it whatever the size of the reads. An accepted table holds well-formed items only, whatever
  the card answers.
\<close>

section \<open>The reference\<close>

function file_lines :: "bytes \<Rightarrow> bytes list" where
  "file_lines [] = []"
| "file_lines (b # bs) =
     takeWhile (\<lambda>c. c \<noteq> line_feed) (b # bs) #
     file_lines (drop 1 (dropWhile (\<lambda>c. c \<noteq> line_feed) (b # bs)))"
  by pat_completeness auto
termination
  by (relation "measure length")
    (auto simp: less_Suc_eq_le le_diff_conv intro: order_trans [OF length_dropWhile_le])

definition take_line ::
  "offered_routes \<Rightarrow> line_number \<Rightarrow> bytes \<Rightarrow> item_table \<Rightarrow> item_table \<times> status" where
  "take_line offered number line table =
     (if length line > 511 then (table, line_too_long)
      else keep (parse_line (drop_carriage_return (map (\<lambda>b. char_of (unat b)) line)) number offered) table)"

primrec take_lines :: "offered_routes \<Rightarrow> line_number \<Rightarrow> bytes list \<Rightarrow> item_table \<Rightarrow>
    item_table \<times> line_number \<times> status" where
  "take_lines offered number [] table =
     (if table = [] then (table, 0, no_items) else (table, number, success))"
| "take_lines offered number (line # rest) table =
     (case take_line offered number line table of
        (table', st) \<Rightarrow>
          if is_ok st then take_lines offered (number + 1) rest table' else (table', number, st))"

section \<open>The parser computes it\<close>

text \<open>The parser in the middle of a line: what it holds of the bytes of the line so far.\<close>

definition parser_in_line :: "bytes \<Rightarrow> line_number \<Rightarrow> file_parser" where
  "parser_in_line line number =
     \<lparr>parser_chars = map (\<lambda>b. char_of (unat b)) (take 511 line),
      parser_overflow = (511 < length line), parser_line = number\<rparr>"

lemma parser_fresh_in_line: "parser_fresh = parser_in_line [] 1"
  by (simp add: parser_fresh_def parser_in_line_def)

lemma parser_in_line_simps [simp]:
  "parser_line (parser_in_line line n) = n"
  "line \<noteq> [] \<Longrightarrow> parser_chars (parser_in_line line n) \<noteq> []"
  "parser_chars (parser_in_line [] n) = []" "\<not> parser_overflow (parser_in_line [] n)"
  by (auto simp: parser_in_line_def)

lemma parser_append_in_line:
  "parser_append (parser_in_line line n) (char_of (unat b)) = parser_in_line (line @ [b]) n"
  by (auto simp: parser_append_def parser_in_line_def max_line_chars_def)

lemma end_line_in_line:
  "end_line offered (parser_in_line line n, table) =
     (case take_line offered n line table of
        (table', st) \<Rightarrow>
          if is_ok st then ((parser_in_line [] (n + 1), table'), st)
          else ((parser_in_line line n, table'), st))"
proof (cases "511 < length line")
  case True
  then show ?thesis
    by (simp add: end_line_def take_line_def parser_in_line_def is_ok_def status_defs)
next
  case False
  then show ?thesis
    by (simp add: end_line_def take_line_def parser_in_line_def split: prod.splits)
qed

lemma file_lines_before_feed:
  assumes "line_feed \<notin> set line"
  shows "file_lines (line @ line_feed # bs) = line # file_lines bs"
proof -
  have line: "takeWhile (\<lambda>c. c \<noteq> line_feed) (line @ line_feed # bs) = line"
    "dropWhile (\<lambda>c. c \<noteq> line_feed) (line @ line_feed # bs) = line_feed # bs"
    using assms by (induction line) (auto simp: line_feed_def)
  have "line @ line_feed # bs \<noteq> []" by simp
  then obtain c cs where "line @ line_feed # bs = c # cs" by (meson list.exhaust)
  then show ?thesis using file_lines.simps(2) [of c cs] line by simp
qed

lemma file_lines_no_feed:
  assumes "line_feed \<notin> set line" and "line \<noteq> []"
  shows "file_lines line = [line]"
proof -
  have line: "takeWhile (\<lambda>c. c \<noteq> line_feed) line = line" "dropWhile (\<lambda>c. c \<noteq> line_feed) line = []"
    using assms by (simp_all add: takeWhile_eq_all_conv dropWhile_eq_Nil_conv) (metis)+
  obtain c cs where "line = c # cs" using assms(2) by (meson list.exhaust)
  then show ?thesis using file_lines.simps(2) [of c cs] line by simp
qed

definition parse_outcome :: "parse_state \<times> status \<Rightarrow> item_table \<times> line_number \<times> status" where
  "parse_outcome = (\<lambda>((p, table), st). (table, parser_line p, st))"

definition finish_after :: "offered_routes \<Rightarrow> parse_state \<times> status \<Rightarrow> parse_state \<times> status" where
  "finish_after offered = (\<lambda>(s, fed). if is_ok fed then parser_finish offered s else (s, fed))"

lemma no_items_not_ok [simp]: "\<not> is_ok no_items"
  by (simp add: is_ok_def status_defs)

lemma finish_in_line:
  assumes "line_feed \<notin> set line"
  shows "parse_outcome (parser_finish offered (parser_in_line line n, table)) =
    take_lines offered n (file_lines line) table"
proof (cases "line = []")
  case True
  then show ?thesis
    by (simp add: parser_finish_def parse_outcome_def)
next
  case False
  obtain table' st where "take_line offered n line table = (table', st)" by force
  then show ?thesis
    using False by (simp add: parser_finish_def parse_outcome_def end_line_in_line file_lines_no_feed [OF assms False])
qed

lemma feed_computes_lines:
  assumes "line_feed \<notin> set line"
  shows "parse_outcome (finish_after offered (feed offered (parser_in_line line n, table) bs)) =
    take_lines offered n (file_lines (line @ bs)) table"
  using assms
proof (induction bs arbitrary: line n table)
  case Nil
  then show ?case by (simp add: finish_after_def finish_in_line)
next
  case (Cons b bs)
  show ?case
  proof (cases "b = line_feed")
    case True
    obtain table' st where line: "take_line offered n line table = (table', st)" by force
    show ?thesis
    proof (cases "is_ok st")
      case ok: True
      then show ?thesis
        using Cons.IH [of "[]" "n + 1" table'] line True Cons.prems
        by (simp add: feed_byte_def end_line_in_line file_lines_before_feed)
    next
      case False
      then show ?thesis
        using line True Cons.prems
        by (simp add: feed_byte_def end_line_in_line file_lines_before_feed finish_after_def
            parse_outcome_def)
    qed
  next
    case False
    then show ?thesis
      using Cons.IH [of "line @ [b]" n table] Cons.prems
      by (simp add: feed_byte_def parser_append_in_line)
  qed
qed

section \<open>Reading in buffers\<close>

text \<open>The reads of a card that holds the file.\<close>

definition file_reader :: "bytes \<Rightarrow> u32 \<Rightarrow> u32 \<Rightarrow> bytes option" where
  "file_reader file place n = Some (take (unat n) (drop (unat place) file))"

definition outcome_check :: "parse_state \<times> status \<Rightarrow> playlist_check \<times> item_table" where
  "outcome_check = (\<lambda>(s, st).
     (\<lparr>check_status = st, check_line = parser_line (fst s), check_detail = None\<rparr>, snd s))"

lemma read_playlist_feeds:
  assumes "unat size_bytes = length file" and "unat at_byte \<le> length file"
  shows "read_playlist (file_reader file) offered size_bytes at_byte s =
    outcome_check (finish_after offered (feed offered s (drop (unat at_byte) file)))"
  using assms
proof (induction "unat size_bytes - unat at_byte" arbitrary: at_byte s rule: less_induct)
  case less
  show ?case
  proof (cases "at_byte < size_bytes")
    case False
    then have "drop (unat at_byte) file = []" using less.prems by (simp add: word_less_nat_alt)
    then show ?thesis using False
      by (simp add: read_playlist.simps [of _ _ _ at_byte] outcome_check_def finish_after_def split: prod.splits)
  next
    case True
    define n where "n = min read_buffer_bytes (size_bytes - at_byte)"
    define here where "here = take (unat n) (drop (unat at_byte) file)"
    define later where "later = drop (unat (at_byte + n)) file"
    have place: "unat (at_byte + n) = unat at_byte + unat n"
      using next_read [OF True, of read_buffer_bytes] True
      by (simp add: n_def unat_min unat_sub_exact less_imp_le)
    have n: "0 < unat n" "unat at_byte + unat n \<le> length file"
      using True less.prems
      by (auto simp: n_def unat_min unat_sub_exact less_imp_le word_less_nat_alt read_buffer_bytes_def)
    have bytes: "drop (unat at_byte) file = here @ later"
      unfolding here_def later_def place by (metis add.commute append_take_drop_id drop_drop)
    obtain s' st where fed: "feed offered s here = (s', st)" by (meson surj_pair)
    have split_feed: "feed offered s (here @ later) = (if is_ok st then feed offered s' later else (s', st))"
      by (simp only: file_feed.run_append fed prod.case)
    have step: "read_playlist (file_reader file) offered size_bytes at_byte s =
        (if is_ok st then read_playlist (file_reader file) offered size_bytes (at_byte + n) s'
         else outcome_check (s', st))"
      using True by (subst read_playlist.simps)
        (simp add: file_reader_def fed outcome_check_def flip: n_def here_def)
    have "unat size_bytes - unat (at_byte + n) < unat size_bytes - unat at_byte"
      using n less.prems True by (simp add: place word_less_nat_alt)
    then have "read_playlist (file_reader file) offered size_bytes (at_byte + n) s' =
        outcome_check (finish_after offered (feed offered s' later))"
      unfolding later_def using n less.prems by (intro less.hyps) (simp_all add: place)
    then show ?thesis unfolding bytes split_feed step by (simp add: finish_after_def)
  qed
qed

text \<open>C8. A playlist file is read as a whole, whatever the size of the reads: for a file within
  the limit, \<^verbatim>\<open>parse_playlist_file()\<close> gives the table, the line and the status of the
  reference, which cuts the file at its line feeds (the last line may lack one), refuses a line
  of more than 511 bytes, drops a carriage return at a line's end, parses the lines in order
  under their numbers and stops at the first refusal, and wants at least one item.\<close>

theorem playlist_file_reads_lines:
  assumes "length file \<le> 262144"
  shows "parse_playlist_file (file_reader file) offered (of_nat (length file)) [] =
    (case take_lines offered 1 (file_lines file) [] of
       (table, number, st) \<Rightarrow>
         (\<lparr>check_status = st, check_line = number, check_detail = None\<rparr>, table))"
proof -
  let ?size = "of_nat (length file) :: u32"
  let ?fed = "finish_after offered (feed offered (parser_in_line [] 1, []) file)"
  have size: "unat ?size = length file" using assms by simp
  then have "\<not> ?size > max_file_bytes" using assms by (simp add: max_file_bytes_def word_less_nat_alt)
  then have "parse_playlist_file (file_reader file) offered ?size [] = outcome_check ?fed"
    using read_playlist_feeds [OF size, of 0 offered "(parser_fresh, [])"]
    by (simp add: parse_playlist_file_def parser_fresh_in_line)
  moreover have "parse_outcome ?fed = take_lines offered 1 (file_lines file) []"
    using feed_computes_lines [of "[]" offered 1 "[]" "file"] by simp
  moreover obtain p table st where "?fed = ((p, table), st)" by (metis prod.collapse)
  ultimately show ?thesis
    by (simp add: parse_outcome_def outcome_check_def split: prod.splits) (metis prod.inject)
qed

text \<open>Two lines, the second without a line feed.\<close>

definition example_lines :: "bytes list" where
  "example_lines =
     [map (\<lambda>c. of_nat (char_code c)) (''A.WAV 0.5 CODEC'' @ [CHR 0x0D]),
      map (\<lambda>c. of_nat (char_code c)) ''B.WAV 1 USB seed=7'']"

definition example_file :: bytes where
  "example_file = example_lines ! 0 @ line_feed # example_lines ! 1"

definition example_item :: item where
  "example_item = (fresh_item 1)\<lparr>item_file := ''A.WAV'', item_gap := 24000\<rparr>"

lemma example_first: "take_line \<lparr>usb_offered = True\<rparr> 1 (example_lines ! 0) [] = ([example_item], success)"
  by code_simp

lemma example_second:
  "take_line \<lparr>usb_offered = True\<rparr> 2 (example_lines ! 1) [example_item] = ([example_item], seed_without_scenario)"
  by code_simp

lemma example_split: "file_lines example_file = [example_lines ! 0, example_lines ! 1]"
  by code_simp

theorem playlist_file_reads_lines_witness:
  "parse_playlist_file (file_reader example_file) \<lparr>usb_offered = True\<rparr> (of_nat (length example_file)) [] =
     (\<lparr>check_status = seed_without_scenario, check_line = 2, check_detail = None\<rparr>, [example_item])"
proof -
  have "length example_file \<le> 262144" by (simp add: example_file_def example_lines_def)
  moreover have "\<not> is_ok seed_without_scenario" by (simp add: is_ok_def status_defs)
  ultimately show ?thesis
    using playlist_file_reads_lines [of example_file "\<lparr>usb_offered = True\<rparr>"]
    by (simp add: example_split example_first example_second del: One_nat_def)
qed

section \<open>What an accepted table holds\<close>

definition item_ok :: "item \<Rightarrow> bool" where
  "item_ok it \<longleftrightarrow>
     is_short_name (item_file it) wav_extension \<and>
     unat (item_gap it) \<le> 3600 * 48000 \<and> 48 dvd unat (item_gap it) \<and>
     length (item_label it) \<le> 24 \<and> list_all is_label_char (item_label it) \<and>
     (item_scenario it = [] \<or> is_short_name (item_scenario it) scenario_extension) \<and>
     (item_seed it \<noteq> None \<longrightarrow> item_scenario it \<noteq> []) \<and>
     schedule_ok (item_cuts it) \<and> length (item_cuts it) \<le> max_entries \<and>
     tenths_ok (item_attenuation it) \<and>
     (case item_duration it of None \<Rightarrow> True
      | Some d \<Rightarrow> 48000 \<le> unat d \<and> unat d \<le> 86400 * 48000 \<and> 48 dvd unat d)"

definition table_ok :: "item_table \<Rightarrow> bool" where
  "table_ok table \<longleftrightarrow> length table \<le> max_items \<and> list_all item_ok table \<and>
     distinct (filter (\<lambda>label. label \<noteq> []) (map item_label table))"

text \<open>What every prefix of a line's options keeps of the item under construction.\<close>

definition fields_ok :: "item \<Rightarrow> bool" where
  "fields_ok it \<longleftrightarrow> item_ok (it\<lparr>item_seed := None\<rparr>)"

lemma short_name_length: "is_short_name text ext \<Longrightarrow> length ext = 3 \<Longrightarrow> length text \<le> 12"
  by (auto simp: is_short_name_def is_name_stem_def name_stem_max_chars_def split: option.splits
      dest!: find_char_less)

lemma short_name_kept:
  "is_short_name text ext \<Longrightarrow> length ext = 3 \<Longrightarrow> fixed_text_from name_max_chars text = text"
  using short_name_length [of "text" ext]
  by (simp add: fixed_text_from_def name_max_chars_def name_stem_max_chars_def name_extension_max_chars_def)

lemma short_name_not_empty: "is_short_name text ext \<Longrightarrow> text \<noteq> []"
  by (auto simp: is_short_name_def)

lemma extension_lengths [simp]: "length wav_extension = 3" "length scenario_extension = 3"
  by (simp_all add: wav_extension_def scenario_extension_def)

lemma schedule_ok_Nil [simp]: "schedule_ok []"
  by (simp add: validate_accepts [symmetric] validate_def check_drop_balance_def)

lemma milliseconds_frames:
  assumes "unat ms \<le> 86400000"
  shows "unat (ms * frames_per_millisecond) = unat ms * 48"
  using assms by (simp add: frames_per_millisecond_def unat_mult_exact)

lemma parse_gap_bounds:
  "parse_gap text = Inr gap \<Longrightarrow> unat gap \<le> 3600 * 48000 \<and> 48 dvd unat gap"
  by (auto simp: parse_gap_def max_gap_milliseconds_def max_gap_seconds_def milliseconds_per_second_def
      milliseconds_frames word_le_nat_alt not_less split: option.splits if_splits)

lemma parse_duration_bounds:
  "parse_duration text = Inr d \<Longrightarrow> 48000 \<le> unat d \<and> unat d \<le> 86400 * 48000 \<and> 48 dvd unat d"
  by (auto simp: parse_duration_def Let_def min_duration_seconds_def max_duration_seconds_def
      milliseconds_per_second_def milliseconds_frames word_le_nat_alt word_less_nat_alt not_less
      split: option.splits if_splits)

lemma parse_entries_length: "parse_entries text = Inr es \<Longrightarrow> length es \<le> max_entries"
  unfolding parse_entries_def by (subst (asm) parse_entries_from_spell) auto

lemma validate_same: "validate l = Inr s \<Longrightarrow> s = l"
  by (auto simp: validate_def Let_def split: if_splits)

lemma attenuation_parse_ok: "attenuation_parse text = Inr t \<Longrightarrow> tenths_ok t"
  by (auto simp: attenuation_parse_cases)

lemma option_parsers_fields_ok:
  assumes "fields_ok it"
  shows "parse_label v it = Inr it' \<Longrightarrow> fields_ok it'"
    and "parse_scenario v it = Inr it' \<Longrightarrow> fields_ok it'"
    and "parse_seed v it = Inr it' \<Longrightarrow> fields_ok it'"
    and "parse_cuts v it = Inr it' \<Longrightarrow> fields_ok it'"
    and "parse_attenuation v it = Inr it' \<Longrightarrow> fields_ok it'"
    and "parse_item_duration v it = Inr it' \<Longrightarrow> fields_ok it'"
proof -
  note ok = assms [unfolded fields_ok_def item_ok_def]
  show "fields_ok it'" if "parse_label v it = Inr it'"
    using ok that by (simp add: parse_label_def fields_ok_def item_ok_def label_max_chars_def
        fixed_text_from_def split: if_splits) (auto simp: not_less)
  show "fields_ok it'" if "parse_scenario v it = Inr it'"
    using ok that by (simp add: parse_scenario_def fields_ok_def item_ok_def short_name_kept split: if_splits)
      (auto simp: short_name_kept)
  show "fields_ok it'" if "parse_seed v it = Inr it'"
    using ok that by (auto simp: parse_seed_def fields_ok_def item_ok_def split: sum.splits)
  show "fields_ok it'" if parsed: "parse_cuts v it = Inr it'"
  proof -
    obtain es valid where es: "parse_entries v = Inr es" "validate es = Inr valid"
      and it': "it' = it\<lparr>item_cuts := valid\<rparr>"
      using parsed by (auto simp: parse_cuts_def split: sum.splits)
    moreover have "valid = es" using es(2) by (rule validate_same)
    ultimately show ?thesis using ok parse_entries_length [of v es]
      by (simp add: fields_ok_def item_ok_def validate_accepts)
  qed
  show "fields_ok it'" if parsed: "parse_attenuation v it = Inr it'"
  proof -
    obtain t where "attenuation_parse v = Inr t" "it' = it\<lparr>item_attenuation := t\<rparr>"
      using parsed by (auto simp: parse_attenuation_def split: sum.splits)
    then show ?thesis using ok attenuation_parse_ok [of v t] by (simp add: fields_ok_def item_ok_def)
  qed
  show "fields_ok it'" if parsed: "parse_item_duration v it = Inr it'"
  proof -
    obtain d where "parse_duration v = Inr d" "it' = it\<lparr>item_duration := Some d\<rparr>"
      using parsed by (auto simp: parse_item_duration_def split: sum.splits)
    then show ?thesis using ok parse_duration_bounds [of v d] by (simp add: fields_ok_def item_ok_def)
  qed
qed

lemma parse_option_rule:
  assumes "parse_option token it seen = (Inr it', seen')"
  shows "\<exists>v key parse. (key, parse) \<in> set option_rules \<and> parse v it = Inr it'"
proof -
  have "parse_option_from i rules token it seen = (Inr it', seen') \<Longrightarrow>
      \<exists>v key parse. (key, parse) \<in> set rules \<and> parse v it = Inr it'" for i rules
    by (induction i rules token it seen rule: parse_option_from.induct)
      (auto split: option.splits if_splits)
  then show ?thesis using assms unfolding parse_option_def by blast
qed

lemma parse_option_fields_ok:
  assumes "parse_option token it seen = (Inr it', seen')" and "fields_ok it"
  shows "fields_ok it'"
  using parse_option_rule [OF assms(1)] option_parsers_fields_ok [OF assms(2)]
  by (auto simp: option_rules_def)

lemma parse_options_fields_ok:
  "parse_options remaining it seen = Inr it' \<Longrightarrow> fields_ok it \<Longrightarrow> fields_ok it'"
proof (induction remaining it seen rule: parse_options.induct)
  case (1 remaining it seen)
  note step = parse_options.simps [of remaining it seen]
  show ?case
  proof (cases "tokens_next remaining")
    case (Pair token remaining')
    show ?thesis
    proof (cases token)
      case None
      then show ?thesis using "1.prems" Pair step by simp
    next
      case (Some t)
      obtain it1 seen1 where option: "parse_option t it seen = (Inr it1, seen1)"
        and rest: "parse_options remaining' it1 seen1 = Inr it'"
        using "1.prems"(1) Pair Some step by (auto split: prod.splits sum.splits)
      show ?thesis
        by (rule "1.IH" [OF Pair [symmetric] Some option [symmetric] refl rest])
          (rule parse_option_fields_ok [OF option "1.prems"(2)])
    qed
  qed
qed

lemma parse_line_item_ok:
  assumes "parse_line line number offered = Inr (Some it)"
  shows "item_ok it"
proof -
  obtain f gap route it0 rest where fields: "parse_fields f gap route offered (fresh_item number) = Inr it0"
    and options: "parse_options rest it0 (replicate (length option_rules) False) = Inr it"
    and seed: "item_seed it \<noteq> None \<longrightarrow> item_scenario it \<noteq> []"
    using assms by (auto simp: parse_line_def split: if_splits prod.splits option.splits sum.splits)
  have "fields_ok it0"
    using fields by (auto simp: parse_fields_def fields_ok_def item_ok_def fresh_item_def short_name_kept
        tenths_ok_def no_attenuation_def split: sum.splits if_splits dest: parse_gap_bounds)
  then have "fields_ok it" by (rule parse_options_fields_ok [OF options])
  then show ?thesis using seed by (simp add: fields_ok_def item_ok_def)
qed

lemma table_push_ok: "item_ok it \<Longrightarrow> table_ok table \<Longrightarrow> table_ok (fst (table_push table it))"
  by (auto simp: table_push_def table_ok_def list_ex_iff)

lemma keep_ok:
  assumes "table_ok table"
  shows "table_ok (fst (keep (parse_line line number offered) table))"
  using assms table_push_ok parse_line_item_ok
  by (auto simp: keep_def split: sum.splits option.splits)

lemma end_line_ok: "table_ok (snd s) \<Longrightarrow> table_ok (snd (fst (end_line offered s)))"
  using keep_ok by (cases s) (simp add: end_line_def split: prod.splits, metis fst_conv)

lemma feed_byte_ok: "table_ok (snd s) \<Longrightarrow> table_ok (snd (fst (feed_byte offered s b)))"
  using end_line_ok [of s offered] by (cases s) (simp add: feed_byte_def)

lemma parser_finish_ok: "table_ok (snd s) \<Longrightarrow> table_ok (snd (fst (parser_finish offered s)))"
  using end_line_ok [of s offered]
  by (cases s) (auto simp: parser_finish_def split: prod.splits)

lemma read_playlist_ok:
  "table_ok (snd s) \<Longrightarrow> table_ok (snd (read_playlist reader offered size_bytes at_byte s))"
proof (induction reader offered size_bytes at_byte s rule: read_playlist.induct)
  case (1 reader offered size_bytes at_byte s)
  note step = read_playlist.simps [of reader offered size_bytes at_byte s]
  show ?case
  proof (cases "at_byte < size_bytes")
    case False
    then show ?thesis
      using parser_finish_ok [OF "1.prems", of offered] unfolding step
      by (cases "parser_finish offered s") simp
  next
    case True
    let ?n = "min read_buffer_bytes (size_bytes - at_byte)"
    show ?thesis
    proof (cases "reader at_byte ?n")
      case None
      then show ?thesis using True "1.prems" unfolding step by simp
    next
      case (Some chunk)
      obtain s' st where fed: "feed offered s chunk = (s', st)" by (meson surj_pair)
      have "table_ok (snd s')"
        using file_feed.run_keeps [of "\<lambda>s. table_ok (snd s)" offered s chunk] feed_byte_ok "1.prems" fed
        by simp
      then show ?thesis
        using "1.IH" [OF True refl Some fed [symmetric]] True Some fed unfolding step by simp
    qed
  qed
qed

text \<open>C15. Whatever the card answers, the table that a playlist file leaves holds what the player
  may rely on: at most 256 items, no label twice, and every item with an upper-case 8.3 WAV name,
  a gap and a duration in range and in whole milliseconds of frames, a valid CUT schedule, an
  attenuation in range, and a scenario wherever it has a seed.\<close>

theorem playlist_table_ok:
  "table_ok (snd (parse_playlist_file reader offered size_bytes []))"
proof -
  have "table_ok []" by (simp add: table_ok_def)
  then show ?thesis
    using read_playlist_ok [of "(parser_fresh, [])" reader offered size_bytes 0]
    by (simp add: parse_playlist_file_def)
qed

end
