(* ===== verification/PlaylistSpell.thy ===== *)
theory PlaylistSpell
  imports PlaylistFile
begin

text \<open>
  The canonical line of a playlist item, and that \<^verbatim>\<open>parse_line()\<close> reads it back: every
  well-formed item has a line, with each of its options, and the line means that item.
\<close>

section \<open>The line of an item\<close>

definition three_digits :: "nat \<Rightarrow> string" where
  "three_digits n = [digit_char (n div 100), digit_char (n div 10 mod 10), digit_char (n mod 10)]"

definition spell_seconds :: "u32 \<Rightarrow> string" where
  "spell_seconds ms = spell_number (ms div 1000) @
     (if unat ms mod 1000 = 0 then [] else extension_mark # three_digits (unat ms mod 1000))"

definition spell_frames :: "u32 \<Rightarrow> string" where
  "spell_frames frames = spell_seconds (frames div frames_per_millisecond)"

definition spell_route :: "route \<Rightarrow> string" where
  "spell_route r = (case r of Codec \<Rightarrow> codec_route_name | Usb \<Rightarrow> usb_route_name)"

definition spell_attenuation :: "tenths \<Rightarrow> string" where
  "spell_attenuation t =
     CHR ''-'' # spell_number (tenths_value t div 10) @ [CHR ''.'', digit_char (unat (tenths_value t) mod 10)]"

definition label_token :: "item \<Rightarrow> string list" where
  "label_token it = (if item_label it = [] then [] else [label_key @ item_label it])"
definition scenario_token :: "item \<Rightarrow> string list" where
  "scenario_token it = (if item_scenario it = [] then [] else [scenario_key @ item_scenario it])"
definition seed_token :: "item \<Rightarrow> string list" where
  "seed_token it = (case item_seed it of None \<Rightarrow> [] | Some s \<Rightarrow> [seed_key @ spell_number s])"
definition cut_token :: "item \<Rightarrow> string list" where
  "cut_token it = (if item_cuts it = [] then [] else [cut_key @ spell_entries (item_cuts it)])"
definition attenuation_token :: "item \<Rightarrow> string list" where
  "attenuation_token it =
     (if item_attenuation it = no_attenuation then []
      else [attenuation_key @ spell_attenuation (item_attenuation it)])"
definition duration_token :: "item \<Rightarrow> string list" where
  "duration_token it =
     (case item_duration it of None \<Rightarrow> [] | Some d \<Rightarrow> [duration_key @ spell_frames d])"

definition option_tokens :: "item \<Rightarrow> string list" where
  "option_tokens it = label_token it @ scenario_token it @ seed_token it @ cut_token it @
     attenuation_token it @ duration_token it"

definition spell_tokens :: "string list \<Rightarrow> string" where
  "spell_tokens ts = concat (map (\<lambda>t. CHR '' '' # t) ts)"

definition spell_item :: "item \<Rightarrow> string" where
  "spell_item it = item_file it @
     spell_tokens ([spell_frames (item_gap it), spell_route (item_route it)] @ option_tokens it)"

section \<open>Tokens\<close>

text \<open>A token: printable, no separator, not the start of a comment.\<close>

definition token_ok :: "string \<Rightarrow> bool" where
  "token_ok t \<longleftrightarrow> t \<noteq> [] \<and> hd t \<noteq> comment_mark \<and> list_all (char_between CHR ''!'' CHR ''~'') t"

lemma token_char_line:
  "char_between CHR ''!'' CHR ''~'' c \<Longrightarrow> is_line_char c \<and> c \<notin> set separators"
  by (auto simp: char_between_def is_line_char_def separators_def horizontal_tab_def)

lemma token_no_separator: "token_ok t \<Longrightarrow> c \<in> set t \<Longrightarrow> c \<notin> set separators"
  using token_char_line by (auto simp: token_ok_def list_all_iff)

lemma find_place_skip: "\<forall>c \<in> set a. \<not> P c \<Longrightarrow> P c \<Longrightarrow> find_place P (a @ c # b) = Some (length a)"
  by (induction a) auto

lemma tokens_next_spelled:
  assumes t: "token_ok t" and sp: "\<forall>c \<in> set sp. c \<in> set separators"
  shows "tokens_next (sp @ t @ spell_tokens ts) = (Some t, spell_tokens ts)"
proof -
  obtain c cs where c: "t = c # cs" using t by (cases t) (auto simp: token_ok_def)
  then have "c \<notin> set separators" using token_no_separator [OF t] by simp
  then have start: "find_place (\<lambda>c. c \<notin> set separators) (sp @ t @ spell_tokens ts) = Some (length sp)"
    using sp find_place_skip [of sp "\<lambda>c. c \<notin> set separators" c] by (simp add: c)
  have no: "\<forall>d \<in> set t. \<not> d \<in> set separators" using token_no_separator [OF t] by blast
  have stop: "substr_to (t @ spell_tokens ts) (find_place (\<lambda>c. c \<in> set separators) (t @ spell_tokens ts)) = t"
  proof (cases ts)
    case Nil
    then have "find_place (\<lambda>c. c \<in> set separators) (t @ spell_tokens ts) = None"
      using no by (simp add: find_place_None spell_tokens_def)
    then show ?thesis using Nil by (simp add: spell_tokens_def)
  next
    case (Cons u us)
    then have "spell_tokens ts = CHR '' '' # (u @ spell_tokens us)" by (simp add: spell_tokens_def)
    then show ?thesis using find_place_skip [OF no] by (simp add: separators_def)
  qed
  have "(sp @ t @ spell_tokens ts) ! length sp = c" by (simp add: c)
  moreover have "c \<noteq> comment_mark" using t by (simp add: token_ok_def c)
  ultimately show ?thesis unfolding tokens_next_def start using stop by (simp add: Let_def)
qed

lemma tokens_next_first: "token_ok t \<Longrightarrow> tokens_next (t @ spell_tokens ts) = (Some t, spell_tokens ts)"
  using tokens_next_spelled [of t "[]" ts] by simp

lemma tokens_next_Cons: "token_ok t \<Longrightarrow> tokens_next (spell_tokens (t # ts)) = (Some t, spell_tokens ts)"
  using tokens_next_spelled [of t "'' ''" ts] by (simp add: spell_tokens_def separators_def)

lemma tokens_next_Nil: "tokens_next (spell_tokens []) = (None, [])"
  by (simp add: tokens_next_def spell_tokens_def)

primrec apply_tokens :: "string list \<Rightarrow> item \<Rightarrow> bool list \<Rightarrow> item result" where
  "apply_tokens [] it seen = Inr it"
| "apply_tokens (t # ts) it seen =
     (case parse_option t it seen of (Inl e, _) \<Rightarrow> Inl e | (Inr it', seen') \<Rightarrow> apply_tokens ts it' seen')"

lemma parse_options_spelled:
  "list_all token_ok ts \<Longrightarrow> parse_options (spell_tokens ts) it seen = apply_tokens ts it seen"
proof (induction ts arbitrary: it seen)
  case Nil
  then show ?case by (simp add: parse_options.simps tokens_next_Nil)
next
  case (Cons t ts)
  then show ?case
    by (simp add: parse_options.simps [of "spell_tokens (t # ts)"] tokens_next_Cons split: prod.splits sum.splits)
qed

section \<open>Numbers\<close>

lemma digit_value_char: "d < 10 \<Longrightarrow> digit_value (digit_char d) = Some (of_nat d)"
  unfolding digit_value_def find_digit by simp

lemma fraction_three_digits:
  assumes "n < 1000"
  shows "fraction_milliseconds (three_digits n) = Some (of_nat n)"
proof -
  have n: "n = (n div 100 * 10 + n div 10 mod 10) * 10 + n mod 10"
    using div_mult_mod_eq [of n 10] div_mult_mod_eq [of "n div 10" 10] by (simp add: div_mult2_eq [symmetric])
  have "fraction_milliseconds (three_digits n) =
      Some ((of_nat (n div 100) * 10 + of_nat (n div 10 mod 10)) * 10 + of_nat (n mod 10))"
    using assms by (simp add: fraction_milliseconds_def three_digits_def gap_max_decimals_def
        decimal_radix_def digit_value_char upt_rec)
  also have "\<dots> = Some (of_nat ((n div 100 * 10 + n div 10 mod 10) * 10 + n mod 10))" by simp
  finally show ?thesis using n by metis
qed

lemma spell_number_length:
  assumes "unat v < 10 ^ k" and "0 < k"
  shows "length (spell_number v) \<le> k"
proof (rule ccontr)
  assume long: "\<not> length (spell_number v) \<le> k"
  then have "10 ^ k \<le> (10 :: nat) ^ (length (spell_number v) - 1)" by (intro power_increasing) auto
  also have "\<dots> \<le> unat v"
    using digits_value_lower [OF spell_number(1)] long assms(2) by (simp add: spell_number(2))
  finally show False using assms(1) by simp
qed

lemma spell_number_no_point: "extension_mark \<notin> set (spell_number v)"
  using spell_number(1) [of v] by (auto simp: canonical_decimal_def list_all_iff is_digit_def extension_mark_def)

lemma parse_spelled_seconds:
  assumes "unat ms div 1000 < 10 ^ k" and "0 < k"
  shows "parse_milliseconds (spell_seconds ms) k = Some ms"
proof -
  have len: "length (spell_number (ms div 1000)) \<le> k"
    using assms by (intro spell_number_length) (simp_all add: unat_div_distrib)
  have whole: "parse_uint32 (spell_number (ms div 1000)) = Inr (ms div 1000)"
    by (simp add: parse_uint32_spell)
  have "unat (ms div 1000 * 1000 + of_nat (unat ms mod 1000)) = unat ms div 1000 * 1000 + unat ms mod 1000"
    using unat_lt_u32 [of ms] div_mult_mod_eq [of "unat ms" 1000]
    by (simp add: unat_add_exact unat_mult_exact unat_div_distrib)
  then have sum: "ms div 1000 * 1000 + of_nat (unat ms mod 1000) = ms"
    by (simp add: word_unat_eq_iff)
  show ?thesis
  proof (cases "unat ms mod 1000 = 0")
    case True
    then have spelt: "spell_seconds ms = spell_number (ms div 1000)" by (simp add: spell_seconds_def)
    have point: "find_char extension_mark (spell_number (ms div 1000)) = None"
      using spell_number_no_point by simp
    show ?thesis unfolding parse_milliseconds_def Let_def spelt point
      using True len whole sum by (simp add: milliseconds_per_second_def)
  next
    case False
    then have "find_char extension_mark (spell_seconds ms) = Some (length (spell_number (ms div 1000)))"
      using spell_number_no_point by (simp add: spell_seconds_def)
    then show ?thesis using False len whole sum
      by (simp add: parse_milliseconds_def spell_seconds_def Let_def milliseconds_per_second_def
          fraction_three_digits)
  qed
qed

lemma frames_to_milliseconds:
  fixes frames :: u32
  assumes "48 dvd unat frames"
  shows "frames div 48 * 48 = frames"
  using assms unat_lt_u32 [of frames]
  by (simp add: word_unat_eq_iff unat_mult_exact unat_div_distrib)

lemma parse_spelled_gap:
  assumes "unat gap \<le> 3600 * 48000" and "48 dvd unat gap"
  shows "parse_gap (spell_frames gap) = Inr gap"
proof -
  have "unat (gap div 48) \<le> 3600000" using assms by (simp add: unat_div_distrib)
  then have "parse_milliseconds (spell_frames gap) gap_max_whole_digits = Some (gap div 48)"
    unfolding spell_frames_def frames_per_millisecond_def
    by (intro parse_spelled_seconds) (auto simp: gap_max_whole_digits_def)
  then show ?thesis using \<open>unat (gap div 48) \<le> 3600000\<close> frames_to_milliseconds [OF assms(2)]
    by (simp add: parse_gap_def frames_per_millisecond_def max_gap_milliseconds_def max_gap_seconds_def
        milliseconds_per_second_def word_less_nat_alt)
qed

lemma parse_spelled_duration:
  assumes "48000 \<le> unat d" and "unat d \<le> 86400 * 48000" and "48 dvd unat d"
  shows "parse_duration (spell_frames d) = Inr d"
proof -
  have ms: "unat (d div 48) \<le> 86400000" "1000 \<le> unat (d div 48)"
    using assms by (auto simp: unat_div_distrib)
  then have "parse_milliseconds (spell_frames d) duration_max_whole_digits = Some (d div 48)"
    unfolding spell_frames_def frames_per_millisecond_def
    by (intro parse_spelled_seconds) (auto simp: duration_max_whole_digits_def)
  then show ?thesis using ms frames_to_milliseconds [OF assms(3)]
    by (simp add: parse_duration_def frames_per_millisecond_def min_duration_seconds_def
        max_duration_seconds_def milliseconds_per_second_def word_less_nat_alt)
qed

lemma parse_spelled_attenuation:
  assumes "tenths_ok t"
  shows "attenuation_parse (spell_attenuation t) = Inr t"
proof -
  let ?v = "tenths_value t"
  have v: "unat ?v \<le> 400" using assms by (simp add: tenths_ok_def max_tenths_def word_le_nat_alt)
  have w: "unat (?v div 10) = unat ?v div 10" by (simp add: unat_div_distrib)
  have "magnitude_tenths (drop 1 (spell_attenuation t)) (?v div 10) (of_nat (unat ?v mod 10))"
    unfolding magnitude_tenths_def using v
    by (intro exI [of _ "spell_number (?v div 10)"] exI [of _ "unat ?v mod 10"])
      (simp add: spell_attenuation_def spell_number spell_number_length w)
  moreover have "?v div 10 * tenths_per_db + of_nat (unat ?v mod 10) = ?v"
    using v w attenuation_tenths [of "?v div 10" "of_nat (unat ?v mod 10)"] by (simp add: word_unat_eq_iff)
  then have "t = Tenths (?v div 10 * tenths_per_db + of_nat (unat ?v mod 10))" by simp
  moreover have "starts_with (spell_attenuation t) ''-''"
    by (simp add: starts_with_def spell_attenuation_def)
  ultimately show ?thesis unfolding attenuation_parse_cases using assms by auto
qed

section \<open>Every token of a line is one\<close>

abbreviation token_chars :: "string \<Rightarrow> bool" where
  "token_chars t \<equiv> list_all (char_between CHR ''!'' CHR ''~'') t"

lemma name_token_chars: "list_all is_name_char t \<Longrightarrow> token_chars t"
  by (auto simp: list_all_iff is_name_char_def char_between_def)

lemma label_token_chars: "list_all is_label_char t \<Longrightarrow> token_chars t"
  by (auto simp: list_all_iff is_label_char_def is_name_char_def char_between_def extension_mark_def)

lemma number_token_chars: "token_chars (spell_number v)"
  using spell_number(1) [of v]
  by (auto simp: canonical_decimal_def list_all_iff is_digit_def char_between_def)

lemma digit_token_char: "d < 10 \<Longrightarrow> char_between CHR ''!'' CHR ''~'' (digit_char d)"
  using digit_char(1) [of d] by (simp add: is_digit_def char_between_def)

lemma mark_token_chars [simp]:
  "char_between CHR ''!'' CHR ''~'' extension_mark" "char_between CHR ''!'' CHR ''~'' entry_separator"
  "char_between CHR ''!'' CHR ''~'' field_separator"
  by (simp_all add: char_between_def extension_mark_def entry_separator_def field_separator_def)

lemma seconds_token_chars: "token_chars (spell_seconds ms)"
proof -
  have "unat ms mod 1000 div 100 < 10" by (rule less_mult_imp_div_less) simp
  then show ?thesis
    using number_token_chars [of "ms div 1000"]
    by (simp add: spell_seconds_def three_digits_def digit_token_char)
qed

lemma entry_token_chars: "token_chars (spell_entry e)"
proof -
  have "token_chars (spell_kind (kind e))"
    by (simp add: spell_kind_def drop_name_def zero_name_def char_between_def split: cut_kind.splits)
  then show ?thesis using number_token_chars by (simp add: spell_entry_def)
qed

lemma entries_token_chars: "token_chars (spell_entries es)"
  by (induction es rule: spell_entries.induct) (simp_all add: entry_token_chars)

lemma attenuation_token_chars: "token_chars (spell_attenuation t)"
  using number_token_chars digit_token_char by (simp add: spell_attenuation_def char_between_def)

lemma short_name_token:
  assumes "is_short_name t ext" and "list_all is_name_char ext"
  shows "token_ok t"
proof -
  obtain dot where dot: "find_char extension_mark t = Some dot" and stem: "is_name_stem (take dot t)"
    and ext: "drop (Suc dot) t = ext"
    using assms(1) by (auto simp: is_short_name_def split: option.splits)
  have t: "t = take dot t @ extension_mark # ext"
    using find_char_split(1) [OF dot] ext by simp
  have chars: "token_chars (take dot t)" "token_chars ext"
    using stem assms(2) name_token_chars by (auto simp: is_name_stem_def)
  obtain c cs where c: "take dot t = c # cs" "is_name_char c"
    using stem by (cases "take dot t") (auto simp: is_name_stem_def)
  have "token_chars t" by (subst t) (use chars in \<open>simp add: extension_mark_def char_between_def\<close>)
  moreover have "hd t = c" "t \<noteq> []" using t c by (metis append_Cons list.sel(1), auto)
  moreover have "c \<noteq> comment_mark"
    using c(2) by (auto simp: is_name_char_def comment_mark_def char_between_def)
  ultimately show ?thesis by (simp add: token_ok_def)
qed

lemma extension_chars: "list_all is_name_char wav_extension" "list_all is_name_char scenario_extension"
  by (simp_all add: wav_extension_def scenario_extension_def is_name_char_def char_between_def)

lemma frames_token: "token_ok (spell_frames f)"
proof -
  let ?n = "spell_number (f div frames_per_millisecond div 1000)"
  obtain c cs where c: "?n = c # cs" "is_digit c"
    using spell_number(1) [of "f div frames_per_millisecond div 1000"]
    by (cases ?n) (auto simp: canonical_decimal_def)
  then have "hd (spell_frames f) = c" "spell_frames f \<noteq> []"
    by (simp_all add: spell_frames_def spell_seconds_def)
  moreover have "c \<noteq> comment_mark" using c(2) by (auto simp: is_digit_def comment_mark_def)
  ultimately show ?thesis using seconds_token_chars by (simp add: token_ok_def spell_frames_def)
qed

lemmas key_defs = label_key_def scenario_key_def seed_key_def cut_key_def attenuation_key_def duration_key_def

lemma option_tokens_ok:
  assumes "item_ok it"
  shows "list_all token_ok (option_tokens it)"
proof -
  have keyed: "token_ok (key @ v)"
    if "key \<in> {label_key, scenario_key, seed_key, cut_key, attenuation_key, duration_key}" "token_chars v" for key v
    using that by (auto simp: token_ok_def key_defs comment_mark_def char_between_def)
  have "token_chars (item_label it)" "token_chars (item_scenario it)"
    using assms label_token_chars short_name_token [OF _ extension_chars(2)]
    by (auto simp: item_ok_def token_ok_def)
  then show ?thesis
    using number_token_chars entries_token_chars attenuation_token_chars seconds_token_chars
    by (auto simp: option_tokens_def label_token_def scenario_token_def seed_token_def cut_token_def
        attenuation_token_def duration_token_def spell_frames_def intro!: keyed split: option.splits)
qed

section \<open>The options build the item\<close>

lemmas option_defs = parse_option_def option_rules_def option_value_def key_defs starts_with_def

lemma parse_option_keys:
  "parse_option (label_key @ v) it [a, b, c, d, e, f] =
     (if \<not> a then parse_label v it else Inl playlist_syntax, [True, b, c, d, e, f])"
  "parse_option (scenario_key @ v) it [a, b, c, d, e, f] =
     (if \<not> b then parse_scenario v it else Inl playlist_syntax, [a, True, c, d, e, f])"
  "parse_option (seed_key @ v) it [a, b, c, d, e, f] =
     (if \<not> c then parse_seed v it else Inl playlist_syntax, [a, b, True, d, e, f])"
  "parse_option (cut_key @ v) it [a, b, c, d, e, f] =
     (if \<not> d then parse_cuts v it else Inl playlist_syntax, [a, b, c, True, e, f])"
  "parse_option (attenuation_key @ v) it [a, b, c, d, e, f] =
     (if \<not> e then parse_attenuation v it else Inl playlist_syntax, [a, b, c, d, True, f])"
  "parse_option (duration_key @ v) it [a, b, c, d, e, f] =
     (if \<not> f then parse_item_duration v it else Inl playlist_syntax, [a, b, c, d, e, True])"
  by (simp_all add: option_defs)

text \<open>An absent option leaves the field at the value the item starts with.\<close>

lemma unchanged_fields:
  "item_label base = l \<Longrightarrow> base\<lparr>item_label := l\<rparr> = base"
  "item_scenario base = n \<Longrightarrow> base\<lparr>item_scenario := n\<rparr> = base"
  "item_seed base = s \<Longrightarrow> base\<lparr>item_seed := s\<rparr> = base"
  "item_cuts base = cs \<Longrightarrow> base\<lparr>item_cuts := cs\<rparr> = base"
  "item_attenuation base = t \<Longrightarrow> base\<lparr>item_attenuation := t\<rparr> = base"
  "item_duration base = d \<Longrightarrow> base\<lparr>item_duration := d\<rparr> = base"
  by auto

lemma apply_label:
  assumes "item_ok it" and "item_label base = []"
  shows "\<exists>a. apply_tokens (label_token it @ ts) base [False, b, c, d, e, f] =
    apply_tokens ts (base\<lparr>item_label := item_label it\<rparr>) [a, b, c, d, e, f]"
proof (cases "item_label it = []")
  case True
  then show ?thesis using unchanged_fields(1) [OF assms(2)] by (simp add: label_token_def) blast
next
  case False
  then have "parse_label (item_label it) base = Inr (base\<lparr>item_label := item_label it\<rparr>)"
    using assms(1) by (simp add: parse_label_def item_ok_def label_max_chars_def fixed_text_from_def not_less)
  then show ?thesis using False by (intro exI [of _ True]) (simp add: label_token_def parse_option_keys)
qed

lemma apply_scenario:
  assumes "item_ok it" and "item_scenario base = []"
  shows "\<exists>b. apply_tokens (scenario_token it @ ts) base [a, False, c, d, e, f] =
    apply_tokens ts (base\<lparr>item_scenario := item_scenario it\<rparr>) [a, b, c, d, e, f]"
proof (cases "item_scenario it = []")
  case True
  then show ?thesis using unchanged_fields(2) [OF assms(2)] by (simp add: scenario_token_def) blast
next
  case False
  then have name: "is_short_name (item_scenario it) scenario_extension"
    using assms(1) by (simp add: item_ok_def)
  then have "parse_scenario (item_scenario it) base = Inr (base\<lparr>item_scenario := item_scenario it\<rparr>)"
    by (simp add: parse_scenario_def short_name_kept [OF name])
  then show ?thesis using False by (intro exI [of _ True]) (simp add: scenario_token_def parse_option_keys)
qed

lemma apply_seed:
  assumes "item_seed base = None"
  shows "\<exists>c. apply_tokens (seed_token it @ ts) base [a, b, False, d, e, f] =
    apply_tokens ts (base\<lparr>item_seed := item_seed it\<rparr>) [a, b, c, d, e, f]"
proof (cases "item_seed it")
  case None
  then show ?thesis using unchanged_fields(3) [OF assms] by (simp add: seed_token_def) blast
next
  case (Some v)
  then have "parse_seed (spell_number v) base = Inr (base\<lparr>item_seed := item_seed it\<rparr>)"
    by (simp add: parse_seed_def parse_uint32_spell [THEN iffD2])
  then show ?thesis using Some by (intro exI [of _ True]) (simp add: seed_token_def parse_option_keys)
qed

lemma parse_spelled_entries:
  "es \<noteq> [] \<Longrightarrow> length es \<le> max_entries \<Longrightarrow> parse_entries (spell_entries es) = Inr es"
  unfolding parse_entries_def by (subst parse_entries_from_spell) (auto simp: max_entries_def)

lemma apply_cuts:
  assumes "item_ok it" and "item_cuts base = []"
  shows "\<exists>d. apply_tokens (cut_token it @ ts) base [a, b, c, False, e, f] =
    apply_tokens ts (base\<lparr>item_cuts := item_cuts it\<rparr>) [a, b, c, d, e, f]"
proof (cases "item_cuts it = []")
  case True
  then show ?thesis using unchanged_fields(4) [OF assms(2)] by (simp add: cut_token_def) blast
next
  case False
  then have "parse_entries (spell_entries (item_cuts it)) = Inr (item_cuts it)"
    using assms(1) by (simp add: parse_spelled_entries item_ok_def)
  moreover have "validate (item_cuts it) = Inr (item_cuts it)"
    using assms(1) by (simp add: item_ok_def validate_accepts)
  ultimately have "parse_cuts (spell_entries (item_cuts it)) base = Inr (base\<lparr>item_cuts := item_cuts it\<rparr>)"
    by (simp add: parse_cuts_def)
  then show ?thesis using False by (intro exI [of _ True]) (simp add: cut_token_def parse_option_keys)
qed

lemma apply_attenuation:
  assumes "item_ok it" and "item_attenuation base = no_attenuation"
  shows "\<exists>e. apply_tokens (attenuation_token it @ ts) base [a, b, c, d, False, f] =
    apply_tokens ts (base\<lparr>item_attenuation := item_attenuation it\<rparr>) [a, b, c, d, e, f]"
proof (cases "item_attenuation it = no_attenuation")
  case True
  then show ?thesis using unchanged_fields(5) [OF assms(2)] by (simp add: attenuation_token_def) blast
next
  case False
  then have "parse_attenuation (spell_attenuation (item_attenuation it)) base =
      Inr (base\<lparr>item_attenuation := item_attenuation it\<rparr>)"
    using assms(1) by (simp add: parse_attenuation_def item_ok_def parse_spelled_attenuation)
  then show ?thesis using False by (intro exI [of _ True]) (simp add: attenuation_token_def parse_option_keys)
qed

lemma apply_duration:
  assumes "item_ok it" and "item_duration base = None"
  shows "\<exists>f. apply_tokens (duration_token it @ ts) base [a, b, c, d, e, False] =
    apply_tokens ts (base\<lparr>item_duration := item_duration it\<rparr>) [a, b, c, d, e, f]"
proof (cases "item_duration it")
  case None
  then show ?thesis using unchanged_fields(6) [OF assms(2)] by (simp add: duration_token_def) blast
next
  case (Some v)
  then have "parse_item_duration (spell_frames v) base = Inr (base\<lparr>item_duration := item_duration it\<rparr>)"
    using assms(1) by (simp add: parse_item_duration_def item_ok_def parse_spelled_duration)
  then show ?thesis using Some by (intro exI [of _ True]) (simp add: duration_token_def parse_option_keys)
qed

definition base_item :: "item \<Rightarrow> item" where
  "base_item it = (fresh_item (item_line it))\<lparr>item_file := item_file it, item_gap := item_gap it,
     item_route := item_route it\<rparr>"

lemma apply_option_tokens:
  assumes ok: "item_ok it" and "scenario_crc32 it = 0"
  shows "apply_tokens (option_tokens it) (base_item it) [False, False, False, False, False, False] = Inr it"
proof -
  define i1 where "i1 = (base_item it)\<lparr>item_label := item_label it\<rparr>"
  define i2 where "i2 = i1\<lparr>item_scenario := item_scenario it\<rparr>"
  define i3 where "i3 = i2\<lparr>item_seed := item_seed it\<rparr>"
  define i4 where "i4 = i3\<lparr>item_cuts := item_cuts it\<rparr>"
  define i5 where "i5 = i4\<lparr>item_attenuation := item_attenuation it\<rparr>"
  define i6 where "i6 = i5\<lparr>item_duration := item_duration it\<rparr>"
  note defs = i1_def i2_def i3_def i4_def i5_def base_item_def fresh_item_def
  have fresh: "item_label (base_item it) = []" "item_scenario i1 = []" "item_seed i2 = None"
    "item_cuts i3 = []" "item_attenuation i4 = no_attenuation" "item_duration i5 = None"
    by (simp_all add: defs)
  let ?ts5 = "duration_token it" let ?ts4 = "attenuation_token it @ ?ts5" let ?ts3 = "cut_token it @ ?ts4"
  let ?ts2 = "seed_token it @ ?ts3" let ?ts1 = "scenario_token it @ ?ts2"
  obtain a where 1: "apply_tokens (option_tokens it) (base_item it) [False, False, False, False, False, False] =
      apply_tokens ?ts1 i1 [a, False, False, False, False, False]"
    unfolding option_tokens_def i1_def using apply_label [OF ok fresh(1)] by blast
  obtain b where 2: "apply_tokens ?ts1 i1 [a, False, False, False, False, False] =
      apply_tokens ?ts2 i2 [a, b, False, False, False, False]"
    unfolding i2_def using apply_scenario [OF ok fresh(2)] by blast
  obtain c where 3: "apply_tokens ?ts2 i2 [a, b, False, False, False, False] =
      apply_tokens ?ts3 i3 [a, b, c, False, False, False]"
    unfolding i3_def using apply_seed [OF fresh(3)] by blast
  obtain d where 4: "apply_tokens ?ts3 i3 [a, b, c, False, False, False] =
      apply_tokens ?ts4 i4 [a, b, c, d, False, False]"
    unfolding i4_def using apply_cuts [OF ok fresh(4)] by blast
  obtain e where 5: "apply_tokens ?ts4 i4 [a, b, c, d, False, False] =
      apply_tokens ?ts5 i5 [a, b, c, d, e, False]"
    unfolding i5_def using apply_attenuation [OF ok fresh(5)] by blast
  have 6: "apply_tokens ?ts5 i5 [a, b, c, d, e, False] = Inr i6"
    unfolding i6_def using apply_duration [OF ok fresh(6), of "[]"] by auto
  have "apply_tokens (option_tokens it) (base_item it) [False, False, False, False, False, False] = Inr i6"
    unfolding 1 2 3 4 5 6 ..
  moreover have "i6 = it" using assms(2) by (simp add: defs i6_def)
  ultimately show ?thesis by simp
qed

lemma spelled_line_chars:
  assumes "list_all token_ok ts"
  shows "list_all is_line_char (spell_tokens ts)"
  using assms token_char_line
  by (induction ts) (auto simp: spell_tokens_def token_ok_def list_all_iff is_line_char_def char_between_def)

text \<open>C33. The grammar of a playlist line has a line for every item: the canonical line of a
  well-formed item, its options spelt in the order of the rules, parses to exactly that item on
  every image that offers its route.\<close>

theorem parse_line_spelled:
  assumes "item_ok it" and "scenario_crc32 it = 0" and "item_route it = Usb \<longrightarrow> usb_offered offered"
  shows "parse_line (spell_item it) (item_line it) offered = Inr (Some it)"
proof -
  let ?gap = "spell_frames (item_gap it)" and ?route = "spell_route (item_route it)"
  have name: "is_short_name (item_file it) wav_extension" using assms(1) by (simp add: item_ok_def)
  have tokens: "token_ok (item_file it)" "token_ok ?gap" "token_ok ?route"
    using short_name_token [OF name extension_chars(1)] frames_token
    by (auto simp: spell_route_def codec_route_name_def usb_route_name_def token_ok_def comment_mark_def
        char_between_def split: route.splits)
  have options: "list_all token_ok (option_tokens it)" by (rule option_tokens_ok [OF assms(1)])
  have "list_all is_line_char (spell_item it)"
    using tokens options token_char_line spelled_line_chars [of "?gap # ?route # option_tokens it"]
    by (auto simp: spell_item_def list_all_iff token_ok_def)
  moreover have "parse_fields (item_file it) ?gap ?route offered (fresh_item (item_line it)) = Inr (base_item it)"
    using name assms(1,3)
    by (auto simp: parse_fields_def parse_spelled_gap item_ok_def parse_route_def spell_route_def
        codec_route_name_def usb_route_name_def short_name_kept base_item_def split: route.splits)
  moreover have "replicate (length option_rules) False = [False, False, False, False, False, False]"
    by (simp add: option_rules_def)
  moreover have "item_seed it = None \<or> item_scenario it \<noteq> []"
    using assms(1) by (auto simp: item_ok_def)
  ultimately show ?thesis
    using tokens
    by (simp add: parse_line_def spell_item_def tokens_next_first tokens_next_Cons parse_options_spelled [OF options]
        apply_option_tokens [OF assms(1,2)])
qed

text \<open>The worked example of \<^verbatim>\<open>rules_hold()\<close>, as an item.\<close>

definition full_item :: item where
  "full_item = \<lparr>item_file = ''C24L05.WAV'', item_gap = 252000, item_route = Usb, item_label = ''c24-l05'',
     item_scenario = ''FADE.SCN'', item_seed = Some 7,
     item_cuts = [\<lparr>offset = 0, entry_length = 4800, kind = Zero\<rparr>, \<lparr>offset = 9600, entry_length = 1, kind = Drop\<rparr>],
     item_attenuation = Tenths 205, item_duration = Some 2904000, item_line = 3, scenario_crc32 = 0\<rparr>"

lemma full_item_ok: "item_ok full_item"
proof -
  have "validate (item_cuts full_item) = Inr (item_cuts full_item)" by code_simp
  then have "schedule_ok (item_cuts full_item)" by (simp add: validate_accepts)
  moreover have "is_short_name (item_file full_item) wav_extension \<and>
      is_short_name (item_scenario full_item) scenario_extension \<and>
      list_all is_label_char (item_label full_item)"
    by code_simp
  ultimately show ?thesis
    by (simp add: item_ok_def full_item_def max_entries_def tenths_ok_def max_tenths_def)
qed

theorem parse_line_spelled_witness:
  "parse_line (spell_item full_item) 3 \<lparr>usb_offered = True\<rparr> = Inr (Some full_item)"
  using parse_line_spelled [OF full_item_ok, of "\<lparr>usb_offered = True\<rparr>"] by (simp add: full_item_def)

end
