(* ===== verification/Ring.thy ===== *)
theory Ring
  imports Prelude
begin

text \<open>
  What the program's rings share. A ring is a fixed array, the place of its oldest element
  and their number; its contents are the list of them, oldest first. The interface
  \<open>bounded_queue\<close> is what a client of such a ring relies on: nothing is accepted past the
  capacity, and whatever the order of its calls, what it takes out is what it put in, in
  order, with nothing lost, doubled or made up. A queue may mark what it stores, as a ring that
  numbers its blocks does.
\<close>

section \<open>Circular arrays\<close>

definition ring_contents :: "'a list \<Rightarrow> nat \<Rightarrow> nat \<Rightarrow> 'a list" where
  "ring_contents slots oldest n = map (\<lambda>i. slots ! ((oldest + i) mod length slots)) [0..<n]"

lemma length_ring_contents [simp]: "length (ring_contents slots oldest n) = n"
  by (simp add: ring_contents_def)

lemma ring_contents_0 [simp]: "ring_contents slots oldest 0 = []"
  by (simp add: ring_contents_def)

lemma nth_ring_contents: "i < n \<Longrightarrow> ring_contents slots oldest n ! i = slots ! ((oldest + i) mod length slots)"
  by (simp add: ring_contents_def)

lemma ring_places_distinct:
  assumes "i < N" and "j < N" and "(a + i) mod N = (a + j) mod (N :: nat)"
  shows "i = j"
proof -
  have le: "m = n" if "m \<le> n" "n < N" "(a + m) mod N = (a + n) mod N" for m n
    using that mod_eq_dvd_iff_nat [of "a + m" "a + n" N] dvd_imp_le [of N "n - m"]
    by (cases "m = n") (auto dest: sym)
  show ?thesis using le [of i j] le [of j i] assms by (cases "i \<le> j") auto
qed

lemma ring_contents_put:
  assumes "n < length slots"
  shows "ring_contents (slots[(oldest + n) mod length slots := x]) oldest (Suc n) =
    ring_contents slots oldest n @ [x]"
proof (rule nth_equalityI)
  show "length (ring_contents (slots[(oldest + n) mod length slots := x]) oldest (Suc n)) =
      length (ring_contents slots oldest n @ [x])" by simp
  fix i assume i: "i < length (ring_contents (slots[(oldest + n) mod length slots := x]) oldest (Suc n))"
  have place: "(oldest + n) mod length slots < length slots" using assms by (intro mod_less_divisor) linarith
  show "ring_contents (slots[(oldest + n) mod length slots := x]) oldest (Suc n) ! i =
      (ring_contents slots oldest n @ [x]) ! i"
  proof (cases "i < n")
    case True
    then have "(oldest + i) mod length slots \<noteq> (oldest + n) mod length slots"
      using ring_places_distinct [of i "length slots" n oldest] assms by auto
    then show ?thesis using True by (simp add: nth_ring_contents nth_append)
  next
    case False
    then have "i = n" using i by simp
    then show ?thesis using place by (simp add: nth_ring_contents nth_append)
  qed
qed

lemma ring_contents_take:
  "ring_contents slots oldest (Suc n) =
     slots ! (oldest mod length slots) # ring_contents slots ((oldest + 1) mod length slots) n"
proof -
  have "[0..<Suc n] = 0 # map Suc [0..<n]" by (simp add: map_Suc_upt upt_conv_Cons del: upt_Suc)
  then show ?thesis by (simp add: ring_contents_def mod_add_left_eq del: upt_Suc)
qed

section \<open>Bounded queues\<close>

datatype 'a queue_op = Put 'a | Take

locale bounded_queue =
  fixes contents :: "'s \<Rightarrow> 'a list"
    and well :: "'s \<Rightarrow> bool"
    and capacity :: nat
    and stored :: "'s \<Rightarrow> 'a \<Rightarrow> 'a"
    and put :: "'s \<Rightarrow> 'a \<Rightarrow> 's option"
    and take_oldest :: "'s \<Rightarrow> ('a \<times> 's) option"
  assumes contents_bound: "well s \<Longrightarrow> length (contents s) \<le> capacity"
    and put_full: "well s \<Longrightarrow> length (contents s) = capacity \<Longrightarrow> put s x = None"
    and put_room: "well s \<Longrightarrow> length (contents s) < capacity \<Longrightarrow>
      \<exists>s'. put s x = Some s' \<and> well s' \<and> contents s' = contents s @ [stored s x]"
    and take_none: "well s \<Longrightarrow> contents s = [] \<Longrightarrow> take_oldest s = None"
    and take_some: "well s \<Longrightarrow> contents s = x # xs \<Longrightarrow>
      \<exists>s'. take_oldest s = Some (x, s') \<and> well s' \<and> contents s' = xs"
begin

text \<open>A client's calls, with what the queue accepted and what it delivered.\<close>

fun serve :: "'a queue_op list \<Rightarrow> 's \<Rightarrow> 's \<times> 'a list \<times> 'a list" where
  "serve [] s = (s, [], [])"
| "serve (Put x # ops) s =
     (case put s x of
        None \<Rightarrow> serve ops s
      | Some s' \<Rightarrow> (case serve ops s' of (t, accepted, delivered) \<Rightarrow> (t, stored s x # accepted, delivered)))"
| "serve (Take # ops) s =
     (case take_oldest s of
        None \<Rightarrow> serve ops s
      | Some (x, s') \<Rightarrow> (case serve ops s' of (t, accepted, delivered) \<Rightarrow> (t, accepted, x # delivered)))"

lemma put_cases:
  assumes "well s"
  shows "put s x = None \<or> (\<exists>s'. put s x = Some s' \<and> well s' \<and> contents s' = contents s @ [stored s x])"
  using put_full [OF assms] put_room [OF assms] contents_bound [OF assms] by (meson le_neq_implies_less)

lemma take_cases:
  assumes "well s"
  shows "take_oldest s = None \<or> (\<exists>x s'. take_oldest s = Some (x, s') \<and> well s' \<and> contents s = x # contents s')"
  using take_none [OF assms] take_some [OF assms] by (cases "contents s") auto

lemma in_order:
  "well s \<Longrightarrow> serve ops s = (t, accepted, delivered) \<Longrightarrow>
     well t \<and> contents s @ accepted = delivered @ contents t"
proof (induction ops s arbitrary: t accepted delivered rule: serve.induct)
  case (1 s)
  then show ?case by simp
next
  case (2 x ops s)
  then show ?case using put_cases [of s x] by (fastforce split: option.splits prod.splits)
next
  case (3 ops s)
  then show ?case using take_cases [of s] by (fastforce split: option.splits prod.splits)
qed

lemma delivered_prefix:
  assumes "well s" and "contents s = []" and "serve ops s = (t, accepted, delivered)"
  shows "accepted = delivered @ contents t" and "length accepted \<le> length delivered + capacity"
proof -
  have t: "well t \<and> contents s @ accepted = delivered @ contents t" by (rule in_order [OF assms(1,3)])
  then show "accepted = delivered @ contents t" using assms(2) by simp
  then show "length accepted \<le> length delivered + capacity" using contents_bound [of t] t by simp
qed

end

end
