(* ===== verification/ResultRing.thy ===== *)
theory ResultRing
  imports Playlist Ring
begin

text \<open>
  \<^verbatim>\<open>common/playlist.hpp\<close>, second part: how an item ended, the result block the player
  keeps of it, and \<^verbatim>\<open>ResultRing\<close>, the blocks the host has not acknowledged. The ring is
  a \<open>bounded_queue\<close>; its numbers make an acknowledgement free exactly the blocks it names.
\<close>

section \<open>Outcomes and causes\<close>

datatype outcome = Outcome_done | Outcome_aborted | Outcome_error

definition outcome_name :: "outcome \<Rightarrow> string" where
  "outcome_name out =
     (case out of Outcome_done \<Rightarrow> ''done'' | Outcome_aborted \<Rightarrow> ''aborted'' | Outcome_error \<Rightarrow> ''error'')"

definition route_name :: "route \<Rightarrow> string" where
  "route_name r = (if r = Usb then ''usb'' else ''codec'')"

datatype end_cause =
  Cause_end | Cause_stop | Cause_underrun | Cause_missed_interval | Cause_stream_closed | Cause_stall
| Cause_sd_read | Cause_usb_assert | Cause_deadline_miss | Cause_no_stream | Cause_fault

definition end_cause_number :: "end_cause \<Rightarrow> nat" where
  "end_cause_number c = (case c of Cause_end \<Rightarrow> 0 | Cause_stop \<Rightarrow> 1 | Cause_underrun \<Rightarrow> 2
     | Cause_missed_interval \<Rightarrow> 3 | Cause_stream_closed \<Rightarrow> 4 | Cause_stall \<Rightarrow> 5 | Cause_sd_read \<Rightarrow> 6
     | Cause_usb_assert \<Rightarrow> 7 | Cause_deadline_miss \<Rightarrow> 8 | Cause_no_stream \<Rightarrow> 9 | Cause_fault \<Rightarrow> 10)"

definition end_cause_names :: "string list" where
  "end_cause_names = [''end'', ''stop'', ''underrun'', ''missed_interval'', ''stream_closed'', ''stall'',
     ''sd_read'', ''usb_assert'', ''deadline_miss'', ''no_stream'', ''fault'']"

definition end_cause_name :: "end_cause \<Rightarrow> string" where
  "end_cause_name c =
     (let index = end_cause_number c in
      if index < length end_cause_names then end_cause_names ! index else last end_cause_names)"

section \<open>Result blocks\<close>

record watterson_identity =
  wi_version :: u32
  wi_digest_hi :: u32
  wi_digest_lo :: u32
  wi_latency_frames :: u32
  wi_paths :: u32

text \<open>The \<^verbatim>\<open>double\<close> of a second source's identity is only copied: its 64 bits.\<close>

record secondary_source_identity =
  ss_version :: u32
  ss_source_frames :: u32
  ss_excerpt_start_frame :: u32
  ss_excerpt_frames :: u32
  ss_digest_hi :: u32
  ss_digest_lo :: u32
  ss_latency_frames :: u32
  ss_reference_rms :: u64

record play_record =
  file_frames_total :: u32
  usb_file_frames :: u32
  play_sent_frames :: u32
  crc32_left :: u32
  crc32_right :: u32
  first_frame_index :: u32
  last_frame_index :: u32
  first_frame_sof :: u32
  missed_intervals :: u32
  first_miss_frame_index :: u32
  stream_bits :: u32
  stream_channels :: u32
  cut_count :: u32
  cut_drop_frames :: u32
  cut_zero_frames :: u32
  cut_first_index :: u32
  cut_rejected :: u32
  underruns :: u32
  pcm_drained :: u32
  engine_state :: u32
  engine_error :: u32
  deadline_misses :: u32
  watterson :: watterson_identity
  secondary_source :: secondary_source_identity
  engine_digest_hi :: u32
  engine_digest_lo :: u32

record result_block =
  seq :: u32
  run :: u32
  block_item :: u32
  block_label :: string
  block_file :: string
  block_route :: route
  block_outcome :: outcome
  block_player_error :: u32
  block_scenario :: string
  block_seed :: "u32 option"
  block_scenario_crc32 :: u32
  play :: play_record
  block_gap :: gap_frames
  scheduled_index :: "u32 option"
  start_tick :: u32
  end_tick :: u32
  block_attenuation :: tenths
  block_duration :: "duration_frames option"
  loops :: u32
  block_end_cause :: end_cause

definition start_late :: "result_block \<Rightarrow> bool" where
  "start_late b \<longleftrightarrow>
     (case scheduled_index b of
        None \<Rightarrow> False
      | Some i \<Rightarrow> play_sent_frames (play b) \<noteq> 0 \<and> first_frame_index (play b) \<noteq> i)"

section \<open>The ring\<close>

definition result_capacity :: nat where "result_capacity = 32"
definition blocks_per_reply :: nat where "blocks_per_reply = 2"
definition first_seq :: u32 where "first_seq = 1"

definition ack_range :: status where
  [status_defs]: "ack_range = \<lparr>code = Invalid_argument, message = ''PLAYLIST_ACK_RANGE''\<rparr>"
definition ring_full :: status where
  [status_defs]: "ring_full = \<lparr>code = Buffer_too_small, message = ''PLAYLIST_RING_FULL''\<rparr>"

record result_ring =
  slots :: "result_block list"
  ring_first :: nat
  ring_count :: nat
  next_seq :: u32

definition is_full :: "result_ring \<Rightarrow> bool" where
  "is_full r \<longleftrightarrow> ring_count r = length (slots r)"

definition ring_clear :: "result_ring \<Rightarrow> result_ring" where
  "ring_clear r = r\<lparr>ring_first := 0, ring_count := 0, next_seq := first_seq\<rparr>"

definition ring_push :: "result_ring \<Rightarrow> result_block \<Rightarrow> result_ring \<times> status" where
  "ring_push r b =
     (if is_full r then (r, ring_full)
      else
        (r\<lparr>slots := (slots r)[(ring_first r + ring_count r) mod length (slots r) := b\<lparr>seq := next_seq r\<rparr>],
           next_seq := next_seq r + 1, ring_count := ring_count r + 1\<rparr>, success))"

text \<open>One turn of the loop of \<^verbatim>\<open>acknowledge()\<close>, and the loop.\<close>

definition ring_drop_oldest :: "result_ring \<Rightarrow> result_ring" where
  "ring_drop_oldest r =
     r\<lparr>ring_first := (ring_first r + 1) mod length (slots r), ring_count := ring_count r - 1\<rparr>"

function ring_free :: "u32 \<Rightarrow> u32 \<Rightarrow> result_ring \<Rightarrow> result_ring \<times> u32" where
  "ring_free through freed r =
     (if ring_count r \<noteq> 0 \<and> seq (slots r ! ring_first r) \<le> through
      then ring_free through (freed + 1) (ring_drop_oldest r) else (r, freed))"
  by pat_completeness auto
termination
  by (relation "measure (\<lambda>(through, freed, r). ring_count r)") (simp_all add: ring_drop_oldest_def)

declare ring_free.simps [simp del]

definition acknowledge :: "result_ring \<Rightarrow> u32 \<Rightarrow> result_ring \<times> u32 result" where
  "acknowledge r through =
     (if through \<ge> next_seq r then (r, Inl ack_range)
      else case ring_free through 0 r of (r', freed) \<Rightarrow> (r', Inr freed))"

definition copy_oldest :: "result_ring \<Rightarrow> nat \<Rightarrow> result_block list" where
  "copy_oldest r room =
     (let copied = min room (ring_count r) in
      map (\<lambda>index. slots r ! ((ring_first r + index) mod length (slots r))) [0..<copied])"

definition oldest_seq :: "result_ring \<Rightarrow> u32" where
  "oldest_seq r = (if ring_count r = 0 then 0 else seq (slots r ! ring_first r))"

section \<open>The ring is a queue of numbered blocks\<close>

definition blocks_of :: "result_ring \<Rightarrow> result_block list" where
  "blocks_of r = ring_contents (slots r) (ring_first r) (ring_count r)"

text \<open>The shape of the ring, and its numbers: consecutive, the newest just below the next.\<close>

definition ring_shape :: "result_ring \<Rightarrow> bool" where
  "ring_shape r \<longleftrightarrow>
     length (slots r) = result_capacity \<and> ring_first r < result_capacity \<and> ring_count r \<le> result_capacity"

definition ring_numbered :: "result_ring \<Rightarrow> bool" where
  "ring_numbered r \<longleftrightarrow> ring_count r < unat (next_seq r) \<and>
     (\<forall>i < ring_count r. unat (seq (blocks_of r ! i)) + ring_count r = unat (next_seq r) + i)"

lemma length_blocks_of [simp]: "length (blocks_of r) = ring_count r"
  by (simp add: blocks_of_def)

lemma ring_push_room:
  assumes "ring_shape r" and "\<not> is_full r"
  shows "snd (ring_push r b) = success" and "ring_shape (fst (ring_push r b))"
    and "blocks_of (fst (ring_push r b)) = blocks_of r @ [b\<lparr>seq := next_seq r\<rparr>]"
    and "next_seq (fst (ring_push r b)) = next_seq r + 1"
    and "ring_count (fst (ring_push r b)) = Suc (ring_count r)"
  using assms ring_contents_put [of "ring_count r" "slots r" "ring_first r" "b\<lparr>seq := next_seq r\<rparr>"]
  by (auto simp: ring_push_def ring_shape_def is_full_def blocks_of_def)

lemma ring_drop_blocks:
  assumes "ring_shape r" and "ring_count r \<noteq> 0"
  shows "ring_shape (ring_drop_oldest r)" and "blocks_of r = slots r ! ring_first r # blocks_of (ring_drop_oldest r)"
proof -
  obtain n where n: "ring_count r = Suc n" using assms(2) by (cases "ring_count r") auto
  show "ring_shape (ring_drop_oldest r)"
    using assms by (auto simp: ring_shape_def ring_drop_oldest_def result_capacity_def)
  show "blocks_of r = slots r ! ring_first r # blocks_of (ring_drop_oldest r)"
    using assms(1) ring_contents_take [of "slots r" "ring_first r" n]
    by (simp add: blocks_of_def ring_drop_oldest_def ring_shape_def n)
qed

lemma ring_oldest: "ring_shape r \<Longrightarrow> ring_count r \<noteq> 0 \<Longrightarrow> slots r ! ring_first r = hd (blocks_of r)"
  by (simp add: ring_drop_blocks(2))

text \<open>The queue a client sees: \<^verbatim>\<open>push()\<close>, which numbers what it stores, and the step of
  an acknowledgement.\<close>

definition ring_put :: "result_ring \<Rightarrow> result_block \<Rightarrow> result_ring option" where
  "ring_put r b = (case ring_push r b of (r', st) \<Rightarrow> if is_ok st then Some r' else None)"

definition ring_take :: "result_ring \<Rightarrow> (result_block \<times> result_ring) option" where
  "ring_take r = (if ring_count r = 0 then None else Some (slots r ! ring_first r, ring_drop_oldest r))"

lemma ring_status_not_ok [simp]: "\<not> is_ok ring_full" "\<not> is_ok ack_range"
  by (simp_all add: is_ok_def status_defs)

lemma ring_put_room: "ring_shape r \<Longrightarrow> \<not> is_full r \<Longrightarrow> ring_put r b = Some (fst (ring_push r b))"
  using ring_push_room(1) [of r b] by (simp add: ring_put_def case_prod_beta)

interpretation results: bounded_queue blocks_of ring_shape result_capacity
  "\<lambda>r b. b\<lparr>seq := next_seq r\<rparr>" ring_put ring_take
proof
  show "length (blocks_of r) \<le> result_capacity" if "ring_shape r" for r
    using that by (simp add: ring_shape_def)
  show "ring_put r b = None" if "ring_shape r" "length (blocks_of r) = result_capacity" for r b
    using that by (simp add: ring_put_def ring_push_def is_full_def ring_shape_def)
  show "\<exists>r'. ring_put r b = Some r' \<and> ring_shape r' \<and> blocks_of r' = blocks_of r @ [b\<lparr>seq := next_seq r\<rparr>]"
    if "ring_shape r" "length (blocks_of r) < result_capacity" for r b
  proof -
    have room: "\<not> is_full r" using that by (simp add: is_full_def ring_shape_def)
    show ?thesis using ring_push_room [OF that(1) room, of b] ring_put_room [OF that(1) room, of b] by blast
  qed
  show "ring_take r = None" if "ring_shape r" "blocks_of r = []" for r
    using that length_blocks_of [of r] by (simp add: ring_take_def)
  show "\<exists>r'. ring_take r = Some (b, r') \<and> ring_shape r' \<and> blocks_of r' = bs"
    if "ring_shape r" "blocks_of r = b # bs" for r b bs
  proof -
    have "ring_count r \<noteq> 0" using that(2) length_blocks_of [of r] by auto
    then show ?thesis using ring_drop_blocks [OF that(1)] that(2) by (simp add: ring_take_def)
  qed
qed

section \<open>Numbers\<close>

lemma ring_push_numbered:
  assumes "ring_shape r" and "ring_numbered r" and "\<not> is_full r" and "unat (next_seq r) < 4294967295"
  shows "ring_numbered (fst (ring_push r b))"
proof -
  note pushed = ring_push_room [OF assms(1,3), of b]
  have next_number: "unat (next_seq r + 1) = Suc (unat (next_seq r))" using assms(4) by (simp add: unat_add_exact)
  have "unat (seq ((blocks_of r @ [b\<lparr>seq := next_seq r\<rparr>]) ! i)) + Suc (ring_count r) = Suc (unat (next_seq r)) + i"
    if "i < Suc (ring_count r)" for i
  proof (cases "i < ring_count r")
    case True
    then show ?thesis using assms(2) by (simp add: ring_numbered_def nth_append)
  next
    case False
    then have "i = ring_count r" using that by simp
    then show ?thesis by (simp add: nth_append)
  qed
  then show ?thesis using assms(2) by (simp add: ring_numbered_def pushed next_number)
qed

lemma ring_drop_numbered:
  assumes "ring_shape r" and "ring_numbered r" and "ring_count r \<noteq> 0"
  shows "ring_numbered (ring_drop_oldest r)"
proof -
  obtain n where n: "ring_count r = Suc n" using assms(3) by (cases "ring_count r") auto
  have drop: "ring_count (ring_drop_oldest r) = n" "next_seq (ring_drop_oldest r) = next_seq r"
    by (simp_all add: ring_drop_oldest_def n)
  have "unat (seq (blocks_of (ring_drop_oldest r) ! i)) + n = unat (next_seq r) + i" if "i < n" for i
  proof -
    have "blocks_of (ring_drop_oldest r) ! i = blocks_of r ! Suc i"
      using ring_drop_blocks(2) [OF assms(1,3)] by simp
    then show ?thesis using assms(2) that by (auto simp: ring_numbered_def n)
  qed
  then show ?thesis using assms(2) by (simp add: ring_numbered_def drop n)
qed

text \<open>What \<^verbatim>\<open>acknowledge()\<close> frees, in terms of the numbers.\<close>

definition acknowledged :: "result_ring \<Rightarrow> nat \<Rightarrow> nat" where
  "acknowledged r through = through + 1 - (unat (next_seq r) - ring_count r)"

lemma ring_oldest_number:
  assumes "ring_shape r" and "ring_numbered r" and "ring_count r \<noteq> 0"
  shows "unat (seq (slots r ! ring_first r)) = unat (next_seq r) - ring_count r"
proof -
  have "unat (seq (blocks_of r ! 0)) + ring_count r = unat (next_seq r)"
    using assms(2,3) by (simp add: ring_numbered_def)
  then show ?thesis using ring_drop_blocks(2) [OF assms(1,3)] by simp
qed

lemma ring_free_frees:
  assumes "ring_shape r" and "ring_numbered r" and "unat through < unat (next_seq r)"
    and "unat freed + ring_count r \<le> 32"
  shows "ring_free through freed r = (r', n) \<Longrightarrow>
    unat n = unat freed + acknowledged r (unat through) \<and>
    blocks_of r' = drop (acknowledged r (unat through)) (blocks_of r) \<and>
    ring_shape r' \<and> ring_numbered r' \<and> next_seq r' = next_seq r"
  using assms
proof (induction through freed r arbitrary: r' n rule: ring_free.induct)
  case (1 through freed r)
  note step = ring_free.simps [of through freed r]
  show ?case
  proof (cases "ring_count r \<noteq> 0 \<and> seq (slots r ! ring_first r) \<le> through")
    case False
    have "unat through + 1 \<le> unat (next_seq r) - ring_count r"
    proof (cases "ring_count r = 0")
      case True
      then show ?thesis using "1.prems"(4) by simp
    next
      case busy: False
      then show ?thesis
        using False ring_oldest_number [OF "1.prems"(2,3) busy] by (simp add: word_le_nat_alt)
    qed
    then have "acknowledged r (unat through) = 0" by (simp add: acknowledged_def)
    moreover have "ring_free through freed r = (r, freed)" unfolding step using False by (simp only: if_False)
    ultimately show ?thesis using "1.prems" by simp
  next
    case True
    have old: "unat (seq (slots r ! ring_first r)) = unat (next_seq r) - ring_count r"
      using ring_oldest_number "1.prems" True by blast
    have freed: "unat (freed + 1) = unat freed + 1" using "1.prems"(5) True by (simp add: unat_add_exact)
    have count: "ring_count (ring_drop_oldest r) = ring_count r - 1" "next_seq (ring_drop_oldest r) = next_seq r"
      by (simp_all add: ring_drop_oldest_def)
    have low: "ring_count r < unat (next_seq r)" using "1.prems"(3) by (simp add: ring_numbered_def)
    have ack: "acknowledged r (unat through) = Suc (acknowledged (ring_drop_oldest r) (unat through))"
      using True old low by (simp add: acknowledged_def count word_le_nat_alt, linarith)
    have "unat (freed + 1) + ring_count (ring_drop_oldest r) \<le> 32"
      using freed count "1.prems"(5) True by simp
    then have "unat n = unat (freed + 1) + acknowledged (ring_drop_oldest r) (unat through) \<and>
        blocks_of r' = drop (acknowledged (ring_drop_oldest r) (unat through)) (blocks_of (ring_drop_oldest r)) \<and>
        ring_shape r' \<and> ring_numbered r' \<and> next_seq r' = next_seq (ring_drop_oldest r)"
      using "1.IH" [OF True] "1.prems" True step ring_drop_blocks(1) ring_drop_numbered count by simp
    then show ?thesis
      using ack freed ring_drop_blocks(2) [of r] "1.prems"(2) True count by simp
  qed
qed

text \<open>C27. An acknowledgement frees exactly the blocks it names: for a ring whose blocks carry
  consecutive numbers (as \<^verbatim>\<open>push()\<close> gives them), \<^verbatim>\<open>acknowledge(through)\<close> refuses a number
  not given yet without a change, and otherwise removes from the front exactly the blocks
  numbered \<open>through\<close> and below, reports how many they were, and leaves the numbering intact.\<close>

theorem acknowledge_frees_exactly:
  assumes "ring_shape r" and "ring_numbered r"
  shows "if unat through < unat (next_seq r)
     then \<exists>r' n. acknowledge r through = (r', Inr n) \<and> ring_shape r' \<and> ring_numbered r' \<and>
       next_seq r' = next_seq r \<and>
       blocks_of r' = filter (\<lambda>b. unat through < unat (seq b)) (blocks_of r) \<and>
       unat n = length (filter (\<lambda>b. unat (seq b) \<le> unat through) (blocks_of r))
     else acknowledge r through = (r, Inl ack_range)"
proof (cases "unat through < unat (next_seq r)")
  case False
  then show ?thesis by (simp add: acknowledge_def word_le_nat_alt)
next
  case True
  let ?k = "acknowledged r (unat through)" and ?bs = "blocks_of r"
  obtain r' n where free: "ring_free through 0 r = (r', n)" by (meson surj_pair)
  have "unat (0 :: u32) + ring_count r \<le> 32" using assms(1) by (simp add: ring_shape_def result_capacity_def)
  note freed = ring_free_frees [OF assms True this free]
  have k: "?k \<le> ring_count r" using True assms(2) by (simp add: acknowledged_def ring_numbered_def)
  have low: "unat (seq b) \<le> unat through" if "b \<in> set (take ?k ?bs)" for b
  proof -
    obtain i where i: "i < ?k" "b = ?bs ! i" using \<open>b \<in> set (take ?k ?bs)\<close> k by (auto simp: in_set_conv_nth)
    then have "unat (seq b) + ring_count r = unat (next_seq r) + i"
      using assms(2) k by (simp add: ring_numbered_def)
    then show ?thesis using i(1) assms(2) by (simp add: ring_numbered_def acknowledged_def)
  qed
  have high: "unat through < unat (seq b)" if "b \<in> set (drop ?k ?bs)" for b
  proof -
    obtain i where i: "i < ring_count r - ?k" "b = ?bs ! (?k + i)"
      using \<open>b \<in> set (drop ?k ?bs)\<close> k by (auto simp: in_set_conv_nth)
    then have "unat (seq b) + ring_count r = unat (next_seq r) + (?k + i)"
      using assms(2) by (simp add: ring_numbered_def)
    then show ?thesis using assms(2) by (simp add: ring_numbered_def acknowledged_def)
  qed
  have "filter P ?bs = filter P (take ?k ?bs) @ filter P (drop ?k ?bs)" for P
    by (simp flip: filter_append)
  then have "filter (\<lambda>b. unat through < unat (seq b)) ?bs = drop ?k ?bs"
    and "filter (\<lambda>b. unat (seq b) \<le> unat through) ?bs = take ?k ?bs"
    using low high by (auto simp: filter_id_conv filter_empty_conv not_less not_le)
  then show ?thesis
    using True freed free k by (auto simp: acknowledge_def word_le_nat_alt)
qed

text \<open>C32. No result is lost or reordered: whatever the order of a client's calls, the blocks
  taken from the ring are the first blocks that were accepted, in that order, the rest of the
  accepted blocks are in the ring, and never more than its 32 slots are.\<close>

theorem results_in_order:
  assumes "ring_shape r" and "blocks_of r = []" and "results.serve ops r = (r', accepted, delivered)"
  shows "accepted = delivered @ blocks_of r' \<and> length (blocks_of r') \<le> 32"
  using results.delivered_prefix [OF assms] by (simp add: result_capacity_def)

text \<open>The ring at boot, and a short run over it.\<close>

definition empty_play :: play_record where
  "empty_play = \<lparr>file_frames_total = 0, usb_file_frames = 0, play_sent_frames = 0, crc32_left = 0,
     crc32_right = 0, first_frame_index = 0, last_frame_index = 0, first_frame_sof = 0,
     missed_intervals = 0, first_miss_frame_index = 0, stream_bits = 0, stream_channels = 0,
     cut_count = 0, cut_drop_frames = 0, cut_zero_frames = 0, cut_first_index = 0, cut_rejected = 0,
     underruns = 0, pcm_drained = 0, engine_state = 0, engine_error = 0, deadline_misses = 0,
     watterson = \<lparr>wi_version = 0, wi_digest_hi = 0, wi_digest_lo = 0, wi_latency_frames = 0, wi_paths = 0\<rparr>,
     secondary_source = \<lparr>ss_version = 0, ss_source_frames = 0, ss_excerpt_start_frame = 0,
       ss_excerpt_frames = 0, ss_digest_hi = 0, ss_digest_lo = 0, ss_latency_frames = 0,
       ss_reference_rms = 0\<rparr>,
     engine_digest_hi = 0, engine_digest_lo = 0\<rparr>"

definition empty_block :: result_block where
  "empty_block = \<lparr>seq = 0, run = 0, block_item = 0, block_label = [], block_file = [], block_route = Codec,
     block_outcome = Outcome_done, block_player_error = 0, block_scenario = [], block_seed = None,
     block_scenario_crc32 = 0, play = empty_play, block_gap = 0, scheduled_index = None, start_tick = 0,
     end_tick = 0, block_attenuation = no_attenuation, block_duration = None, loops = 0,
     block_end_cause = Cause_end\<rparr>"

definition ring_at_boot :: result_ring where
  "ring_at_boot = ring_clear \<lparr>slots = replicate 32 empty_block, ring_first = 0, ring_count = 0, next_seq = first_seq\<rparr>"

lemma ring_at_boot_ok: "ring_shape ring_at_boot" "ring_numbered ring_at_boot" "blocks_of ring_at_boot = []"
  by (simp_all add: ring_at_boot_def ring_clear_def ring_shape_def ring_numbered_def result_capacity_def
      first_seq_def blocks_of_def)

theorem acknowledge_frees_exactly_witness:
  "\<exists>r' n. acknowledge (fst (ring_push ring_at_boot empty_block)) 1 = (r', Inr n) \<and> unat n = 1"
proof -
  let ?r = "fst (ring_push ring_at_boot empty_block)"
  have room: "\<not> is_full ring_at_boot" by (simp add: ring_at_boot_def ring_clear_def is_full_def)
  have next_number: "next_seq ring_at_boot = 1" by (simp add: ring_at_boot_def ring_clear_def first_seq_def)
  note pushed = ring_push_room [OF ring_at_boot_ok(1) room, of empty_block]
  have "ring_numbered ?r"
    using ring_at_boot_ok room next_number by (intro ring_push_numbered) simp_all
  from acknowledge_frees_exactly [OF pushed(2) this, of 1] show ?thesis
    using pushed(3,4) ring_at_boot_ok(3) next_number by auto
qed

theorem results_in_order_witness:
  "\<exists>r'. results.serve [Put empty_block, Put empty_block, Take] ring_at_boot =
     (r', [empty_block\<lparr>seq := 1\<rparr>, empty_block\<lparr>seq := 2\<rparr>], [empty_block\<lparr>seq := 1\<rparr>]) \<and>
     blocks_of r' = [empty_block\<lparr>seq := 2\<rparr>]"
proof -
  let ?r1 = "fst (ring_push ring_at_boot empty_block)"
  let ?r2 = "fst (ring_push ?r1 empty_block)"
  have boot: "\<not> is_full ring_at_boot" "next_seq ring_at_boot = 1" "ring_count ring_at_boot = 0"
    by (simp_all add: ring_at_boot_def ring_clear_def is_full_def first_seq_def)
  note one = ring_push_room [OF ring_at_boot_ok(1) boot(1), of empty_block]
  have room: "\<not> is_full ?r1" using one(2,5) boot(3) by (simp add: is_full_def ring_shape_def result_capacity_def)
  note two = ring_push_room [OF one(2) room, of empty_block]
  have blocks: "blocks_of ?r2 = [empty_block\<lparr>seq := 1\<rparr>, empty_block\<lparr>seq := 2\<rparr>]"
    using one(3,4) two(3) ring_at_boot_ok(3) boot(2) by simp
  obtain r3 where r3: "ring_take ?r2 = Some (empty_block\<lparr>seq := 1\<rparr>, r3)"
    using results.take_some [OF two(2) blocks] by blast
  have run: "results.serve [Put empty_block, Put empty_block, Take] ring_at_boot =
      (r3, [empty_block\<lparr>seq := 1\<rparr>, empty_block\<lparr>seq := 2\<rparr>], [empty_block\<lparr>seq := 1\<rparr>])"
    using ring_put_room [OF ring_at_boot_ok(1) boot(1)] ring_put_room [OF one(2) room] r3 one(4) boot(2)
    by (simp add: results.serve.simps)
  then show ?thesis using results_in_order [OF ring_at_boot_ok(1,3) run] by simp
qed

end
