(* ===== verification/PlaylistRun.thy ===== *)
theory PlaylistRun
  imports ResultRing
begin

text \<open>
  The PLAYLIST sequencer: the rules of \<^verbatim>\<open>common/playlist.hpp\<close> that place an item in time,
  and \<^verbatim>\<open>run_playlist()\<close> of \<^verbatim>\<open>rt1170/player.cpp\<close> with the functions it calls. What
  the sequencer does not compute itself is an argument: a \<open>poll\<close> is one call of
  \<^verbatim>\<open>service_player_command()\<close> (the command it found) and the clock and the stream
  counters read after it, and an \<open>item_env\<close> is what the play of one item reports. A loop
  that waits for another poll than it is given has not returned: \<^term>\<open>None\<close>.
\<close>

section \<open>States and placement\<close>

datatype state = Idle | Running | Gap | Paused_ring_full | Done_state | Aborted | Error_state

definition state_name :: "state \<Rightarrow> string" where
  "state_name s = (case s of Idle \<Rightarrow> ''idle'' | Running \<Rightarrow> ''running'' | Gap \<Rightarrow> ''gap''
     | Paused_ring_full \<Rightarrow> ''paused_ring_full'' | Done_state \<Rightarrow> ''done'' | Aborted \<Rightarrow> ''aborted''
     | Error_state \<Rightarrow> ''error'')"

datatype policy = Stop_policy | Continue_on_error

definition policy_name :: "policy \<Rightarrow> string" where
  "policy_name p = (if p = Continue_on_error then ''continue'' else ''stop'')"

record progress =
  prog_state :: state
  prog_name :: string
  prog_run :: u32
  prog_policy :: policy
  prog_items :: u32
  prog_index :: u32
  completed :: u32
  failed :: u32

definition is_active :: "state \<Rightarrow> bool" where
  "is_active s \<longleftrightarrow> s = Running \<or> s = Gap \<or> s = Paused_ring_full"

definition end_after :: "outcome \<Rightarrow> policy \<Rightarrow> bool \<Rightarrow> state option" where
  "end_after out p stop_requested =
     (if stop_requested \<or> out = Outcome_aborted then Some Aborted
      else if out = Outcome_error \<and> p = Stop_policy then Some Error_state
      else None)"

definition chunk_frames :: u32 where "chunk_frames = frames_per_millisecond"

definition whole_chunk_frames :: "u32 \<Rightarrow> u32" where
  "whole_chunk_frames frames =
     (let partial = (if frames mod chunk_frames = 0 then 0 else 1)
      in (frames div chunk_frames + partial) * chunk_frames)"

definition next_start_index :: "u32 \<Rightarrow> u32 \<Rightarrow> gap_frames \<Rightarrow> u32" where
  "next_start_index first sent gap = first + whole_chunk_frames sent + gap"

text \<open>\<^verbatim>\<open>index_reached()\<close> of \<^verbatim>\<open>rt1170/usb_audio.hpp\<close>.\<close>

definition index_reached :: "u32 \<Rightarrow> u32 \<Rightarrow> bool" where
  "index_reached position target \<longleftrightarrow> position - target < (- 1) div 2 + 1"

section \<open>The player's end of an item\<close>

datatype player_state = Stopped | Waiting_for_command | Mounting | Opening | Buffering | Playing
  | Draining | Done_playing | Aborted_playing | Fault

datatype player_error = No_error | Host_init | Card_detect | Mount_error | Open_error | Header_io
  | Invalid_riff_error | Missing_format_error | Missing_data_error | Unsupported_format_error
  | Seek_error | Sd_read_error | Codec_config | Codec_level | Codec_start | Underrun_error
  | Impairment_error | Native_source | Live_control_error | Usb_stream_closed | Usb_stall_error
  | Usb_no_stream | Cut_log_error | Missed_interval_error | Usb_assert_error | Deadline_miss_error
  | Usb_unconfirmed

definition player_error_number :: "player_error \<Rightarrow> u32" where
  "player_error_number e = (case e of No_error \<Rightarrow> 0 | Host_init \<Rightarrow> 1 | Card_detect \<Rightarrow> 2 | Mount_error \<Rightarrow> 3
     | Open_error \<Rightarrow> 4 | Header_io \<Rightarrow> 5 | Invalid_riff_error \<Rightarrow> 6 | Missing_format_error \<Rightarrow> 7
     | Missing_data_error \<Rightarrow> 8 | Unsupported_format_error \<Rightarrow> 9 | Seek_error \<Rightarrow> 10 | Sd_read_error \<Rightarrow> 11
     | Codec_config \<Rightarrow> 12 | Codec_level \<Rightarrow> 13 | Codec_start \<Rightarrow> 14 | Underrun_error \<Rightarrow> 15
     | Impairment_error \<Rightarrow> 16 | Native_source \<Rightarrow> 17 | Live_control_error \<Rightarrow> 18 | Usb_stream_closed \<Rightarrow> 19
     | Usb_stall_error \<Rightarrow> 20 | Usb_no_stream \<Rightarrow> 21 | Cut_log_error \<Rightarrow> 22 | Missed_interval_error \<Rightarrow> 23
     | Usb_assert_error \<Rightarrow> 24 | Deadline_miss_error \<Rightarrow> 25 | Usb_unconfirmed \<Rightarrow> 26)"

definition run_outcome :: "player_state \<Rightarrow> outcome" where
  "run_outcome st =
     (if st = Done_playing then Outcome_done
      else if st = Aborted_playing then Outcome_aborted else Outcome_error)"

definition error_causes :: "(player_error \<times> end_cause) list" where
  "error_causes =
     [(Underrun_error, Cause_underrun), (Missed_interval_error, Cause_missed_interval),
      (Usb_stream_closed, Cause_stream_closed), (Usb_stall_error, Cause_stall),
      (Seek_error, Cause_sd_read), (Sd_read_error, Cause_sd_read), (Usb_assert_error, Cause_usb_assert),
      (Deadline_miss_error, Cause_deadline_miss), (Usb_no_stream, Cause_no_stream)]"

definition end_cause :: "outcome \<Rightarrow> player_error \<Rightarrow> end_cause" where
  "end_cause out e =
     (if out \<noteq> Outcome_error then (if out = Outcome_done then Cause_end else Cause_stop)
      else case map_of error_causes e of None \<Rightarrow> Cause_fault | Some c \<Rightarrow> c)"

definition whole_passes :: "u32 \<Rightarrow> u32 \<Rightarrow> u32" where
  "whole_passes output_frames card_frames = (if card_frames = 0 then 0 else output_frames div card_frames)"

section \<open>The sequencer's state and its world\<close>

record sequencer =
  table :: item_table
  progress_of :: progress
  results_of :: result_ring
  owns_player :: bool
  run_requested :: bool
  stop_requested :: bool
  cleanup_pending :: bool

definition playlist_stopped :: status where
  [status_defs]: "playlist_stopped = \<lparr>code = Busy, message = ''STOPPED''\<rparr>"

text \<open>Of the commands a call serves, STOP and PLAYLIST ACK change the sequencer's state; while a
  playlist owns the player every other run command is refused.\<close>

datatype command = Other_command | Stop_command | Ack_command u32

record reading =
  tick :: u32
  stream_is_open :: bool
  stream_opens :: u32
  frames_sent :: u32

type_synonym poll = "command \<times> reading"

record item_env =
  env_plan :: reading
  env_start_tick :: u32
  env_accepted :: bool
  env_opens :: u32
  env_commands :: "command list"
  env_state :: player_state
  env_error :: player_error
  env_status_error :: u32
  env_output_frames :: u32
  env_play :: play_record
  env_end_tick :: u32
  env_cleanup :: bool
  env_gap_tick :: u32

definition serve_command :: "command \<Rightarrow> sequencer \<Rightarrow> sequencer" where
  "serve_command c s =
     (case c of
        Other_command \<Rightarrow> s
      | Stop_command \<Rightarrow> (if owns_player s then s\<lparr>stop_requested := True\<rparr> else s)
      | Ack_command through \<Rightarrow> s\<lparr>results_of := fst (acknowledge (results_of s) through)\<rparr>)"

definition set_progress :: "state \<Rightarrow> nat \<Rightarrow> sequencer \<Rightarrow> sequencer" where
  "set_progress st index s =
     s\<lparr>progress_of := (progress_of s)\<lparr>prog_state := st, prog_index := of_nat index\<rparr>\<rparr>"

definition begin_playlist :: "string \<Rightarrow> policy \<Rightarrow> sequencer \<Rightarrow> sequencer" where
  "begin_playlist name p s =
     s\<lparr>progress_of := \<lparr>prog_state = Running, prog_name = name, prog_run = prog_run (progress_of s) + 1,
         prog_policy = p, prog_items = of_nat (length (table s)), prog_index = 0, completed = 0, failed = 0\<rparr>,
       owns_player := True, run_requested := True, stop_requested := False\<rparr>"

section \<open>Gaps\<close>

record scheduled_start =
  start_index :: u32
  start_opens :: u32

record gap_wait =
  stream_end :: "scheduled_start option"
  gap_began :: u32
  gap_length :: u32

record stream_progress =
  last_sent :: u32
  moved_at :: u32
  seen :: bool

record start_plan =
  target :: "scheduled_start option"
  armed_for_target :: bool

definition ticks_from_ms :: "u32 \<Rightarrow> u32" where "ticks_from_ms ms = ms"
definition usb_stall_timeout :: u32 where "usb_stall_timeout = ticks_from_ms 100"
definition schedule_slack :: u32 where "schedule_slack = ticks_from_ms 1000"

definition stalled :: "stream_progress \<Rightarrow> reading \<Rightarrow> stream_progress \<times> bool" where
  "stalled p now =
     (if \<not> seen p \<or> frames_sent now \<noteq> last_sent p
      then (\<lparr>last_sent = frames_sent now, moved_at = tick now, seen = True\<rparr>, False)
      else (p, tick now - moved_at p > usb_stall_timeout))"

definition same_open_stream :: "reading \<Rightarrow> scheduled_start \<Rightarrow> bool" where
  "same_open_stream now start \<longleftrightarrow> stream_is_open now \<and> stream_opens now = start_opens start"

definition ticks_since :: "reading \<Rightarrow> u32 \<Rightarrow> u32" where
  "ticks_since now moment = tick now - moment"

definition gap_left_on_clock :: "gap_wait \<Rightarrow> reading \<Rightarrow> u32" where
  "gap_left_on_clock gap now =
     (let elapsed = ticks_since now (gap_began gap) in
      if elapsed \<ge> gap_length gap then 0 else gap_length gap - elapsed)"

definition gap_left :: "gap_wait \<Rightarrow> stream_progress \<Rightarrow> reading \<Rightarrow> u32 \<times> stream_progress" where
  "gap_left gap p now =
     (case stream_end gap of
        None \<Rightarrow> (gap_left_on_clock gap now, p)
      | Some start \<Rightarrow>
          if same_open_stream now start then
            (case stalled p now of
               (p', is_stalled) \<Rightarrow>
                 if is_stalled then (gap_left_on_clock gap now, p')
                 else if index_reached (frames_sent now) (start_index start) then (0, p')
                 else (ticks_from_ms (whole_chunk_frames (start_index start - frames_sent now) div
                   frames_per_millisecond), p'))
          else (gap_left_on_clock gap now, p))"

fun wait_gap_from :: "gap_wait \<Rightarrow> stream_progress \<Rightarrow> sequencer \<Rightarrow> poll list \<Rightarrow>
    (status \<times> sequencer \<times> poll list) option" where
  "wait_gap_from gap p s [] = None"
| "wait_gap_from gap p s ((c, now) # polls) =
     (let s1 = serve_command c s in
      if stop_requested s1 then Some (playlist_stopped, s1, polls)
      else
        case gap_left gap p now of
          (left, p') \<Rightarrow>
            if left = 0 then Some (success, s1, polls) else wait_gap_from gap p' s1 polls)"

definition wait_gap :: "gap_wait \<Rightarrow> sequencer \<Rightarrow> poll list \<Rightarrow> (status \<times> sequencer \<times> poll list) option" where
  "wait_gap gap s polls = wait_gap_from gap \<lparr>last_sent = 0, moved_at = 0, seen = False\<rparr> s polls"

fun wait_for_result_room :: "nat \<Rightarrow> sequencer \<Rightarrow> poll list \<Rightarrow>
    (status \<times> sequencer \<times> poll list) option" where
  "wait_for_result_room index s polls =
     (if \<not> is_full (results_of s) then Some (success, s, polls)
      else
        case polls of
          [] \<Rightarrow> None
        | (c, now) # polls' \<Rightarrow>
            let s1 = serve_command c (set_progress Paused_ring_full index s) in
            if stop_requested s1 then Some (playlist_stopped, s1, polls')
            else wait_for_result_room index s1 polls')"

declare wait_for_result_room.simps [simp del]

definition plan_start :: "gap_wait option \<Rightarrow> route \<Rightarrow> nat \<Rightarrow> reading \<Rightarrow> sequencer \<Rightarrow> poll list \<Rightarrow>
    (start_plan result \<times> sequencer \<times> poll list) option" where
  "plan_start gap r index now s polls =
     (let at_once = \<lparr>target = None, armed_for_target = False\<rparr> in
      case gap of
        None \<Rightarrow> Some (Inr at_once, s, polls)
      | Some g \<Rightarrow>
          if r = Usb \<and> (case stream_end g of None \<Rightarrow> False | Some e \<Rightarrow> same_open_stream now e)
          then Some (Inr \<lparr>target = stream_end g,
                 armed_for_target = (ticks_since now (gap_began g) \<le> gap_length g + schedule_slack)\<rparr>, s, polls)
          else
            (case wait_gap g (set_progress Gap index s) polls of
               None \<Rightarrow> None
             | Some (waited, s1, polls1) \<Rightarrow>
                 Some (if is_ok waited then Inr at_once else Inl waited, s1, polls1)))"

section \<open>Items\<close>

definition new_block :: "nat \<Rightarrow> item \<Rightarrow> start_plan \<Rightarrow> u32 \<Rightarrow> sequencer \<Rightarrow> result_block" where
  "new_block index it plan now s =
     \<lparr>seq = 0, run = prog_run (progress_of s), block_item = of_nat index, block_label = item_label it,
      block_file = item_file it, block_route = item_route it, block_outcome = Outcome_done,
      block_player_error = 0, block_scenario = item_scenario it, block_seed = item_seed it,
      block_scenario_crc32 = scenario_crc32 it, play = empty_play, block_gap = item_gap it,
      scheduled_index = map_option start_index (target plan), start_tick = now, end_tick = 0,
      block_attenuation = item_attenuation it, block_duration = item_duration it, loops = 0,
      block_end_cause = Cause_end\<rparr>"

definition record_play :: "item_env \<Rightarrow> result_block \<Rightarrow> result_block" where
  "record_play env b =
     (let out = run_outcome (env_state env) in
      b\<lparr>block_outcome := out,
        block_player_error := (if out = Outcome_error then env_status_error env else 0),
        loops := whole_passes (env_output_frames env) (file_frames_total (env_play env)),
        block_end_cause := end_cause out (env_error env), play := env_play env\<rparr>)"

text \<open>The play itself is the environment's: its result, and the commands served meanwhile.\<close>

definition play_item :: "nat \<Rightarrow> item \<Rightarrow> start_plan \<Rightarrow> item_env \<Rightarrow> sequencer \<Rightarrow>
    result_block \<times> u32 \<times> sequencer" where
  "play_item index it plan env s =
     (let b = new_block index it plan (env_start_tick env) s in
      if \<not> env_accepted env then
        (b\<lparr>block_outcome := Outcome_error, block_player_error := player_error_number Usb_no_stream,
           block_end_cause := end_cause Outcome_error Usb_no_stream, end_tick := env_end_tick env\<rparr>, 0, s)
      else
        (record_play env (b\<lparr>end_tick := env_end_tick env\<rparr>), env_opens env,
         (fold serve_command (env_commands env) s)\<lparr>cleanup_pending := env_cleanup env\<rparr>))"

definition record_result :: "result_block \<Rightarrow> sequencer \<Rightarrow> sequencer \<times> status" where
  "record_result b s =
     (case ring_push (results_of s) b of
        (ring, kept) \<Rightarrow>
          (if is_ok kept
           then s\<lparr>results_of := ring, progress_of := (progress_of s)\<lparr>
                    completed := completed (progress_of s) + 1,
                    failed := failed (progress_of s) + (if block_outcome b = Outcome_error then 1 else 0)\<rparr>\<rparr>
           else s\<lparr>results_of := ring\<rparr>, kept))"

definition begin_gap :: "item \<Rightarrow> result_block \<Rightarrow> u32 \<Rightarrow> u32 \<Rightarrow> gap_wait" where
  "begin_gap it b opens now =
     \<lparr>stream_end =
        (if item_route it = Usb \<and> play_sent_frames (play b) \<noteq> 0
         then Some \<lparr>start_index =
                next_start_index (first_frame_index (play b)) (play_sent_frames (play b)) (item_gap it),
              start_opens = opens\<rparr>
         else None),
      gap_began = now, gap_length = ticks_from_ms (gap_milliseconds (item_gap it))\<rparr>"

definition run_item :: "nat \<Rightarrow> gap_wait option \<Rightarrow> item_env \<Rightarrow> sequencer \<Rightarrow> poll list \<Rightarrow>
    (state option \<times> gap_wait option \<times> sequencer \<times> poll list) option" where
  "run_item index gap env s polls =
     (let it = table s ! index in
      case wait_for_result_room index s polls of
        None \<Rightarrow> None
      | Some (room, s1, polls1) \<Rightarrow>
          if \<not> is_ok room then Some (Some Aborted, gap, s1, polls1)
          else
            (case plan_start gap (item_route it) index (env_plan env) s1 polls1 of
               None \<Rightarrow> None
             | Some (Inl _, s2, polls2) \<Rightarrow> Some (Some Aborted, gap, s2, polls2)
             | Some (Inr plan, s2, polls2) \<Rightarrow>
                 (case play_item index it plan env (set_progress Running index s2) of
                    (b, opens, s3) \<Rightarrow>
                      (case record_result b s3 of
                         (s4, kept) \<Rightarrow>
                           if \<not> is_ok kept then Some (Some Error_state, gap, s4, polls2)
                           else if cleanup_pending s4 then Some (Some Error_state, gap, s4, polls2)
                           else
                             (case end_after (block_outcome b) (prog_policy (progress_of s4)) (stop_requested s4) of
                                Some e \<Rightarrow> Some (Some e, gap, s4, polls2)
                              | None \<Rightarrow>
                                  Some (None, Some (begin_gap it b opens (env_gap_tick env)),
                                    set_progress Gap (index + 1) s4, polls2))))))"

section \<open>The playlist\<close>

fun run_items :: "nat \<Rightarrow> gap_wait option \<Rightarrow> item_env list \<Rightarrow> sequencer \<Rightarrow> poll list \<Rightarrow>
    (state option \<times> gap_wait option \<times> sequencer \<times> poll list) option" where
  "run_items index gap [] s polls =
     (if index < length (table s) then None else Some (None, gap, s, polls))"
| "run_items index gap (env # envs) s polls =
     (if index < length (table s) then
        (case run_item index gap env s polls of
           None \<Rightarrow> None
         | Some (Some ended, gap', s', polls') \<Rightarrow> Some (Some ended, gap', s', polls')
         | Some (None, gap', s', polls') \<Rightarrow> run_items (index + 1) gap' envs s' polls')
      else Some (None, gap, s, polls))"

definition finish_last_gap :: "gap_wait option \<Rightarrow> sequencer \<Rightarrow> poll list \<Rightarrow> (state \<times> sequencer) option" where
  "finish_last_gap gap s polls =
     (case gap of
        None \<Rightarrow> Some (Done_state, s)
      | Some g \<Rightarrow>
          (case wait_gap g s polls of
             None \<Rightarrow> None
           | Some (waited, s', _) \<Rightarrow> Some (if is_ok waited then Done_state else Aborted, s')))"

definition end_playlist :: "state \<Rightarrow> sequencer \<Rightarrow> sequencer" where
  "end_playlist st s =
     (let p = (progress_of s)\<lparr>prog_state := st\<rparr>;
          p' = (if st = Done_state then p\<lparr>prog_index := prog_items p\<rparr> else p)
      in s\<lparr>progress_of := p', owns_player := False, stop_requested := False\<rparr>)"

definition run_playlist :: "item_env list \<Rightarrow> sequencer \<Rightarrow> poll list \<Rightarrow> sequencer option" where
  "run_playlist envs s polls =
     (case run_items 0 None envs (s\<lparr>run_requested := False\<rparr>) polls of
        None \<Rightarrow> None
      | Some (Some ended, gap, s', _) \<Rightarrow> Some (end_playlist ended s')
      | Some (None, gap, s', polls') \<Rightarrow>
          map_option (\<lambda>(st, s''). end_playlist st s'') (finish_last_gap gap s' polls'))"

section \<open>What the sequencer does to the results\<close>

definition ring_ok :: "sequencer \<Rightarrow> bool" where
  "ring_ok s \<longleftrightarrow> ring_shape (results_of s) \<and> ring_numbered (results_of s)"

text \<open>From one state to a later one, the results grew by \<open>bs\<close>: the blocks were numbered in
  order, what is in the ring is the old blocks followed by them, less blocks from the front whose
  numbers an acknowledgement among \<open>A\<close> covers, and the counts of the progress moved with them.\<close>

definition frees :: "u32 set \<Rightarrow> result_block list \<Rightarrow> result_block list \<Rightarrow> bool" where
  "frees A bs bs' \<longleftrightarrow> (\<exists>gone. gone @ bs' = bs \<and> (\<forall>b \<in> set gone. \<exists>through \<in> A. seq b \<le> through))"

lemma frees_refl [simp]: "frees A bs bs"
  by (simp add: frees_def)

lemma frees_append: "frees A bs bs' \<Longrightarrow> frees A (bs @ cs) (bs' @ cs)"
  unfolding frees_def by (metis append_assoc)

lemma frees_trans: "frees A bs bs' \<Longrightarrow> frees A bs' bs'' \<Longrightarrow> frees A bs bs''"
  unfolding frees_def by (metis append_assoc in_set_conv_decomp Un_iff set_append)

lemma frees_length: "frees A bs bs' \<Longrightarrow> length bs' \<le> length bs"
  by (auto simp: frees_def)

definition grows :: "u32 set \<Rightarrow> sequencer \<Rightarrow> result_block list \<Rightarrow> sequencer \<Rightarrow> bool" where
  "grows A s bs s' \<longleftrightarrow>
     ring_ok s' \<and> table s' = table s \<and>
     prog_items (progress_of s') = prog_items (progress_of s) \<and>
     prog_policy (progress_of s') = prog_policy (progress_of s) \<and>
     prog_run (progress_of s') = prog_run (progress_of s) \<and>
     completed (progress_of s') = completed (progress_of s) + of_nat (length bs) \<and>
     failed (progress_of s') =
       failed (progress_of s) + of_nat (length (filter (\<lambda>b. block_outcome b = Outcome_error) bs)) \<and>
     next_seq (results_of s') = next_seq (results_of s) + of_nat (length bs) \<and>
     frees A (blocks_of (results_of s) @ bs) (blocks_of (results_of s')) \<and>
     (\<forall>i < length bs. seq (bs ! i) = next_seq (results_of s) + of_nat i)"

lemma grows_refl [simp]: "grows A s [] s \<longleftrightarrow> ring_ok s"
  by (simp add: grows_def)

lemma grows_ring_ok: "grows A s bs s' \<Longrightarrow> ring_ok s'"
  by (simp add: grows_def)

lemma grows_trans:
  assumes "grows A s bs s1" and "grows A s1 cs s2"
  shows "grows A s (bs @ cs) s2"
proof -
  have "frees A (blocks_of (results_of s) @ bs @ cs) (blocks_of (results_of s2))"
    using assms frees_trans [OF frees_append [of A "blocks_of (results_of s) @ bs" "blocks_of (results_of s1)" cs]]
    by (simp add: grows_def)
  moreover have "seq ((bs @ cs) ! i) = next_seq (results_of s) + of_nat i" if "i < length (bs @ cs)" for i
  proof (cases "i < length bs")
    case True
    then show ?thesis using assms(1) by (simp add: grows_def nth_append)
  next
    case False
    then have "seq (cs ! (i - length bs)) = next_seq (results_of s1) + of_nat (i - length bs)"
      using assms(2) that by (simp add: grows_def)
    also have "\<dots> = next_seq (results_of s) + of_nat (length bs + (i - length bs))"
      using assms(1) by (simp add: grows_def)
    finally show ?thesis using False by (simp add: nth_append)
  qed
  ultimately show ?thesis using assms by (simp add: grows_def)
qed

lemma grows_quiet: "grows A s [] s1 \<Longrightarrow> grows A s1 bs s2 \<Longrightarrow> grows A s bs s2"
  using grows_trans [of A s "[]" s1 bs s2] by simp

lemma grows_then_quiet: "grows A s bs s1 \<Longrightarrow> grows A s1 [] s2 \<Longrightarrow> grows A s bs s2"
  using grows_trans [of A s bs s1 "[]" s2] by simp

lemma grows_count: "grows A s [] s' \<Longrightarrow> ring_count (results_of s') \<le> ring_count (results_of s)"
  using frees_length [of A "blocks_of (results_of s)" "blocks_of (results_of s')"]
  by (simp add: grows_def)

lemma ring_free_covered:
  "ring_shape r \<Longrightarrow> through \<in> A \<Longrightarrow> frees A (blocks_of r) (blocks_of (fst (ring_free through freed r)))"
proof (induction through freed r rule: ring_free.induct)
  case (1 through freed r)
  note step = ring_free.simps [of through freed r]
  show ?case
  proof (cases "ring_count r \<noteq> 0 \<and> seq (slots r ! ring_first r) \<le> through")
    case False
    then show ?thesis unfolding step by (simp only: if_False) simp
  next
    case True
    note drop = ring_drop_blocks [OF "1.prems"(1) conjunct1 [OF True]]
    have "frees A (blocks_of r) (blocks_of (ring_drop_oldest r))"
      unfolding frees_def drop(2) using True "1.prems"(2) by (intro exI [of _ "[slots r ! ring_first r]"]) auto
    then show ?thesis unfolding step using frees_trans "1.IH" [OF True drop(1) "1.prems"(2)] True by simp
  qed
qed

lemma acknowledge_frees:
  assumes "ring_shape r" and "ring_numbered r"
  shows "ring_shape (fst (acknowledge r through))" and "ring_numbered (fst (acknowledge r through))"
    and "next_seq (fst (acknowledge r through)) = next_seq r"
    and "through \<in> A \<Longrightarrow> frees A (blocks_of r) (blocks_of (fst (acknowledge r through)))"
proof -
  have "ring_shape (fst (acknowledge r through)) \<and> ring_numbered (fst (acknowledge r through)) \<and>
      next_seq (fst (acknowledge r through)) = next_seq r \<and>
      (through \<in> A \<longrightarrow> frees A (blocks_of r) (blocks_of (fst (acknowledge r through))))"
  proof (cases "unat through < unat (next_seq r)")
    case False
    then show ?thesis using assms by (simp add: acknowledge_def word_le_nat_alt)
  next
    case True
    obtain r' n where free: "ring_free through 0 r = (r', n)" by (meson surj_pair)
    have "unat (0 :: u32) + ring_count r \<le> 32" using assms(1) by (simp add: ring_shape_def result_capacity_def)
    from ring_free_frees [OF assms True this free] ring_free_covered [OF assms(1), of through A 0] True free show ?thesis
      by (simp add: acknowledge_def word_le_nat_alt)
  qed
  then show "ring_shape (fst (acknowledge r through))" and "ring_numbered (fst (acknowledge r through))"
    and "next_seq (fst (acknowledge r through)) = next_seq r"
    and "through \<in> A \<Longrightarrow> frees A (blocks_of r) (blocks_of (fst (acknowledge r through)))" by blast+
qed

text \<open>A command that, if it is an acknowledgement, is among \<open>A\<close>.\<close>

definition ack_in :: "u32 set \<Rightarrow> command \<Rightarrow> bool" where
  "ack_in A c \<longleftrightarrow> (\<forall>through. c = Ack_command through \<longrightarrow> through \<in> A)"

definition acks_in :: "u32 set \<Rightarrow> poll list \<Rightarrow> bool" where
  "acks_in A polls \<longleftrightarrow> (\<forall>poll \<in> set polls. ack_in A (fst poll))"

lemma acks_in_simps [simp]: "acks_in A []" "acks_in A (poll # polls) \<longleftrightarrow> ack_in A (fst poll) \<and> acks_in A polls"
  by (simp_all add: acks_in_def)

lemma serve_command_quiet: "ring_ok s \<Longrightarrow> ack_in A c \<Longrightarrow> grows A s [] (serve_command c s)"
  using acknowledge_frees [of "results_of s"]
  by (cases c) (auto simp: serve_command_def grows_def ring_ok_def ack_in_def)

lemma set_progress_quiet: "ring_ok s \<Longrightarrow> grows A s [] (set_progress st index s)"
  by (simp add: set_progress_def grows_def ring_ok_def)

lemma serve_commands_quiet: "ring_ok s \<Longrightarrow> \<forall>c \<in> set cs. ack_in A c \<Longrightarrow> grows A s [] (fold serve_command cs s)"
proof (induction cs arbitrary: s)
  case Nil
  then show ?case by simp
next
  case (Cons c cs)
  have step: "grows A s [] (serve_command c s)" by (rule serve_command_quiet) (use Cons.prems in simp_all)
  then show ?case using grows_quiet [OF step Cons.IH] grows_ring_ok Cons.prems(2) by simp
qed

lemma wait_gap_from_quiet:
  "ring_ok s \<Longrightarrow> acks_in A polls \<Longrightarrow> wait_gap_from gap p s polls = Some (st, s', polls') \<Longrightarrow>
     grows A s [] s' \<and> acks_in A polls'"
proof (induction gap p s polls rule: wait_gap_from.induct)
  case (1 gap p s)
  then show ?case by simp
next
  case (2 gap p s c now polls)
  let ?s1 = "serve_command c s"
  have quiet: "grows A s [] ?s1" by (rule serve_command_quiet) (use "2.prems" in simp_all)
  obtain left p' where left: "gap_left gap p now = (left, p')" by (meson surj_pair)
  show ?case
  proof (cases "stop_requested ?s1 \<or> left = 0")
    case True
    then show ?thesis using "2.prems" left quiet by (auto simp: Let_def split: if_splits)
  next
    case False
    then have "wait_gap_from gap p' ?s1 polls = Some (st, s', polls')"
      using "2.prems"(3) left by (simp add: Let_def)
    then have "grows A ?s1 [] s' \<and> acks_in A polls'"
      using "2.IH" [OF refl _ left [symmetric]] False grows_ring_ok [OF quiet] "2.prems"(2) by simp
    then show ?thesis using grows_quiet [OF quiet] by blast
  qed
qed

lemma wait_gap_quiet:
  "ring_ok s \<Longrightarrow> acks_in A polls \<Longrightarrow> wait_gap gap s polls = Some (st, s', polls') \<Longrightarrow> grows A s [] s' \<and> acks_in A polls'"
  unfolding wait_gap_def by (rule wait_gap_from_quiet)

lemma playlist_stopped_not_ok [simp]: "\<not> is_ok playlist_stopped"
  by (simp add: is_ok_def status_defs)

lemma wait_for_result_room_quiet:
  "ring_ok s \<Longrightarrow> acks_in A polls \<Longrightarrow> wait_for_result_room index s polls = Some (st, s', polls') \<Longrightarrow>
     grows A s [] s' \<and> acks_in A polls' \<and> (is_ok st \<longrightarrow> \<not> is_full (results_of s'))"
proof (induction index s polls rule: wait_for_result_room.induct)
  case (1 index s polls)
  note step = wait_for_result_room.simps [of index s polls]
  show ?case
  proof (cases "is_full (results_of s)")
    case False
    then show ?thesis using "1.prems" step by auto
  next
    case True
    then obtain c now rest where polls: "polls = (c, now) # rest"
      using "1.prems"(3) step by (auto split: list.splits)
    let ?s1 = "serve_command c (set_progress Paused_ring_full index s)"
    note paused = set_progress_quiet [OF "1.prems"(1), of A Paused_ring_full index]
    have "ack_in A c" "acks_in A rest" using "1.prems"(2) polls by simp_all
    then have quiet: "grows A s [] ?s1"
      using grows_quiet [OF paused serve_command_quiet [OF grows_ring_ok [OF paused]]] by blast
    show ?thesis
    proof (cases "stop_requested ?s1")
      case stop: True
      then show ?thesis using "1.prems"(3) step True polls quiet \<open>acks_in A rest\<close> by (auto simp: Let_def)
    next
      case False
      then have "wait_for_result_room index ?s1 rest = Some (st, s', polls')"
        using "1.prems"(3) step True polls by (simp add: Let_def)
      then have "grows A ?s1 [] s' \<and> acks_in A polls' \<and> (is_ok st \<longrightarrow> \<not> is_full (results_of s'))"
        using "1.IH" [OF _ polls refl refl] True False grows_ring_ok [OF quiet] \<open>acks_in A rest\<close> by simp
      then show ?thesis using grows_quiet [OF quiet] by blast
    qed
  qed
qed

lemma plan_start_quiet:
  assumes "ring_ok s" and "acks_in A polls" and "plan_start gap r index now s polls = Some (plan, s', polls')"
  shows "grows A s [] s' \<and> acks_in A polls'"
proof -
  note waiting = set_progress_quiet [OF assms(1), of A Gap index]
  have "grows A s [] s' \<and> acks_in A polls'" if "wait_gap g (set_progress Gap index s) polls = Some (st, s', polls')" for g st
    using wait_gap_quiet [OF grows_ring_ok [OF waiting] assms(2) that] grows_quiet [OF waiting] by blast
  then show ?thesis
    using assms by (auto simp: plan_start_def Let_def split: option.splits if_splits)
qed

text \<open>What a block says of item \<open>i\<close> and of its play.\<close>

definition block_for :: "sequencer \<Rightarrow> item_env \<Rightarrow> nat \<Rightarrow> result_block \<Rightarrow> bool" where
  "block_for s env i b \<longleftrightarrow>
     block_item b = of_nat i \<and> run b = prog_run (progress_of s) \<and> block_file b = item_file (table s ! i) \<and>
     block_label b = item_label (table s ! i) \<and> block_scenario b = item_scenario (table s ! i) \<and>
     block_seed b = item_seed (table s ! i) \<and> block_duration b = item_duration (table s ! i) \<and>
     block_outcome b = (if env_accepted env then run_outcome (env_state env) else Outcome_error) \<and>
     play b = (if env_accepted env then env_play env else empty_play)"

lemma play_item_result:
  assumes "play_item index (table s ! index) plan env s = (b, opens, s')" and "ring_ok s"
    and "\<forall>c \<in> set (env_commands env). ack_in A c"
  shows "grows A s [] s'" and "block_for s env index b"
proof -
  have play: "grows A s [] ((fold serve_command (env_commands env) s)\<lparr>cleanup_pending := env_cleanup env\<rparr>)"
    using serve_commands_quiet [OF assms(2,3)] by (simp add: grows_def ring_ok_def)
  show "grows A s [] s'" using assms(1,2) play by (auto simp: play_item_def Let_def split: if_splits)
  show "block_for s env index b"
    using assms(1) by (auto simp: play_item_def Let_def block_for_def new_block_def record_play_def split: if_splits)
qed

lemma record_result_keeps:
  assumes "ring_ok s" and "\<not> is_full (results_of s)" and "unat (next_seq (results_of s)) < 4294967295"
    and "record_result b s = (s', kept)"
  shows "is_ok kept" and "grows A s [b\<lparr>seq := next_seq (results_of s)\<rparr>] s'"
    and "cleanup_pending s' = cleanup_pending s"
proof -
  note room = ring_push_room [OF _ assms(2), of b]
  have shape: "ring_shape (results_of s)" "ring_numbered (results_of s)" using assms(1) by (simp_all add: ring_ok_def)
  show "is_ok kept" using assms(4) room(1) [OF shape(1)] by (auto simp: record_result_def case_prod_beta)
  have s': "s' = s\<lparr>results_of := fst (ring_push (results_of s) b), progress_of := (progress_of s)\<lparr>
      completed := completed (progress_of s) + 1,
      failed := failed (progress_of s) + (if block_outcome b = Outcome_error then 1 else 0)\<rparr>\<rparr>"
    using assms(4) room(1) [OF shape(1)] by (simp add: record_result_def case_prod_beta)
  show "grows A s [b\<lparr>seq := next_seq (results_of s)\<rparr>] s'"
    using room [OF shape(1)] ring_push_numbered [OF shape assms(2,3), of b]
    by (simp add: s' grows_def ring_ok_def)
  show "cleanup_pending s' = cleanup_pending s" by (simp add: s')
qed

section \<open>What was played\<close>

text \<open>
  The plays a playlist makes, whatever becomes of their results: \<open>item_played\<close> is the play
  of one item as \<^verbatim>\<open>play_item()\<close> reports it, none when the playlist is stopped before it, and
  \<open>plays_from\<close> those of a playlist in order.
\<close>

definition item_played :: "nat \<Rightarrow> gap_wait option \<Rightarrow> item_env \<Rightarrow> sequencer \<Rightarrow> poll list \<Rightarrow> result_block list" where
  "item_played index gap env s polls =
     (case wait_for_result_room index s polls of
        Some (room, s1, polls1) \<Rightarrow>
          if \<not> is_ok room then []
          else
            (case plan_start gap (item_route (table s ! index)) index (env_plan env) s1 polls1 of
               Some (Inr plan, s2, _) \<Rightarrow> [fst (play_item index (table s ! index) plan env (set_progress Running index s2))]
             | _ \<Rightarrow> [])
      | None \<Rightarrow> [])"

fun plays_from :: "nat \<Rightarrow> gap_wait option \<Rightarrow> item_env list \<Rightarrow> sequencer \<Rightarrow> poll list \<Rightarrow> result_block list" where
  "plays_from index gap [] s polls = []"
| "plays_from index gap (env # envs) s polls =
     (if index < length (table s) then
        item_played index gap env s polls @
          (case run_item index gap env s polls of
             Some (None, gap', s', polls') \<Rightarrow> plays_from (index + 1) gap' envs s' polls'
           | _ \<Rightarrow> [])
      else [])"

definition plays_of :: "item_env list \<Rightarrow> sequencer \<Rightarrow> poll list \<Rightarrow> result_block list" where
  "plays_of envs s polls = plays_from 0 None envs (s\<lparr>run_requested := False\<rparr>) polls"

text \<open>Blocks numbered on from \<open>n\<close>.\<close>

fun numbered :: "u32 \<Rightarrow> result_block list \<Rightarrow> result_block list" where
  "numbered n [] = []"
| "numbered n (b # bs) = b\<lparr>seq := n\<rparr> # numbered (n + 1) bs"

lemma length_numbered [simp]: "length (numbered n bs) = length bs"
  by (induction bs arbitrary: n) simp_all

lemma numbered_append: "numbered n (bs @ cs) = numbered n bs @ numbered (n + of_nat (length bs)) cs"
  by (induction bs arbitrary: n) (simp_all add: algebra_simps)

text \<open>One item: its play is recorded; it has none only when the playlist is stopped before it, and
  a playlist ends in error only after a play that failed or left files to be closed.\<close>

definition ends_in_error :: "sequencer \<Rightarrow> result_block list \<Rightarrow> bool" where
  "ends_in_error s bs \<longleftrightarrow> bs \<noteq> [] \<and>
     (block_outcome (last bs) = Outcome_error \<and> prog_policy (progress_of s) = Stop_policy \<or> cleanup_pending s)"

lemma run_item_result:
  assumes "run_item index gap env s polls = Some (ended, gap', s', polls')" and ok: "ring_ok s"
    and room: "unat (next_seq (results_of s)) < 4294967295"
    and acks: "acks_in A polls" "\<forall>c \<in> set (env_commands env). ack_in A c"
  defines "bs \<equiv> numbered (next_seq (results_of s)) (item_played index gap env s polls)"
  shows "grows A s bs s' \<and> acks_in A polls' \<and> length bs \<le> 1 \<and> (\<forall>b \<in> set bs. block_for s env index b) \<and>
    (bs = [] \<longrightarrow> ended = Some Aborted) \<and> ended \<noteq> Some Done_state \<and>
    (ended = Some Error_state \<longrightarrow> ends_in_error s' bs)"
proof -
  obtain st s1 polls1 where wait: "wait_for_result_room index s polls = Some (st, s1, polls1)"
    using assms(1) by (auto simp: run_item_def Let_def split: option.splits)
  note q1 = wait_for_result_room_quiet [OF ok acks(1) wait]
  show ?thesis
  proof (cases "is_ok st")
    case False
    then have "ended = Some Aborted \<and> s' = s1 \<and> polls' = polls1" "bs = []"
      using assms(1) wait by (auto simp: run_item_def Let_def bs_def item_played_def)
    then show ?thesis using q1 by simp
  next
    case st: True
    let ?it = "table s ! index"
    obtain plan s2 polls2 where planned: "plan_start gap (item_route ?it) index (env_plan env) s1 polls1 = Some (plan, s2, polls2)"
      using assms(1) wait st by (auto simp: run_item_def Let_def split: option.splits)
    have q2: "grows A s1 [] s2" "acks_in A polls2"
      using plan_start_quiet [OF grows_ring_ok _ planned] q1 by blast+
    then have q: "grows A s [] s2" using q1 grows_quiet by blast
    show ?thesis
    proof (cases plan)
      case (Inl e)
      then have "ended = Some Aborted \<and> s' = s2 \<and> polls' = polls2" "bs = []"
        using assms(1) wait st planned by (auto simp: run_item_def Let_def bs_def item_played_def)
      then show ?thesis using q q2 by simp
    next
      case (Inr plan')
      let ?s3 = "set_progress Running index s2"
      have q3: "grows A s [] ?s3"
        using grows_quiet [OF q set_progress_quiet [OF grows_ring_ok [OF q]]] .
      obtain b opens s4 where play: "play_item index ?it plan' env ?s3 = (b, opens, s4)" by (metis prod.collapse)
      have same: "table ?s3 = table s" "prog_run (progress_of ?s3) = prog_run (progress_of s)"
        using q3 by (simp_all add: grows_def)
      have played: "grows A ?s3 [] s4" "block_for ?s3 env index b"
        using play_item_result [of index ?s3 plan' env b opens s4] play grows_ring_ok [OF q3] same acks(2) by simp_all
      have q4: "grows A s [] s4" by (rule grows_quiet [OF q3 played(1)])
      have still: "\<not> is_full (results_of s4)"
      proof -
        have "\<not> is_full (results_of s1)" using q1 st by simp
        moreover have "grows A s1 [] s4"
          using grows_quiet [OF grows_quiet [OF q2(1) set_progress_quiet [OF grows_ring_ok [OF q2(1)]]] played(1)] .
        ultimately show ?thesis
          using grows_count [of A s1 s4] q1 q4 by (auto simp: is_full_def ring_ok_def ring_shape_def grows_def)
      qed
      have next_number: "next_seq (results_of s4) = next_seq (results_of s)" using q4 by (simp add: grows_def)
      obtain s5 kept where recorded: "record_result b s4 = (s5, kept)" by (meson surj_pair)
      note kept = record_result_keeps [OF grows_ring_ok [OF q4] still _ recorded]
      have bs: "bs = [b\<lparr>seq := next_seq (results_of s)\<rparr>]" using wait st planned Inr play by (simp add: bs_def item_played_def)
      have grown: "grows A s bs s5"
        using grows_quiet [OF q4] kept(2) room next_number bs by simp
      have "polls' = polls2 \<and> (ended = None \<and> s' = set_progress Gap (index + 1) s5 \<or>
          s' = s5 \<and> ended \<noteq> None \<and> ended \<noteq> Some Done_state \<and> (ended = Some Error_state \<longrightarrow> ends_in_error s' bs))"
        using assms(1) wait st planned Inr play recorded kept(1) room next_number
        by (auto simp: run_item_def Let_def end_after_def ends_in_error_def bs split: option.splits if_splits)
      then have "grows A s bs s' \<and> acks_in A polls' \<and> ended \<noteq> Some Done_state \<and> (ended = Some Error_state \<longrightarrow> ends_in_error s' bs)"
        using grown q2(2) grows_then_quiet [OF grown set_progress_quiet [OF grows_ring_ok [OF grown]]] by auto
      moreover have "block_for s env index (b\<lparr>seq := next_seq (results_of s)\<rparr>)" using played(2) same by (simp add: block_for_def)
      ultimately show ?thesis by (simp add: bs)
    qed
  qed
qed

lemma run_items_result:
  assumes "run_items index gap envs s polls = Some (ended, gap', s', polls')" and "ring_ok s"
    and "unat (next_seq (results_of s)) + (length (table s) - index) < 4294967296"
    and "acks_in A polls" and "\<forall>env \<in> set envs. \<forall>c \<in> set (env_commands env). ack_in A c"
  shows "let bs = numbered (next_seq (results_of s)) (plays_from index gap envs s polls) in
    grows A s bs s' \<and> acks_in A polls' \<and> length bs \<le> length (table s) - index \<and> length bs \<le> length envs \<and>
    (\<forall>i < length bs. block_for s (envs ! i) (index + i) (bs ! i)) \<and>
    (ended = None \<longrightarrow> length bs = length (table s) - index) \<and> ended \<noteq> Some Done_state \<and>
    (ended = Some Error_state \<longrightarrow> ends_in_error s' bs)"
  using assms
proof (induction index gap envs s polls rule: run_items.induct)
  case (1 index gap s polls)
  then have "\<not> index < length (table s)" "ended = None" "s' = s" "polls' = polls" by (auto split: if_splits)
  then show ?case using "1.prems" by simp
next
  case (2 index gap env envs s polls)
  show ?case
  proof (cases "index < length (table s)")
    case False
    then have "ended = None" "s' = s" "polls' = polls" using "2.prems"(1) by auto
    then show ?thesis using "2.prems" False by simp
  next
    case True
    then obtain e1 gap1 s1 polls1 where item: "run_item index gap env s polls = Some (e1, gap1, s1, polls1)"
      using "2.prems"(1) by (auto split: option.splits)
    have "unat (next_seq (results_of s)) < 4294967295" using "2.prems"(3) True by simp
    note one = run_item_result [OF item "2.prems"(2) this "2.prems"(4)]
    define b1 where "b1 = numbered (next_seq (results_of s)) (item_played index gap env s polls)"
    have b1: "grows A s b1 s1" "acks_in A polls1" "length b1 \<le> 1" "\<forall>b \<in> set b1. block_for s env index b"
      "b1 = [] \<longrightarrow> e1 = Some Aborted" "e1 \<noteq> Some Done_state" "e1 = Some Error_state \<longrightarrow> ends_in_error s1 b1"
      using one "2.prems"(5) unfolding b1_def by simp_all
    show ?thesis
    proof (cases e1)
      case (Some e)
      then have "ended = Some e" "s' = s1" "polls' = polls1" using "2.prems"(1) True item by auto
      moreover have "block_for s ((env # envs) ! i) (index + i) (b1 ! i)" if "i < length b1" for i
        using that b1(3,4) nth_mem [OF that] by (cases i) auto
      ultimately show ?thesis using b1 Some True item by (simp add: Let_def b1_def Suc_le_eq)
    next
      case None
      define bs where "bs = numbered (next_seq (results_of s1)) (plays_from (index + 1) gap1 envs s1 polls1)"
      obtain b where b: "b1 = [b]" using b1(3,5) None by (cases b1) auto
      have rest: "run_items (index + 1) gap1 envs s1 polls1 = Some (ended, gap', s', polls')"
        using "2.prems"(1) True item None by simp
      have same: "table s1 = table s" "prog_run (progress_of s1) = prog_run (progress_of s)"
        "next_seq (results_of s1) = next_seq (results_of s) + 1"
        using b1(1) b by (simp_all add: grows_def)
      have "unat (next_seq (results_of s1)) + (length (table s1) - (index + 1)) < 4294967296"
        using "2.prems"(3) True same by (simp add: unat_add_exact)
      then have bs: "grows A s1 bs s'" "acks_in A polls'" "length bs \<le> length (table s) - (index + 1)" "length bs \<le> length envs"
        "\<forall>i < length bs. block_for s1 (envs ! i) (index + 1 + i) (bs ! i)"
        "ended = None \<longrightarrow> length bs = length (table s) - (index + 1)" "ended \<noteq> Some Done_state"
        "ended = Some Error_state \<longrightarrow> ends_in_error s' bs"
        using "2.IH" [OF True item refl None refl refl rest grows_ring_ok [OF b1(1)]] same b1(2) "2.prems"(5)
        by (simp_all add: Let_def bs_def)
      have one: "length (item_played index gap env s polls) = 1"
        using b length_numbered unfolding b1_def by (metis length_Cons list.size(3) One_nat_def)
      have all: "numbered (next_seq (results_of s)) (plays_from index gap (env # envs) s polls) = b1 @ bs"
        using True item None same(3) one by (simp add: b1_def bs_def numbered_append)
      have "block_for s ((env # envs) ! i) (index + i) ((b1 @ bs) ! i)" if "i < length (b1 @ bs)" for i
        using that b b1(4) bs(5) same by (cases i) (auto simp: block_for_def)
      moreover have "ended = Some Error_state \<longrightarrow> ends_in_error s' (b1 @ bs)"
        using bs(8) by (auto simp: ends_in_error_def)
      ultimately show ?thesis unfolding all Let_def
        using grows_trans [OF b1(1) bs(1)] bs(2-4,6,7) b True by auto
    qed
  qed
qed

text \<open>The numbers the host acknowledges in the course of a playlist.\<close>

definition acknowledged_by :: "item_env list \<Rightarrow> poll list \<Rightarrow> u32 set" where
  "acknowledged_by envs polls =
     {through. Ack_command through \<in> fst ` set polls \<union> (\<Union>env \<in> set envs. set (env_commands env))}"

text \<open>C3. A playlist loses no result: run from its start to its end, whatever the host and the
  plays do, it has recorded the block of every item it played, in the file's order, numbered on from
  the ring's next number and saying what the play reported; the ring then holds the old blocks
  followed by these, less blocks from the front that an acknowledgement of the host covers; the
  progress counts exactly these blocks and their errors. A playlist that ends done has played every
  item, and one that ends in error did so after its last block's failure or with files left to be closed.\<close>

theorem playlist_keeps_every_result:
  assumes "run_playlist envs (begin_playlist name p s) polls = Some s'" and "ring_ok s"
    and "unat (next_seq (results_of s)) + length (table s) < 4294967296"
  shows "let bs = numbered (next_seq (results_of s)) (plays_of envs (begin_playlist name p s) polls) in
    length bs \<le> length (table s) \<and> length bs \<le> length envs \<and>
    (\<forall>i < length bs. block_for (begin_playlist name p s) (envs ! i) i (bs ! i)) \<and>
    (\<exists>gone. gone @ blocks_of (results_of s') = blocks_of (results_of s) @ bs \<and>
       (\<forall>b \<in> set gone. \<exists>through \<in> acknowledged_by envs polls. seq b \<le> through)) \<and>
    completed (progress_of s') = of_nat (length bs) \<and>
    failed (progress_of s') = of_nat (length (filter (\<lambda>b. block_outcome b = Outcome_error) bs)) \<and>
    \<not> owns_player s' \<and> ring_ok s' \<and>
    (prog_state (progress_of s') = Done_state \<longrightarrow>
       length bs = length (table s) \<and> prog_index (progress_of s') = of_nat (length (table s))) \<and>
    (prog_state (progress_of s') = Error_state \<longrightarrow>
       bs \<noteq> [] \<and> (block_outcome (last bs) = Outcome_error \<and> p = Stop_policy \<or> cleanup_pending s'))"
proof -
  let ?s0 = "begin_playlist name p s" and ?s1 = "(begin_playlist name p s)\<lparr>run_requested := False\<rparr>"
  let ?A = "acknowledged_by envs polls"
  have start: "ring_ok ?s1" "table ?s1 = table s" "results_of ?s1 = results_of s"
    "completed (progress_of ?s1) = 0" "failed (progress_of ?s1) = 0"
    "prog_items (progress_of ?s1) = of_nat (length (table s))" "prog_policy (progress_of ?s1) = p"
    using assms(2) by (simp_all add: begin_playlist_def ring_ok_def)
  have acks: "acks_in ?A polls" "\<forall>env \<in> set envs. \<forall>c \<in> set (env_commands env). ack_in ?A c"
    by (auto simp: acknowledged_by_def acks_in_def ack_in_def intro: rev_image_eqI)
  obtain ended gap s2 polls2 where items: "run_items 0 None envs ?s1 polls = Some (ended, gap, s2, polls2)"
    using assms(1) by (auto simp: run_playlist_def split: option.splits)
  define bs where "bs = numbered (next_seq (results_of s)) (plays_of envs ?s0 polls)"
  have bs: "grows ?A ?s1 bs s2" "acks_in ?A polls2" "length bs \<le> length (table s)" "length bs \<le> length envs"
    "\<forall>i < length bs. block_for ?s1 (envs ! i) i (bs ! i)" "ended = None \<longrightarrow> length bs = length (table s)"
    "ended \<noteq> Some Done_state" "ended = Some Error_state \<longrightarrow> ends_in_error s2 bs"
    using run_items_result [OF items start(1) _ acks] assms(3) start(2,3) by (simp_all add: Let_def bs_def plays_of_def)
  obtain st s3 where s3: "grows ?A s2 [] s3" "s' = end_playlist st s3" "st = Done_state \<longrightarrow> ended = None"
    "st = Error_state \<longrightarrow> ends_in_error s3 bs"
  proof (cases ended)
    case (Some e)
    then show ?thesis
      using that [of s2 e] assms(1) items bs(1,7,8) grows_ring_ok by (auto simp: run_playlist_def)
  next
    case None
    then obtain st s3 where last: "finish_last_gap gap s2 polls2 = Some (st, s3)" "s' = end_playlist st s3"
      using assms(1) items by (auto simp: run_playlist_def)
    then have "grows ?A s2 [] s3" "st \<noteq> Error_state"
      using wait_gap_quiet [of s2 ?A polls2] grows_ring_ok [OF bs(1)] bs(2) by (auto simp: finish_last_gap_def split: option.splits if_splits)
    then show ?thesis using that None last(2) by blast
  qed
  have grown: "grows ?A ?s1 bs s3" by (rule grows_then_quiet [OF bs(1) s3(1)])
  have "results_of s' = results_of s3" "completed (progress_of s') = of_nat (length bs)"
    "failed (progress_of s') = of_nat (length (filter (\<lambda>b. block_outcome b = Outcome_error) bs))"
    "ring_ok s'" "\<not> owns_player s'" "prog_state (progress_of s') = st" "cleanup_pending s' = cleanup_pending s3"
    "st = Done_state \<longrightarrow> prog_index (progress_of s') = of_nat (length (table s))"
    using start s3(2) grown by (simp_all add: end_playlist_def grows_def Let_def ring_ok_def)
  moreover have "block_for ?s0 (envs ! i) i (bs ! i)" if "i < length bs" for i
    using that bs(5) by (auto simp: block_for_def)
  moreover have "frees ?A (blocks_of (results_of s) @ bs) (blocks_of (results_of s3))" "prog_policy (progress_of s3) = p"
    using grown start by (simp_all add: grows_def)
  ultimately show ?thesis unfolding bs_def [symmetric] Let_def
    using bs(3,4,6) s3(3,4) by (simp add: frees_def ends_in_error_def)
qed

text \<open>A playlist of one item with a gap of 1 ms, and a world in which it plays.\<close>

definition example_reading :: "u32 \<Rightarrow> reading" where
  "example_reading now = \<lparr>tick = now, stream_is_open = False, stream_opens = 0, frames_sent = 0\<rparr>"

definition example_env :: item_env where
  "example_env = \<lparr>env_plan = example_reading 10, env_start_tick = 10, env_accepted = True, env_opens = 0,
     env_commands = [], env_state = Done_playing, env_error = No_error, env_status_error = 0,
     env_output_frames = 96, env_play = empty_play\<lparr>file_frames_total := 96, play_sent_frames := 96\<rparr>,
     env_end_tick = 20, env_cleanup = False, env_gap_tick = 20\<rparr>"

definition example_sequencer :: sequencer where
  "example_sequencer = \<lparr>table = [(fresh_item 1)\<lparr>item_file := ''A.WAV'', item_gap := 48\<rparr>],
     progress_of = \<lparr>prog_state = Idle, prog_name = [], prog_run = 0, prog_policy = Stop_policy, prog_items = 0,
       prog_index = 0, completed = 0, failed = 0\<rparr>,
     results_of = ring_at_boot, owns_player = False, run_requested = False, stop_requested = False,
     cleanup_pending = False\<rparr>"

definition example_polls :: "poll list" where
  "example_polls = [(Other_command, example_reading 20), (Other_command, example_reading 21)]"

lemma example_playlist_ends:
  "map_option (\<lambda>s'. prog_state (progress_of s'))
     (run_playlist [example_env] (begin_playlist ''P'' Stop_policy example_sequencer) example_polls) = Some Done_state"
  by code_simp

theorem playlist_keeps_every_result_witness:
  "\<exists>s' b. run_playlist [example_env] (begin_playlist ''P'' Stop_policy example_sequencer) example_polls = Some s' \<and>
     completed (progress_of s') = 1 \<and> seq b = 1 \<and> block_file b = ''A.WAV'' \<and> block_outcome b = Outcome_done \<and>
     play b = env_play example_env \<and> blocks_of (results_of s') = [b]"
proof -
  obtain s' where s': "run_playlist [example_env] (begin_playlist ''P'' Stop_policy example_sequencer) example_polls = Some s'"
    "prog_state (progress_of s') = Done_state"
    using example_playlist_ends by blast
  have start: "ring_ok example_sequencer" "unat (next_seq (results_of example_sequencer)) + length (table example_sequencer) < 4294967296"
    "blocks_of (results_of example_sequencer) = []" "next_seq (results_of example_sequencer) = 1"
    using ring_at_boot_ok by (simp_all add: example_sequencer_def ring_ok_def ring_at_boot_def ring_clear_def first_seq_def)
  have one: "length (table example_sequencer) = 1" by (simp add: example_sequencer_def)
  have none: "acknowledged_by [example_env] example_polls = {}"
    by (auto simp: acknowledged_by_def example_env_def example_polls_def)
  from playlist_keeps_every_result [OF s'(1) start(1,2)] s'(2) one
  obtain bs where bs: "length bs = 1" "block_for (begin_playlist ''P'' Stop_policy example_sequencer) example_env 0 (bs ! 0)"
    "blocks_of (results_of s') = bs" "completed (progress_of s') = 1" "bs = numbered 1 (plays_of [example_env]
      (begin_playlist ''P'' Stop_policy example_sequencer) example_polls)"
    by (auto simp: start none Let_def)
  have "\<exists>b. bs = [b]" using bs(1) by (auto simp: length_Suc_conv)
  then obtain b where b: "bs = [b]" by blast
  have "seq b = 1" using bs(5) unfolding b by (cases "plays_of [example_env]
      (begin_playlist ''P'' Stop_policy example_sequencer) example_polls") auto
  with b show ?thesis using bs(2-4) s'(1)
    by (auto simp: block_for_def begin_playlist_def example_sequencer_def fresh_item_def example_env_def run_outcome_def)
qed

section \<open>Placement in the stream\<close>

lemma whole_chunk_exact: "whole_chunk_frames sent = of_nat (48 * ((unat sent + 47) div 48))"
proof -
  have up: "(unat sent + 47) div 48 = unat sent div 48 + (if unat sent mod 48 = 0 then 0 else 1)"
  proof -
    have "(unat sent mod 48 + 47) div 48 = 1" if "0 < unat sent mod 48"
      using that mod_less_divisor [of 48 "unat sent"] by (intro div_nat_eqI) (simp_all del: mod_less_divisor)
    then show ?thesis by (simp add: div_add1_eq [of "unat sent" 47])
  qed
  have zero: "sent mod 48 = 0 \<longleftrightarrow> unat sent mod 48 = 0"
    by (simp add: word_unat_eq_iff unat_mod_distrib)
  have "unat sent div 48 < 4294967296" using unat_lt_u32 [of sent] div_le_dividend [of "unat sent" 48] by linarith
  then have "sent div 48 = of_nat (unat sent div 48)"
    by (simp add: word_unat_eq_iff unat_div_distrib)
  then show ?thesis
    by (simp add: whole_chunk_frames_def Let_def chunk_frames_def frames_per_millisecond_def zero up algebra_simps)
qed

text \<open>The next item starts an exact number of frames after the one before it, across the
  wrap of the stream's index: for true frame counts (unbounded), the scheduled index that
  \<^verbatim>\<open>next_start_index()\<close> computes is reached exactly at the first frame, plus the frames sent
  rounded up to whole packets, plus the gap, as long as the position is within half the index's
  range of it.\<close>

theorem next_start_reached_exactly:
  assumes "m = first + 48 * ((unat sent + 47) div 48) + unat gap"
    and "n < m + 2147483648" and "m \<le> n + 2147483648"
  shows "index_reached (of_nat n) (next_start_index (of_nat first) sent gap) \<longleftrightarrow> m \<le> n"
proof -
  have target: "next_start_index (of_nat first) sent gap = of_nat m"
    by (simp add: next_start_index_def whole_chunk_exact assms(1))
  have half: "unat ((- 1 :: u32) div 2 + 1) = 2147483648"
    by (simp add: unat_add_exact unat_div_distrib unsigned_minus_1_eq_mask mask_eq_exp_minus_1)
  show ?thesis
  proof (cases "m \<le> n")
    case True
    then have diff: "(of_nat n :: u32) - of_nat m = of_nat (n - m)" by (simp add: of_nat_diff)
    have "unat (of_nat (n - m) :: u32) = n - m" using True assms(2) by (intro unat_of_nat_32) simp
    then show ?thesis unfolding index_reached_def target diff using True assms(2) half
      by (simp add: word_less_nat_alt del: of_nat_diff)
  next
    case False
    define d where "d = m - n"
    have d: "0 < d" "d \<le> 2147483648" "m = n + d" using False assms(3) by (simp_all add: d_def)
    have diff: "(of_nat n :: u32) - of_nat m = of_nat (4294967296 - d)" using d by (simp add: of_nat_diff)
    have "unat (of_nat (4294967296 - d) :: u32) = 4294967296 - d" using d by (intro unat_of_nat_32) simp
    then show ?thesis unfolding index_reached_def target diff using False d half
      by (simp add: word_less_nat_alt del: of_nat_diff)
  qed
qed

theorem next_start_reached_exactly_witness:
  "index_reached (of_nat 4294967488) (next_start_index (of_nat 4294967296) 49 96) \<longleftrightarrow> 4294967488 \<le> (4294967488 :: nat)"
  by (rule next_start_reached_exactly) simp_all

end
