(* ===== verification/Ep0Order.thy ===== *)
theory Ep0Order
  imports Status Ring
begin

text \<open>
  \<^verbatim>\<open>rt1170/usb_ep0_order.hpp\<close> and \<^verbatim>\<open>.cpp\<close>: the hold that puts a USB interrupt's SETUPs
  behind the EP0 completions that preceded them on the bus, with its C entry points, and the
  glue that drives it (\<^verbatim>\<open>usb/usb_ep0_order_glue.c\<close>, \<^verbatim>\<open>run_tinyusb_passes()\<close> of
  \<^verbatim>\<open>usb/usb_tinyusb_port.c\<close>). The driver is an argument: what each of its passes reports,
  and whether the controller then shows a completion no pass has reported.
\<close>

section \<open>The order\<close>

definition max_extra_passes :: u32 where "max_extra_passes = 2"
definition setups_per_pass :: nat where "setups_per_pass = 1"
definition hold_capacity :: nat where "hold_capacity = 3"

definition not_in_interrupt :: status where
  [status_defs]: "not_in_interrupt = \<lparr>code = Unavailable, message = ''EP0_ORDER_IDLE''\<rparr>"
definition hold_full :: status where
  [status_defs]: "hold_full = \<lparr>code = Buffer_too_small, message = ''EP0_HOLD_FULL''\<rparr>"

datatype ep0_pending = Pending_none | Pending_completion
datatype next_pass = Pass_done | Pass_again

record usb_setup =
  rhport :: u8
  packet :: u64

record counters =
  reordered :: u32
  unordered :: u32

record ep0_order =
  held_slots :: "usb_setup list"
  held_first :: nat
  held_count :: nat
  passes :: u32
  active :: bool
  order_counters :: counters

definition no_setup :: usb_setup where "no_setup = \<lparr>rhport = 0, packet = 0\<rparr>"

definition order_fresh :: ep0_order where
  "order_fresh = \<lparr>held_slots = replicate hold_capacity no_setup, held_first = 0, held_count = 0, passes = 0,
     active = False, order_counters = \<lparr>reordered = 0, unordered = 0\<rparr>\<rparr>"

definition order_begin :: "ep0_order \<Rightarrow> ep0_order" where
  "order_begin o1 = o1\<lparr>active := True, passes := 0\<rparr>"

definition count_unordered :: "ep0_order \<Rightarrow> ep0_order" where
  "count_unordered o1 =
     o1\<lparr>order_counters := (order_counters o1)\<lparr>unordered := unordered (order_counters o1) + 1\<rparr>\<rparr>"

definition hold :: "ep0_order \<Rightarrow> usb_setup \<Rightarrow> ep0_order \<times> status" where
  "hold o1 su =
     (if \<not> active o1 then (o1, not_in_interrupt)
      else if held_count o1 = length (held_slots o1) then (count_unordered o1, hold_full)
      else
        (o1\<lparr>held_slots := (held_slots o1)[(held_first o1 + held_count o1) mod length (held_slots o1) := su],
            held_count := held_count o1 + 1\<rparr>, success))"

definition completion :: "ep0_order \<Rightarrow> ep0_order" where
  "completion o1 =
     (if active o1 \<and> held_count o1 \<noteq> 0
      then o1\<lparr>order_counters := (order_counters o1)\<lparr>reordered := reordered (order_counters o1) + 1\<rparr>\<rparr> else o1)"

definition releasing :: "ep0_order \<Rightarrow> ep0_pending \<Rightarrow> ep0_order" where
  "releasing o1 pending =
     (if active o1 \<and> held_count o1 \<noteq> 0 \<and> pending = Pending_completion then count_unordered o1 else o1)"

definition release :: "ep0_order \<Rightarrow> (usb_setup \<times> ep0_order) option" where
  "release o1 =
     (if held_count o1 = 0 then None
      else Some (held_slots o1 ! held_first o1,
        o1\<lparr>held_first := (held_first o1 + 1) mod length (held_slots o1), held_count := held_count o1 - 1\<rparr>))"

definition another_pass :: "ep0_order \<Rightarrow> ep0_pending \<Rightarrow> ep0_order \<times> next_pass" where
  "another_pass o1 pending =
     (if \<not> active o1 \<or> held_count o1 = 0 \<or> pending = Pending_none then (o1, Pass_done)
      else if passes o1 = max_extra_passes then (count_unordered o1, Pass_done)
      else (o1\<lparr>passes := passes o1 + 1\<rparr>, Pass_again))"

definition order_end :: "ep0_order \<Rightarrow> ep0_order" where
  "order_end o1 = o1\<lparr>active := False, passes := 0\<rparr>"

section \<open>The held SETUPs are a queue\<close>

definition held :: "ep0_order \<Rightarrow> usb_setup list" where
  "held o1 = ring_contents (held_slots o1) (held_first o1) (held_count o1)"

definition order_shape :: "ep0_order \<Rightarrow> bool" where
  "order_shape o1 \<longleftrightarrow>
     length (held_slots o1) = hold_capacity \<and> held_first o1 < hold_capacity \<and> held_count o1 \<le> hold_capacity"

lemma length_held [simp]: "length (held o1) = held_count o1"
  by (simp add: held_def)

lemma held_empty: "held o1 = [] \<longleftrightarrow> held_count o1 = 0"
  using length_held [of o1] by (metis length_0_conv)

lemma hold_refusals [simp]: "\<not> is_ok not_in_interrupt" "\<not> is_ok hold_full"
  by (simp_all add: is_ok_def status_defs)

lemma hold_room:
  assumes "order_shape o1" and "active o1" and "held_count o1 < hold_capacity"
  shows "\<exists>o2. hold o1 su = (o2, success) \<and> order_shape o2 \<and> active o2 \<and> held o2 = held o1 @ [su] \<and>
    passes o2 = passes o1"
  using assms ring_contents_put [of "held_count o1" "held_slots o1" "held_first o1" su]
  by (simp add: hold_def order_shape_def held_def)

lemma release_oldest:
  assumes "order_shape o1" and "held_count o1 \<noteq> 0"
  shows "\<exists>o2. release o1 = Some (hd (held o1), o2) \<and> order_shape o2 \<and> held o2 = tl (held o1) \<and>
    active o2 = active o1 \<and> passes o2 = passes o1 \<and> held_count o2 = held_count o1 - 1"
proof -
  obtain n where n: "held_count o1 = Suc n" using assms(2) by (cases "held_count o1") auto
  have "0 < hold_capacity" by (simp add: hold_capacity_def)
  then show ?thesis
    using assms ring_contents_take [of "held_slots o1" "held_first o1" n]
    by (auto simp: release_def order_shape_def held_def n)
qed

text \<open>Within an interrupt, what the glue sees is the queue of the program's rings.\<close>

interpretation setups: bounded_queue held "\<lambda>o1. order_shape o1 \<and> active o1" hold_capacity
  "\<lambda>o1 su. su" "\<lambda>o1 su. if is_ok (snd (hold o1 su)) then Some (fst (hold o1 su)) else None" release
proof
  show "length (held o1) \<le> hold_capacity" if "order_shape o1 \<and> active o1" for o1
    using that by (simp add: order_shape_def)
  show "(if is_ok (snd (hold o1 su)) then Some (fst (hold o1 su)) else None) = None"
    if "order_shape o1 \<and> active o1" "length (held o1) = hold_capacity" for o1 su
    using that by (simp add: hold_def order_shape_def)
  show "\<exists>o2. (if is_ok (snd (hold o1 su)) then Some (fst (hold o1 su)) else None) = Some o2 \<and>
      (order_shape o2 \<and> active o2) \<and> held o2 = held o1 @ [su]"
    if "order_shape o1 \<and> active o1" "length (held o1) < hold_capacity" for o1 su
    using that hold_room [of o1 su] by auto
  show "release o1 = None" if "order_shape o1 \<and> active o1" "held o1 = []" for o1
    using that by (simp add: release_def held_empty)
  show "\<exists>o2. release o1 = Some (su, o2) \<and> (order_shape o2 \<and> active o2) \<and> held o2 = sus"
    if "order_shape o1 \<and> active o1" "held o1 = su # sus" for o1 su sus
    using that release_oldest [of o1] held_empty [of o1] by auto
qed

section \<open>The glue\<close>

text \<open>A driver event: what the glue reads of it, and a number for the rest, passed on unread.\<close>

datatype usb_event = Setup_event usb_setup | Completion_event nat | Sof_event nat | Other_event nat

text \<open>\<^verbatim>\<open>wfg_usb_ep0_release_setups()\<close>: the order it leaves, and what it forwards.\<close>

function release_setups :: "ep0_order \<Rightarrow> ep0_order \<times> usb_event list" where
  "release_setups o1 =
     (case release o1 of
        None \<Rightarrow> (o1, [])
      | Some (su, o2) \<Rightarrow> (case release_setups o2 of (o3, sent) \<Rightarrow> (o3, Setup_event su # sent)))"
  by pat_completeness auto
termination
  by (relation "measure held_count") (auto simp: release_def split: if_splits)

declare release_setups.simps [simp del]

definition pending_of :: "bool \<Rightarrow> ep0_pending" where
  "pending_of p = (if p then Pending_completion else Pending_none)"

text \<open>\<^verbatim>\<open>release_before_event()\<close>, then \<^verbatim>\<open>wfg_usb_ep0_route_event()\<close> within the interrupt.
  \<open>pending\<close> is what \<^verbatim>\<open>ep0_completion_pending()\<close> would answer at the event.\<close>

definition release_before_event :: "ep0_order \<Rightarrow> bool \<Rightarrow> ep0_order \<times> usb_event list" where
  "release_before_event o1 pending =
     (if held_count o1 = 0 then (o1, []) else release_setups (releasing o1 (pending_of pending)))"

definition route_event :: "ep0_order \<Rightarrow> usb_event \<times> bool \<Rightarrow> ep0_order \<times> usb_event list" where
  "route_event o1 = (\<lambda>(event, pending).
     case event of
       Setup_event su \<Rightarrow>
         (case hold o1 su of
            (o2, st) \<Rightarrow>
              if \<not> is_ok st then (case release_setups o2 of (o3, sent) \<Rightarrow> (o3, sent @ [event])) else (o2, []))
     | Completion_event n \<Rightarrow> (completion o1, [event])
     | Sof_event n \<Rightarrow> (o1, [event])
     | Other_event n \<Rightarrow>
         (case release_before_event o1 pending of (o2, sent) \<Rightarrow> (o2, sent @ [event])))"

primrec route_events :: "ep0_order \<Rightarrow> (usb_event \<times> bool) list \<Rightarrow> ep0_order \<times> usb_event list" where
  "route_events o1 [] = (o1, [])"
| "route_events o1 (e # es) =
     (case route_event o1 e of
        (o2, sent) \<Rightarrow> (case route_events o2 es of (o3, sent') \<Rightarrow> (o3, sent @ sent')))"

lemma release_setups_passes: "passes (fst (release_setups o1)) = passes o1"
proof (induction o1 rule: release_setups.induct)
  case (1 o1)
  then show ?case
    by (subst release_setups.simps) (auto simp: release_def split: option.splits prod.splits if_splits)
qed

lemma order_steps_passes [simp]:
  "passes (fst (hold o1 su)) = passes o1" "passes (completion o1) = passes o1"
  "passes (releasing o1 p) = passes o1"
  by (simp_all add: hold_def completion_def releasing_def count_unordered_def)

lemma route_event_passes: "passes (fst (route_event o1 e)) = passes o1"
  by (cases e)
    (simp add: route_event_def release_before_event_def case_prod_beta release_setups_passes split: usb_event.splits)

lemma route_events_passes: "passes (fst (route_events o1 es)) = passes o1"
proof (induction es arbitrary: o1)
  case Nil
  then show ?case by simp
next
  case (Cons e es)
  show ?case
    using Cons.IH [of "fst (route_event o1 e)"] route_event_passes [of o1 e]
    by (simp add: case_prod_beta)
qed

lemma extra_pass_decreases:
  assumes "another_pass o1 p = (o2, Pass_again)" and "route_events o2 es = (o3, sent)"
  shows "unat (max_extra_passes - passes o3) < unat (max_extra_passes - passes o1)"
proof -
  have "passes o3 = passes o2" using route_events_passes [of o2 es] assms(2) by simp
  moreover have "passes o2 = passes o1 + 1" "max_extra_passes - passes o1 \<noteq> 0"
    using assms(1) by (auto simp: another_pass_def split: if_splits)
  ultimately show ?thesis by (simp add: diff_diff_eq [symmetric] unat_minus_one unat_gt_0)
qed

text \<open>\<^verbatim>\<open>run_tinyusb_passes()\<close>: pass \<open>k\<close> of the driver reports \<open>handler k\<close>, after which
  \<open>pending k\<close> says whether a completion is still unreported. The result counts the passes.\<close>

function extra_passes :: "(nat \<Rightarrow> (usb_event \<times> bool) list) \<Rightarrow> (nat \<Rightarrow> bool) \<Rightarrow> nat \<Rightarrow> ep0_order \<Rightarrow>
    ep0_order \<times> usb_event list \<times> nat" where
  "extra_passes handler pending k o1 =
     (case another_pass o1 (pending_of (pending k)) of
        (o2, next) \<Rightarrow>
          if next = Pass_again then
            (case route_events o2 (handler (k + 1)) of
               (o3, sent) \<Rightarrow>
                 (case extra_passes handler pending (k + 1) o3 of (o4, sent', n) \<Rightarrow> (o4, sent @ sent', n)))
          else (o2, [], k + 1))"
  by pat_completeness auto

termination
  by (relation "measure (\<lambda>(handler, pending, k, o1). unat (max_extra_passes - passes o1))")
    (simp, metis extra_pass_decreases in_measure case_prod_conv)

declare extra_passes.simps [simp del]

definition run_passes :: "(nat \<Rightarrow> (usb_event \<times> bool) list) \<Rightarrow> (nat \<Rightarrow> bool) \<Rightarrow> ep0_order \<Rightarrow>
    ep0_order \<times> usb_event list \<times> nat" where
  "run_passes handler pending o1 =
     (case route_events (order_begin o1) (handler 0) of
        (o2, sent) \<Rightarrow>
          (case extra_passes handler pending 0 o2 of
             (o3, sent', n) \<Rightarrow>
               (case release_setups o3 of (o4, held_sent) \<Rightarrow> (order_end o4, sent @ sent' @ held_sent, n))))"

section \<open>No event is lost\<close>

definition is_setup :: "usb_event \<Rightarrow> bool" where
  "is_setup e \<longleftrightarrow> (case e of Setup_event su \<Rightarrow> True | _ \<Rightarrow> False)"

definition is_other :: "usb_event \<Rightarrow> bool" where
  "is_other e \<longleftrightarrow> (case e of Other_event n \<Rightarrow> True | _ \<Rightarrow> False)"

lemma is_event_simps [simp]:
  "is_setup (Setup_event su)" "\<not> is_setup (Completion_event n)" "\<not> is_setup (Sof_event n)" "\<not> is_setup (Other_event n)"
  "\<not> is_other (Setup_event su)" "\<not> is_other (Completion_event n)" "\<not> is_other (Sof_event n)" "is_other (Other_event n)"
  by (simp_all add: is_setup_def is_other_def)

lemma filter_held [simp]:
  "filter is_setup (map Setup_event sus) = map Setup_event sus"
  "filter (\<lambda>e. \<not> is_setup e) (map Setup_event sus) = []"
  by (simp_all add: filter_id_conv filter_empty_conv)

lemma release_setups_all:
  "order_shape o1 \<Longrightarrow> \<exists>o2. release_setups o1 = (o2, map Setup_event (held o1)) \<and> order_shape o2 \<and>
     held o2 = [] \<and> active o2 = active o1"
proof (induction o1 rule: release_setups.induct)
  case (1 o1)
  show ?case
  proof (cases "held_count o1 = 0")
    case True
    then show ?thesis using "1.prems" held_empty [of o1]
      by (subst release_setups.simps) (simp add: release_def)
  next
    case False
    then obtain o2 where o2: "release o1 = Some (hd (held o1), o2)" "order_shape o2" "held o2 = tl (held o1)"
      "active o2 = active o1"
      using release_oldest [OF "1.prems"] by blast
    obtain o3 where "release_setups o2 = (o3, map Setup_event (held o2))" "order_shape o3" "held o3 = []"
      "active o3 = active o2"
      using "1.IH" [OF o2(1) refl o2(2)] by blast
    moreover have "held o1 \<noteq> []" using False by (simp add: held_empty)
    ultimately show ?thesis using o2 by (subst release_setups.simps) (simp flip: list.map(2))
  qed
qed

lemma order_steps_keep:
  "held (completion o1) = held o1" "order_shape (completion o1) = order_shape o1" "active (completion o1) = active o1"
  "held_count (completion o1) = held_count o1"
  "held (releasing o1 p) = held o1" "order_shape (releasing o1 p) = order_shape o1" "active (releasing o1 p) = active o1"
  by (simp_all add: completion_def releasing_def count_unordered_def held_def order_shape_def)

text \<open>What one event, and then a run of them, does: the SETUPs sent and those still held are the
  ones held before and those reported, in order; the others are sent as they come.\<close>

definition routes :: "ep0_order \<Rightarrow> usb_event list \<Rightarrow> ep0_order \<times> usb_event list \<Rightarrow> bool" where
  "routes o1 reported = (\<lambda>(o2, sent).
     order_shape o2 \<and> active o2 \<and>
     filter is_setup sent @ map Setup_event (held o2) = map Setup_event (held o1) @ filter is_setup reported \<and>
     filter (\<lambda>e. \<not> is_setup e) sent = filter (\<lambda>e. \<not> is_setup e) reported)"

lemma routes_trans:
  "routes o1 es (o2, sent) \<Longrightarrow> routes o2 es' (o3, sent') \<Longrightarrow> routes o1 (es @ es') (o3, sent @ sent')"
  by (auto simp: routes_def)

lemma route_event_routes:
  assumes "order_shape o1" and "active o1"
  shows "routes o1 [fst e] (route_event o1 e)"
proof -
  obtain event pending where e: "e = (event, pending)" by (cases e) auto
  show ?thesis
  proof (cases event)
    case (Setup_event su)
    show ?thesis
    proof (cases "held_count o1 < hold_capacity")
      case True
      then obtain o2 where "hold o1 su = (o2, success)" "order_shape o2" "active o2" "held o2 = held o1 @ [su]"
        using hold_room [OF assms] by blast
      then show ?thesis by (simp add: route_event_def e Setup_event routes_def)
    next
      case False
      then have full: "hold o1 su = (count_unordered o1, hold_full)"
        using assms by (simp add: hold_def order_shape_def)
      have same: "held (count_unordered o1) = held o1" "order_shape (count_unordered o1)" "active (count_unordered o1)"
        using assms by (simp_all add: count_unordered_def held_def order_shape_def)
      then obtain o3 where "release_setups (count_unordered o1) = (o3, map Setup_event (held o1))"
        "order_shape o3" "held o3 = []" "active o3"
        using release_setups_all [OF same(2)] by auto
      then show ?thesis by (simp add: route_event_def e Setup_event full routes_def)
    qed
  next
    case (Completion_event n)
    then show ?thesis using assms by (simp add: route_event_def e routes_def order_steps_keep)
  next
    case (Sof_event n)
    then show ?thesis using assms by (simp add: route_event_def e routes_def)
  next
    case (Other_event n)
    show ?thesis
    proof (cases "held_count o1 = 0")
      case True
      then show ?thesis using assms
        by (simp add: route_event_def release_before_event_def e Other_event routes_def)
    next
      case False
      let ?o = "releasing o1 (pending_of pending)"
      obtain o2 where "release_setups ?o = (o2, map Setup_event (held o1))" "order_shape o2" "held o2 = []" "active o2"
        using release_setups_all [of ?o] assms by (auto simp: order_steps_keep)
      then show ?thesis using False
        by (simp add: route_event_def release_before_event_def e Other_event routes_def)
    qed
  qed
qed

lemma route_events_routes:
  "order_shape o1 \<Longrightarrow> active o1 \<Longrightarrow> routes o1 (map fst es) (route_events o1 es)"
proof (induction es arbitrary: o1)
  case Nil
  then show ?case by (simp add: routes_def)
next
  case (Cons e es)
  obtain o2 sent where step: "route_event o1 e = (o2, sent)" by (meson surj_pair)
  obtain o3 sent' where rest: "route_events o2 es = (o3, sent')" by (meson surj_pair)
  have first: "routes o1 [fst e] (o2, sent)" using route_event_routes [OF Cons.prems, of e] step by simp
  then have "routes o2 (map fst es) (o3, sent')" using Cons.IH [of o2] rest by (simp add: routes_def)
  then show ?case using routes_trans [OF first] step rest by simp
qed

lemma another_pass_keeps:
  assumes "another_pass o1 p = (o2, next_pass)"
  shows "held o2 = held o1" "order_shape o2 = order_shape o1" "active o2 = active o1" "held_count o2 = held_count o1"
  using assms by (auto simp: another_pass_def count_unordered_def held_def order_shape_def split: if_splits)

definition reported_in :: "(nat \<Rightarrow> (usb_event \<times> bool) list) \<Rightarrow> nat \<Rightarrow> nat \<Rightarrow> usb_event list" where
  "reported_in handler j n = concat (map (\<lambda>k. map fst (handler k)) [j..<n])"

lemma reported_in_step: "j < n \<Longrightarrow> reported_in handler j n = map fst (handler j) @ reported_in handler (Suc j) n"
  by (simp add: reported_in_def upt_conv_Cons)

lemma extra_passes_routes:
  "order_shape o1 \<Longrightarrow> active o1 \<Longrightarrow> extra_passes handler pending k o1 = (o2, sent, n) \<Longrightarrow>
     routes o1 (reported_in handler (k + 1) n) (o2, sent) \<and> k < n"
proof (induction handler pending k o1 arbitrary: o2 sent n rule: extra_passes.induct)
  case (1 handler pending k o1)
  note unfold = extra_passes.simps [of handler pending k o1]
  obtain oa more where pass: "another_pass o1 (pending_of (pending k)) = (oa, more)" by (meson surj_pair)
  note same = another_pass_keeps [OF pass]
  show ?case
  proof (cases "more = Pass_again")
    case False
    then have "o2 = oa" "sent = []" "n = k + 1" using "1.prems"(3) pass unfold by auto
    then show ?thesis using same "1.prems" by (simp add: routes_def reported_in_def)
  next
    case True
    obtain ob s1 where routed: "route_events oa (handler (k + 1)) = (ob, s1)" by (meson surj_pair)
    obtain s2 where rest: "extra_passes handler pending (k + 1) ob = (o2, s2, n)" and sent: "sent = s1 @ s2"
      using "1.prems"(3) pass True routed unfold by (auto split: prod.splits)
    have first: "routes oa (map fst (handler (k + 1))) (ob, s1)"
      using route_events_routes [of oa "handler (k + 1)"] same "1.prems" routed by simp
    then have later: "routes ob (reported_in handler (k + 1 + 1) n) (o2, s2) \<and> k + 1 < n"
      using "1.IH" [OF pass [symmetric] True routed [symmetric] _ _ rest] by (simp add: routes_def)
    then have "routes oa (reported_in handler (k + 1) n) (o2, sent)"
      using routes_trans [OF first] reported_in_step [of "k + 1" n handler] sent by simp
    then show ?thesis using same later by (simp add: routes_def)
  qed
qed

text \<open>C10. The hold loses no event: whatever the driver's passes report and whatever the
  controller shows, an interrupt that starts with nothing held forwards every SETUP reported in
  its passes, once and in the order they were reported, and every other event, once and in
  order; it ends with nothing held, after at least one pass.\<close>

theorem interrupt_forwards_all:
  assumes "order_shape o1" and "held o1 = []" and "run_passes handler pending o1 = (o2, sent, n)"
  shows "filter is_setup sent = filter is_setup (reported_in handler 0 n) \<and>
    filter (\<lambda>e. \<not> is_setup e) sent = filter (\<lambda>e. \<not> is_setup e) (reported_in handler 0 n) \<and>
    order_shape o2 \<and> held o2 = [] \<and> \<not> active o2 \<and> 0 < n"
proof -
  have start: "order_shape (order_begin o1)" "active (order_begin o1)" "held (order_begin o1) = []"
    using assms(1,2) by (simp_all add: order_begin_def order_shape_def held_def)
  obtain oa s1 where first: "route_events (order_begin o1) (handler 0) = (oa, s1)" by (meson surj_pair)
  obtain ob s2 m where extra: "extra_passes handler pending 0 oa = (ob, s2, m)" by (metis prod_cases3)
  have r1: "routes (order_begin o1) (map fst (handler 0)) (oa, s1)"
    using route_events_routes [OF start(1,2), of "handler 0"] first by simp
  then have r2: "routes oa (reported_in handler 1 m) (ob, s2)" "0 < m"
    using extra_passes_routes [OF _ _ extra] by (simp_all add: routes_def)
  then have r: "routes (order_begin o1) (reported_in handler 0 m) (ob, s1 @ s2)"
    using routes_trans [OF r1 r2(1)] reported_in_step [of 0 m handler] by simp
  obtain oc where "release_setups ob = (oc, map Setup_event (held ob))" "order_shape oc" "held oc = []"
    using release_setups_all [of ob] r by (auto simp: routes_def)
  then have "o2 = order_end oc" "sent = s1 @ s2 @ map Setup_event (held ob)" "n = m"
    and "order_shape (order_end oc)" "held (order_end oc) = []"
    using assms(3) first extra by (auto simp: run_passes_def order_end_def order_shape_def held_def)
  then show ?thesis using r start(3) r2(2) by (simp add: routes_def order_end_def)
qed

section \<open>Completions go first\<close>

text \<open>An interrupt as the hold is made for: no event but SETUPs, completions and SOFs, and at most
  one SETUP a pass.\<close>

definition plain_pass :: "(usb_event \<times> bool) list \<Rightarrow> bool" where
  "plain_pass es \<longleftrightarrow> (\<forall>e \<in> set es. \<not> is_other (fst e)) \<and>
     length (filter is_setup (map fst es)) \<le> setups_per_pass"

definition puts_off :: "ep0_order \<Rightarrow> usb_event list \<Rightarrow> ep0_order \<times> usb_event list \<Rightarrow> bool" where
  "puts_off o1 reported = (\<lambda>(o2, sent).
     order_shape o2 \<and> active o2 \<and> sent = filter (\<lambda>e. \<not> is_setup e) reported \<and>
     map Setup_event (held o2) = map Setup_event (held o1) @ filter is_setup reported)"

lemma puts_off_count:
  "puts_off o1 es (o2, sent) \<Longrightarrow> held_count o2 = held_count o1 + length (filter is_setup es)"
  unfolding puts_off_def using length_map [of Setup_event "held o2"] by (simp flip: length_held)

lemma puts_off_trans:
  "puts_off o1 es (o2, sent) \<Longrightarrow> puts_off o2 es' (o3, sent') \<Longrightarrow> puts_off o1 (es @ es') (o3, sent @ sent')"
  by (simp add: puts_off_def)

lemma route_events_puts_off:
  "order_shape o1 \<Longrightarrow> active o1 \<Longrightarrow> \<forall>e \<in> set es. \<not> is_other (fst e) \<Longrightarrow>
     held_count o1 + length (filter is_setup (map fst es)) \<le> hold_capacity \<Longrightarrow>
     puts_off o1 (map fst es) (route_events o1 es)"
proof (induction es arbitrary: o1)
  case Nil
  then show ?case by (simp add: puts_off_def)
next
  case (Cons e es)
  obtain event pending where e: "e = (event, pending)" by (cases e) auto
  obtain o2 sent where step: "route_event o1 e = (o2, sent)" by (meson surj_pair)
  have first: "puts_off o1 [event] (o2, sent) \<and> held_count o2 = held_count o1 + (if is_setup event then 1 else 0)"
  proof (cases event)
    case (Setup_event su)
    then have "held_count o1 < hold_capacity" using Cons.prems(4) by (simp add: e)
    then obtain o2' where "hold o1 su = (o2', success)" "order_shape o2'" "active o2'" "held o2' = held o1 @ [su]"
      using hold_room [OF Cons.prems(1,2)] by blast
    moreover from this have "held_count o2' = held_count o1 + 1" by (metis length_append_singleton length_held Suc_eq_plus1)
    ultimately show ?thesis using step by (auto simp: route_event_def e Setup_event puts_off_def)
  qed (use Cons.prems step in \<open>auto simp: route_event_def e puts_off_def order_steps_keep\<close>)
  obtain o3 sent' where rest: "route_events o2 es = (o3, sent')" by (meson surj_pair)
  have "puts_off o2 (map fst es) (o3, sent')"
    using Cons.IH [of o2] Cons.prems first rest by (auto simp: puts_off_def e split: if_splits)
  then show ?case using puts_off_trans [of o1 "[event]" o2 sent] first step rest by (simp add: e)
qed

lemma extra_passes_puts_off:
  "order_shape o1 \<Longrightarrow> active o1 \<Longrightarrow> extra_passes handler pending k o1 = (o2, sent, n) \<Longrightarrow>
     \<forall>j. plain_pass (handler j) \<Longrightarrow> k \<le> 2 \<Longrightarrow> passes o1 = of_nat k \<Longrightarrow> held_count o1 \<le> k + 1 \<Longrightarrow>
     puts_off o1 (reported_in handler (k + 1) n) (o2, sent) \<and> n \<le> 3"
proof (induction handler pending k o1 arbitrary: o2 sent n rule: extra_passes.induct)
  case (1 handler pending k o1)
  note unfold = extra_passes.simps [of handler pending k o1]
  obtain oa more where pass: "another_pass o1 (pending_of (pending k)) = (oa, more)" by (meson surj_pair)
  note same = another_pass_keeps [OF pass]
  show ?case
  proof (cases "more = Pass_again")
    case False
    then have "o2 = oa" "sent = []" "n = k + 1" using "1.prems"(3) pass unfold by auto
    then show ?thesis using same "1.prems" by (simp add: puts_off_def reported_in_def)
  next
    case True
    then have k: "k < 2" "passes oa = of_nat (k + 1)"
      using pass "1.prems"(5,6) by (auto simp: another_pass_def max_extra_passes_def le_less split: if_splits)
    obtain ob s1 where routed: "route_events oa (handler (k + 1)) = (ob, s1)" by (meson surj_pair)
    obtain s2 where rest: "extra_passes handler pending (k + 1) ob = (o2, s2, n)" and sent: "sent = s1 @ s2"
      using "1.prems"(3) pass True routed unfold by (auto split: prod.splits)
    have one: "length (filter is_setup (map fst (handler (k + 1)))) \<le> 1"
      "\<forall>e \<in> set (handler (k + 1)). \<not> is_other (fst e)"
      using "1.prems"(4) by (auto simp: plain_pass_def setups_per_pass_def)
    have first: "puts_off oa (map fst (handler (k + 1))) (ob, s1)"
      using route_events_puts_off [of oa "handler (k + 1)"] same "1.prems" routed one k(1)
      by (simp add: hold_capacity_def)
    have count: "held_count ob \<le> k + 1 + 1" using puts_off_count [OF first] one same "1.prems"(7) by simp
    have "passes ob = of_nat (k + 1)"
      using k(2) route_events_passes [of oa "handler (k + 1)"] routed by simp
    then have later: "puts_off ob (reported_in handler (k + 1 + 1) n) (o2, s2) \<and> n \<le> 3"
      using "1.IH" [OF pass [symmetric] True routed [symmetric] _ _ rest "1.prems"(4) _ _ count] first k(1)
      by (simp add: puts_off_def)
    have "k + 1 < n" using extra_passes_routes [OF _ _ rest] first by (simp add: puts_off_def)
    then have "puts_off oa (reported_in handler (k + 1) n) (o2, sent)"
      using puts_off_trans [OF first] later reported_in_step [of "k + 1" n handler] sent by simp
    then show ?thesis using same later by (simp add: puts_off_def)
  qed
qed

text \<open>C28. When the passes of an interrupt report only SETUPs (at most one a pass), EP0 completions
  and SOFs, it restores the order of the bus: everything else it reports is forwarded before
  every SETUP, so a completion that the driver reports after a SETUP, in the same pass or a later
  one, still goes first; and there are at most three passes. (An event of another kind, such as
  a bus reset, keeps its place: the SETUPs held go before it.)\<close>

theorem completions_precede_setups:
  assumes "order_shape o1" and "held o1 = []" and "\<forall>k. plain_pass (handler k)"
    and "run_passes handler pending o1 = (o2, sent, n)"
  shows "sent = filter (\<lambda>e. \<not> is_setup e) (reported_in handler 0 n) @ filter is_setup (reported_in handler 0 n) \<and>
    n \<le> 3"
proof -
  have start: "order_shape (order_begin o1)" "active (order_begin o1)" "held (order_begin o1) = []"
    "passes (order_begin o1) = 0"
    using assms(1,2) by (simp_all add: order_begin_def order_shape_def held_def)
  have count: "held_count (order_begin o1) = 0" using start(3) by (simp add: held_empty)
  obtain oa s1 where first: "route_events (order_begin o1) (handler 0) = (oa, s1)" by (meson surj_pair)
  obtain ob s2 m where extra: "extra_passes handler pending 0 oa = (ob, s2, m)" by (metis prod_cases3)
  have one: "length (filter is_setup (map fst (handler 0))) \<le> 1" "\<forall>e \<in> set (handler 0). \<not> is_other (fst e)"
    using assms(3) by (auto simp: plain_pass_def setups_per_pass_def)
  have r1: "puts_off (order_begin o1) (map fst (handler 0)) (oa, s1)"
    using route_events_puts_off [OF start(1,2), of "handler 0"] one count first by (simp add: hold_capacity_def)
  have "held_count oa \<le> 0 + 1" using puts_off_count [OF r1] count one(1) by simp
  moreover have "passes oa = of_nat 0" using route_events_passes [of "order_begin o1" "handler 0"] first start(4) by simp
  ultimately have r2: "puts_off oa (reported_in handler 1 m) (ob, s2)" "m \<le> 3"
    using extra_passes_puts_off [OF _ _ extra assms(3)] r1 by (simp_all add: puts_off_def)
  have "0 < m" using extra_passes_routes [OF _ _ extra] r1 by (simp add: puts_off_def)
  then have r: "puts_off (order_begin o1) (reported_in handler 0 m) (ob, s1 @ s2)"
    using puts_off_trans [OF r1 r2(1)] reported_in_step [of 0 m handler] by simp
  obtain oc where "release_setups ob = (oc, map Setup_event (held ob))"
    using release_setups_all [of ob] r by (auto simp: puts_off_def)
  then have "sent = s1 @ s2 @ map Setup_event (held ob)" "n = m"
    using assms(4) first extra by (auto simp: run_passes_def)
  then show ?thesis using r r2(2) start(3) by (simp add: puts_off_def)
qed

text \<open>The race of the module's comment: the first pass reports a SETUP, the second the completion
  of the transfer before it.\<close>

definition race :: "nat \<Rightarrow> (usb_event \<times> bool) list" where
  "race k = (if k = 0 then [(Setup_event no_setup, False)] else if k = 1 then [(Completion_event 7, False)] else [])"

lemma order_fresh_ok: "order_shape order_fresh" "held order_fresh = []"
  by (simp_all add: order_fresh_def order_shape_def held_def hold_capacity_def)

lemma race_runs: "snd (run_passes race (\<lambda>k. k = 0) order_fresh) = ([Completion_event 7, Setup_event no_setup], 2)"
  by code_simp

theorem interrupt_forwards_all_witness:
  "\<exists>o2 sent. run_passes race (\<lambda>k. k = 0) order_fresh = (o2, sent, 2) \<and> held o2 = [] \<and>
     filter is_setup sent = [Setup_event no_setup]"
proof -
  obtain o2 where run: "run_passes race (\<lambda>k. k = 0) order_fresh =
      (o2, [Completion_event 7, Setup_event no_setup], 2)"
    using race_runs by (metis prod.collapse snd_conv)
  then show ?thesis using interrupt_forwards_all [OF order_fresh_ok run] by simp
qed

theorem completions_precede_setups_witness:
  "\<exists>o2. run_passes race (\<lambda>k. k = 0) order_fresh = (o2, [Completion_event 7, Setup_event no_setup], 2) \<and>
     [Completion_event 7, Setup_event no_setup] =
       filter (\<lambda>e. \<not> is_setup e) (reported_in race 0 2) @ filter is_setup (reported_in race 0 2)"
proof -
  obtain o2 where run: "run_passes race (\<lambda>k. k = 0) order_fresh =
      (o2, [Completion_event 7, Setup_event no_setup], 2)"
    using race_runs by (metis prod.collapse snd_conv)
  have "\<forall>k. plain_pass (race k)" by (simp add: race_def plain_pass_def setups_per_pass_def)
  from completions_precede_setups [OF order_fresh_ok this run] run show ?thesis by blast
qed

end
