(* ===== verification/Cobs.thy ===== *)
theory Cobs
  imports Status
begin

text \<open>
  \<^verbatim>\<open>cobs_encode()\<close> and \<^verbatim>\<open>cobs_decode()\<close> of \<^verbatim>\<open>common/dd008/cdc_mux_protocol.cpp\<close>:
  the byte stuffing that keeps zero out of a packet. The encoder writes into an array whose
  size is given; the decoder's output is the bytes written, below a capacity. The reference
  is the stuffing as a function of the whole input.
\<close>

section \<open>The encoder\<close>

definition cobs_no_output :: status where
  [status_defs]: "cobs_no_output = \<lparr>code = Buffer_too_small, message = ''COBS output buffer is empty''\<rparr>"
definition cobs_too_small :: status where
  [status_defs]: "cobs_too_small = \<lparr>code = Buffer_too_small, message = ''COBS output buffer is too small''\<rparr>"
definition cobs_zero_code :: status where
  [status_defs]: "cobs_zero_code = \<lparr>code = Invalid_argument, message = ''zero code in COBS packet''\<rparr>"
definition cobs_truncated :: status where
  [status_defs]: "cobs_truncated = \<lparr>code = Invalid_argument, message = ''truncated or oversized COBS packet''\<rparr>"
definition cobs_too_large :: status where
  [status_defs]: "cobs_too_large = \<lparr>code = Buffer_too_small, message = ''decoded COBS packet is too large''\<rparr>"

record cobs_encoder =
  cobs_output :: bytes
  write_index :: nat
  code_index :: nat
  cobs_code :: u8

text \<open>One turn of the encoder's loop, and the loop with the write of the last code.\<close>

definition cobs_encode_byte :: "cobs_encoder \<Rightarrow> u8 \<Rightarrow> cobs_encoder result" where
  "cobs_encode_byte e v =
     (if v = 0 then
        if code_index e \<ge> length (cobs_output e) then Inl cobs_too_small
        else Inr (e\<lparr>cobs_output := (cobs_output e)[code_index e := cobs_code e],
               code_index := write_index e, write_index := write_index e + 1, cobs_code := 1\<rparr>)
      else if write_index e \<ge> length (cobs_output e) then Inl cobs_too_small
      else
        let e1 = e\<lparr>cobs_output := (cobs_output e)[write_index e := v],
               write_index := write_index e + 1, cobs_code := cobs_code e + 1\<rparr>
        in if cobs_code e1 = 0xFF
           then Inr (e1\<lparr>cobs_output := (cobs_output e1)[code_index e1 := cobs_code e1],
               code_index := write_index e1, write_index := write_index e1 + 1, cobs_code := 1\<rparr>)
           else Inr e1)"

fun cobs_encode_from :: "cobs_encoder \<Rightarrow> bytes \<Rightarrow> (bytes \<times> nat) result" where
  "cobs_encode_from e [] =
     (if code_index e \<ge> length (cobs_output e) then Inl cobs_too_small
      else Inr ((cobs_output e)[code_index e := cobs_code e], write_index e))"
| "cobs_encode_from e (v # vs) =
     (case cobs_encode_byte e v of Inl err \<Rightarrow> Inl err | Inr e' \<Rightarrow> cobs_encode_from e' vs)"

definition cobs_encode :: "bytes \<Rightarrow> bytes \<Rightarrow> (bytes \<times> nat) result" where
  "cobs_encode input output =
     (if output = [] then Inl cobs_no_output
      else cobs_encode_from \<lparr>cobs_output = output, write_index = 1, code_index = 0, cobs_code = 1\<rparr> input)"

section \<open>The decoder\<close>

text \<open>The loop, with the rest of the input and the bytes written so far.\<close>

function cobs_decode_from :: "nat \<Rightarrow> bytes \<Rightarrow> bytes \<Rightarrow> bytes result" where
  "cobs_decode_from capacity written [] = Inr written"
| "cobs_decode_from capacity written (c # rest) =
     (if c = 0 then Inl cobs_zero_code
      else
        let copy_size = unat (c - 1) in
        if copy_size > length rest \<or> copy_size > capacity - length written then Inl cobs_truncated
        else
          let written' = written @ take copy_size rest; rest' = drop copy_size rest in
          if c \<noteq> 0xFF \<and> rest' \<noteq> [] then
            if length written' \<ge> capacity then Inl cobs_too_large
            else cobs_decode_from capacity (written' @ [0]) rest'
          else cobs_decode_from capacity written' rest')"
  by pat_completeness auto
termination
  by (relation "measure (\<lambda>(capacity, written, input). length input)") auto

definition cobs_decode :: "bytes \<Rightarrow> nat \<Rightarrow> bytes result" where
  "cobs_decode input capacity = cobs_decode_from capacity [] input"

section \<open>The stuffing\<close>

text \<open>The packet of an input whose current block holds \<open>block\<close>, at most 253 bytes.\<close>

fun stuffed :: "bytes \<Rightarrow> bytes \<Rightarrow> bytes" where
  "stuffed block [] = of_nat (Suc (length block)) # block"
| "stuffed block (v # vs) =
     (if v = 0 then of_nat (Suc (length block)) # block @ stuffed [] vs
      else if length block = 253 then 0xFF # block @ v # stuffed [] vs
      else stuffed (block @ [v]) vs)"

lemma stuffed_not_Nil [simp]: "stuffed block vs \<noteq> []"
  by (induction block vs rule: stuffed.induct) auto

lemma block_code: "n \<le> 254 \<Longrightarrow> unat (of_nat n :: u8) = n"
  by (simp add: unat_of_nat)

lemma block_code_not_0: "n \<le> 253 \<Longrightarrow> (of_nat (Suc n) :: u8) \<noteq> 0"
  using block_code [of "Suc n"] by (intro notI) (simp del: of_nat_Suc)

lemma stuffed_no_zero:
  "0 \<notin> set block \<Longrightarrow> length block \<le> 253 \<Longrightarrow> 0 \<notin> set (stuffed block vs)"
proof (induction block vs rule: stuffed.induct)
  case (1 block)
  then show ?case using block_code_not_0 [of "length block"] by auto
next
  case (2 block v vs)
  then show ?case using block_code_not_0 [of "length block"] by auto
qed

lemma stuffed_longer: "length block + 1 \<le> length (stuffed block vs)"
  by (induction block vs rule: stuffed.induct) auto

lemma stuffed_length:
  "length block \<le> 253 \<Longrightarrow>
     length (stuffed block vs) \<le> length block + length vs + (length block + length vs) div 254 + 1"
proof (induction block vs rule: stuffed.induct)
  case (1 block)
  then show ?case by simp
next
  case (2 block v vs)
  let ?b = "length block" and ?n = "length vs"
  show ?case
  proof (cases "v = 0")
    case True
    have "?n div 254 \<le> (?b + Suc ?n) div 254" by (rule div_le_mono) simp
    then show ?thesis using "2.IH"(1) True by simp
  next
    case False
    show ?thesis
    proof (cases "?b = 253")
      case full: True
      have "(?b + Suc ?n) div 254 = ?n div 254 + 1" unfolding full by simp
      then show ?thesis using "2.IH"(2) False full by simp
    next
      case room: False
      then show ?thesis using "2.IH"(3) "2.prems" False by simp
    qed
  qed
qed

section \<open>The decoder undoes the stuffing\<close>

declare cobs_decode_from.simps(2) [simp del]

lemma decode_block:
  assumes "length block \<le> 253" and "length (written @ block) \<le> capacity"
  shows "cobs_decode_from capacity written (of_nat (Suc (length block)) # block @ rest) =
    (if rest \<noteq> [] then
       if length (written @ block) \<ge> capacity then Inl cobs_too_large
       else cobs_decode_from capacity (written @ block @ [0]) rest
     else Inr (written @ block))"
proof -
  let ?c = "of_nat (Suc (length block)) :: u8"
  have c: "?c \<noteq> 0" "unat (?c - 1) = length block" "?c \<noteq> 0xFF"
  proof -
    show "?c \<noteq> 0" using block_code_not_0 assms(1) by blast
    have "?c - 1 = of_nat (length block)" by simp
    then show "unat (?c - 1) = length block" using assms(1) by (simp only: block_code)
    have "unat ?c = Suc (length block)" using assms(1) by (intro block_code) simp
    then show "?c \<noteq> 0xFF" using assms(1) by (intro notI) (simp del: of_nat_Suc)
  qed
  have "length block \<le> capacity - length written" using assms(2) by simp
  then show ?thesis
    unfolding cobs_decode_from.simps(2) [of capacity written "of_nat (Suc (length block))"] using c
    by (simp add: Let_def del: of_nat_Suc)
qed

lemma decode_full_block:
  assumes "length block = 253" and "length (written @ block @ [v]) \<le> capacity"
  shows "cobs_decode_from capacity written (0xFF # block @ v # rest) =
    cobs_decode_from capacity (written @ block @ [v]) rest"
proof -
  have "unat ((0xFF :: u8) - 1) = 254" "254 \<le> capacity - length written" using assms by simp_all
  then show ?thesis using assms by (simp add: cobs_decode_from.simps(2) Let_def)
qed

lemma decode_stuffed:
  "length block \<le> 253 \<Longrightarrow> length (written @ block @ vs) \<le> capacity \<Longrightarrow>
     cobs_decode_from capacity written (stuffed block vs) = Inr (written @ block @ vs)"
proof (induction block vs arbitrary: written rule: stuffed.induct)
  case (1 block)
  then show ?case using decode_block [of block written capacity "[]"] by (simp add: le_diff_conv del: of_nat_Suc)
next
  case (2 block v vs)
  consider (zero) "v = 0" | (full) "v \<noteq> 0" "length block = 253" | (more) "v \<noteq> 0" "length block < 253"
    using "2.prems"(1) by linarith
  then show ?case
  proof cases
    case zero
    then have "cobs_decode_from capacity (written @ block @ [0]) (stuffed [] vs) = Inr ((written @ block @ [0]) @ [] @ vs)"
      using "2.prems"(2) by (intro "2.IH"(1)) simp_all
    then show ?thesis
      using zero decode_block [where rest = "stuffed [] vs"] "2.prems" by (simp del: of_nat_Suc)
  next
    case full
    then have "cobs_decode_from capacity (written @ block @ [v]) (stuffed [] vs) = Inr ((written @ block @ [v]) @ [] @ vs)"
      using "2.prems"(2) by (intro "2.IH"(2)) simp_all
    then show ?thesis
      using full decode_full_block [where rest = "stuffed [] vs"] "2.prems" by simp
  next
    case more
    then have "cobs_decode_from capacity written (stuffed (block @ [v]) vs) = Inr (written @ (block @ [v]) @ vs)"
      using "2.prems" by (intro "2.IH"(3)) simp_all
    then show ?thesis using more by simp
  qed
qed

section \<open>The encoder computes it\<close>

text \<open>The encoder in the middle: what it has completed, and the block it is filling behind the
  place kept for that block's code.\<close>

definition encoding :: "bytes \<Rightarrow> bytes \<Rightarrow> cobs_encoder \<Rightarrow> bool" where
  "encoding completed block e \<longleftrightarrow>
     code_index e = length completed \<and> write_index e = Suc (length completed + length block) \<and>
     cobs_code e = of_nat (Suc (length block)) \<and> length block \<le> 253 \<and>
     (block \<noteq> [] \<longrightarrow> write_index e \<le> length (cobs_output e)) \<and>
     code_index e \<le> length (cobs_output e) \<and>
     take (length completed) (cobs_output e) = completed \<and>
     take (length block) (drop (Suc (length completed)) (cobs_output e)) = block"

lemma update_past_take: "i \<ge> n \<Longrightarrow> take n (xs[i := x]) = take n xs"
  by simp

lemma close_block:
  assumes "encoding completed block e" and "code_index e < length (cobs_output e)"
  shows "take (length completed + Suc (length block)) ((cobs_output e)[code_index e := c]) = completed @ c # block \<and>
    Suc (length completed + length block) \<le> length (cobs_output e)"
proof -
  let ?out = "cobs_output e" and ?k = "length completed"
  have k: "code_index e = ?k" "?k < length ?out" "take ?k ?out = completed"
    "take (length block) (drop (Suc ?k) ?out) = block"
    using assms by (simp_all add: encoding_def)
  have "?out[?k := c] = take ?k ?out @ c # drop (Suc ?k) ?out" using k(2) by (rule upd_conv_take_nth_drop)
  then have "take (?k + Suc (length block)) (?out[code_index e := c]) = completed @ c # block"
    using k by simp
  moreover have "Suc (?k + length block) \<le> length ?out"
    using assms by (cases "block = []") (simp_all add: encoding_def)
  ultimately show ?thesis by blast
qed

lemma empty_block_code [simp]: "(of_nat (Suc 0) :: u8) = 1"
  by simp

lemma encode_zero:
  assumes "encoding completed block e" and "code_index e < length (cobs_output e)"
  shows "\<exists>e'. cobs_encode_byte e 0 = Inr e' \<and>
    encoding (completed @ of_nat (Suc (length block)) # block) [] e' \<and> length (cobs_output e') = length (cobs_output e)"
  using close_block [OF assms, of "of_nat (Suc (length block))"] assms
  by (auto simp: cobs_encode_byte_def encoding_def simp del: of_nat_Suc)

lemma encode_more:
  assumes "encoding completed block e" and "v \<noteq> 0" and "write_index e < length (cobs_output e)"
    and "length block < 253"
  shows "\<exists>e'. cobs_encode_byte e v = Inr e' \<and> encoding completed (block @ [v]) e' \<and>
    length (cobs_output e') = length (cobs_output e)"
proof -
  let ?out = "cobs_output e" and ?k = "length completed"
  have e: "code_index e = ?k" "write_index e = Suc (?k + length block)"
    "cobs_code e = of_nat (Suc (length block))" "take ?k ?out = completed"
    "take (length block) (drop (Suc ?k) ?out) = block" "Suc (?k + length block) < length ?out"
    using assms(1,3) by (simp_all add: encoding_def)
  have code: "cobs_code e + 1 = of_nat (Suc (length (block @ [v])))" by (simp add: e(3))
  have "unat (of_nat (Suc (length (block @ [v]))) :: u8) = Suc (length (block @ [v]))"
    using assms(4) by (intro block_code) simp
  then have not_full: "cobs_code e + 1 \<noteq> 0xFF"
    using assms(4) by (auto simp: code simp del: of_nat_Suc)
  have "take (length (block @ [v])) (drop (Suc ?k) (?out[Suc (?k + length block) := v])) = block @ [v]"
    using e(5,6) by (simp add: drop_update_swap take_Suc_conv_app_nth)
  then have "encoding completed (block @ [v])
      (e\<lparr>cobs_output := ?out[write_index e := v], write_index := write_index e + 1, cobs_code := cobs_code e + 1\<rparr>)"
    using e assms(4) code by (simp add: encoding_def)
  then show ?thesis using assms(2,3) not_full by (simp add: cobs_encode_byte_def Let_def)
qed

lemma encode_full:
  assumes "encoding completed block e" and "v \<noteq> 0" and "write_index e < length (cobs_output e)"
    and "length block = 253"
  shows "\<exists>e'. cobs_encode_byte e v = Inr e' \<and> encoding (completed @ 0xFF # block @ [v]) [] e' \<and>
    length (cobs_output e') = length (cobs_output e)"
proof -
  let ?out = "cobs_output e" and ?k = "length completed"
  have e: "code_index e = ?k" "write_index e = Suc (?k + length block)"
    "cobs_code e = of_nat (Suc (length block))" "take ?k ?out = completed"
    "take (length block) (drop (Suc ?k) ?out) = block" "Suc (?k + length block) < length ?out"
    using assms(1,3) by (simp_all add: encoding_def)
  let ?out1 = "?out[Suc (?k + length block) := v]"
  have code: "cobs_code e + 1 = 0xFF" by (simp add: e(3) assms(4))
  have block: "take (Suc (length block)) (drop (Suc ?k) ?out1) = block @ [v]"
    using e(5,6) by (simp add: drop_update_swap take_Suc_conv_app_nth)
  have "?out1[?k := 0xFF] = take ?k ?out1 @ 0xFF # drop (Suc ?k) ?out1"
    using e(6) by (intro upd_conv_take_nth_drop) simp
  moreover have "take ?k ?out1 = completed" using e(4) by simp
  ultimately have "take (?k + Suc (Suc (length block))) (?out1[?k := 0xFF]) = completed @ 0xFF # block @ [v]"
    using block by simp
  then have "encoding (completed @ 0xFF # block @ [v]) []
      (e\<lparr>cobs_output := ?out1[?k := 0xFF], code_index := Suc (Suc (?k + length block)),
        write_index := Suc (Suc (?k + length block)) + 1, cobs_code := 1\<rparr>)"
    using e(6) by (simp add: encoding_def)
  then show ?thesis using assms(2,3) code e by (simp add: cobs_encode_byte_def Let_def)
qed

definition encodes_to :: "bytes \<Rightarrow> nat \<Rightarrow> (bytes \<times> nat) result \<Rightarrow> bool" where
  "encodes_to packet room r \<longleftrightarrow>
     (if length packet \<le> room
      then \<exists>out. r = Inr (out, length packet) \<and> take (length packet) out = packet \<and> length out = room
      else r = Inl cobs_too_small)"

lemma encode_from_stuffed:
  "encoding completed block e \<Longrightarrow>
     encodes_to (completed @ stuffed block vs) (length (cobs_output e)) (cobs_encode_from e vs)"
proof (induction vs arbitrary: completed block e)
  case Nil
  then have e: "code_index e = length completed" "write_index e = Suc (length completed + length block)"
    "cobs_code e = of_nat (Suc (length block))"
    by (simp_all add: encoding_def)
  show ?case
  proof (cases "code_index e < length (cobs_output e)")
    case True
    then show ?thesis using close_block [OF Nil True, of "cobs_code e"] e
      by (simp add: encodes_to_def del: of_nat_Suc)
  next
    case False
    then show ?thesis using e by (simp add: encodes_to_def)
  qed
next
  case (Cons v vs)
  have e: "code_index e = length completed" "write_index e = Suc (length completed + length block)"
    "length block \<le> 253"
    using Cons.prems by (simp_all add: encoding_def)
  consider (zero) "v = 0" | (full) "v \<noteq> 0" "length block = 253" | (more) "v \<noteq> 0" "length block < 253"
    using e(3) by linarith
  then show ?case
  proof cases
    case zero
    show ?thesis
    proof (cases "code_index e < length (cobs_output e)")
      case True
      then obtain e' where e': "cobs_encode_byte e 0 = Inr e'"
        "encoding (completed @ of_nat (Suc (length block)) # block) [] e'" "length (cobs_output e') = length (cobs_output e)"
        using encode_zero [OF Cons.prems] by blast
      show ?thesis using Cons.IH [OF e'(2)] e' zero by (simp del: of_nat_Suc)
    next
      case False
      then show ?thesis using zero e by (simp add: cobs_encode_byte_def encodes_to_def)
    qed
  next
    case full
    show ?thesis
    proof (cases "write_index e < length (cobs_output e)")
      case True
      then obtain e' where e': "cobs_encode_byte e v = Inr e'" "encoding (completed @ 0xFF # block @ [v]) [] e'"
        "length (cobs_output e') = length (cobs_output e)"
        using encode_full [OF Cons.prems full(1) True full(2)] by blast
      show ?thesis using Cons.IH [OF e'(2)] e' full by simp
    next
      case False
      then show ?thesis using full e by (simp add: cobs_encode_byte_def encodes_to_def)
    qed
  next
    case more
    show ?thesis
    proof (cases "write_index e < length (cobs_output e)")
      case True
      then obtain e' where e': "cobs_encode_byte e v = Inr e'" "encoding completed (block @ [v]) e'"
        "length (cobs_output e') = length (cobs_output e)"
        using encode_more [OF Cons.prems more(1) True more(2)] by blast
      show ?thesis using Cons.IH [OF e'(2)] e' more by simp
    next
      case False
      then show ?thesis using more e stuffed_longer [of "block @ [v]" vs]
        by (simp add: cobs_encode_byte_def encodes_to_def)
    qed
  qed
qed

lemma cobs_encode_stuffed:
  assumes "output \<noteq> []"
  shows "encodes_to (stuffed [] input) (length output) (cobs_encode input output)"
proof -
  have "encoding [] [] \<lparr>cobs_output = output, write_index = 1, code_index = 0, cobs_code = 1\<rparr>"
    by (simp add: encoding_def)
  from encode_from_stuffed [OF this, of input] assms show ?thesis
    by (simp add: cobs_encode_def)
qed

end
