(* ===== verification/CdcMuxProtocol.thy ===== *)
theory CdcMuxProtocol
  imports Cobs Crc32
begin

text \<open>
  \<^verbatim>\<open>common/dd008/cdc_mux_protocol.hpp\<close> and \<^verbatim>\<open>.cpp\<close>: the frames of the multiplexed USB
  serial link, their encoding on the wire and the decoder that is fed the wire in any split.
  An enum with a fixed underlying type holds any value of it, so types and channels are
  bytes, and the known ones are named. The decoder's encoded bytes are those it has kept, and
  its callback acts on the object the decoder is part of: a session is a record that extends
  \<open>stream_decoder\<close>.
\<close>

named_theorems cdc_defs \<comment> \<open>the protocol's constants\<close>

section \<open>Frames\<close>

type_synonym frame_type = u8
type_synonym mux_channel = u8

definition type_hello :: frame_type where [cdc_defs]: "type_hello = 0x01"
definition type_hello_ack :: frame_type where [cdc_defs]: "type_hello_ack = 0x02"
definition type_channel_open :: frame_type where [cdc_defs]: "type_channel_open = 0x10"
definition type_channel_close :: frame_type where [cdc_defs]: "type_channel_close = 0x11"
definition type_stream_data :: frame_type where [cdc_defs]: "type_stream_data = 0x12"
definition type_reset :: frame_type where [cdc_defs]: "type_reset = 0x13"
definition type_error :: frame_type where [cdc_defs]: "type_error = 0x14"

definition channel_link :: mux_channel where [cdc_defs]: "channel_link = 0x00"
definition channel_control_status :: mux_channel where [cdc_defs]: "channel_control_status = 0x01"
definition channel_binary_data :: mux_channel where [cdc_defs]: "channel_binary_data = 0x02"
definition channel_provisioning :: mux_channel where [cdc_defs]: "channel_provisioning = 0x03"
definition channel_diagnostic :: mux_channel where [cdc_defs]: "channel_diagnostic = 0x04"

datatype decode_error =
  No_error | Packet_too_large | Malformed_cobs | Frame_too_short | Bad_magic
| Unsupported_version | Unsupported_flags | Length_mismatch | Bad_crc | Unsupported_type
| Unsupported_channel | Invalid_type_channel

record frame_view =
  frame_type :: frame_type
  frame_channel :: mux_channel
  frame_sequence :: u32
  frame_payload :: bytes

record decoded_packet =
  packet_error :: decode_error
  packet_frame :: frame_view

definition no_frame :: frame_view where
  "no_frame = \<lparr>frame_type = 0, frame_channel = 0, frame_sequence = 0, frame_payload = []\<rparr>"

definition packet_valid :: "decoded_packet \<Rightarrow> bool" where
  "packet_valid p \<longleftrightarrow> packet_error p = No_error"

definition bad_packet :: "decode_error \<Rightarrow> decoded_packet" where
  "bad_packet e = \<lparr>packet_error = e, packet_frame = no_frame\<rparr>"

definition good_packet :: "frame_view \<Rightarrow> decoded_packet" where
  "good_packet f = \<lparr>packet_error = No_error, packet_frame = f\<rparr>"

definition protocol_version :: u8 where [cdc_defs]: "protocol_version = 1"
definition header_size :: nat where [cdc_defs]: "header_size = 12"
definition crc_size :: nat where [cdc_defs]: "crc_size = 4"
definition maximum_payload_size :: nat where [cdc_defs]: "maximum_payload_size = 256"
definition maximum_decoded_frame_size :: nat where
  [cdc_defs]: "maximum_decoded_frame_size = header_size + maximum_payload_size + crc_size"
definition maximum_cobs_packet_size :: nat where
  [cdc_defs]: "maximum_cobs_packet_size = maximum_decoded_frame_size + maximum_decoded_frame_size div 254 + 1"
definition maximum_wire_frame_size :: nat where
  [cdc_defs]: "maximum_wire_frame_size = maximum_cobs_packet_size + 1"

definition magic_0 :: u8 where [cdc_defs]: "magic_0 = 0x4D"
definition magic_1 :: u8 where [cdc_defs]: "magic_1 = 0x31"

definition read_u16 :: "bytes \<Rightarrow> nat \<Rightarrow> u16" where
  "read_u16 bs n = ucast (bs ! n) OR push_bit 8 (ucast (bs ! (n + 1)))"

definition read_u32 :: "bytes \<Rightarrow> nat \<Rightarrow> u32" where
  "read_u32 bs n = ucast (bs ! n) OR push_bit 8 (ucast (bs ! (n + 1))) OR
     push_bit 16 (ucast (bs ! (n + 2))) OR push_bit 24 (ucast (bs ! (n + 3)))"

definition write_u16 :: "bytes \<Rightarrow> nat \<Rightarrow> u16 \<Rightarrow> bytes" where
  "write_u16 bs n v = bs[n := ucast (v AND 0xFF), n + 1 := ucast (drop_bit 8 v AND 0xFF)]"

definition write_u32 :: "bytes \<Rightarrow> nat \<Rightarrow> u32 \<Rightarrow> bytes" where
  "write_u32 bs n v = bs[n := ucast (v AND 0xFF), n + 1 := ucast (drop_bit 8 v AND 0xFF),
     n + 2 := ucast (drop_bit 16 v AND 0xFF), n + 3 := ucast (drop_bit 24 v AND 0xFF)]"

definition known_type :: "frame_type \<Rightarrow> bool" where
  "known_type t \<longleftrightarrow> t \<in> {type_hello, type_hello_ack, type_channel_open, type_channel_close,
     type_stream_data, type_reset, type_error}"

definition known_channel :: "mux_channel \<Rightarrow> bool" where
  "known_channel c \<longleftrightarrow> c \<in> {channel_link, channel_control_status, channel_binary_data,
     channel_provisioning, channel_diagnostic}"

definition valid_type_channel :: "frame_type \<Rightarrow> mux_channel \<Rightarrow> nat \<Rightarrow> bool" where
  "valid_type_channel t c n \<longleftrightarrow>
     (if t = type_hello \<or> t = type_hello_ack then c = channel_link \<and> n = 8
      else if t = type_channel_open \<or> t = type_channel_close then c \<noteq> channel_link \<and> n = 0
      else if t = type_stream_data then c \<noteq> channel_link
      else if t = type_reset then c = channel_link \<and> n = 0
      else if t = type_error then c = channel_link \<and> n \<ge> 2
      else False)"

lemma packet_valid_simps [simp]: "packet_valid (good_packet f)" "packet_valid (bad_packet e) \<longleftrightarrow> e = No_error"
  by (simp_all add: packet_valid_def good_packet_def bad_packet_def)

section \<open>CRC-32C\<close>

definition crc32c_bit :: "u32 \<Rightarrow> u32" where
  "crc32c_bit crc = (let m = 0 - (crc AND 1) in drop_bit 1 crc XOR (0x82F63B78 AND m))"

definition crc32c_byte :: "u32 \<Rightarrow> u8 \<Rightarrow> u32" where
  "crc32c_byte crc b = (crc32c_bit ^^ 8) (crc XOR ucast b)"

definition crc32c :: "bytes \<Rightarrow> u32" where
  "crc32c bs = foldl crc32c_byte 0xFFFFFFFF bs XOR 0xFFFFFFFF"

interpretation castagnoli: reflected_crc "0x82F63B78" crc32c_bit
proof unfold_locales
  show "crc32c_bit r = drop_bit 1 r XOR (if bit r 0 then 0x82F63B78 else 0)" for r
  proof (cases "bit r 0")
    case True
    then have "r AND 1 = 1" by (simp add: and_one_eq bit_0 mod_2_eq_odd)
    then show ?thesis using True by (simp add: crc32c_bit_def)
  next
    case False
    then have "r AND 1 = 0" by (simp add: and_one_eq bit_0 mod_2_eq_odd)
    then show ?thesis using False by (simp add: crc32c_bit_def)
  qed
  show "bit (0x82F63B78 :: u32) 31" by (simp add: bit_numeral_rec)
qed

lemma crc32c_byte_step: "crc32c_byte = castagnoli.byte_step"
  by (intro ext) (simp add: crc32c_byte_def castagnoli.byte_step_def)

section \<open>Encoding a frame\<close>

definition invalid_frame :: status where
  [status_defs]: "invalid_frame = \<lparr>code = Invalid_argument, message = ''invalid DD-008 frame type, channel, or payload''\<rparr>"
definition payload_too_large :: status where
  [status_defs]: "payload_too_large = \<lparr>code = Invalid_argument, message = ''DD-008 payload is too large''\<rparr>"
definition wire_too_small :: status where
  [status_defs]: "wire_too_small = \<lparr>code = Buffer_too_small, message = ''DD-008 wire output is too small''\<rparr>"
definition no_delimiter_space :: status where
  [status_defs]: "no_delimiter_space = \<lparr>code = Buffer_too_small, message = ''DD-008 wire output lacks delimiter space''\<rparr>"
definition null_decoder_callback :: status where
  [status_defs]: "null_decoder_callback = \<lparr>code = Invalid_argument, message = ''DD-008 decoder callback is null''\<rparr>"

definition copy_into :: "bytes \<Rightarrow> nat \<Rightarrow> bytes \<Rightarrow> bytes" where
  "copy_into bs n xs = take n bs @ xs @ drop (n + length xs) bs"

text \<open>The frame as \<^verbatim>\<open>encode_cdc_mux_frame()\<close> builds it in its array.\<close>

definition decoded_frame :: "frame_view \<Rightarrow> bytes" where
  "decoded_frame f =
     (let n = length (frame_payload f);
          d = (replicate (header_size + n + crc_size) 0)
                [0 := magic_0, 1 := magic_1, 2 := protocol_version, 3 := frame_type f,
                 4 := frame_channel f, 5 := 0];
          d = write_u16 d 6 (of_nat n);
          d = write_u32 d 8 (frame_sequence f);
          d = copy_into d header_size (frame_payload f)
      in write_u32 d (header_size + n) (crc32c (take (header_size + n) d)))"

definition encode_cdc_mux_frame :: "frame_view \<Rightarrow> bytes \<Rightarrow> (bytes \<times> nat) result" where
  "encode_cdc_mux_frame f output =
     (if \<not> known_type (frame_type f) \<or> \<not> known_channel (frame_channel f) \<or>
         \<not> valid_type_channel (frame_type f) (frame_channel f) (length (frame_payload f))
      then Inl invalid_frame
      else if length (frame_payload f) > maximum_payload_size then Inl payload_too_large
      else if length output < 2 then Inl wire_too_small
      else
        case cobs_encode (decoded_frame f) (take (length output - 1) output) of
          Inl e \<Rightarrow> Inl e
        | Inr (encoded, n) \<Rightarrow>
            let wire = encoded @ drop (length output - 1) output in
            if n \<ge> length wire then Inl no_delimiter_space else Inr (wire[n := 0], n + 1))"

section \<open>Decoding a frame\<close>

definition parse_frame :: "bytes \<Rightarrow> decoded_packet" where
  "parse_frame d =
     (if length d < header_size + crc_size then bad_packet Frame_too_short
      else if d ! 0 \<noteq> magic_0 \<or> d ! 1 \<noteq> magic_1 then bad_packet Bad_magic
      else if d ! 2 \<noteq> protocol_version then bad_packet Unsupported_version
      else if d ! 5 \<noteq> 0 then bad_packet Unsupported_flags
      else
        let n = unat (read_u16 d 6) in
        if n > maximum_payload_size \<or> length d \<noteq> header_size + n + crc_size then bad_packet Length_mismatch
        else if read_u32 d (header_size + n) \<noteq> crc32c (take (header_size + n) d) then bad_packet Bad_crc
        else if \<not> known_type (d ! 3) then bad_packet Unsupported_type
        else if \<not> known_channel (d ! 4) then bad_packet Unsupported_channel
        else if \<not> valid_type_channel (d ! 3) (d ! 4) n then bad_packet Invalid_type_channel
        else good_packet \<lparr>frame_type = d ! 3, frame_channel = d ! 4, frame_sequence = read_u32 d 8,
               frame_payload = take n (drop header_size d)\<rparr>)"

section \<open>The stream decoder\<close>

record decoder_statistics =
  valid_frames :: u32
  empty_packets :: u32
  rejected_packets :: u32
  oversized_packets :: u32

record stream_decoder =
  encoded :: bytes
  statistics :: decoder_statistics
  discarding_oversized :: bool

type_synonym 'm packet_callback =
  "'m stream_decoder_scheme \<Rightarrow> decoded_packet \<Rightarrow> 'm stream_decoder_scheme \<times> status"

definition no_statistics :: decoder_statistics where
  "no_statistics = \<lparr>valid_frames = 0, empty_packets = 0, rejected_packets = 0, oversized_packets = 0\<rparr>"

definition reset_decoder :: "'m stream_decoder_scheme \<Rightarrow> 'm stream_decoder_scheme" where
  "reset_decoder d = d\<lparr>encoded := [], discarding_oversized := False\<rparr>"

definition count_rejected :: "decoder_statistics \<Rightarrow> decoder_statistics" where
  "count_rejected st = st\<lparr>rejected_packets := rejected_packets st + 1\<rparr>"

definition finish_packet ::
    "'m packet_callback \<Rightarrow> 'm stream_decoder_scheme \<Rightarrow> 'm stream_decoder_scheme \<times> status" where
  "finish_packet callback d =
     (if discarding_oversized d then
        let st = count_rejected (statistics d) in
        callback (d\<lparr>discarding_oversized := False, encoded := [],
                    statistics := st\<lparr>oversized_packets := oversized_packets st + 1\<rparr>\<rparr>)
          (bad_packet Packet_too_large)
      else if encoded d = [] then
        (d\<lparr>statistics := (statistics d)\<lparr>empty_packets := empty_packets (statistics d) + 1\<rparr>\<rparr>, success)
      else
        case cobs_decode (encoded d) maximum_decoded_frame_size of
          Inl e \<Rightarrow> callback (d\<lparr>encoded := [], statistics := count_rejected (statistics d)\<rparr>)
                     (bad_packet Malformed_cobs)
        | Inr decoded \<Rightarrow>
            let packet = parse_frame decoded; st = statistics d in
            callback (d\<lparr>encoded := [],
                statistics := (if packet_valid packet then st\<lparr>valid_frames := valid_frames st + 1\<rparr>
                               else count_rejected st)\<rparr>) packet)"

definition ingest_byte ::
    "'m packet_callback \<Rightarrow> 'm stream_decoder_scheme \<Rightarrow> u8 \<Rightarrow> 'm stream_decoder_scheme \<times> status" where
  "ingest_byte callback d b =
     (if b = 0 then finish_packet callback d
      else if discarding_oversized d then (d, success)
      else if length (encoded d) = maximum_cobs_packet_size
      then (d\<lparr>discarding_oversized := True, encoded := []\<rparr>, success)
      else (d\<lparr>encoded := encoded d @ [b]\<rparr>, success))"

fun ingest_bytes ::
    "'m packet_callback \<Rightarrow> 'm stream_decoder_scheme \<Rightarrow> bytes \<Rightarrow> 'm stream_decoder_scheme \<times> status" where
  "ingest_bytes callback d [] = (d, success)"
| "ingest_bytes callback d (b # bs) =
     (case ingest_byte callback d b of
        (d', st) \<Rightarrow> if is_ok st then ingest_bytes callback d' bs else (d', st))"

definition ingest ::
    "'m stream_decoder_scheme \<Rightarrow> bytes \<Rightarrow> 'm packet_callback option \<Rightarrow> 'm stream_decoder_scheme \<times> status" where
  "ingest d bs callback =
     (case callback of
        None \<Rightarrow> (d, null_decoder_callback)
      | Some cb \<Rightarrow> ingest_bytes cb d bs)"

interpretation wire: fallible_incremental "ingest_byte callback" "ingest_bytes callback" for callback
  by unfold_locales simp_all


section \<open>What a frame is on the wire\<close>

definition frame_header :: "frame_view \<Rightarrow> bytes" where
  "frame_header f = [magic_0, magic_1, protocol_version, frame_type f, frame_channel f, 0] @
     le_bytes16 (of_nat (length (frame_payload f))) @ le_bytes32 (frame_sequence f)"

definition frame_ok :: "frame_view \<Rightarrow> bool" where
  "frame_ok f \<longleftrightarrow> known_type (frame_type f) \<and> known_channel (frame_channel f) \<and>
     valid_type_channel (frame_type f) (frame_channel f) (length (frame_payload f)) \<and>
     length (frame_payload f) \<le> 256"

lemma low_byte: "ucast ((v :: 'a::len word) AND 0xFF) = (ucast v :: u8)"
  by (rule bit_word_eqI) (auto simp: bit_simps and_255_take_bit dest: bit_imp_le_length)

lemma length_header [simp]: "length (frame_header f) = 12"
  by (simp add: frame_header_def)

lemma write_u16_bytes: "n = length pre \<Longrightarrow> write_u16 (pre @ a # b # post) n v = pre @ le_bytes16 v @ post"
  by (simp add: write_u16_def le_bytes16_def byte_of_def low_byte list_update_append)

lemma write_u32_bytes:
  "n = length pre \<Longrightarrow> write_u32 (pre @ a # b # c # d # post) n v = pre @ le_bytes32 v @ post"
  by (simp add: write_u32_def le_bytes32_def byte_of_def low_byte list_update_append)

lemma read_u16_bytes: "n = length pre \<Longrightarrow> read_u16 (pre @ le_bytes16 v @ post) n = v"
  using le16_bytes [of v] by (simp add: read_u16_def le_bytes16_def nth_append)

lemma read_u32_bytes: "n = length pre \<Longrightarrow> read_u32 (pre @ le_bytes32 v @ post) n = v"
  using le32_bytes [of v] by (simp add: read_u32_def le_bytes32_def nth_append)

lemma decoded_frame_bytes:
  "decoded_frame f = frame_header f @ frame_payload f @
     le_bytes32 (crc32c (frame_header f @ frame_payload f))"
proof -
  let ?p = "frame_payload f" let ?n = "length ?p"
  let ?h = "[magic_0, magic_1, protocol_version, frame_type f, frame_channel f, 0]"
  have zeros: "replicate (12 + ?n + 4) 0 = [0, 0, 0, 0, 0, 0 :: u8] @ [0, 0, 0, 0, 0, 0] @ replicate (?n + 4) 0"
    by (simp add: numeral_eq_Suc)
  have 1: "(replicate (12 + ?n + 4) 0)[0 := magic_0, 1 := magic_1, 2 := protocol_version,
      3 := frame_type f, 4 := frame_channel f, 5 := 0] = ?h @ 0 # 0 # [0, 0, 0, 0] @ replicate (?n + 4) 0"
    unfolding zeros by simp
  have 2: "write_u16 (?h @ 0 # 0 # [0, 0, 0, 0] @ replicate (?n + 4) 0) 6 (of_nat ?n) =
      (?h @ le_bytes16 (of_nat ?n)) @ 0 # 0 # 0 # 0 # replicate (?n + 4) 0"
    using write_u16_bytes [of 6 ?h 0 0 "[0, 0, 0, 0] @ replicate (?n + 4) 0"] by simp
  have 3: "write_u32 ((?h @ le_bytes16 (of_nat ?n)) @ 0 # 0 # 0 # 0 # replicate (?n + 4) 0) 8 (frame_sequence f) =
      frame_header f @ replicate (?n + 4) 0"
    using write_u32_bytes [of 8 "?h @ le_bytes16 (of_nat ?n)" 0 0 0 0 "replicate (?n + 4) 0"]
    by (simp add: frame_header_def)
  have 4: "copy_into (frame_header f @ replicate (?n + 4) 0) 12 ?p =
      (frame_header f @ ?p) @ 0 # 0 # 0 # 0 # []"
  proof -
    have "replicate (?n + 4) 0 = replicate ?n 0 @ [0, 0, 0, 0 :: u8]"
      unfolding replicate_add by (simp add: numeral_eq_Suc)
    then show ?thesis by (simp add: copy_into_def)
  qed
  have 5: "write_u32 ((frame_header f @ ?p) @ 0 # 0 # 0 # 0 # []) (12 + ?n) v =
      frame_header f @ ?p @ le_bytes32 v" for v
    using write_u32_bytes [of "12 + ?n" "frame_header f @ ?p" 0 0 0 0 "[]"] by simp
  have 6: "take (12 + ?n) ((frame_header f @ ?p) @ xs) = frame_header f @ ?p" for xs by simp
  show ?thesis
    unfolding decoded_frame_def Let_def header_size_def crc_size_def 1 2 3 4 6 by (rule 5)
qed

lemma parse_decoded_frame: "frame_ok f \<Longrightarrow> parse_frame (decoded_frame f) = good_packet f"
proof -
  assume ok: "frame_ok f"
  let ?p = "frame_payload f" let ?d = "decoded_frame f"
  have d: "?d = [magic_0, magic_1, protocol_version, frame_type f, frame_channel f, 0] @
     le_bytes16 (of_nat (length ?p)) @ le_bytes32 (frame_sequence f) @ ?p @ le_bytes32 (crc32c (frame_header f @ ?p))"
    by (simp add: decoded_frame_bytes frame_header_def)
  have nths: "?d ! 0 = magic_0" "?d ! 1 = magic_1" "?d ! 2 = protocol_version" "?d ! 3 = frame_type f"
    "?d ! 4 = frame_channel f" "?d ! 5 = 0"
    by (simp_all add: d)
  have n: "unat (read_u16 ?d 6) = length ?p"
    using read_u16_bytes [of 6 "[magic_0, magic_1, protocol_version, frame_type f, frame_channel f, 0]"] ok
    by (simp add: d frame_ok_def unat_of_nat)
  have seq: "read_u32 ?d 8 = frame_sequence f"
    using read_u32_bytes [of 8 "[magic_0, magic_1, protocol_version, frame_type f, frame_channel f, 0] @
      le_bytes16 (of_nat (length ?p))"] by (simp add: d)
  have crc: "read_u32 ?d (12 + length ?p) = crc32c (take (12 + length ?p) ?d)"
    using read_u32_bytes [of "12 + length ?p" "frame_header f @ ?p" _ "[]"] by (simp add: decoded_frame_bytes)
  have payload: "take (length ?p) (drop 12 ?d) = ?p" by (simp add: decoded_frame_bytes)
  have len: "length ?d = 12 + length ?p + 4" by (simp add: decoded_frame_bytes)
  have f: "\<lparr>frame_type = frame_type f, frame_channel = frame_channel f,
      frame_sequence = frame_sequence f, frame_payload = ?p\<rparr> = f" by simp
  show ?thesis
    unfolding parse_frame_def Let_def header_size_def crc_size_def n seq nths maximum_payload_size_def
    using ok by (simp add: len crc payload f frame_ok_def)
qed


text \<open>The bytes of a frame on the wire: its stuffing and the delimiter.\<close>

definition frame_wire :: "frame_view \<Rightarrow> bytes" where
  "frame_wire f = stuffed [] (decoded_frame f) @ [0]"

lemma length_decoded_frame: "length (decoded_frame f) = length (frame_payload f) + 16"
  by (simp add: decoded_frame_bytes)

lemma frame_packet_fits:
  assumes "frame_ok f"
  shows "length (stuffed [] (decoded_frame f)) \<le> 274"
proof -
  have len: "length (decoded_frame f) \<le> 272" using assms by (simp add: length_decoded_frame frame_ok_def)
  then have "length (decoded_frame f) div 254 \<le> 272 div 254" by (rule div_le_mono)
  then show ?thesis using stuffed_length [of "[]" "decoded_frame f"] len by simp
qed

lemma frame_packet_no_zero: "0 \<notin> set (stuffed [] (decoded_frame f))"
  by (rule stuffed_no_zero) simp_all

lemma frame_packet_decodes:
  assumes "frame_ok f"
  shows "cobs_decode (stuffed [] (decoded_frame f)) maximum_decoded_frame_size = Inr (decoded_frame f)"
  using decode_stuffed [of "[]" "[]" "decoded_frame f" maximum_decoded_frame_size] assms
  by (simp add: cobs_decode_def length_decoded_frame frame_ok_def cdc_defs)

lemma encode_frame_written:
  assumes ok: "frame_ok f" and room: "length (frame_wire f) \<le> length buffer"
  shows "\<exists>out. encode_cdc_mux_frame f buffer = Inr (out, length (frame_wire f)) \<and>
    take (length (frame_wire f)) out = frame_wire f \<and> length out = length buffer"
proof -
  let ?e = "stuffed [] (decoded_frame f)" and ?room = "take (length buffer - 1) buffer"
  have len: "2 \<le> length buffer" "length ?e \<le> length buffer - 1"
    using room by (simp_all add: frame_wire_def) (metis Suc_le_mono Suc_leI length_greater_0_conv le_trans numeral_2_eq_2 stuffed_not_Nil)
  then have "buffer \<noteq> []" by (intro notI) simp
  then have "encodes_to ?e (length buffer - 1) (cobs_encode (decoded_frame f) ?room)"
    using cobs_encode_stuffed [of ?room "decoded_frame f"] len(1) by auto
  then obtain out where out: "cobs_encode (decoded_frame f) ?room = Inr (out, length ?e)"
    "take (length ?e) out = ?e" "length out = length buffer - 1"
    using len(2) by (auto simp: encodes_to_def)
  let ?w = "out @ drop (length buffer - 1) buffer"
  have w: "length ?w = length buffer" "length ?e < length ?w" "take (length ?e) ?w = ?e"
    using out len by simp_all
  then have "take (length ?e + 1) (?w[length ?e := 0]) = frame_wire f"
    by (simp add: take_Suc_conv_app_nth frame_wire_def del: list_update_append)
  moreover have "encode_cdc_mux_frame f buffer = Inr (?w[length ?e := 0], length ?e + 1)"
    using ok len(1) out w(2) by (simp add: encode_cdc_mux_frame_def frame_ok_def cdc_defs Let_def del: list_update_append)
  ultimately show ?thesis using w(1) by (simp add: frame_wire_def)
qed

lemma encode_frame_refused:
  assumes "\<not> frame_ok f \<or> length buffer < length (frame_wire f)"
  shows "\<exists>e. encode_cdc_mux_frame f buffer = Inl e \<and> \<not> is_ok e"
proof -
  have not_ok: "\<not> is_ok invalid_frame" "\<not> is_ok payload_too_large" "\<not> is_ok wire_too_small"
    "\<not> is_ok cobs_too_small"
    by (simp_all add: status_defs is_ok_def)
  consider (bad) "\<not> frame_ok f" | (small) "length buffer < 2"
    | (run) "frame_ok f" "2 \<le> length buffer" "length buffer < length (frame_wire f)"
    using assms by linarith
  then show ?thesis
  proof cases
    case run
    let ?e = "stuffed [] (decoded_frame f)" and ?room = "take (length buffer - 1) buffer"
    have "buffer \<noteq> []" using run(2) by (intro notI) simp
    then have "encodes_to ?e (length buffer - 1) (cobs_encode (decoded_frame f) ?room)"
      using cobs_encode_stuffed [of ?room "decoded_frame f"] run(2) by auto
    then have "cobs_encode (decoded_frame f) ?room = Inl cobs_too_small"
      using run(2,3) by (simp add: encodes_to_def frame_wire_def)
    then show ?thesis using run not_ok by (simp add: encode_cdc_mux_frame_def frame_ok_def cdc_defs)
  qed (use not_ok in \<open>auto simp: encode_cdc_mux_frame_def frame_ok_def cdc_defs\<close>)
qed

text \<open>
  C24. A frame is encoded exactly when its type, channel and payload agree and the buffer holds
  its wire form; then the bytes written are that form: the stuffed frame, with no zero in it,
  and one delimiter, never more than the 275 the callers provide. Every refusal is an error.
\<close>

theorem encode_writes_wire:
  "case encode_cdc_mux_frame f buffer of
     Inr (out, n) \<Rightarrow> frame_ok f \<and> n = length (frame_wire f) \<and> n \<le> min (length buffer) maximum_wire_frame_size \<and>
       take n out = frame_wire f \<and> length out = length buffer \<and> 0 \<notin> set (butlast (frame_wire f))
   | Inl e \<Rightarrow> \<not> is_ok e \<and> \<not> (frame_ok f \<and> length (frame_wire f) \<le> length buffer)"
proof (cases "frame_ok f \<and> length (frame_wire f) \<le> length buffer")
  case True
  then show ?thesis
    using encode_frame_written [of f buffer] frame_packet_fits [of f] frame_packet_no_zero [of f]
    by (auto simp: frame_wire_def cdc_defs)
next
  case False
  then show ?thesis using encode_frame_refused [of f buffer] by auto
qed

section \<open>The decoder delivers the frames\<close>

lemma ingest_block:
  assumes "0 \<notin> set bs" and "\<not> discarding_oversized d" and "length (encoded d) + length bs \<le> 274"
  shows "ingest_bytes callback d (bs @ rest) = ingest_bytes callback (d\<lparr>encoded := encoded d @ bs\<rparr>) rest"
  using assms
proof (induction bs arbitrary: d)
  case Nil
  then show ?case by simp
next
  case (Cons b bs)
  have "ingest_byte callback d b = (d\<lparr>encoded := encoded d @ [b]\<rparr>, success)"
    using Cons.prems by (auto simp: ingest_byte_def cdc_defs)
  then show ?case using Cons.IH [of "d\<lparr>encoded := encoded d @ [b]\<rparr>"] Cons.prems by simp
qed

definition between_packets :: "'m stream_decoder_scheme \<Rightarrow> bool" where
  "between_packets d \<longleftrightarrow> encoded d = [] \<and> \<not> discarding_oversized d"

definition count_valid :: "'m stream_decoder_scheme \<Rightarrow> 'm stream_decoder_scheme" where
  "count_valid d = d\<lparr>statistics := (statistics d)\<lparr>valid_frames := valid_frames (statistics d) + 1\<rparr>\<rparr>"

lemma ingest_frame:
  assumes "frame_ok f" and "between_packets d"
  shows "ingest_bytes callback d (frame_wire f @ rest) =
    (case callback (count_valid d) (good_packet f) of
       (d', st) \<Rightarrow> if is_ok st then ingest_bytes callback d' rest else (d', st))"
proof -
  let ?e = "stuffed [] (decoded_frame f)"
  have d: "encoded d = []" "\<not> discarding_oversized d" using assms(2) by (simp_all add: between_packets_def)
  have "ingest_bytes callback d (frame_wire f @ rest) = ingest_bytes callback (d\<lparr>encoded := ?e\<rparr>) (0 # rest)"
    using ingest_block [of ?e d callback "0 # rest"] frame_packet_no_zero frame_packet_fits [OF assms(1)] d
    by (simp add: frame_wire_def)
  moreover have "finish_packet callback (d\<lparr>encoded := ?e\<rparr>) = callback (count_valid d) (good_packet f)"
  proof -
    have same: "d\<lparr>encoded := []\<rparr> = d" using d(1) by (cases d) simp
    show ?thesis
      using d frame_packet_decodes [OF assms(1)] parse_decoded_frame [OF assms(1)]
      by (simp add: finish_packet_def Let_def count_valid_def same)
  qed
  ultimately show ?thesis by (simp add: ingest_byte_def)
qed

text \<open>A decoder whose callback writes the packets down.\<close>

record frame_log = stream_decoder +
  packets :: "decoded_packet list"

definition log_packet :: "frame_log \<Rightarrow> decoded_packet \<Rightarrow> frame_log \<times> status" where
  "log_packet d p = (d\<lparr>packets := packets d @ [p]\<rparr>, success)"

definition ingest_logged :: "frame_log \<Rightarrow> bytes \<Rightarrow> frame_log" where
  "ingest_logged d bs = fst (ingest d bs (Some log_packet))"

lemma log_finish:
  "\<exists>d' seen. finish_packet log_packet d = (d', success) \<and> between_packets d' \<and> packets d' = packets d @ seen \<and>
     length seen \<le> 1 \<and> (between_packets d \<longrightarrow> seen = [])"
proof -
  have "between_packets d \<or> encoded d \<noteq> [] \<or> discarding_oversized d" by (auto simp: between_packets_def)
  then show ?thesis
    by (cases "cobs_decode (encoded d) maximum_decoded_frame_size")
      (auto simp: finish_packet_def log_packet_def between_packets_def Let_def)
qed

lemma log_byte:
  "\<exists>d' seen. ingest_byte log_packet d b = (d', success) \<and> packets d' = packets d @ seen \<and>
     length seen \<le> (if b = 0 then 1 else 0) \<and> (b = 0 \<longrightarrow> between_packets d' \<and> (between_packets d \<longrightarrow> seen = []))"
  using log_finish [of d] by (auto simp: ingest_byte_def)

lemma log_bytes:
  "\<exists>d' seen. ingest_bytes log_packet d bs = (d', success) \<and> packets d' = packets d @ seen \<and>
     length seen \<le> length (filter (\<lambda>b. b = 0) bs)"
proof (induction bs arbitrary: d)
  case Nil
  then show ?case by simp
next
  case (Cons b bs)
  obtain d1 s1 where b: "ingest_byte log_packet d b = (d1, success)" "packets d1 = packets d @ s1"
    "length s1 \<le> (if b = 0 then 1 else 0)"
    using log_byte [of d b] by blast
  obtain d2 s2 where bs: "ingest_bytes log_packet d1 bs = (d2, success)" "packets d2 = packets d1 @ s2"
    "length s2 \<le> length (filter (\<lambda>b. b = 0) bs)"
    using Cons.IH by blast
  show ?case using b bs by (intro exI [of _ d2] exI [of _ "s1 @ s2"]) (auto split: if_splits)
qed

lemma log_pieces: "foldl ingest_logged d chunks = fst (ingest_bytes log_packet d (concat chunks))"
proof -
  have "is_ok (snd (ingest_bytes log_packet d (concat chunks)))"
    using log_bytes [of d "concat chunks"] by auto
  then show ?thesis
    using wire.run_pieces [of log_packet d chunks] by (simp add: ingest_logged_def [abs_def] ingest_def)
qed

lemma log_frames:
  "list_all frame_ok fs \<Longrightarrow> between_packets d \<Longrightarrow>
     packets (fst (ingest_bytes log_packet d (concat (map frame_wire fs)))) = packets d @ map good_packet fs"
proof (induction fs arbitrary: d)
  case Nil
  then show ?case by simp
next
  case (Cons f fs)
  then show ?case
    using Cons.IH [of "fst (log_packet (count_valid d) (good_packet f))"]
    by (simp add: ingest_frame log_packet_def count_valid_def between_packets_def)
qed

text \<open>
  C11. The stream decoder, fed in any split, synchronises at the first delimiter: whatever it
  held and whatever came before that delimiter, it hands over every following well-formed frame,
  unchanged and in order, after at most one packet for each delimiter of what came before.
\<close>

theorem decoder_resynchronises:
  assumes "list_all frame_ok fs" and "concat chunks = junk @ 0 # concat (map frame_wire fs)"
  shows "\<exists>seen. packets (foldl ingest_logged d chunks) = packets d @ seen @ map good_packet fs \<and>
    length seen \<le> length (filter (\<lambda>b. b = 0) junk) + 1 \<and>
    (between_packets d \<and> junk = [] \<longrightarrow> seen = [])"
proof -
  obtain d1 s1 where junk: "ingest_bytes log_packet d junk = (d1, success)" "packets d1 = packets d @ s1"
    "length s1 \<le> length (filter (\<lambda>b. b = 0) junk)"
    using log_bytes by blast
  obtain d2 s2 where zero: "ingest_byte log_packet d1 0 = (d2, success)" "packets d2 = packets d1 @ s2"
    "length s2 \<le> 1" "between_packets d2" "between_packets d1 \<longrightarrow> s2 = []"
    using log_byte [of d1 0] by auto
  have "packets (foldl ingest_logged d chunks) = packets d2 @ map good_packet fs"
    using junk(1) zero(1) log_frames [OF assms(1) zero(4)]
    by (simp add: log_pieces assms(2) wire.run_append)
  moreover have "d1 = d \<and> s1 = []" if "junk = []" using junk that by simp
  ultimately show ?thesis using junk(2,3) zero(2,3,5) by (intro exI [of _ "s1 @ s2"]) auto
qed

section \<open>Corruption\<close>

lemma read_u32_word: "n + 3 < length bs \<Longrightarrow> read_u32 bs n = le_word (take 4 (drop n bs))"
proof -
  assume n: "n + 3 < length bs"
  have four: "take 4 (drop n bs) = [bs ! n, bs ! (n + 1), bs ! (n + 2), bs ! (n + 3)]"
    using n by (simp add: take_Suc_conv_app_nth numeral_eq_Suc Cons_nth_drop_Suc)
  show ?thesis unfolding four read_u32_def
    by (rule bit_word_eqI) (auto simp: bit_simps dest: bit_imp_le_length)
qed

lemma accepted_residue:
  assumes "packet_valid (parse_frame d)"
  shows "foldl castagnoli.byte_step 0xFFFFFFFF d = (crc32c_bit ^^ 32) 0xFFFFFFFF"
proof -
  define n where "n = 12 + unat (read_u16 d 6)"
  have len: "length d = n + 4" and crc: "read_u32 d n = crc32c (take n d)"
    using assms by (simp_all add: parse_frame_def Let_def n_def cdc_defs split: if_splits)
  let ?s = "foldl castagnoli.byte_step 0xFFFFFFFF (take n d)"
  have "le_word (drop n d) = ?s XOR 0xFFFFFFFF"
    using read_u32_word [of n d] len crc by (simp add: crc32c_def crc32c_byte_step)
  moreover have "foldl castagnoli.byte_step ?s (drop n d) = (crc32c_bit ^^ 32) (?s XOR le_word (drop n d))"
    using castagnoli.run_as_word [of "drop n d" ?s] len by simp
  moreover have "?s XOR (?s XOR 0xFFFFFFFF) = 0xFFFFFFFF" by (simp flip: xor.assoc)
  ultimately have "foldl castagnoli.byte_step 0xFFFFFFFF (take n d @ drop n d) = (crc32c_bit ^^ 32) 0xFFFFFFFF"
    by (simp only: foldl_append)
  then show ?thesis by simp
qed

text \<open>
  C31. Of two decoded packets of the same length that differ only within four consecutive
  bytes, wherever they lie (header, payload or the CRC itself), the decoder accepts at most
  one.
\<close>

theorem burst_never_accepted:
  assumes "packet_valid (parse_frame (pre @ bs @ post))" and "length bs = length bs'"
    and "length bs \<le> 4" and "bs \<noteq> bs'"
  shows "\<not> packet_valid (parse_frame (pre @ bs' @ post))"
  using assms accepted_residue castagnoli.burst_detected [of bs bs' "0xFFFFFFFF" pre post] by metis


section \<open>Witnesses\<close>

definition example_frame :: frame_view where
  "example_frame = \<lparr>frame_type = type_stream_data, frame_channel = channel_binary_data,
     frame_sequence = 7, frame_payload = [0, 1, 0xFF]\<rparr>"

lemma example_frame_ok: "frame_ok example_frame"
  by (simp add: frame_ok_def example_frame_def known_type_def known_channel_def valid_type_channel_def cdc_defs)

definition empty_log :: frame_log where
  "empty_log = \<lparr>encoded = [], statistics = no_statistics, discarding_oversized = False, packets = []\<rparr>"

lemma decoder_resynchronises_witness:
  "\<exists>seen. packets (foldl ingest_logged empty_log
       [[5, 0, 9], 0 # take 4 (frame_wire example_frame), drop 4 (frame_wire example_frame)]) =
     seen @ [good_packet example_frame] \<and> length seen \<le> 2"
  using decoder_resynchronises [of "[example_frame]"
      "[[5, 0, 9], 0 # take 4 (frame_wire example_frame), drop 4 (frame_wire example_frame)]" "[5, 0, 9]" empty_log]
  by (auto simp: example_frame_ok empty_log_def)

lemma burst_never_accepted_witness:
  "\<not> packet_valid (parse_frame (take 12 (decoded_frame example_frame) @ [1] @ drop 13 (decoded_frame example_frame)))"
proof -
  have d: "decoded_frame example_frame =
      take 12 (decoded_frame example_frame) @ [0] @ drop 13 (decoded_frame example_frame)"
    by (simp add: decoded_frame_bytes example_frame_def frame_header_def le_bytes16_def le_bytes32_def)
  have "packet_valid (parse_frame (take 12 (decoded_frame example_frame) @ [0] @ drop 13 (decoded_frame example_frame)))"
    by (simp only: d [symmetric] parse_decoded_frame [OF example_frame_ok] packet_valid_simps)
  from burst_never_accepted [OF this, of "[1]"] show ?thesis by simp
qed

end
