(* ===== verification/MuxSession.thy ===== *)
theory MuxSession
  imports CdcMuxProtocol
begin

text \<open>
  \<^verbatim>\<open>common/dd008/cdc_mux_session.hpp\<close> and \<^verbatim>\<open>.cpp\<close>: the two ends of the multiplexed link. A
  session is its decoder, extended by its own state; what the code of both ends has in common
  is defined once, on \<open>mux_session\<close>. The callbacks are functions of the owner's context, which
  they return updated; a session is used after \<^verbatim>\<open>initialize()\<close>, with the callbacks given
  there. Callbacks do not call the session back.
\<close>

section \<open>Sessions\<close>

record 'w mux_callbacks =
  wire_writer :: "'w \<Rightarrow> bytes \<Rightarrow> 'w \<times> status"
  data_callback :: "'w \<Rightarrow> mux_channel \<Rightarrow> bytes \<Rightarrow> 'w \<times> status"
  state_callback :: "'w \<Rightarrow> mux_channel \<Rightarrow> bool \<Rightarrow> 'w \<times> status"
  link_state_callback :: "'w \<Rightarrow> bool \<Rightarrow> 'w"

record 'w mux_session = stream_decoder +
  callback_context :: 'w
  channels :: "bool list"
  next_transmit_sequence :: u32
  expected_receive_sequence :: u32
  negotiated_payload_size :: u16
  session_initialized :: bool
  established :: bool

record 'w host_session = "'w mux_session" +
  handshake_pending :: bool
  last_peer_error :: u16

type_synonym 'w device_session = "'w mux_session"

definition control_status_capability :: u32 where [cdc_defs]: "control_status_capability = push_bit 0 1"
definition binary_data_capability :: u32 where [cdc_defs]: "binary_data_capability = push_bit 1 1"
definition mandatory_capabilities :: u32 where
  [cdc_defs]: "mandatory_capabilities = control_status_capability OR binary_data_capability"

definition error_bad_crc :: u16 where [cdc_defs]: "error_bad_crc = 2"
definition error_unsupported_version :: u16 where [cdc_defs]: "error_unsupported_version = 3"
definition error_oversize :: u16 where [cdc_defs]: "error_oversize = 4"
definition error_sequence :: u16 where [cdc_defs]: "error_sequence = 5"
definition error_unsupported_type :: u16 where [cdc_defs]: "error_unsupported_type = 6"
definition error_unsupported_channel :: u16 where [cdc_defs]: "error_unsupported_channel = 7"
definition error_channel_closed :: u16 where [cdc_defs]: "error_channel_closed = 8"
definition error_service_unavailable :: u16 where [cdc_defs]: "error_service_unavailable = 10"

definition decode_error_code :: "decode_error \<Rightarrow> u16" where
  "decode_error_code e =
     (case e of
        Bad_crc \<Rightarrow> error_bad_crc
      | Unsupported_version \<Rightarrow> error_unsupported_version
      | Packet_too_large \<Rightarrow> error_oversize
      | Length_mismatch \<Rightarrow> error_oversize
      | Unsupported_type \<Rightarrow> error_unsupported_type
      | Unsupported_channel \<Rightarrow> error_unsupported_channel
      | Invalid_type_channel \<Rightarrow> error_unsupported_channel
      | No_error \<Rightarrow> 0 | Malformed_cobs \<Rightarrow> 0 | Frame_too_short \<Rightarrow> 0 | Bad_magic \<Rightarrow> 0
      | Unsupported_flags \<Rightarrow> 0)"

definition application_channel :: "mux_channel \<Rightarrow> bool" where
  "application_channel c \<longleftrightarrow> c = channel_control_status \<or> c = channel_binary_data"

definition channel_is_open :: "('w, 'm) mux_session_scheme \<Rightarrow> mux_channel \<Rightarrow> bool" where
  "channel_is_open s c \<longleftrightarrow> unat c < length (channels s) \<and> channels s ! unat c"

definition send_frame :: "'w mux_callbacks \<Rightarrow> ('w, 'm) mux_session_scheme \<Rightarrow> frame_type \<Rightarrow> mux_channel \<Rightarrow>
    u32 \<Rightarrow> bytes \<Rightarrow> ('w, 'm) mux_session_scheme \<times> status" where
  "send_frame cb s t c q payload =
     (case encode_cdc_mux_frame
         \<lparr>frame_type = t, frame_channel = c, frame_sequence = q, frame_payload = payload\<rparr>
         (replicate maximum_wire_frame_size 0) of
        Inl e \<Rightarrow> (s, e)
      | Inr (wire, n) \<Rightarrow>
          (case wire_writer cb (callback_context s) (take n wire) of
             (w, st) \<Rightarrow> (s\<lparr>callback_context := w\<rparr>, st)))"

definition sent_one :: "('w, 'm) mux_session_scheme \<Rightarrow> ('w, 'm) mux_session_scheme" where
  "sent_one s = s\<lparr>next_transmit_sequence := next_transmit_sequence s + 1\<rparr>"

text \<open>The loop of \<^verbatim>\<open>send_stream()\<close> over what is left to send. With a limit of zero it would
  not end.\<close>

partial_function (option) send_chunks :: "'w mux_callbacks \<Rightarrow> mux_channel \<Rightarrow> nat \<Rightarrow> bytes \<Rightarrow>
    ('w, 'm) mux_session_scheme \<Rightarrow> (('w, 'm) mux_session_scheme \<times> status) option" where
  "send_chunks cb c most rest s =
     (if rest = [] then Some (s, success)
      else
        let chunk_size = min most (length rest);
            sent = send_frame cb s type_stream_data c (next_transmit_sequence s) (take chunk_size rest)
        in if \<not> is_ok (snd sent) then Some sent
           else send_chunks cb c most (drop chunk_size rest) (sent_one (fst sent)))"

definition send_stream :: "status \<Rightarrow> 'w mux_callbacks \<Rightarrow> ('w, 'm) mux_session_scheme \<Rightarrow> mux_channel \<Rightarrow> bytes \<Rightarrow>
    (('w, 'm) mux_session_scheme \<times> status) option" where
  "send_stream closed cb s c bs =
     (if \<not> established s \<or> \<not> channel_is_open s c then Some (s, closed)
      else send_chunks cb c (unat (negotiated_payload_size s)) bs s)"

definition set_channel :: "('w, 'm) mux_session_scheme \<Rightarrow> nat \<Rightarrow> bool \<Rightarrow> ('w, 'm) mux_session_scheme" where
  "set_channel s index opened = s\<lparr>channels := (channels s)[index := opened]\<rparr>"

definition tell_channel :: "'w mux_callbacks \<Rightarrow> ('w, 'm) mux_session_scheme \<Rightarrow> mux_channel \<Rightarrow> bool \<Rightarrow>
    ('w, 'm) mux_session_scheme \<times> status" where
  "tell_channel cb s c opened =
     (case state_callback cb (callback_context s) c opened of (w, st) \<Rightarrow> (s\<lparr>callback_context := w\<rparr>, st))"

definition deliver :: "'w mux_callbacks \<Rightarrow> ('w, 'm) mux_session_scheme \<Rightarrow> mux_channel \<Rightarrow> bytes \<Rightarrow>
    ('w, 'm) mux_session_scheme \<times> status" where
  "deliver cb s c bs =
     (case data_callback cb (callback_context s) c bs of (w, st) \<Rightarrow> (s\<lparr>callback_context := w\<rparr>, st))"

definition clear_channel :: "'w mux_callbacks \<Rightarrow> nat \<Rightarrow> ('w, 'm) mux_session_scheme \<Rightarrow> ('w, 'm) mux_session_scheme" where
  "clear_channel cb index s =
     (if channels s ! index then fst (tell_channel cb (set_channel s index False) (of_nat index) False) else s)"

definition clear_channels :: "'w mux_callbacks \<Rightarrow> ('w, 'm) mux_session_scheme \<Rightarrow> ('w, 'm) mux_session_scheme" where
  "clear_channels cb s = fold (clear_channel cb) [1..<length (channels s)] s"

text \<open>The change of a channel that both ends make, and take back when the owner refuses it.\<close>

definition change_channel :: "'w mux_callbacks \<Rightarrow> ('w, 'm) mux_session_scheme \<Rightarrow> mux_channel \<Rightarrow> bool \<Rightarrow>
    ('w, 'm) mux_session_scheme \<times> status" where
  "change_channel cb s c opened =
     (case tell_channel cb (set_channel s (unat c) opened) c opened of
        (s', st) \<Rightarrow> (if is_ok st then s' else set_channel s' (unat c) (\<not> opened), st))"

section \<open>The host's end\<close>

definition host_init_refused :: status where
  [status_defs]: "host_init_refused = \<lparr>code = Invalid_argument, message = ''invalid or repeated CDC mux host-session initialization''\<rparr>"
definition host_not_initialized :: status where
  [status_defs]: "host_not_initialized = \<lparr>code = Invalid_argument, message = ''CDC mux host session is not initialized''\<rparr>"
definition host_cannot_open :: status where
  [status_defs]: "host_cannot_open = \<lparr>code = Invalid_argument, message = ''CDC mux channel cannot be opened in the current session''\<rparr>"
definition host_cannot_close :: status where
  [status_defs]: "host_cannot_close = \<lparr>code = Invalid_argument, message = ''CDC mux channel cannot be closed in the current session''\<rparr>"
definition host_channel_closed :: status where
  [status_defs]: "host_channel_closed = \<lparr>code = Unavailable, message = ''CDC mux host channel is closed''\<rparr>"
definition handshake_refused :: status where
  [status_defs]: "handshake_refused = \<lparr>code = Invalid_configuration, message = ''CDC mux device rejected or malformed the handshake''\<rparr>"
definition sequence_mismatch :: status where
  [status_defs]: "sequence_mismatch = \<lparr>code = Io_error, message = ''CDC mux host receive sequence mismatch''\<rparr>"
definition closed_channel_written :: status where
  [status_defs]: "closed_channel_written = \<lparr>code = Io_error, message = ''CDC mux device wrote a closed host channel''\<rparr>"
definition unexpected_device_frame :: status where
  [status_defs]: "unexpected_device_frame = \<lparr>code = Io_error, message = ''unexpected CDC mux device frame''\<rparr>"
definition channel_index_invalid :: status where
  [status_defs]: "channel_index_invalid = \<lparr>code = Invalid_argument, message = ''CDC mux channel index is invalid''\<rparr>"

definition fresh_device :: "'w \<Rightarrow> 'w device_session" where
  "fresh_device w = \<lparr>encoded = [], statistics = no_statistics, discarding_oversized = False,
     callback_context = w, channels = replicate 5 False, next_transmit_sequence = 1,
     expected_receive_sequence = 1, negotiated_payload_size = 0, session_initialized = False,
     established = False\<rparr>"

definition fresh_host :: "'w \<Rightarrow> 'w host_session" where
  "fresh_host w = \<lparr>encoded = [], statistics = no_statistics, discarding_oversized = False,
     callback_context = w, channels = replicate 5 False, next_transmit_sequence = 1,
     expected_receive_sequence = 1, negotiated_payload_size = 0, session_initialized = False,
     established = False, handshake_pending = False, last_peer_error = 0\<rparr>"

text \<open>A null pointer is \<^term>\<open>None\<close>.\<close>

definition host_initialize :: "('w \<Rightarrow> bytes \<Rightarrow> 'w \<times> status) option \<Rightarrow>
    ('w \<Rightarrow> mux_channel \<Rightarrow> bytes \<Rightarrow> 'w \<times> status) option \<Rightarrow> ('w \<Rightarrow> mux_channel \<Rightarrow> bool \<Rightarrow> 'w \<times> status) option \<Rightarrow>
    'w \<Rightarrow> 'w host_session \<Rightarrow> 'w host_session \<times> status" where
  "host_initialize writer data state w s =
     (if session_initialized s \<or> writer = None \<or> data = None \<or> state = None then (s, host_init_refused)
      else (s\<lparr>callback_context := w, session_initialized := True\<rparr>, success))"

definition host_reset :: "'w mux_callbacks \<Rightarrow> 'w host_session \<Rightarrow> 'w host_session" where
  "host_reset cb s =
     (reset_decoder (clear_channels cb s))\<lparr>established := False, handshake_pending := False,
       negotiated_payload_size := 0, next_transmit_sequence := 1, expected_receive_sequence := 1\<rparr>"

definition hello_payload :: bytes where
  "hello_payload =
     write_u32
       (write_u16 ((replicate 8 0)[0 := protocol_version, 1 := protocol_version])
         2 (of_nat maximum_payload_size))
       4 mandatory_capabilities"

definition begin_handshake :: "'w mux_callbacks \<Rightarrow> 'w host_session \<Rightarrow> 'w host_session \<times> status" where
  "begin_handshake cb s =
     (if \<not> session_initialized s then (s, host_not_initialized)
      else
        let s1 = (reset_decoder (clear_channels cb s))\<lparr>established := False, handshake_pending := True,
              negotiated_payload_size := 0, next_transmit_sequence := 1,
              expected_receive_sequence := 1, last_peer_error := 0\<rparr>
        in case wire_writer cb (callback_context s1) [0] of
          (w, st) \<Rightarrow>
            let s2 = s1\<lparr>callback_context := w\<rparr> in
            if \<not> is_ok st then (s2\<lparr>handshake_pending := False\<rparr>, st)
            else
              case send_frame cb s2 type_hello channel_link 0 hello_payload of
                (s3, st') \<Rightarrow> (if is_ok st' then s3 else s3\<lparr>handshake_pending := False\<rparr>, st'))"

definition host_update_channel :: "'w mux_callbacks \<Rightarrow> 'w host_session \<Rightarrow> mux_channel \<Rightarrow> bool \<Rightarrow>
    'w host_session \<times> status" where
  "host_update_channel cb s c opened =
     (if unat c \<ge> length (channels s) then (s, channel_index_invalid)
      else change_channel cb s c opened)"

definition host_open_channel :: "'w mux_callbacks \<Rightarrow> 'w host_session \<Rightarrow> mux_channel \<Rightarrow> 'w host_session \<times> status" where
  "host_open_channel cb s c =
     (if \<not> established s \<or> \<not> application_channel c then (s, host_cannot_open)
      else if channel_is_open s c then (s, success)
      else
        case send_frame cb s type_channel_open c (next_transmit_sequence s) [] of
          (s', st) \<Rightarrow> if is_ok st then host_update_channel cb (sent_one s') c True else (s', st))"

definition host_close_channel :: "'w mux_callbacks \<Rightarrow> 'w host_session \<Rightarrow> mux_channel \<Rightarrow> 'w host_session \<times> status" where
  "host_close_channel cb s c =
     (if \<not> established s \<or> \<not> application_channel c then (s, host_cannot_close)
      else if \<not> channel_is_open s c then (s, success)
      else
        case send_frame cb s type_channel_close c (next_transmit_sequence s) [] of
          (s', st) \<Rightarrow> if is_ok st then host_update_channel cb (sent_one s') c False else (s', st))"

definition host_send_stream :: "'w mux_callbacks \<Rightarrow> 'w host_session \<Rightarrow> mux_channel \<Rightarrow> bytes \<Rightarrow>
    ('w host_session \<times> status) option" where
  "host_send_stream cb s c bs = send_stream host_channel_closed cb s c bs"

definition host_accept_ack :: "'w mux_callbacks \<Rightarrow> 'w host_session \<Rightarrow> frame_view \<Rightarrow> 'w host_session \<times> status" where
  "host_accept_ack cb s f =
     (let payload = frame_payload f; payload_size = read_u16 payload 2; capabilities = read_u32 payload 4 in
      if payload ! 0 \<noteq> protocol_version \<or> payload ! 1 \<noteq> 0 \<or> payload_size = 0 \<or>
         unat payload_size > maximum_payload_size \<or>
         (capabilities AND mandatory_capabilities) \<noteq> mandatory_capabilities
      then (host_reset cb s, handshake_refused)
      else (s\<lparr>negotiated_payload_size := payload_size, handshake_pending := False, established := True\<rparr>, success))"

definition host_handle_packet :: "'w mux_callbacks \<Rightarrow> 'w host_session \<Rightarrow> decoded_packet \<Rightarrow> 'w host_session \<times> status" where
  "host_handle_packet cb s p =
     (if \<not> packet_valid p then (s, success)
      else
        let f = packet_frame p in
        if handshake_pending s \<and> frame_type f = type_hello_ack \<and> frame_sequence f = 0
        then host_accept_ack cb s f
        else if \<not> established s \<or> frame_sequence f \<noteq> expected_receive_sequence s
        then (host_reset cb s, sequence_mismatch)
        else
          let s1 = s\<lparr>expected_receive_sequence := expected_receive_sequence s + 1\<rparr> in
          if frame_type f = type_stream_data then
            if \<not> channel_is_open s1 (frame_channel f) then (s1, closed_channel_written)
            else deliver cb s1 (frame_channel f) (frame_payload f)
          else if frame_type f = type_error then (s1\<lparr>last_peer_error := read_u16 (frame_payload f) 0\<rparr>, success)
          else if frame_type f = type_reset then (host_reset cb s1, success)
          else (host_reset cb s1, unexpected_device_frame))"

definition host_ingest_wire :: "'w mux_callbacks \<Rightarrow> 'w host_session \<Rightarrow> bytes \<Rightarrow> 'w host_session \<times> status" where
  "host_ingest_wire cb s bs = ingest s bs (Some (host_handle_packet cb))"

section \<open>The device's end\<close>

definition device_init_refused :: status where
  [status_defs]: "device_init_refused = \<lparr>code = Invalid_argument, message = ''invalid or repeated CDC mux device-session initialization''\<rparr>"
definition device_channel_closed :: status where
  [status_defs]: "device_channel_closed = \<lparr>code = Unavailable, message = ''CDC mux device channel is closed''\<rparr>"

definition device_initialize :: "('w \<Rightarrow> bytes \<Rightarrow> 'w \<times> status) option \<Rightarrow>
    ('w \<Rightarrow> mux_channel \<Rightarrow> bytes \<Rightarrow> 'w \<times> status) option \<Rightarrow> ('w \<Rightarrow> mux_channel \<Rightarrow> bool \<Rightarrow> 'w \<times> status) option \<Rightarrow>
    ('w \<Rightarrow> bool \<Rightarrow> 'w) option \<Rightarrow> 'w \<Rightarrow> 'w device_session \<Rightarrow> 'w device_session \<times> status" where
  "device_initialize writer data state link w s =
     (if session_initialized s \<or> writer = None \<or> data = None \<or> state = None \<or> link = None
      then (s, device_init_refused)
      else (s\<lparr>callback_context := w, session_initialized := True\<rparr>, success))"

definition tell_link :: "'w mux_callbacks \<Rightarrow> 'w device_session \<Rightarrow> bool \<Rightarrow> 'w device_session" where
  "tell_link cb s up = s\<lparr>callback_context := link_state_callback cb (callback_context s) up\<rparr>"

definition abandon_session :: "'w mux_callbacks \<Rightarrow> 'w device_session \<Rightarrow> 'w device_session" where
  "abandon_session cb s =
     (let s1 = (clear_channels cb s)\<lparr>established := False, negotiated_payload_size := 0,
            next_transmit_sequence := 1, expected_receive_sequence := 1\<rparr>
      in if established s then tell_link cb s1 False else s1)"

definition device_reset :: "'w mux_callbacks \<Rightarrow> 'w device_session \<Rightarrow> 'w device_session" where
  "device_reset cb s = reset_decoder (abandon_session cb s)"

definition device_send_stream :: "'w mux_callbacks \<Rightarrow> 'w device_session \<Rightarrow> mux_channel \<Rightarrow> bytes \<Rightarrow>
    ('w device_session \<times> status) option" where
  "device_send_stream cb s c bs = send_stream device_channel_closed cb s c bs"

definition send_error :: "'w mux_callbacks \<Rightarrow> 'w device_session \<Rightarrow> u16 \<Rightarrow> 'w device_session \<times> status" where
  "send_error cb s e =
     (case send_frame cb s type_error channel_link (next_transmit_sequence s) (write_u16 (replicate 2 0) 0 e) of
        (s', st) \<Rightarrow> (if is_ok st then sent_one s' else s', st))"

definition device_update_channel :: "'w mux_callbacks \<Rightarrow> 'w device_session \<Rightarrow> mux_channel \<Rightarrow> bool \<Rightarrow>
    'w device_session \<times> status" where
  "device_update_channel cb s c opened =
     (if unat c \<ge> length (channels s) then send_error cb s error_unsupported_channel
      else if channels s ! unat c = opened then (s, success)
      else change_channel cb s c opened)"

definition hello_accepted :: "bytes \<Rightarrow> bool" where
  "hello_accepted payload \<longleftrightarrow>
     payload ! 0 \<le> protocol_version \<and> payload ! 1 \<ge> protocol_version \<and> read_u16 payload 2 \<noteq> 0 \<and>
     (read_u32 payload 4 AND mandatory_capabilities) = mandatory_capabilities"

definition ack_payload :: "bool \<Rightarrow> u16 \<Rightarrow> bytes" where
  "ack_payload accepted negotiated =
     write_u32
       (write_u16 ((replicate 8 0)[0 := protocol_version, 1 := (if accepted then 0 else 1)])
         2 (if accepted then negotiated else 0))
       4 (if accepted then mandatory_capabilities else 0)"

definition accept_hello :: "'w mux_callbacks \<Rightarrow> 'w device_session \<Rightarrow> frame_view \<Rightarrow> 'w device_session \<times> status" where
  "accept_hello cb s f =
     (let payload = frame_payload f;
          accepted = hello_accepted payload;
          negotiated = of_nat (min (unat (read_u16 payload 2)) maximum_payload_size);
          s1 = (abandon_session cb s)\<lparr>negotiated_payload_size := negotiated\<rparr>
      in case send_frame cb s1 type_hello_ack channel_link 0 (ack_payload accepted negotiated) of
           (s2, st) \<Rightarrow>
             if is_ok st \<and> accepted
             then (tell_link cb (s2\<lparr>established := True, next_transmit_sequence := 1,
                     expected_receive_sequence := 1\<rparr>) True, st)
             else (s2, st))"

definition device_handle_packet :: "'w mux_callbacks \<Rightarrow> 'w device_session \<Rightarrow> decoded_packet \<Rightarrow>
    'w device_session \<times> status" where
  "device_handle_packet cb s p =
     (if \<not> packet_valid p then
        let error_code = decode_error_code (packet_error p) in
        if established s \<and> error_code \<noteq> 0 then send_error cb s error_code else (s, success)
      else
        let f = packet_frame p in
        if frame_type f = type_hello \<and> frame_sequence f = 0 then accept_hello cb s f
        else if \<not> established s then (s, success)
        else if frame_sequence f \<noteq> expected_receive_sequence s then
          (case send_error cb s error_sequence of (s', st) \<Rightarrow> (abandon_session cb s', st))
        else
          let s1 = s\<lparr>expected_receive_sequence := expected_receive_sequence s + 1\<rparr> in
          if frame_type f = type_channel_open then
            if \<not> application_channel (frame_channel f) then send_error cb s1 error_service_unavailable
            else device_update_channel cb s1 (frame_channel f) True
          else if frame_type f = type_channel_close then
            if \<not> application_channel (frame_channel f) then send_error cb s1 error_unsupported_channel
            else device_update_channel cb s1 (frame_channel f) False
          else if frame_type f = type_stream_data then
            if \<not> channel_is_open s1 (frame_channel f) then send_error cb s1 error_channel_closed
            else deliver cb s1 (frame_channel f) (frame_payload f)
          else if frame_type f = type_reset then (abandon_session cb s1, success)
          else if frame_type f = type_error then (s1, success)
          else send_error cb s1 error_unsupported_type)"

definition device_ingest_wire :: "'w mux_callbacks \<Rightarrow> 'w device_session \<Rightarrow> bytes \<Rightarrow> 'w device_session \<times> status" where
  "device_ingest_wire cb s bs = ingest s bs (Some (device_handle_packet cb))"

end
