(* ===== verification/MuxInvariant.thy ===== *)
theory MuxInvariant
  imports MuxSession
begin

text \<open>
  What every session keeps, whatever its owner calls, its peer sends and its callbacks answer:
  only application channels are open, and only in an established session, whose payload limit
  is then positive, so that \<^verbatim>\<open>send_stream()\<close> returns.
\<close>

section \<open>The invariant\<close>

definition session_ok :: "('w, 'm) mux_session_scheme \<Rightarrow> bool" where
  "session_ok s \<longleftrightarrow> length (channels s) = 5 \<and>
     (\<forall>c. channel_is_open s c \<longrightarrow> established s \<and> application_channel c) \<and>
     (established s \<longrightarrow> 0 < unat (negotiated_payload_size s) \<and> unat (negotiated_payload_size s) \<le> 256)"

lemma session_ok_decoder [simp]:
  "session_ok (s\<lparr>encoded := e\<rparr>) = session_ok s"
  "session_ok (s\<lparr>statistics := st\<rparr>) = session_ok s"
  "session_ok (s\<lparr>discarding_oversized := b\<rparr>) = session_ok s"
  "session_ok (s\<lparr>callback_context := w\<rparr>) = session_ok s"
  "session_ok (s\<lparr>next_transmit_sequence := n\<rparr>) = session_ok s"
  "session_ok (s\<lparr>expected_receive_sequence := n\<rparr>) = session_ok s"
  "session_ok (reset_decoder s) = session_ok s"
  "session_ok (sent_one s) = session_ok s"
  by (simp_all add: session_ok_def channel_is_open_def reset_decoder_def sent_one_def)

lemma session_ok_host [simp]:
  "session_ok (h\<lparr>handshake_pending := b\<rparr>) = session_ok h"
  "session_ok (h\<lparr>last_peer_error := e\<rparr>) = session_ok h"
  by (simp_all add: session_ok_def channel_is_open_def)

lemma send_frame_context: "\<exists>w st. send_frame cb s t c q payload = (s\<lparr>callback_context := w\<rparr>, st)"
proof -
  consider e where "encode_cdc_mux_frame
      \<lparr>frame_type = t, frame_channel = c, frame_sequence = q, frame_payload = payload\<rparr>
      (replicate maximum_wire_frame_size 0) = Inl e"
    | r where "encode_cdc_mux_frame
      \<lparr>frame_type = t, frame_channel = c, frame_sequence = q, frame_payload = payload\<rparr>
      (replicate maximum_wire_frame_size 0) = Inr r"
    by (meson sum.exhaust)
  then show ?thesis
  proof cases
    case 1
    then show ?thesis by (intro exI [of _ "callback_context s"]) (simp add: send_frame_def)
  next
    case 2
    then show ?thesis
      by (intro exI [of _ "fst (wire_writer cb (callback_context s) (take (snd r) (fst r)))"])
        (simp add: send_frame_def case_prod_beta)
  qed
qed

lemma deliver_context: "\<exists>w st. deliver cb s c bs = (s\<lparr>callback_context := w\<rparr>, st)"
  by (auto simp: deliver_def split: prod.split)

lemma tell_channel_context: "\<exists>w st. tell_channel cb s c opened = (s\<lparr>callback_context := w\<rparr>, st)"
  by (auto simp: tell_channel_def split: prod.split)

lemma callbacks_keep [simp]:
  "session_ok (fst (send_frame cb s t c q payload)) = session_ok s"
  "session_ok (fst (deliver cb s c bs)) = session_ok s"
  "session_ok (fst (tell_channel cb s c opened)) = session_ok s"
  using send_frame_context [of cb s t c q payload] deliver_context [of cb s c bs]
    tell_channel_context [of cb s c opened]
  by auto

text \<open>All channels are closed one by one, and the owner told of those that were open.\<close>

lemma clear_channel_context:
  "\<exists>w. clear_channel cb i s = s\<lparr>channels := (channels s)[i := False], callback_context := w\<rparr>" if "i < length (channels s)"
proof (cases "channels s ! i")
  case True
  then show ?thesis using tell_channel_context [of cb "set_channel s i False" "of_nat i" False]
    by (auto simp: clear_channel_def set_channel_def)
next
  case False
  then show ?thesis
    using list_update_id [of "channels s" i]
    by (intro exI [of _ "callback_context s"]) (simp add: clear_channel_def)
qed

lemma clear_channels_context:
  assumes "length (channels s) = 5" and "\<not> channels s ! 0"
  shows "\<exists>w. clear_channels cb s = s\<lparr>channels := replicate 5 False, callback_context := w\<rparr>"
proof -
  obtain b0 b1 b2 b3 b4 where c: "channels s = [b0, b1, b2, b3, b4]"
    using assms(1) by (auto simp: numeral_eq_Suc length_Suc_conv)
  have upt: "[1..<5] = [1, 2, 3, 4 :: nat]" by (simp add: upt_rec numeral_eq_Suc)
  obtain w1 where 1: "clear_channel cb 1 s = s\<lparr>channels := [b0, False, b2, b3, b4], callback_context := w1\<rparr>"
    using clear_channel_context [of 1 s cb] c by auto
  obtain w2 where 2: "clear_channel cb 2 (s\<lparr>channels := [b0, False, b2, b3, b4], callback_context := w1\<rparr>) =
      s\<lparr>channels := [b0, False, False, b3, b4], callback_context := w2\<rparr>"
    using clear_channel_context [of 2 "s\<lparr>channels := [b0, False, b2, b3, b4], callback_context := w1\<rparr>" cb] by auto
  obtain w3 where 3: "clear_channel cb 3 (s\<lparr>channels := [b0, False, False, b3, b4], callback_context := w2\<rparr>) =
      s\<lparr>channels := [b0, False, False, False, b4], callback_context := w3\<rparr>"
    using clear_channel_context [of 3 "s\<lparr>channels := [b0, False, False, b3, b4], callback_context := w2\<rparr>" cb]
    by (auto simp: numeral_eq_Suc)
  obtain w4 where 4: "clear_channel cb 4 (s\<lparr>channels := [b0, False, False, False, b4], callback_context := w3\<rparr>) =
      s\<lparr>channels := [b0, False, False, False, False], callback_context := w4\<rparr>"
    using clear_channel_context [of 4 "s\<lparr>channels := [b0, False, False, False, b4], callback_context := w3\<rparr>" cb]
    by (auto simp: numeral_eq_Suc)
  have "replicate 5 False = [b0, False, False, False, False]"
    using assms(2) c by (simp add: numeral_eq_Suc)
  moreover have "clear_channels cb s = fold (clear_channel cb) [1, 2, 3, 4] s"
    unfolding clear_channels_def assms(1) upt ..
  ultimately show ?thesis using 1 2 3 4 
    by (simp only: fold_simps) blast
qed

lemma link_channel_closed: "session_ok s \<Longrightarrow> \<not> channels s ! 0"
  unfolding session_ok_def channel_is_open_def application_channel_def cdc_defs
  by (auto dest: spec [of _ 0])

lemma no_open_channels: "\<not> channel_is_open (s\<lparr>channels := replicate 5 False\<rparr>) c"
  by (simp add: channel_is_open_def)

lemma clear_channels_effect:
  "session_ok s \<Longrightarrow> \<exists>w. clear_channels cb s = s\<lparr>channels := replicate 5 False, callback_context := w\<rparr>"
  using clear_channels_context link_channel_closed by (auto simp: session_ok_def)

lemma channel_change_ok:
  assumes "session_ok s" and "established s" and "application_channel c"
  shows "session_ok (set_channel s (unat c) opened)"
proof -
  have "channel_is_open (set_channel s (unat c) opened) x \<Longrightarrow> x = c \<or> channel_is_open s x" for x
    using assms(1)
    by (cases "unat x = unat c") (auto simp: channel_is_open_def set_channel_def nth_list_update word_unat_eq_iff)
  then show ?thesis using assms
    by (auto simp: session_ok_def set_channel_def)
qed

lemma change_channel_ok:
  assumes "session_ok s" and "established s" and "application_channel c"
  shows "session_ok (fst (change_channel cb s c opened))"
proof -
  obtain w st where tell: "tell_channel cb (set_channel s (unat c) opened) c opened =
      ((set_channel s (unat c) opened)\<lparr>callback_context := w\<rparr>, st)"
    using tell_channel_context [of cb "set_channel s (unat c) opened"] by blast
  have ok: "session_ok (set_channel s (unat c) opened)" using assms by (rule channel_change_ok)
  have "set_channel ((set_channel s (unat c) opened)\<lparr>callback_context := w\<rparr>) (unat c) (\<not> opened) =
      (set_channel s (unat c) (\<not> opened))\<lparr>callback_context := w\<rparr>"
    by (simp add: set_channel_def)
  then have "session_ok (set_channel ((set_channel s (unat c) opened)\<lparr>callback_context := w\<rparr>) (unat c) (\<not> opened))"
    using channel_change_ok [OF assms] by simp
  then show ?thesis using ok by (simp add: change_channel_def tell)
qed

text \<open>What \<open>ingest\<close> keeps follows from what the handler of a packet keeps.\<close>

lemma ingest_keeps:
  assumes "\<And>s p. session_ok s \<Longrightarrow> session_ok (fst (callback s p))" and "session_ok s"
  shows "session_ok (fst (ingest s bs (Some callback)))"
proof -
  have "session_ok (fst (ingest_byte callback s b))" if "session_ok s" for s b
    using that by (auto simp: ingest_byte_def finish_packet_def Let_def split: sum.split intro!: assms(1))
  then show ?thesis using wire.run_keeps [of session_ok callback] assms(2) by (simp add: ingest_def)
qed


section \<open>Every operation keeps it\<close>

lemma closed_down_ok: "length (channels s) = 5 \<Longrightarrow> (\<And>c. \<not> channel_is_open s c) \<Longrightarrow> \<not> established s \<Longrightarrow> session_ok s"
  by (simp add: session_ok_def)

lemma host_reset_ok: "session_ok h \<Longrightarrow> session_ok (host_reset cb h)"
  using clear_channels_effect [of h cb]
  by (auto simp: host_reset_def session_ok_def channel_is_open_def reset_decoder_def)

lemma abandon_session_ok: "session_ok d \<Longrightarrow> session_ok (abandon_session cb d)"
  using clear_channels_effect [of d cb]
  by (auto simp: abandon_session_def session_ok_def channel_is_open_def tell_link_def Let_def)

lemma device_reset_ok: "session_ok d \<Longrightarrow> session_ok (device_reset cb d)"
  by (simp add: device_reset_def abandon_session_ok)

lemma begin_handshake_ok: "session_ok h \<Longrightarrow> session_ok (fst (begin_handshake cb h))"
proof -
  assume ok: "session_ok h"
  let ?h1 = "(reset_decoder (clear_channels cb h))\<lparr>established := False, handshake_pending := True,
              negotiated_payload_size := 0, next_transmit_sequence := 1,
              expected_receive_sequence := 1, last_peer_error := 0\<rparr>"
  have "session_ok ?h1"
    using clear_channels_effect [OF ok, of cb] by (auto simp: session_ok_def channel_is_open_def reset_decoder_def)
  then have "session_ok (?h1\<lparr>callback_context := w\<rparr>)" for w by (simp only: session_ok_decoder)
  then show ?thesis using ok unfolding begin_handshake_def Let_def
    by (simp only: case_prod_beta fst_conv session_ok_host callbacks_keep split: if_split) blast
qed

lemma host_update_channel_ok:
  "session_ok h \<Longrightarrow> established h \<Longrightarrow> application_channel c \<Longrightarrow> session_ok (fst (host_update_channel cb h c opened))"
  by (simp add: host_update_channel_def change_channel_ok)

lemma device_update_channel_ok:
  "session_ok d \<Longrightarrow> established d \<Longrightarrow> application_channel c \<Longrightarrow> session_ok (fst (device_update_channel cb d c opened))"
  by (simp add: device_update_channel_def change_channel_ok send_error_def case_prod_beta)

lemma send_frame_established [simp]: "established (fst (send_frame cb s t c q payload)) = established s"
  using send_frame_context [of cb s t c q payload] by auto

lemma host_open_close_ok:
  assumes "session_ok h"
  shows "session_ok (fst (host_open_channel cb h c))" and "session_ok (fst (host_close_channel cb h c))"
  using assms by (auto simp: host_open_channel_def host_close_channel_def case_prod_beta sent_one_def
      intro!: host_update_channel_ok)

lemma host_accept_ack_ok: "session_ok h \<Longrightarrow> session_ok (fst (host_accept_ack cb h f))"
proof -
  assume ok: "session_ok h"
  have "0 < unat n" if "n \<noteq> (0 :: u16)" for n using that by (simp add: unat_gt_0)
  then show ?thesis using ok host_reset_ok [OF ok]
    by (auto simp: host_accept_ack_def Let_def session_ok_def channel_is_open_def cdc_defs)
qed

lemma host_handle_packet_ok: "session_ok h \<Longrightarrow> session_ok (fst (host_handle_packet cb h p))"
  by (simp add: host_handle_packet_def Let_def host_accept_ack_ok host_reset_ok)

lemma abandon_session_closed: "session_ok d \<Longrightarrow> \<not> channel_is_open (abandon_session cb d) c \<and> \<not> established (abandon_session cb d)"
  using clear_channels_effect [of d cb]
  by (auto simp: abandon_session_def channel_is_open_def tell_link_def Let_def)

lemma accept_hello_ok: "session_ok d \<Longrightarrow> session_ok (fst (accept_hello cb d f))"
proof -
  assume ok: "session_ok d"
  let ?n = "of_nat (min (unat (read_u16 (frame_payload f) 2)) maximum_payload_size) :: u16"
  let ?s1 = "(abandon_session cb d)\<lparr>negotiated_payload_size := ?n\<rparr>"
  have closed: "length (channels ?s1) = 5" "\<And>c. \<not> channel_is_open ?s1 c" "\<not> established ?s1"
    using abandon_session_ok [OF ok, of cb] abandon_session_closed [OF ok, of cb]
    by (simp_all add: session_ok_def channel_is_open_def)
  have n: "unat ?n \<le> 256 \<and> (hello_accepted (frame_payload f) \<longrightarrow> 0 < unat ?n)"
    by (auto simp: hello_accepted_def cdc_defs unat_of_nat min_def unat_gt_0)
  obtain w st where sent: "send_frame cb ?s1 type_hello_ack channel_link 0
      (ack_payload (hello_accepted (frame_payload f)) ?n) = (?s1\<lparr>callback_context := w\<rparr>, st)"
    using send_frame_context [of cb ?s1] by blast
  show ?thesis using closed n
    by (auto simp: accept_hello_def Let_def sent tell_link_def session_ok_def channel_is_open_def)
qed

lemma send_error_ok [simp]: "session_ok (fst (send_error cb d e)) = session_ok d"
  by (simp add: send_error_def case_prod_beta)

lemma device_handle_packet_ok: "session_ok d \<Longrightarrow> session_ok (fst (device_handle_packet cb d p))"
proof -
  assume ok: "session_ok d"
  have "established d \<Longrightarrow> application_channel c \<Longrightarrow>
      session_ok (fst (device_update_channel cb (d\<lparr>expected_receive_sequence := n\<rparr>) c opened))" for c n opened
    using ok by (intro device_update_channel_ok) simp_all
  then show ?thesis using ok
    by (simp add: device_handle_packet_def Let_def accept_hello_ok abandon_session_ok case_prod_beta)
qed

lemma ingest_wire_ok:
  "session_ok h \<Longrightarrow> session_ok (fst (host_ingest_wire cb h bs))"
  "session_ok d \<Longrightarrow> session_ok (fst (device_ingest_wire cb d bs))"
  by (simp_all add: host_ingest_wire_def device_ingest_wire_def ingest_keeps host_handle_packet_ok
      device_handle_packet_ok)

lemma send_chunks_returns:
  "0 < most \<Longrightarrow> \<exists>s' st. send_chunks cb c most bs s = Some (s', st) \<and> session_ok s' = session_ok s"
proof (induction "length bs" arbitrary: bs s rule: less_induct)
  case less
  let ?sent = "send_frame cb s type_stream_data c (next_transmit_sequence s) (take (min most (length bs)) bs)"
  have keep: "session_ok (fst ?sent) = session_ok s" by simp
  show ?case
  proof (cases "bs = [] \<or> \<not> is_ok (snd ?sent)")
    case True
    then show ?thesis using keep by (subst send_chunks.simps) (cases ?sent; auto simp: Let_def)
  next
    case False
    then have "length (drop (min most (length bs)) bs) < length bs" using less.prems by simp
    then obtain s' st where "send_chunks cb c most (drop (min most (length bs)) bs) (sent_one (fst ?sent)) = Some (s', st)"
      "session_ok s' = session_ok (sent_one (fst ?sent))"
      using less.hyps less.prems by blast
    then show ?thesis using False keep by (subst send_chunks.simps) (simp add: Let_def)
  qed
qed

lemma send_stream_returns:
  assumes "session_ok s"
  shows "\<exists>s' st. send_stream closed cb s c bs = Some (s', st) \<and> session_ok s'"
  using assms send_chunks_returns [of "unat (negotiated_payload_size s)" cb c bs s]
  by (auto simp: send_stream_def session_ok_def)

section \<open>Reachable sessions\<close>

inductive host_reachable :: "'w mux_callbacks \<Rightarrow> 'w host_session \<Rightarrow> bool" for cb where
  host_fresh: "host_reachable cb (fresh_host w)"
| host_initialized: "host_reachable cb h \<Longrightarrow> host_reachable cb (fst (host_initialize writer data state w h))"
| host_began: "host_reachable cb h \<Longrightarrow> host_reachable cb (fst (begin_handshake cb h))"
| host_ingested: "host_reachable cb h \<Longrightarrow> host_reachable cb (fst (host_ingest_wire cb h bs))"
| host_opened: "host_reachable cb h \<Longrightarrow> host_reachable cb (fst (host_open_channel cb h c))"
| host_closed: "host_reachable cb h \<Longrightarrow> host_reachable cb (fst (host_close_channel cb h c))"
| host_sent: "host_reachable cb h \<Longrightarrow> host_send_stream cb h c bs = Some (h', st) \<Longrightarrow> host_reachable cb h'"
| host_was_reset: "host_reachable cb h \<Longrightarrow> host_reachable cb (host_reset cb h)"

inductive device_reachable :: "'w mux_callbacks \<Rightarrow> 'w device_session \<Rightarrow> bool" for cb where
  device_fresh: "device_reachable cb (fresh_device w)"
| device_initialized: "device_reachable cb d \<Longrightarrow>
    device_reachable cb (fst (device_initialize writer data state link w d))"
| device_ingested: "device_reachable cb d \<Longrightarrow> device_reachable cb (fst (device_ingest_wire cb d bs))"
| device_sent: "device_reachable cb d \<Longrightarrow> device_send_stream cb d c bs = Some (d', st) \<Longrightarrow> device_reachable cb d'"
| device_was_reset: "device_reachable cb d \<Longrightarrow> device_reachable cb (device_reset cb d)"

lemma host_reachable_ok: "host_reachable cb h \<Longrightarrow> session_ok h"
proof (induction rule: host_reachable.induct)
  case (host_fresh w)
  show ?case by (simp add: fresh_host_def session_ok_def channel_is_open_def)
next
  case (host_initialized h writer data state w)
  then show ?case by (simp add: host_initialize_def session_ok_def channel_is_open_def)
next
  case (host_sent h c bs h' st)
  then show ?case using send_stream_returns [of h host_channel_closed cb c bs]
    by (auto simp: host_send_stream_def)
qed (simp_all add: begin_handshake_ok ingest_wire_ok host_open_close_ok host_reset_ok)

lemma device_reachable_ok: "device_reachable cb d \<Longrightarrow> session_ok d"
proof (induction rule: device_reachable.induct)
  case (device_fresh w)
  show ?case by (simp add: fresh_device_def session_ok_def channel_is_open_def)
next
  case (device_initialized d writer data state link w)
  then show ?case by (simp add: device_initialize_def session_ok_def channel_is_open_def)
next
  case (device_sent d c bs d' st)
  then show ?case using send_stream_returns [of d device_channel_closed cb c bs]
    by (auto simp: device_send_stream_def)
qed (simp_all add: ingest_wire_ok device_reset_ok)


text \<open>
  C22. Whatever the owners of the two ends call, in any order, whatever bytes arrive and
  whatever the callbacks answer: an open channel is one of the two application channels and
  belongs to an established session, and an established session's payload limit is from 1 to
  256.
\<close>

theorem reachable_sessions:
  assumes "host_reachable cb h" and "device_reachable cb' d"
  shows "(channel_is_open h c \<longrightarrow> established h \<and> application_channel c) \<and>
    (channel_is_open d c \<longrightarrow> established d \<and> application_channel c) \<and>
    (established h \<longrightarrow> unat (negotiated_payload_size h) \<in> {1..256}) \<and>
    (established d \<longrightarrow> unat (negotiated_payload_size d) \<in> {1..256})"
  using host_reachable_ok [OF assms(1)] device_reachable_ok [OF assms(2)]
  by (auto simp: session_ok_def)

text \<open>
  C23. The loops of both ends' \<open>send_stream()\<close> return, in every reachable session and whatever
  the wire's writer answers: with a payload limit of zero they would not.
\<close>

theorem send_stream_ends:
  assumes "host_reachable cb h" and "device_reachable cb' d"
  shows "host_send_stream cb h c bs \<noteq> None \<and> device_send_stream cb' d c bs \<noteq> None"
  using send_stream_returns [OF host_reachable_ok [OF assms(1)], of host_channel_closed cb c bs]
    send_stream_returns [OF device_reachable_ok [OF assms(2)], of device_channel_closed cb' c bs]
  by (auto simp: host_send_stream_def device_send_stream_def)

definition deaf :: "nat mux_callbacks" where
  "deaf = \<lparr>wire_writer = (\<lambda>n bs. (n + length bs, success)), data_callback = (\<lambda>n c bs. (n, success)),
     state_callback = (\<lambda>n c up. (n, success)), link_state_callback = (\<lambda>n up. n)\<rparr>"

definition greeting_host :: "nat host_session" where
  "greeting_host = fst (begin_handshake deaf (fst (host_initialize (Some (wire_writer deaf))
     (Some (data_callback deaf)) (Some (state_callback deaf)) 0 (fresh_host 0))))"

definition greeted_device :: "nat device_session" where
  "greeted_device = fst (device_ingest_wire deaf (fresh_device 0) [7, 0, 9])"

lemma deaf_sessions: "host_reachable deaf greeting_host" "device_reachable deaf greeted_device"
  unfolding greeting_host_def greeted_device_def
  by (intro host_began host_initialized host_fresh, intro device_ingested device_fresh)

lemma reachable_sessions_witness:
  "\<not> (channel_is_open greeting_host 2 \<and> \<not> established greeting_host) \<and>
   \<not> (channel_is_open greeted_device 2 \<and> \<not> established greeted_device)"
  using reachable_sessions [OF deaf_sessions, of 2] by blast

lemma send_stream_ends_witness:
  "host_send_stream deaf greeting_host channel_binary_data [1, 2, 3] \<noteq> None \<and>
   device_send_stream deaf greeted_device channel_binary_data [1, 2, 3] \<noteq> None"
  by (rule send_stream_ends [OF deaf_sessions])

end
