(* ===== verification/MuxLink.thy ===== *)
theory MuxLink
  imports MuxInvariant
begin

text \<open>
  The two ends of the link together: what the host's session writes on the wire, cut in any
  way, is read by the device's, and what the device writes by the host's. The owners write
  down what they are told.
\<close>

section \<open>Owners that write down what they are told\<close>

record link_world =
  written :: bytes
  delivered :: "(mux_channel \<times> bytes) list"
  channel_changes :: "(mux_channel \<times> bool) list"
  link_changes :: "bool list"

definition writing_down :: "link_world mux_callbacks" where
  "writing_down = \<lparr>
     wire_writer = (\<lambda>w bs. (w\<lparr>written := written w @ bs\<rparr>, success)),
     data_callback = (\<lambda>w c bs. (w\<lparr>delivered := delivered w @ [(c, bs)]\<rparr>, success)),
     state_callback = (\<lambda>w c up. (w\<lparr>channel_changes := channel_changes w @ [(c, up)]\<rparr>, success)),
     link_state_callback = (\<lambda>w up. w\<lparr>link_changes := link_changes w @ [up]\<rparr>)\<rparr>"

abbreviation wrote :: "(link_world, 'm) mux_session_scheme \<Rightarrow> bytes" where
  "wrote s \<equiv> written (callback_context s)"

abbreviation got :: "(link_world, 'm) mux_session_scheme \<Rightarrow> (mux_channel \<times> bytes) list" where
  "got s \<equiv> delivered (callback_context s)"

definition put_wire :: "bytes \<Rightarrow> (link_world, 'm) mux_session_scheme \<Rightarrow> (link_world, 'm) mux_session_scheme" where
  "put_wire bs s = s\<lparr>callback_context := (callback_context s)\<lparr>written := wrote s @ bs\<rparr>\<rparr>"

lemma put_wire_fields [simp]:
  "established (put_wire bs s) = established s" "channels (put_wire bs s) = channels s"
  "next_transmit_sequence (put_wire bs s) = next_transmit_sequence s"
  "expected_receive_sequence (put_wire bs s) = expected_receive_sequence s"
  "negotiated_payload_size (put_wire bs s) = negotiated_payload_size s"
  "wrote (put_wire bs s) = wrote s @ bs" "got (put_wire bs s) = got s"
  "encoded (put_wire bs s) = encoded s" "discarding_oversized (put_wire bs s) = discarding_oversized s"
  "between_packets (put_wire bs s) = between_packets s"
  by (simp_all add: put_wire_def between_packets_def)

lemma put_wire_host [simp]:
  "handshake_pending (put_wire bs h) = handshake_pending h" "session_initialized (put_wire bs s) = session_initialized s"
  by (simp_all add: put_wire_def)

lemma tell_link_fields [simp]:
  "wrote (tell_link writing_down d up) = wrote d" "got (tell_link writing_down d up) = got d"
  "established (tell_link writing_down d up) = established d" "channels (tell_link writing_down d up) = channels d"
  "expected_receive_sequence (tell_link writing_down d up) = expected_receive_sequence d"
  "encoded (tell_link writing_down d up) = encoded d"
  "discarding_oversized (tell_link writing_down d up) = discarding_oversized d"
  by (simp_all add: tell_link_def writing_down_def)

lemma count_valid_fields [simp]:
  "callback_context (count_valid s) = callback_context s" "encoded (count_valid s) = encoded s"
  "discarding_oversized (count_valid s) = discarding_oversized s" "established (count_valid s) = established s"
  "channels (count_valid s) = channels s" "next_transmit_sequence (count_valid s) = next_transmit_sequence s"
  "expected_receive_sequence (count_valid s) = expected_receive_sequence s"
  "session_ok (count_valid s) = session_ok s"
  by (simp_all add: count_valid_def)

lemma put_wire_put [simp]: "put_wire bs (put_wire bs' s) = put_wire (bs' @ bs) s"
  by (simp add: put_wire_def)

lemma send_frame_writes:
  assumes "frame_ok \<lparr>frame_type = t, frame_channel = c, frame_sequence = q, frame_payload = p\<rparr>" (is "frame_ok ?f")
  shows "send_frame writing_down s t c q p = (put_wire (frame_wire ?f) s, success)"
proof -
  have "length (frame_wire ?f) \<le> length (replicate maximum_wire_frame_size 0)"
    using frame_packet_fits [OF assms] by (simp add: frame_wire_def cdc_defs)
  from encode_frame_written [OF assms this] show ?thesis
    by (auto simp: send_frame_def writing_down_def put_wire_def)
qed

text \<open>Closing the channels tells the owner, and neither writes nor delivers.\<close>

lemma clear_channel_quiet: "wrote (clear_channel writing_down i s) = wrote s \<and> got (clear_channel writing_down i s) = got s"
  by (simp add: clear_channel_def tell_channel_def set_channel_def writing_down_def)

lemma clear_channels_fold_quiet:
  "wrote (fold (clear_channel writing_down) is s) = wrote s \<and> got (fold (clear_channel writing_down) is s) = got s"
  by (induction "is" arbitrary: s) (simp_all add: clear_channel_quiet)

lemma clear_channels_quiet:
  assumes "session_ok s"
  obtains w where "clear_channels writing_down s = s\<lparr>channels := replicate 5 False, callback_context := w\<rparr>"
    and "written w = wrote s" and "delivered w = got s"
proof -
  obtain w where w: "clear_channels writing_down s = s\<lparr>channels := replicate 5 False, callback_context := w\<rparr>"
    using clear_channels_effect [OF assms, of writing_down] by blast
  have "wrote (clear_channels writing_down s) = wrote s" "got (clear_channels writing_down s) = got s"
    unfolding clear_channels_def using clear_channels_fold_quiet by blast+
  then show thesis using that [OF w] by (simp add: w)
qed

section \<open>The handshake\<close>

definition hello_frame :: frame_view where
  "hello_frame = \<lparr>frame_type = type_hello, frame_channel = channel_link, frame_sequence = 0,
     frame_payload = hello_payload\<rparr>"

definition ack_frame :: frame_view where
  "ack_frame = \<lparr>frame_type = type_hello_ack, frame_channel = channel_link, frame_sequence = 0,
     frame_payload = ack_payload True 256\<rparr>"

lemmas payload_defs = hello_payload_def ack_payload_def write_u16_def write_u32_def cdc_defs

lemma hello_payload_bytes: "hello_payload = [1, 1, 0, 1, 3, 0, 0, 0]"
  by code_simp

lemma ack_payload_bytes: "ack_payload True 256 = [1, 0, 0, 1, 3, 0, 0, 0]"
  by code_simp

lemma handshake_frames_ok: "frame_ok hello_frame" "frame_ok ack_frame"
  by (simp_all add: frame_ok_def hello_frame_def ack_frame_def hello_payload_bytes ack_payload_bytes
      known_type_def known_channel_def valid_type_channel_def cdc_defs)

lemma hello_read: "read_u16 hello_payload 2 = 256" "read_u32 hello_payload 4 = 3"
  unfolding hello_payload_bytes by code_simp+

lemma ack_read: "read_u16 (ack_payload True 256) 2 = 256" "read_u32 (ack_payload True 256) 4 = 3"
  unfolding ack_payload_bytes by code_simp+

lemma mandatory_three: "mandatory_capabilities = 3"
  by code_simp

lemma hello_is_accepted: "hello_accepted hello_payload"
  by (simp add: hello_accepted_def hello_read mandatory_three) (simp add: hello_payload_bytes protocol_version_def)

lemma handshake_frames_sent:
  "send_frame writing_down s type_hello channel_link 0 hello_payload = (put_wire (frame_wire hello_frame) s, success)"
  "send_frame writing_down s type_hello_ack channel_link 0 (ack_payload True 256) = (put_wire (frame_wire ack_frame) s, success)"
  using handshake_frames_ok by (simp_all add: send_frame_writes hello_frame_def ack_frame_def)

lemma begin_handshake_writes:
  assumes "session_ok h" and "session_initialized h"
  obtains h1 where "begin_handshake writing_down h = (h1, success)"
    and "wrote h1 = wrote h @ 0 # frame_wire hello_frame" and "got h1 = got h" and "handshake_pending h1"
    and "\<not> established h1" and "channels h1 = replicate 5 False" and "next_transmit_sequence h1 = 1"
    and "between_packets h1"
proof -
  obtain w where w: "clear_channels writing_down h = h\<lparr>channels := replicate 5 False, callback_context := w\<rparr>"
    "written w = wrote h" "delivered w = got h"
    using clear_channels_quiet [OF assms(1)] by blast
  let ?h = "(reset_decoder (clear_channels writing_down h))\<lparr>established := False, handshake_pending := True,
              negotiated_payload_size := 0, next_transmit_sequence := 1,
              expected_receive_sequence := 1, last_peer_error := 0\<rparr>"
  have "wire_writer writing_down (callback_context ?h) [0] = (callback_context (put_wire [0] ?h), success)"
    by (simp add: writing_down_def put_wire_def)
  moreover have "?h\<lparr>callback_context := callback_context (put_wire [0] ?h)\<rparr> = put_wire [0] ?h"
    by (simp add: put_wire_def)
  moreover have "send_frame writing_down (put_wire [0] ?h) type_hello channel_link 0 hello_payload =
      (put_wire (0 # frame_wire hello_frame) ?h, success)"
    by (simp add: handshake_frames_sent)
  ultimately have "begin_handshake writing_down h = (put_wire (0 # frame_wire hello_frame) ?h, success)"
    using assms(2) unfolding begin_handshake_def Let_def by simp
  then show thesis
    by (rule that) (simp_all add: w reset_decoder_def between_packets_def)
qed


lemma abandon_quiet:
  assumes "session_ok d"
  obtains w where "abandon_session writing_down d = d\<lparr>channels := replicate 5 False, callback_context := w,
      established := False, negotiated_payload_size := 0, next_transmit_sequence := 1, expected_receive_sequence := 1\<rparr>"
    and "written w = wrote d" and "delivered w = got d"
proof -
  obtain w where w: "clear_channels writing_down d = d\<lparr>channels := replicate 5 False, callback_context := w\<rparr>"
    "written w = wrote d" "delivered w = got d"
    using clear_channels_quiet [OF assms] by blast
  let ?w = "if established d then w\<lparr>link_changes := link_changes w @ [False]\<rparr> else w"
  show thesis
    by (rule that [of ?w]) (simp_all add: abandon_session_def tell_link_def writing_down_def w(2,3) w(1) [unfolded writing_down_def])
qed

text \<open>The device, whatever session it was in, takes the host's greeting for a new one.\<close>

lemma device_takes_hello:
  assumes "session_ok d" and "between_packets d"
  obtains d1 where "device_ingest_wire writing_down d (0 # frame_wire hello_frame) = (d1, success)"
    and "wrote d1 = wrote d @ frame_wire ack_frame" and "got d1 = got d" and "established d1"
    and "channels d1 = replicate 5 False" and "expected_receive_sequence d1 = 1" and "between_packets d1"
proof -
  have d: "encoded d = []" "\<not> discarding_oversized d" using assms(2) by (simp_all add: between_packets_def)
  let ?d = "count_valid (d\<lparr>statistics := (statistics d)\<lparr>empty_packets := empty_packets (statistics d) + 1\<rparr>\<rparr>)"
  have ok: "session_ok ?d" using assms(1) by (simp add: count_valid_def)
  obtain w where w: "abandon_session writing_down ?d = ?d\<lparr>channels := replicate 5 False, callback_context := w,
      established := False, negotiated_payload_size := 0, next_transmit_sequence := 1, expected_receive_sequence := 1\<rparr>"
    "written w = wrote ?d" "delivered w = got ?d"
    using abandon_quiet [OF ok] by blast
  let ?a = "(abandon_session writing_down ?d)\<lparr>negotiated_payload_size := 256\<rparr>"
  let ?d1 = "tell_link writing_down ((put_wire (frame_wire ack_frame) ?a)\<lparr>established := True,
      next_transmit_sequence := 1, expected_receive_sequence := 1\<rparr>) True"
  have "ingest_byte (device_handle_packet writing_down) d 0 =
      (d\<lparr>statistics := (statistics d)\<lparr>empty_packets := empty_packets (statistics d) + 1\<rparr>\<rparr>, success)"
    using d by (simp add: ingest_byte_def finish_packet_def)
  moreover have "device_handle_packet writing_down ?d (good_packet hello_frame) = (?d1, success)"
  proof -
    have "of_nat (min (unat (read_u16 hello_payload 2)) maximum_payload_size) = (256 :: u16)"
      by (simp add: hello_read maximum_payload_size_def)
    then have "accept_hello writing_down ?d hello_frame = (?d1, success)"
      unfolding accept_hello_def Let_def
      by (simp add: hello_frame_def hello_is_accepted handshake_frames_sent)
    then show ?thesis
      by (simp add: device_handle_packet_def good_packet_def packet_valid_def hello_frame_def)
  qed
  ultimately have run: "device_ingest_wire writing_down d (0 # frame_wire hello_frame) = (?d1, success)"
    using ingest_frame [OF handshake_frames_ok(1), of "d\<lparr>statistics := (statistics d)\<lparr>empty_packets :=
        empty_packets (statistics d) + 1\<rparr>\<rparr>" "device_handle_packet writing_down" "[]"] d
    by (simp add: device_ingest_wire_def ingest_def between_packets_def)
  show thesis
    by (rule that [OF run]) (use d in \<open>simp_all add: w between_packets_def\<close>)
qed

lemma host_takes_ack:
  assumes "handshake_pending h" and "between_packets h"
  obtains h1 where "host_ingest_wire writing_down h (frame_wire ack_frame) = (h1, success)"
    and "callback_context h1 = callback_context h" and "established h1" and "channels h1 = channels h"
    and "next_transmit_sequence h1 = next_transmit_sequence h" and "negotiated_payload_size h1 = 256"
proof -
  let ?h1 = "(count_valid h)\<lparr>negotiated_payload_size := 256, handshake_pending := False, established := True\<rparr>"
  have "ack_payload True 256 ! 0 = protocol_version" "ack_payload True 256 ! 1 = 0"
    by (simp_all add: ack_payload_bytes protocol_version_def)
  then have "host_accept_ack writing_down (count_valid h) ack_frame = (?h1, success)"
    by (simp add: host_accept_ack_def ack_frame_def Let_def ack_read mandatory_three maximum_payload_size_def)
  then have "host_handle_packet writing_down (count_valid h) (good_packet ack_frame) = (?h1, success)"
    using assms(1)
    by (simp add: host_handle_packet_def good_packet_def packet_valid_def ack_frame_def count_valid_def)
  then have "host_ingest_wire writing_down h (frame_wire ack_frame) = (?h1, success)"
    using ingest_frame [OF handshake_frames_ok(2) assms(2), of "host_handle_packet writing_down" "[]"]
    by (simp add: host_ingest_wire_def ingest_def)
  then show thesis by (rule that) (simp_all add: count_valid_def)
qed


section \<open>A channel and a stream\<close>

definition open_frame :: "mux_channel \<Rightarrow> u32 \<Rightarrow> frame_view" where
  "open_frame c q = \<lparr>frame_type = type_channel_open, frame_channel = c, frame_sequence = q, frame_payload = []\<rparr>"

definition data_frame :: "mux_channel \<Rightarrow> u32 \<Rightarrow> bytes \<Rightarrow> frame_view" where
  "data_frame c q p = \<lparr>frame_type = type_stream_data, frame_channel = c, frame_sequence = q, frame_payload = p\<rparr>"

primrec data_wire :: "mux_channel \<Rightarrow> u32 \<Rightarrow> bytes list \<Rightarrow> bytes" where
  "data_wire c q [] = []"
| "data_wire c q (p # ps) = frame_wire (data_frame c q p) @ data_wire c (q + 1) ps"

lemma application_channels: "application_channel c \<Longrightarrow> known_channel c \<and> c \<noteq> channel_link \<and> unat c < 5"
  by (auto simp: application_channel_def known_channel_def cdc_defs)

lemma open_frame_ok: "application_channel c \<Longrightarrow> frame_ok (open_frame c q)"
  using application_channels [of c]
  by (simp add: frame_ok_def open_frame_def known_type_def valid_type_channel_def cdc_defs)

lemma data_frame_ok: "application_channel c \<Longrightarrow> length p \<le> 256 \<Longrightarrow> frame_ok (data_frame c q p)"
  using application_channels [of c]
  by (simp add: frame_ok_def data_frame_def known_type_def valid_type_channel_def cdc_defs)

lemma host_opens_channel:
  assumes "established h" and "application_channel c" and "channels h = replicate 5 False"
  obtains h1 where "host_open_channel writing_down h c = (h1, success)"
    and "wrote h1 = wrote h @ frame_wire (open_frame c (next_transmit_sequence h))" and "established h1"
    and "channel_is_open h1 c" and "next_transmit_sequence h1 = next_transmit_sequence h + 1"
    and "negotiated_payload_size h1 = negotiated_payload_size h"
proof -
  let ?s = "sent_one (put_wire (frame_wire (open_frame c (next_transmit_sequence h))) h)"
  let ?h1 = "fst (tell_channel writing_down (set_channel ?s (unat c) True) c True)"
  have c: "unat c < 5" using application_channels [OF assms(2)] by blast
  have "send_frame writing_down h type_channel_open c (next_transmit_sequence h) [] =
      (put_wire (frame_wire (open_frame c (next_transmit_sequence h))) h, success)"
    using open_frame_ok [OF assms(2)] by (simp add: send_frame_writes open_frame_def)
  then have "host_open_channel writing_down h c = (?h1, success)"
    using assms c
    by (simp add: host_open_channel_def channel_is_open_def host_update_channel_def change_channel_def
        sent_one_def tell_channel_def writing_down_def)
  then show thesis
    by (rule that) (use assms c in \<open>simp_all add: tell_channel_def writing_down_def set_channel_def sent_one_def
      channel_is_open_def\<close>)
qed

lemma device_opens_channel:
  assumes "established d" and "application_channel c" and "channels d = replicate 5 False" and "between_packets d"
    and "expected_receive_sequence d = q"
  obtains d1 where
    "\<And>rest. ingest_bytes (device_handle_packet writing_down) d (frame_wire (open_frame c q) @ rest) =
       ingest_bytes (device_handle_packet writing_down) d1 rest"
    and "wrote d1 = wrote d" and "got d1 = got d" and "established d1" and "channel_is_open d1 c"
    and "expected_receive_sequence d1 = q + 1" and "between_packets d1"
proof -
  let ?s = "(count_valid d)\<lparr>expected_receive_sequence := q + 1\<rparr>"
  let ?d1 = "fst (tell_channel writing_down (set_channel ?s (unat c) True) c True)"
  have c: "unat c < 5" using application_channels [OF assms(2)] by blast
  have "device_handle_packet writing_down (count_valid d) (good_packet (open_frame c q)) = (?d1, success)"
    using assms c
    by (simp add: device_handle_packet_def good_packet_def packet_valid_def open_frame_def cdc_defs
        device_update_channel_def change_channel_def tell_channel_def writing_down_def Let_def)
  then have "ingest_bytes (device_handle_packet writing_down) d (frame_wire (open_frame c q) @ rest) =
       ingest_bytes (device_handle_packet writing_down) ?d1 rest" for rest
    using ingest_frame [OF open_frame_ok [OF assms(2)] assms(4)] by simp
  then show thesis
    by (rule that) (use assms c in \<open>simp_all add: tell_channel_def writing_down_def set_channel_def
      channel_is_open_def between_packets_def\<close>)
qed

text \<open>A stream goes out in pieces of at most the negotiated size, one frame each.\<close>

lemma send_chunks_writes:
  assumes "application_channel c" and "0 < most" and "most \<le> 256"
  shows "\<exists>pieces s'. send_chunks writing_down c most bs s = Some (s', success) \<and> concat pieces = bs \<and>
    (\<forall>p \<in> set pieces. p \<noteq> [] \<and> length p \<le> most) \<and>
    wrote s' = wrote s @ data_wire c (next_transmit_sequence s) pieces \<and> established s' = established s"
proof (induction "length bs" arbitrary: bs s rule: less_induct)
  case less
  show ?case
  proof (cases "bs = []")
    case True
    then show ?thesis
      by (subst send_chunks.simps) (intro exI [of _ "[]"], simp)
  next
    case False
    let ?p = "take (min most (length bs)) bs" and ?rest = "drop (min most (length bs)) bs"
    let ?q = "next_transmit_sequence s"
    let ?s = "put_wire (frame_wire (data_frame c ?q ?p)) s"
    have p: "length ?p \<le> 256" "?p \<noteq> []" "length ?p \<le> most" using assms(2,3) False by auto
    have sent: "send_frame writing_down s type_stream_data c ?q ?p = (?s, success)"
      unfolding data_frame_def
      by (rule send_frame_writes) (use data_frame_ok [OF assms(1) p(1)] in \<open>simp only: data_frame_def\<close>)
    obtain pieces s' where rest: "send_chunks writing_down c most ?rest (sent_one ?s) = Some (s', success)"
      "concat pieces = ?rest" "\<forall>p \<in> set pieces. p \<noteq> [] \<and> length p \<le> most"
      "wrote s' = wrote (sent_one ?s) @ data_wire c (next_transmit_sequence (sent_one ?s)) pieces"
      "established s' = established (sent_one ?s)"
      using less.hyps [of ?rest "sent_one ?s"] assms(2) False by auto
    have "send_chunks writing_down c most bs s = Some (s', success)"
      using False rest(1) by (subst send_chunks.simps) (simp add: Let_def sent)
    then show ?thesis
      using rest p by (intro exI [of _ "?p # pieces"] exI [of _ s']) (simp add: sent_one_def)
  qed
qed

lemma device_takes_data:
  assumes "application_channel c"
  shows "established d \<Longrightarrow> channel_is_open d c \<Longrightarrow> between_packets d \<Longrightarrow> expected_receive_sequence d = q \<Longrightarrow>
    \<forall>p \<in> set pieces. length p \<le> 256 \<Longrightarrow>
    \<exists>d'. ingest_bytes (device_handle_packet writing_down) d (data_wire c q pieces) = (d', success) \<and>
      got d' = got d @ map (Pair c) pieces \<and> wrote d' = wrote d \<and> established d' \<and> channel_is_open d' c"
proof (induction pieces arbitrary: d q)
  case Nil
  then show ?case by simp
next
  case (Cons p pieces)
  let ?d1 = "fst (deliver writing_down ((count_valid d)\<lparr>expected_receive_sequence := q + 1\<rparr>) c p)"
  have "channel_is_open ((count_valid d)\<lparr>expected_receive_sequence := q + 1\<rparr>) c"
    using Cons.prems(2) by (simp add: channel_is_open_def)
  then have "device_handle_packet writing_down (count_valid d) (good_packet (data_frame c q p)) = (?d1, success)"
    using Cons.prems
    by (simp add: device_handle_packet_def good_packet_def packet_valid_def data_frame_def cdc_defs
        deliver_def writing_down_def Let_def)
  moreover have "frame_ok (data_frame c q p)" using Cons.prems(5) assms by (simp add: data_frame_ok)
  ultimately have "ingest_bytes (device_handle_packet writing_down) d (data_wire c q (p # pieces)) =
      ingest_bytes (device_handle_packet writing_down) ?d1 (data_wire c (q + 1) pieces)"
    using ingest_frame [OF _ Cons.prems(3)] by simp
  moreover have "\<exists>d'. ingest_bytes (device_handle_packet writing_down) ?d1 (data_wire c (q + 1) pieces) = (d', success) \<and>
      got d' = got ?d1 @ map (Pair c) pieces \<and> wrote d' = wrote ?d1 \<and> established d' \<and> channel_is_open d' c"
    using Cons.prems by (intro Cons.IH)
      (simp_all add: deliver_def writing_down_def channel_is_open_def between_packets_def)
  ultimately show ?case by (auto simp: deliver_def writing_down_def)
qed


section \<open>The link delivers\<close>

abbreviation device_reads :: "link_world device_session \<Rightarrow> bytes list \<Rightarrow> link_world device_session" where
  "device_reads \<equiv> foldl (\<lambda>d bs. fst (device_ingest_wire writing_down d bs))"

abbreviation host_reads :: "link_world host_session \<Rightarrow> bytes list \<Rightarrow> link_world host_session" where
  "host_reads \<equiv> foldl (\<lambda>h bs. fst (host_ingest_wire writing_down h bs))"

lemma device_reads_all:
  "device_ingest_wire writing_down d bs = (d', success) \<Longrightarrow> concat chunks = bs \<Longrightarrow> device_reads d chunks = d'"
  using wire.run_pieces [of "device_handle_packet writing_down" d chunks]
  by (simp add: device_ingest_wire_def ingest_def)

lemma host_reads_all:
  "host_ingest_wire writing_down h bs = (h', success) \<Longrightarrow> concat chunks = bs \<Longrightarrow> host_reads h chunks = h'"
  using wire.run_pieces [of "host_handle_packet writing_down" h chunks]
  by (simp add: host_ingest_wire_def ingest_def)

text \<open>The whole exchange, uncut: the greeting, its answer, and what the host then writes.\<close>

definition exchange :: "link_world host_session \<Rightarrow> link_world device_session \<Rightarrow> mux_channel \<Rightarrow> bytes \<Rightarrow>
    link_world host_session \<Rightarrow> link_world device_session \<Rightarrow> link_world host_session \<Rightarrow>
    link_world host_session \<Rightarrow> link_world host_session \<Rightarrow> bytes \<Rightarrow> link_world device_session \<Rightarrow> bool" where
  "exchange h d c stream h1 d1 h2 h3 h4 rest d2 \<longleftrightarrow>
     begin_handshake writing_down h = (h1, success) \<and> wrote h1 = wrote h @ 0 # frame_wire hello_frame \<and>
     device_ingest_wire writing_down d (0 # frame_wire hello_frame) = (d1, success) \<and>
     wrote d1 = wrote d @ frame_wire ack_frame \<and>
     host_ingest_wire writing_down h1 (frame_wire ack_frame) = (h2, success) \<and>
     host_open_channel writing_down h2 c = (h3, success) \<and>
     host_send_stream writing_down h3 c stream = Some (h4, success) \<and> established h4 \<and>
     wrote h4 = wrote h1 @ rest \<and> device_ingest_wire writing_down d1 rest = (d2, success) \<and>
     wrote d2 = wrote d1 \<and> established d2 \<and> channel_is_open d2 c \<and>
     (\<exists>pieces. got d2 = got d @ map (Pair c) pieces \<and> concat pieces = stream \<and>
        (\<forall>p \<in> set pieces. length p \<in> {1..256}))"

lemma exchange_runs:
  assumes "session_ok h" and "session_initialized h" and "session_ok d" and "between_packets d"
    and "application_channel c"
  shows "\<exists>h1 d1 h2 h3 h4 rest d2. exchange h d c stream h1 d1 h2 h3 h4 rest d2"
proof -
  obtain h1 where begun: "begin_handshake writing_down h = (h1, success)"
    and h1: "wrote h1 = wrote h @ 0 # frame_wire hello_frame" "handshake_pending h1"
    "channels h1 = replicate 5 False" "next_transmit_sequence h1 = 1" "between_packets h1"
    using begin_handshake_writes [OF assms(1,2)] by blast
  obtain d1 where run1: "device_ingest_wire writing_down d (0 # frame_wire hello_frame) = (d1, success)"
    and d1: "wrote d1 = wrote d @ frame_wire ack_frame" "got d1 = got d" "established d1"
    "channels d1 = replicate 5 False" "expected_receive_sequence d1 = 1" "between_packets d1"
    using device_takes_hello [OF assms(3,4)] by blast
  obtain h2 where runa: "host_ingest_wire writing_down h1 (frame_wire ack_frame) = (h2, success)"
    and h2: "wrote h2 = wrote h1" "established h2" "channels h2 = replicate 5 False"
    "next_transmit_sequence h2 = 1" "negotiated_payload_size h2 = 256"
    using host_takes_ack [OF h1(2,5)] h1(3,4) by metis
  obtain h3 where opens: "host_open_channel writing_down h2 c = (h3, success)"
    and h3: "wrote h3 = wrote h2 @ frame_wire (open_frame c 1)" "established h3"
    "channel_is_open h3 c" "next_transmit_sequence h3 = 2" "negotiated_payload_size h3 = 256"
    using host_opens_channel [OF h2(2) assms(5) h2(3)] h2(4,5) by (metis one_add_one)
  obtain pieces h4 where sent: "send_chunks writing_down c 256 stream h3 = Some (h4, success)"
    "concat pieces = stream" "\<forall>p \<in> set pieces. p \<noteq> [] \<and> length p \<le> 256"
    "wrote h4 = wrote h3 @ data_wire c 2 pieces" "established h4"
    using send_chunks_writes [OF assms(5), of 256 stream h3] h3(2,4) by auto
  have stream: "host_send_stream writing_down h3 c stream = Some (h4, success)"
    using sent(1) h3(2,3,5) by (simp add: host_send_stream_def send_stream_def)
  obtain da where opened: "\<And>rest. ingest_bytes (device_handle_packet writing_down) d1 (frame_wire (open_frame c 1) @ rest) =
       ingest_bytes (device_handle_packet writing_down) da rest"
    and da: "wrote da = wrote d1" "got da = got d1" "established da" "channel_is_open da c"
    "expected_receive_sequence da = 2" "between_packets da"
    using device_opens_channel [OF d1(3) assms(5) d1(4,6,5)] by (metis one_add_one)
  obtain d2 where d2: "ingest_bytes (device_handle_packet writing_down) da (data_wire c 2 pieces) = (d2, success)"
    "got d2 = got da @ map (Pair c) pieces" "wrote d2 = wrote da" "established d2" "channel_is_open d2 c"
    using device_takes_data [OF assms(5) da(3,4,6,5)] sent(3) by blast
  have "device_ingest_wire writing_down d1 (frame_wire (open_frame c 1) @ data_wire c 2 pieces) = (d2, success)"
    using opened d2(1) by (simp add: device_ingest_wire_def ingest_def)
  moreover have "\<forall>p \<in> set pieces. length p \<in> {1..256}" using sent(3) by (auto simp: Suc_le_eq)
  ultimately have "exchange h d c stream h1 d1 h2 h3 h4 (frame_wire (open_frame c 1) @ data_wire c 2 pieces) d2"
    unfolding exchange_def using begun h1(1) run1 d1(1,2) runa opens stream sent h3(1) h2(1) d2 da by auto
  then show ?thesis by blast
qed

text \<open>
  C4. From any session the two ends were in, with nothing half received at the device: the
  host's greeting, cut in any way, is answered; once the host has read the answer, cut in any
  way, it opens an application channel and sends a stream; and what it wrote since the
  greeting, cut in any way, makes the device deliver exactly the stream on that channel, in
  order, in pieces of 1 to 256 bytes, and nothing else. All calls succeed, and the device
  reports no error.
\<close>

theorem link_delivers:
  assumes "host_reachable writing_down h" and "session_initialized h"
    and "device_reachable writing_down d" and "between_packets d" and "application_channel c"
    and "begin_handshake writing_down h = (h1, st1)" and "wrote h1 = wrote h @ concat up1"
    and "wrote (device_reads d up1) = wrote d @ concat down"
    and "host_open_channel writing_down (host_reads h1 down) c = (h3, st3)"
    and "host_send_stream writing_down h3 c stream = Some (h4, st4)"
    and "wrote h4 = wrote h1 @ concat up2"
  shows "st1 = success \<and> st3 = success \<and> st4 = success \<and> established h4 \<and>
    established (device_reads (device_reads d up1) up2) \<and>
    channel_is_open (device_reads (device_reads d up1) up2) c \<and>
    wrote (device_reads (device_reads d up1) up2) = wrote (device_reads d up1) \<and>
    (\<exists>pieces. got (device_reads (device_reads d up1) up2) = got d @ map (Pair c) pieces \<and>
      concat pieces = stream \<and> (\<forall>p \<in> set pieces. length p \<in> {1..256}))"
proof -
  obtain h1' d1 h2 h3' h4' rest d2 where e: "exchange h d c stream h1' d1 h2 h3' h4' rest d2"
    using exchange_runs [OF host_reachable_ok [OF assms(1)] assms(2) device_reachable_ok [OF assms(3)] assms(4,5)]
    by blast
  have h1: "h1' = h1" "st1 = success" "concat up1 = 0 # frame_wire hello_frame"
    using e assms(6,7) by (auto simp: exchange_def)
  have d1: "device_reads d up1 = d1"
    using e by (intro device_reads_all [OF _ h1(3)]) (simp add: exchange_def)
  have down: "concat down = frame_wire ack_frame" using e assms(8) d1 by (simp add: exchange_def)
  have "host_reads h1 down = h2"
    using e h1(1) by (intro host_reads_all [OF _ down]) (simp add: exchange_def)
  then have h3: "h3' = h3" "st3 = success" using e assms(9) by (auto simp: exchange_def)
  then have h4: "h4' = h4" "st4 = success" "concat up2 = rest"
    using e assms(10,11) h1(1) by (auto simp: exchange_def)
  have "device_reads d1 up2 = d2"
    using e by (intro device_reads_all [OF _ h4(3)]) (simp add: exchange_def)
  then show ?thesis using e h1 h3 h4 d1 by (auto simp: exchange_def)
qed

definition silent_world :: link_world where
  "silent_world = \<lparr>written = [], delivered = [], channel_changes = [], link_changes = []\<rparr>"

definition example_host :: "link_world host_session" where
  "example_host = fst (host_initialize (Some (wire_writer writing_down)) (Some (data_callback writing_down))
     (Some (state_callback writing_down)) silent_world (fresh_host silent_world))"

definition example_device :: "link_world device_session" where
  "example_device = fst (device_initialize (Some (wire_writer writing_down)) (Some (data_callback writing_down))
     (Some (state_callback writing_down)) (Some (link_state_callback writing_down)) silent_world
     (fresh_device silent_world))"

lemma example_sessions:
  "host_reachable writing_down example_host" "session_initialized example_host" "wrote example_host = []"
  "device_reachable writing_down example_device" "between_packets example_device" "got example_device = []"
proof -
  show "host_reachable writing_down example_host" unfolding example_host_def by (intro host_initialized host_fresh)
  show "device_reachable writing_down example_device"
    unfolding example_device_def by (intro device_initialized device_fresh)
qed (simp_all add: example_host_def example_device_def host_initialize_def device_initialize_def fresh_host_def
    fresh_device_def between_packets_def silent_world_def)

lemma link_delivers_witness:
  "\<exists>h1 h3 h4 rest pieces. begin_handshake writing_down example_host = (h1, success) \<and>
     host_open_channel writing_down (host_reads h1 [frame_wire ack_frame]) channel_binary_data = (h3, success) \<and>
     host_send_stream writing_down h3 channel_binary_data [1, 0, 2] = Some (h4, success) \<and>
     got (device_reads (device_reads example_device [[0], frame_wire hello_frame]) [take 2 rest, drop 2 rest]) =
       map (Pair channel_binary_data) pieces \<and>
     concat pieces = [1, 0, 2]"
proof -
  have c: "application_channel channel_binary_data" by (simp add: application_channel_def)
  obtain h1 d1 h2 h3 h4 rest d2 where e: "exchange example_host example_device channel_binary_data [1, 0, 2] h1 d1 h2 h3 h4 rest d2"
    using exchange_runs [OF host_reachable_ok [OF example_sessions(1)] example_sessions(2)
        device_reachable_ok [OF example_sessions(4)] example_sessions(5) c] by blast
  then have runs: "begin_handshake writing_down example_host = (h1, success)"
    "wrote h1 = wrote example_host @ concat [[0], frame_wire hello_frame]"
    "device_reads example_device [[0], frame_wire hello_frame] = d1"
    "host_reads h1 [frame_wire ack_frame] = h2" "host_open_channel writing_down h2 channel_binary_data = (h3, success)"
    "host_send_stream writing_down h3 channel_binary_data [1, 0, 2] = Some (h4, success)"
    "wrote d1 = wrote example_device @ concat [frame_wire ack_frame]"
    "wrote h4 = wrote h1 @ concat [take 2 rest, drop 2 rest]"
    using device_reads_all [of example_device "0 # frame_wire hello_frame" d1 "[[0], frame_wire hello_frame]"]
    by (simp_all add: exchange_def)
  show ?thesis
    using link_delivers [OF example_sessions(1,2,4,5) c runs(1,2), of "[frame_wire ack_frame]" h3 success "[1, 0, 2]" h4 success
        "[take 2 rest, drop 2 rest]"] runs example_sessions(6)
    by auto
qed

section \<open>A frame before the answer\<close>

text \<open>
  C30. While the host's greeting is unanswered, any well-formed frame but the answer, one left
  over from an earlier session for example, ends the handshake: the host reports a sequence
  mismatch and refuses the answer that follows.
\<close>

theorem early_frame_ends_handshake:
  assumes "host_reachable cb h" and "begin_handshake cb h = (h1, st)" and "is_ok st"
    and "frame_ok f" and "frame_type f \<noteq> type_hello_ack"
  shows "\<exists>h2. host_ingest_wire cb h1 (frame_wire f) = (h2, sequence_mismatch) \<and>
    \<not> handshake_pending h2 \<and> \<not> established h2 \<and>
    snd (host_ingest_wire cb h2 (frame_wire ack_frame)) = sequence_mismatch"
proof -
  have clean: "between_packets h1" "\<not> established h1"
  proof -
    have "session_initialized h" using assms(2,3)
      by (auto simp: begin_handshake_def status_defs is_ok_def split: if_splits)
    let ?s1 = "(reset_decoder (clear_channels cb h))\<lparr>established := False, handshake_pending := True,
              negotiated_payload_size := 0, next_transmit_sequence := 1,
              expected_receive_sequence := 1, last_peer_error := 0\<rparr>"
    obtain w st' where w: "send_frame cb (?s1\<lparr>callback_context := fst (wire_writer cb (callback_context ?s1) [0])\<rparr>)
        type_hello channel_link 0 hello_payload = (?s1\<lparr>callback_context := w\<rparr>, st')"
      using send_frame_context [of cb "?s1\<lparr>callback_context := fst (wire_writer cb (callback_context ?s1) [0])\<rparr>"
          type_hello channel_link 0 hello_payload] by auto
    have "\<exists>w. h1 = ?s1\<lparr>callback_context := w\<rparr>"
      using assms(2,3) \<open>session_initialized h\<close> w unfolding begin_handshake_def Let_def case_prod_beta
      by (auto split: if_splits)
    then show "between_packets h1" "\<not> established h1"
      by (auto simp: between_packets_def reset_decoder_def)
  qed
  let ?h2 = "host_reset cb (count_valid h1)"
  have failed: "\<not> is_ok sequence_mismatch" by (simp add: status_defs is_ok_def)
  have "host_handle_packet cb (count_valid h1) (good_packet f) = (?h2, sequence_mismatch)"
    using clean(2) assms(5) by (simp add: host_handle_packet_def good_packet_def packet_valid_def)
  then have first: "host_ingest_wire cb h1 (frame_wire f) = (?h2, sequence_mismatch)"
    using ingest_frame [OF assms(4) clean(1), of "host_handle_packet cb" "[]"] failed
    by (simp add: host_ingest_wire_def ingest_def)
  have h2: "between_packets ?h2" "\<not> handshake_pending ?h2" "\<not> established ?h2"
    by (simp_all add: host_reset_def between_packets_def reset_decoder_def)
  have "host_handle_packet cb (count_valid ?h2) (good_packet ack_frame) = (host_reset cb (count_valid ?h2), sequence_mismatch)"
    using h2(2,3) by (simp add: host_handle_packet_def good_packet_def packet_valid_def count_valid_def)
  then have "snd (host_ingest_wire cb ?h2 (frame_wire ack_frame)) = sequence_mismatch"
    using ingest_frame [OF handshake_frames_ok(2) h2(1), of "host_handle_packet cb" "[]"] failed
    by (simp add: host_ingest_wire_def ingest_def)
  then show ?thesis using first h2(2,3) by blast
qed

definition left_over_frame :: frame_view where
  "left_over_frame = \<lparr>frame_type = type_stream_data, frame_channel = channel_control_status,
     frame_sequence = 9, frame_payload = [79, 75]\<rparr>"

lemma early_frame_ends_handshake_witness:
  "\<exists>h1 h2. begin_handshake writing_down example_host = (h1, success) \<and>
     host_ingest_wire writing_down h1 (frame_wire left_over_frame) = (h2, sequence_mismatch) \<and>
     snd (host_ingest_wire writing_down h2 (frame_wire ack_frame)) = sequence_mismatch"
proof -
  obtain h1 where h1: "begin_handshake writing_down example_host = (h1, success)"
    using begin_handshake_writes [OF host_reachable_ok [OF example_sessions(1)] example_sessions(2)] by blast
  have "frame_ok left_over_frame" "frame_type left_over_frame \<noteq> type_hello_ack"
    by (simp_all add: frame_ok_def left_over_frame_def known_type_def known_channel_def valid_type_channel_def cdc_defs)
  from early_frame_ends_handshake [OF example_sessions(1) h1 _ this] show ?thesis using h1 by auto
qed

end
