(* ===== verification/UacFormat.thy ===== *)
theory UacFormat
  imports Status Pcm24
begin

text \<open>
  \<^verbatim>\<open>rt1170/usb_audio.hpp\<close>, first part: the capture formats and a packet's bytes in each.
  A stereo frame's samples are words of 32 bits, the sample in the upper 24
  (\<^verbatim>\<open>slot_word()\<close> of \<^verbatim>\<open>rt1170/player.cpp\<close>); \<^verbatim>\<open>bit_cast\<close> to bytes is the little-endian bytes,
  as the code's static assertion requires. Frames, bytes, intervals and ticks are their counts.
  The constants of \<^verbatim>\<open>usb/usb_composite.h\<close> are written out; the mono alternate is a build
  option, an argument here.
\<close>

section \<open>Formats\<close>

record stereo_frame =
  left :: u32
  right :: u32

record stream_format =
  alternate :: u8
  format_channels :: u8
  subslot_bytes :: u8
  format_bits :: u8

definition no_format :: stream_format where
  "no_format = \<lparr>alternate = 0, format_channels = 0, subslot_bytes = 0, format_bits = 0\<rparr>"

definition uac_packet_frames :: u32 where "uac_packet_frames = 48"
definition chunk_frame_count :: nat where "chunk_frame_count = 48"
definition max_packet_byte_count :: nat where "max_packet_byte_count = 48 * 2 * 4"

definition pcm24_stereo :: stream_format where
  "pcm24_stereo = \<lparr>alternate = 1, format_channels = 2, subslot_bytes = 4, format_bits = 24\<rparr>"
definition pcm16_stereo :: stream_format where
  "pcm16_stereo = \<lparr>alternate = 2, format_channels = 2, subslot_bytes = 2, format_bits = 16\<rparr>"
definition pcm16_mono :: stream_format where
  "pcm16_mono = \<lparr>alternate = 3, format_channels = 1, subslot_bytes = 2, format_bits = 16\<rparr>"

definition stream_formats :: "stream_format list" where
  "stream_formats = [pcm24_stereo, pcm16_stereo, pcm16_mono]"

definition offered_format_count :: "bool \<Rightarrow> nat" where
  "offered_format_count mono_alternate = (if mono_alternate then 3 else 2)"

definition frame_bytes :: "stream_format \<Rightarrow> u32" where
  "frame_bytes f = ucast (format_channels f) * ucast (subslot_bytes f)"

definition packet_bytes :: "stream_format \<Rightarrow> u32" where
  "packet_bytes f = uac_packet_frames * frame_bytes f"

definition fifo_target_chunks :: u32 where "fifo_target_chunks = 2"
definition fifo_capacity_bytes :: u32 where "fifo_capacity_bytes = 4 * (48 * 2 * 4)"

definition fifo_target_bytes :: "stream_format \<Rightarrow> u32" where
  "fifo_target_bytes f = fifo_target_chunks * packet_bytes f"

definition producer_supports :: "stream_format \<Rightarrow> bool" where
  "producer_supports f \<longleftrightarrow>
     (format_channels f = 2 \<or> format_channels f = 1) \<and> subslot_bytes f \<noteq> 0 \<and> subslot_bytes f \<le> 4 \<and>
     unat (format_bits f) = 8 * min (unat (subslot_bytes f)) 3 \<and>
     packet_bytes f \<le> of_nat max_packet_byte_count \<and>
     fifo_target_bytes f + packet_bytes f \<le> fifo_capacity_bytes"

definition format_not_offered :: status where
  [status_defs]: "format_not_offered = \<lparr>code = Invalid_argument, message = ''UAC2 alternate setting not offered''\<rparr>"

definition offered_format :: "bool \<Rightarrow> u32 \<Rightarrow> stream_format result" where
  "offered_format mono_alternate n =
     (if n = 0 \<or> n > of_nat (offered_format_count mono_alternate) then Inl format_not_offered
      else Inr (stream_formats ! unat (n - 1)))"

section \<open>Packets\<close>

definition subslot_of :: "u32 \<Rightarrow> bytes" where
  "subslot_of v = [byte_of 0 v, byte_of 1 v, byte_of 2 v, byte_of 3 v]"

definition wire_subslot :: "bytes \<Rightarrow> nat \<Rightarrow> bytes" where
  "wire_subslot src n = drop (length src - min n (length src)) src"

definition frame_on_wire :: "stream_format \<Rightarrow> stereo_frame \<Rightarrow> bytes" where
  "frame_on_wire f frame =
     wire_subslot (subslot_of (left frame)) (unat (subslot_bytes f)) @
     (if format_channels f = 2 then wire_subslot (subslot_of (right frame)) (unat (subslot_bytes f)) else [])"

definition pack_frames :: "stereo_frame list \<Rightarrow> stream_format \<Rightarrow> bytes" where
  "pack_frames frames f = concat (map (frame_on_wire f) frames)"

definition wav_bytes :: "u32 \<Rightarrow> bytes" where
  "wav_bytes subslot = [byte_of 1 subslot, byte_of 2 subslot, byte_of 3 subslot]"

text \<open>What the player writes for a sample: \<^verbatim>\<open>slot_word()\<close> and \<^verbatim>\<open>UsbChunk::put()\<close>.\<close>

definition slot_word :: "pcm24_sample \<Rightarrow> u32" where
  "slot_word s = push_bit 8 (word_of_int s)"

definition player_frame :: "pcm24_sample \<Rightarrow> stereo_frame" where
  "player_frame s = \<lparr>left = slot_word s, right = slot_word s\<rparr>"

section \<open>What the wire carries\<close>

lemma byte_of_slot:
  "byte_of 0 (slot_word s) = 0"
  "byte_of (Suc 0) (slot_word s) = ucast (word_of_int s :: u32)"
  "byte_of 2 (slot_word s) = ucast (drop_bit 8 (word_of_int s :: u32))"
  "byte_of 3 (slot_word s) = ucast (drop_bit 16 (word_of_int s :: u32))"
  by (rule bit_word_eqI, auto simp: bit_byte_of slot_word_def bit_simps)+

lemma wav_bytes_slot: "wav_bytes (slot_word s) = (case write_pcm24_le s of (b0, b1, b2) \<Rightarrow> [b0, b1, b2])"
proof -
  have "ucast (drop_bit k (take_bit 24 (word_of_int s :: u32))) = (ucast (drop_bit k (word_of_int s :: u32)) :: u8)"
    if "k \<le> 16" for k
    by (rule bit_word_eqI) (use that in \<open>auto simp: bit_simps\<close>)
  from this [of 0] this [of 8] this [of 16] show ?thesis
    by (simp add: wav_bytes_def byte_of_slot write_pcm24_le_def Let_def and_24_bits)
qed

text \<open>The 16-bit sample whose little-endian bytes are given.\<close>

definition sample16 :: "u8 \<Rightarrow> u8 \<Rightarrow> int" where
  "sample16 b0 b1 = sint (ucast b0 OR push_bit 8 (ucast b1) :: 16 word)"

lemma sample16_slot:
  assumes "is_pcm24 s"
  shows "sample16 (byte_of 2 (slot_word s)) (byte_of 3 (slot_word s)) = s div 256"
proof -
  let ?w = "word_of_int s :: u32"
  have "(ucast (byte_of 2 (slot_word s)) OR push_bit 8 (ucast (byte_of 3 (slot_word s))) :: 16 word) =
      ucast (drop_bit 8 ?w)"
    unfolding byte_of_slot by (rule bit_word_eqI) (auto simp: bit_simps dest: bit_imp_le_length)
  also have "\<dots> = word_of_int (s div 256)"
    by (rule bit_word_eqI) (auto simp: bit_simps drop_bit_eq_div [of 8 s, simplified, symmetric])
  finally have "sample16 (byte_of 2 (slot_word s)) (byte_of 3 (slot_word s)) = signed_take_bit 15 (s div 256)"
    by (simp add: sample16_def sint_sbintrunc')
  moreover have "- (2 ^ 15) \<le> s div 256" "s div 256 < 2 ^ 15"
    using assms by (auto simp: is_pcm24_def pcm24_min_def pcm24_max_def)
  ultimately show ?thesis by (simp add: signed_take_bit_int_eq_self_iff)
qed

lemma nth_concat_even:
  assumes "\<And>x. length (g x) = k"
  shows "i < length xs \<Longrightarrow> j < k \<Longrightarrow> concat (map g xs) ! (k * i + j) = g (xs ! i) ! j"
proof (induction xs arbitrary: i)
  case Nil
  then show ?case by simp
next
  case (Cons x xs)
  then show ?case by (cases i) (simp_all add: assms nth_append algebra_simps)
qed

lemma length_concat_even: "(\<And>x. length (g x) = k) \<Longrightarrow> length (concat (map g xs)) = k * length xs"
  by (induction xs) simp_all

lemma frame_lengths:
  "length (frame_on_wire pcm24_stereo f) = 8" "length (frame_on_wire pcm16_stereo f) = 4"
  "length (frame_on_wire pcm16_mono f) = 2"
  by (simp_all add: frame_on_wire_def wire_subslot_def subslot_of_def pcm24_stereo_def pcm16_stereo_def pcm16_mono_def)

lemma pack_nth:
  assumes "i < length fs"
  shows "j < 8 \<Longrightarrow> pack_frames fs pcm24_stereo ! (8 * i + j) = frame_on_wire pcm24_stereo (fs ! i) ! j"
    and "j < 4 \<Longrightarrow> pack_frames fs pcm16_stereo ! (4 * i + j) = frame_on_wire pcm16_stereo (fs ! i) ! j"
    and "j < 2 \<Longrightarrow> pack_frames fs pcm16_mono ! (2 * i + j) = frame_on_wire pcm16_mono (fs ! i) ! j"
  unfolding pack_frames_def using assms
  by (auto intro!: nth_concat_even simp: frame_lengths)

text \<open>
  C38. A chunk of samples as the player supplies it goes out, in each of the three formats, as
  a packet of exactly the format's size: at 24 bits each channel's sample above one zero byte,
  the very bytes of its PCM24 file; at 16 bits each channel's sample divided by 256 and rounded
  down.
\<close>

theorem packets_carry_samples:
  assumes "list_all is_pcm24 ss" and "length ss = chunk_frame_count"
  shows "(\<forall>f \<in> set stream_formats. length (pack_frames (map player_frame ss) f) = unat (packet_bytes f) \<and>
      unat (packet_bytes f) \<le> max_packet_byte_count) \<and>
    (\<forall>i < chunk_frame_count.
       let p = pack_frames (map player_frame ss) pcm24_stereo;
           q = pack_frames (map player_frame ss) pcm16_stereo;
           m = pack_frames (map player_frame ss) pcm16_mono;
           (b0, b1, b2) = write_pcm24_le (ss ! i)
       in map ((!) p) [8 * i..<8 * i + 8] = [0, b0, b1, b2, 0, b0, b1, b2] \<and>
          sample16 (q ! (4 * i)) (q ! (4 * i + 1)) = ss ! i div 256 \<and>
          sample16 (q ! (4 * i + 2)) (q ! (4 * i + 3)) = ss ! i div 256 \<and>
          sample16 (m ! (2 * i)) (m ! (2 * i + 1)) = ss ! i div 256)"
proof (intro conjI allI impI ballI)
  fix f assume "f \<in> set stream_formats"
  then show "length (pack_frames (map player_frame ss) f) = unat (packet_bytes f)"
    and "unat (packet_bytes f) \<le> max_packet_byte_count"
    using assms(2) length_concat_even [of "frame_on_wire pcm24_stereo" 8 "map player_frame ss"]
      length_concat_even [of "frame_on_wire pcm16_stereo" 4 "map player_frame ss"]
      length_concat_even [of "frame_on_wire pcm16_mono" 2 "map player_frame ss"]
    by (auto simp: stream_formats_def pack_frames_def frame_lengths packet_bytes_def frame_bytes_def
        uac_packet_frames_def max_packet_byte_count_def chunk_frame_count_def)
      (simp_all add: pcm24_stereo_def pcm16_stereo_def pcm16_mono_def)
next
  fix i assume i: "i < chunk_frame_count"
  let ?s = "ss ! i" and ?fs = "map player_frame ss"
  have len: "i < length ?fs" and at: "?fs ! i = player_frame ?s" and ok: "is_pcm24 ?s"
    using i assms by (simp_all add: list_all_length)
  obtain b0 b1 b2 where b: "write_pcm24_le ?s = (b0, b1, b2)" by (metis prod_cases3)
  have bytes: "byte_of (Suc 0) (slot_word ?s) = b0" "byte_of 2 (slot_word ?s) = b1" "byte_of 3 (slot_word ?s) = b2"
    using wav_bytes_slot [of ?s] b by (simp_all add: wav_bytes_def)
  let ?f = "frame_on_wire pcm24_stereo (player_frame ?s)"
  have f: "?f = [0, b0, b1, b2, 0, b0, b1, b2]"
    by (simp add: frame_on_wire_def wire_subslot_def subslot_of_def pcm24_stereo_def player_frame_def byte_of_slot(1) bytes)
  have "map ((!) (pack_frames ?fs pcm24_stereo)) [8 * i..<8 * i + 8] =
      map (\<lambda>j. pack_frames ?fs pcm24_stereo ! (8 * i + j)) [0..<8]"
    by (rule nth_equalityI) simp_all
  also have "\<dots> = map ((!) ?f) [0..<length ?f]"
    using pack_nth(1) [OF len] at by (simp add: frame_lengths)
  finally have "map ((!) (pack_frames ?fs pcm24_stereo)) [8 * i..<8 * i + 8] = [0, b0, b1, b2, 0, b0, b1, b2]"
    by (simp only: map_nth f)
  moreover have "sample16 b1 b2 = ?s div 256" using sample16_slot [OF ok] bytes by simp
  moreover have "frame_on_wire pcm16_stereo (player_frame ?s) = [b1, b2, b1, b2]"
    "frame_on_wire pcm16_mono (player_frame ?s) = [b1, b2]"
    by (simp_all add: frame_on_wire_def wire_subslot_def subslot_of_def pcm16_stereo_def pcm16_mono_def
        player_frame_def bytes)
  ultimately show "let p = pack_frames ?fs pcm24_stereo; q = pack_frames ?fs pcm16_stereo;
      m = pack_frames ?fs pcm16_mono; (b0, b1, b2) = write_pcm24_le ?s
    in map ((!) p) [8 * i..<8 * i + 8] = [0, b0, b1, b2, 0, b0, b1, b2] \<and>
       sample16 (q ! (4 * i)) (q ! (4 * i + 1)) = ?s div 256 \<and>
       sample16 (q ! (4 * i + 2)) (q ! (4 * i + 3)) = ?s div 256 \<and>
       sample16 (m ! (2 * i)) (m ! (2 * i + 1)) = ?s div 256"
    using pack_nth(2) [OF len, of 0] pack_nth(2) [OF len, of 1] pack_nth(2) [OF len, of 2]
      pack_nth(2) [OF len, of 3] pack_nth(3) [OF len, of 0] pack_nth(3) [OF len, of 1]
    by (simp add: Let_def b at)
qed

lemma packets_carry_samples_witness:
  "length (pack_frames (map player_frame (replicate 48 (- 300))) pcm16_mono) = 96 \<and>
   sample16 (pack_frames (map player_frame (replicate 48 (- 300))) pcm16_mono ! 6)
     (pack_frames (map player_frame (replicate 48 (- 300))) pcm16_mono ! 7) = - 2"
proof -
  have ok: "list_all is_pcm24 (replicate 48 (- 300))" "length (replicate 48 (- 300 :: int)) = chunk_frame_count"
    by (simp_all add: list_all_iff is_pcm24_def pcm24_min_def pcm24_max_def chunk_frame_count_def)
  have "pcm16_mono \<in> set stream_formats" by (simp add: stream_formats_def)
  moreover have "(3 :: nat) < chunk_frame_count" by (simp add: chunk_frame_count_def)
  ultimately show ?thesis using packets_carry_samples [OF ok]
    by (auto simp: Let_def case_prod_beta packet_bytes_def frame_bytes_def uac_packet_frames_def pcm16_mono_def
        dest!: spec [of _ 3])
qed

end
