(* ===== verification/UacStream.thy ===== *)
theory UacStream
  imports UacFormat Crc32 Ring
begin

text \<open>
  \<^verbatim>\<open>UacStream\<close> of \<^verbatim>\<open>rt1170/usb_audio.hpp\<close> and \<^verbatim>\<open>.cpp\<close>: the USB capture stream, which keeps
  the IN FIFO topped up, follows what the host confirmed sent, and judges the gaps between
  completions. TinyUSB's FIFO and the player's output are the arguments \<open>in_fifo\<close> and
  \<open>frame_source\<close>, on states of any type; an operation returns those updated. The buffer a
  packet is built in holds nothing between calls and is left out.
\<close>

section \<open>Intervals\<close>

record gap_samples =
  host_skipped :: u32
  sample_unprimed :: bool

definition no_samples :: gap_samples where
  "no_samples = \<lparr>host_skipped = 0, sample_unprimed = False\<rparr>"

definition missed_after_gap :: "u32 \<Rightarrow> u32 \<Rightarrow> u32" where
  "missed_after_gap missed gap =
     (if gap = 0 then (if missed = 0 then 0 else missed - 1) else missed + gap - 1)"

definition with_part_updated :: "u32 \<Rightarrow> u32 \<Rightarrow> u32 \<Rightarrow> u32" where
  "with_part_updated overall part updated = overall - part + updated"

definition moved_with :: "u32 \<Rightarrow> u32 \<Rightarrow> u32 \<Rightarrow> u32" where
  "moved_with n earlier after =
     (if after \<ge> earlier then n + (after - earlier) else n - min n (earlier - after))"

definition usb_frame_number_modulus :: u32 where "usb_frame_number_modulus = 2048"
definition usb_frame_number_mask :: u32 where "usb_frame_number_mask = usb_frame_number_modulus - 1"
definition usb_frame_number_half :: u32 where "usb_frame_number_half = usb_frame_number_modulus div 2"

definition dealiased_gap :: "u32 \<Rightarrow> u32 \<Rightarrow> u32" where
  "dealiased_gap aliased ticks =
     (if ticks \<le> aliased + usb_frame_number_half then aliased
      else
        let wraps = (ticks - aliased + usb_frame_number_half) div usb_frame_number_modulus
        in aliased + wraps * usb_frame_number_modulus)"

definition unprimed_part :: "u32 \<Rightarrow> gap_samples \<Rightarrow> u32" where
  "unprimed_part missed samples =
     (if \<not> sample_unprimed samples then 0 else missed - min missed (host_skipped samples))"

definition index_reached :: "u32 \<Rightarrow> u32 \<Rightarrow> bool" where
  "index_reached position target \<longleftrightarrow> position - target < (- 1) div 2 + 1"

section \<open>The stream's state\<close>

datatype stream_state = Closed | Priming | Streaming
datatype in_transfer = Unprimed | Primed

record completion =
  sent_bytes :: u32
  frame_number :: u16
  completion_tick :: u32

record scheduled_start =
  start_index :: u32
  start_opens :: u32

record miss_location =
  miss_frame_index :: u32
  miss_unprimed :: u32
  miss_play :: bool

record stream_counters =
  stream_state :: stream_state
  open_format :: stream_format
  sent_mismatches :: u16
  opens :: u32
  frames_sent :: u32
  frames_queued :: u32
  source_frames :: u32
  short_packets :: u32
  rejected_chunks :: u32
  missed_intervals :: u32
  last_miss :: miss_location
  max_gap :: u32
  watchdog_expiries :: u32
  unprimed_intervals :: u32

record play_statistics =
  play_format :: stream_format
  accept_frame_index :: u32
  file_frames :: u32
  first_frame_index :: u32
  first_frame_sof :: u32
  last_frame_index :: u32
  crc32_left :: u32
  crc32_right :: u32
  play_missed :: u32
  play_unprimed :: u32
  first_miss_frame_index :: u32
  pending_frames :: u32
  progress_tick :: u32
  armed :: bool
  interrupted :: bool
  stalled :: bool
  miss_unconfirmed :: bool

record chunk_record =
  chunk_start :: u32
  chunk_file_frames :: u32
  chunk_crc_left :: u32
  chunk_crc_right :: u32

record chunk_records =
  record_slots :: "chunk_record list"
  records_first :: nat
  records_count :: nat

record latest_gap =
  gap_counted :: u32
  gap_unprimed :: u32
  gap_earlier :: miss_location

record interval_tracker =
  tracker_last :: u32
  last_tick :: u32
  stream_missed :: u32
  stream_unprimed :: u32
  tracker_gap :: latest_gap
  tracker_samples :: gap_samples
  tracker_valid :: bool

record channel_crcs =
  crc_left :: crc32_object
  crc_right :: crc32_object

record uac_stream =
  counters :: stream_counters
  play :: play_statistics
  interval :: interval_tracker
  records :: chunk_records
  queued_crcs :: channel_crcs
  play_opens :: u32
  stall_timeout :: u32
  start_at :: "u32 option"
  chunk :: "stereo_frame list"
  play_judged :: bool
  configured :: bool
  in_flight :: bool
  mismatched :: bool

definition no_miss :: miss_location where
  "no_miss = \<lparr>miss_frame_index = 0, miss_unprimed = 0, miss_play = False\<rparr>"

definition no_counters :: stream_counters where
  "no_counters = \<lparr>stream_state = Closed, open_format = no_format, sent_mismatches = 0, opens = 0,
     frames_sent = 0, frames_queued = 0, source_frames = 0, short_packets = 0, rejected_chunks = 0,
     missed_intervals = 0, last_miss = no_miss, max_gap = 0, watchdog_expiries = 0, unprimed_intervals = 0\<rparr>"

definition no_play :: play_statistics where
  "no_play = \<lparr>play_format = no_format, accept_frame_index = 0, file_frames = 0, first_frame_index = 0,
     first_frame_sof = 0, last_frame_index = 0, crc32_left = 0, crc32_right = 0, play_missed = 0,
     play_unprimed = 0, first_miss_frame_index = 0, pending_frames = 0, progress_tick = 0, armed = False,
     interrupted = False, stalled = False, miss_unconfirmed = False\<rparr>"

definition no_record :: chunk_record where
  "no_record = \<lparr>chunk_start = 0, chunk_file_frames = 0, chunk_crc_left = 0, chunk_crc_right = 0\<rparr>"

definition no_gap :: latest_gap where
  "no_gap = \<lparr>gap_counted = 0, gap_unprimed = 0, gap_earlier = no_miss\<rparr>"

definition no_interval :: interval_tracker where
  "no_interval = \<lparr>tracker_last = 0, last_tick = 0, stream_missed = 0, stream_unprimed = 0,
     tracker_gap = no_gap, tracker_samples = no_samples, tracker_valid = False\<rparr>"

definition fresh_crcs :: channel_crcs where
  "fresh_crcs = \<lparr>crc_left = crc32_fresh, crc_right = crc32_fresh\<rparr>"

definition chunk_record_capacity :: nat where "chunk_record_capacity = 8"

definition silent_frame :: stereo_frame where
  "silent_frame = \<lparr>left = 0, right = 0\<rparr>"

definition stream_at_boot :: uac_stream where
  "stream_at_boot = \<lparr>counters = no_counters, play = no_play, interval = no_interval,
     records = \<lparr>record_slots = replicate chunk_record_capacity no_record, records_first = 0, records_count = 0\<rparr>,
     queued_crcs = fresh_crcs, play_opens = 0, stall_timeout = 0, start_at = None,
     chunk = replicate chunk_frame_count silent_frame, play_judged = False, configured = False,
     in_flight = False, mismatched = False\<rparr>"

definition stream_not_configured :: status where
  [status_defs]: "stream_not_configured = \<lparr>code = Unavailable, message = ''UAC2 stream outside a configuration''\<rparr>"
definition stream_format_unknown :: status where
  [status_defs]: "stream_format_unknown = \<lparr>code = Invalid_argument, message = ''UAC2 stream format unknown''\<rparr>"
definition stream_not_open :: status where
  [status_defs]: "stream_not_open = \<lparr>code = Unavailable, message = ''NO_STREAM''\<rparr>"
definition stream_interrupted :: status where
  [status_defs]: "stream_interrupted = \<lparr>code = Unavailable, message = ''USB_STREAM_CLOSED''\<rparr>"
definition chunk_records_full :: status where
  [status_defs]: "chunk_records_full = \<lparr>code = Buffer_too_small, message = ''UAC2 chunk records full''\<rparr>"
definition chunk_refused :: status where
  [status_defs]: "chunk_refused = \<lparr>code = Io_error, message = ''UAC2 IN FIFO refused a chunk''\<rparr>"

section \<open>Chunk records\<close>

definition records_full :: "chunk_records \<Rightarrow> bool" where
  "records_full r \<longleftrightarrow> records_count r = chunk_record_capacity"

definition records_push :: "chunk_records \<Rightarrow> chunk_record \<Rightarrow> chunk_records \<times> status" where
  "records_push r x =
     (if records_full r then (r, chunk_records_full)
      else (r\<lparr>record_slots := (record_slots r)[(records_first r + records_count r) mod chunk_record_capacity := x],
              records_count := records_count r + 1\<rparr>, success))"

definition records_front :: "chunk_records \<Rightarrow> chunk_record option" where
  "records_front r = (if records_count r = 0 then None else Some (record_slots r ! records_first r))"

definition records_pop :: "chunk_records \<Rightarrow> chunk_records" where
  "records_pop r =
     (if records_count r = 0 then r
      else r\<lparr>records_first := (records_first r + 1) mod chunk_record_capacity, records_count := records_count r - 1\<rparr>)"

definition records_drop_newest :: "chunk_records \<Rightarrow> chunk_records" where
  "records_drop_newest r = (if records_count r = 0 then r else r\<lparr>records_count := records_count r - 1\<rparr>)"

definition records_clear :: "chunk_records \<Rightarrow> chunk_records" where
  "records_clear r = r\<lparr>records_first := 0, records_count := 0\<rparr>"

definition forget_slot :: "chunk_records \<Rightarrow> nat \<Rightarrow> chunk_records" where
  "forget_slot r queued =
     (let i = (records_first r + queued) mod chunk_record_capacity
      in r\<lparr>record_slots := (record_slots r)[i := (record_slots r ! i)\<lparr>chunk_file_frames := 0\<rparr>]\<rparr>)"

definition forget_file_frames :: "chunk_records \<Rightarrow> chunk_records" where
  "forget_file_frames r = foldl forget_slot r [0..<records_count r]"

section \<open>Closing and new plays\<close>

definition end_stream :: "uac_stream \<Rightarrow> uac_stream" where
  "end_stream s =
     s\<lparr>counters := (counters s)\<lparr>stream_state := Closed, open_format := no_format\<rparr>,
       play := (play s)\<lparr>pending_frames := 0, armed := False, interrupted := interrupted (play s) \<or> armed (play s)\<rparr>,
       records := records_clear (records s), start_at := None, play_judged := False, in_flight := False\<rparr>"

definition restart_play :: "uac_stream \<Rightarrow> u32 \<Rightarrow> uac_stream" where
  "restart_play s accept_index =
     s\<lparr>play := no_play\<lparr>accept_frame_index := accept_index\<rparr>, records := forget_file_frames (records s),
       queued_crcs := fresh_crcs, start_at := None, play_judged := False, mismatched := False\<rparr>"

definition configure :: "uac_stream \<Rightarrow> uac_stream" where
  "configure s = end_stream (s\<lparr>configured := True\<rparr>)"

definition deconfigure :: "uac_stream \<Rightarrow> uac_stream" where
  "deconfigure s = end_stream (s\<lparr>configured := False\<rparr>)"

definition close_stream :: "uac_stream \<Rightarrow> uac_stream" where
  "close_stream s = end_stream s"

definition accept_play :: "uac_stream \<Rightarrow> uac_stream \<times> status" where
  "accept_play s =
     (if stream_state (counters s) = Closed then (s, stream_not_open)
      else ((restart_play s (frames_sent (counters s)))\<lparr>play_opens := opens (counters s)\<rparr>, success))"

definition clear_play :: "uac_stream \<Rightarrow> uac_stream" where
  "clear_play s = restart_play s 0"

definition arm :: "uac_stream \<Rightarrow> u32 \<Rightarrow> u32 \<Rightarrow> scheduled_start option \<Rightarrow> uac_stream \<times> status" where
  "arm s now timeout start =
     (if stream_state (counters s) = Closed \<or> opens (counters s) \<noteq> play_opens s
      then (s\<lparr>play := (play s)\<lparr>armed := False, interrupted := True\<rparr>\<rparr>, stream_interrupted)
      else
        let planned = (case start of
                None \<Rightarrow> None
              | Some st \<Rightarrow>
                  if start_opens st = opens (counters s) \<and> \<not> index_reached (frames_queued (counters s)) (start_index st)
                  then Some (start_index st) else None)
        in (s\<lparr>play := (play s)\<lparr>progress_tick := now, armed := True\<rparr>, stall_timeout := timeout, start_at := planned\<rparr>,
            success))"

definition disarm :: "uac_stream \<Rightarrow> uac_stream" where
  "disarm s = s\<lparr>play := (play s)\<lparr>armed := False\<rparr>\<rparr>"

section \<open>Judging a gap\<close>

definition set_stream_unprimed :: "uac_stream \<Rightarrow> u32 \<Rightarrow> uac_stream" where
  "set_stream_unprimed s updated =
     s\<lparr>counters := (counters s)\<lparr>unprimed_intervals :=
           with_part_updated (unprimed_intervals (counters s)) (stream_unprimed (interval s)) updated\<rparr>,
       interval := (interval s)\<lparr>stream_unprimed := updated\<rparr>\<rparr>"

definition set_gap :: "uac_stream \<Rightarrow> latest_gap \<Rightarrow> uac_stream" where
  "set_gap s g = s\<lparr>interval := (interval s)\<lparr>tracker_gap := g\<rparr>\<rparr>"

definition set_last_miss :: "uac_stream \<Rightarrow> miss_location \<Rightarrow> uac_stream" where
  "set_last_miss s l = s\<lparr>counters := (counters s)\<lparr>last_miss := l\<rparr>\<rparr>"

definition take_back_latest_gap :: "uac_stream \<Rightarrow> uac_stream" where
  "take_back_latest_gap s =
     (let gap = tracker_gap (interval s) in
      if gap_counted gap = 0 then s
      else
        let counted = missed_after_gap (gap_counted gap) 0;
            part = (if gap_unprimed gap \<noteq> 0 then missed_after_gap (gap_unprimed gap) 0 else gap_unprimed gap);
            s1 = (if gap_unprimed gap \<noteq> 0
                  then set_stream_unprimed s (missed_after_gap (stream_unprimed (interval s)) 0) else s)
        in if counted = 0 then set_gap (set_last_miss s1 (gap_earlier gap)) no_gap
           else set_last_miss (set_gap s1 (gap\<lparr>gap_counted := counted, gap_unprimed := part\<rparr>))
                  ((last_miss (counters s1))\<lparr>miss_unprimed := part\<rparr>))"

definition locate_miss :: "uac_stream \<Rightarrow> u32 \<Rightarrow> u32 \<Rightarrow> bool \<Rightarrow> uac_stream" where
  "locate_miss s added part for_play =
     (let s1 = set_gap s \<lparr>gap_counted = added, gap_unprimed = part, gap_earlier = last_miss (counters s)\<rparr>;
          s2 = set_last_miss s1 \<lparr>miss_frame_index = frames_sent (counters s), miss_unprimed = part, miss_play = for_play\<rparr>
      in set_stream_unprimed s2 (stream_unprimed (interval s2) + part))"

definition count_missed :: "uac_stream \<Rightarrow> u32 \<Rightarrow> gap_samples \<Rightarrow> bool \<Rightarrow> uac_stream" where
  "count_missed s elapsed samples for_play =
     (let earlier = stream_missed (interval s);
          missed = missed_after_gap earlier elapsed;
          s1 = s\<lparr>counters := (counters s)\<lparr>missed_intervals :=
                     with_part_updated (missed_intervals (counters s)) earlier missed\<rparr>,
                 interval := (interval s)\<lparr>stream_missed := missed\<rparr>\<rparr>
      in if missed < earlier then take_back_latest_gap s1
         else
           let added = missed - earlier;
               moved = host_skipped samples > added \<and> gap_counted (tracker_gap (interval s1)) \<noteq> 0;
               s2 = (if moved then take_back_latest_gap s1 else s1);
               added' = (if moved then added + 1 else added)
           in if added' \<noteq> 0 then locate_miss s2 added' (unprimed_part added' samples) for_play else s2)"

definition judges_for_play :: "uac_stream \<Rightarrow> u32 \<Rightarrow> uac_stream \<times> bool" where
  "judges_for_play s elapsed =
     (let judged = pending_frames (play s) \<noteq> 0 \<or> (play_judged s \<and> elapsed = 0)
      in (s\<lparr>play_judged := judged\<rparr>, judged))"

definition count_play_missed :: "uac_stream \<Rightarrow> u32 \<Rightarrow> u32 \<Rightarrow> uac_stream" where
  "count_play_missed s elapsed unprimed_before =
     (let p = play s;
          missed = missed_after_gap (play_missed p) elapsed;
          first = (if missed = 0 then 0 else if play_missed p = 0 then frames_sent (counters s)
                   else first_miss_frame_index p)
      in s\<lparr>play := p\<lparr>first_miss_frame_index := first, miss_unconfirmed := missed > play_missed p,
            play_missed := missed,
            play_unprimed := min (moved_with (play_unprimed p) unprimed_before (stream_unprimed (interval s))) missed\<rparr>\<rparr>)"

definition track_interval :: "uac_stream \<Rightarrow> completion \<Rightarrow> uac_stream" where
  "track_interval s c =
     (let number = ucast (frame_number c) AND usb_frame_number_mask;
          samples = tracker_samples (interval s);
          s1 = s\<lparr>interval := (interval s)\<lparr>tracker_samples := no_samples\<rparr>,
                 play := (play s)\<lparr>miss_unconfirmed := False\<rparr>\<rparr>
      in if \<not> tracker_valid (interval s1)
         then s1\<lparr>interval := no_interval\<lparr>tracker_last := number, last_tick := completion_tick c, tracker_valid := True\<rparr>\<rparr>
         else
           let aliased = (number - tracker_last (interval s1)) AND usb_frame_number_mask;
               elapsed = dealiased_gap aliased (completion_tick c - last_tick (interval s1));
               s2 = s1\<lparr>interval := (interval s1)\<lparr>tracker_last := tracker_last (interval s1) + elapsed,
                          last_tick := completion_tick c\<rparr>,
                       counters := (counters s1)\<lparr>max_gap := max (max_gap (counters s1)) elapsed\<rparr>\<rparr>
           in case judges_for_play s2 elapsed of
                (s3, for_play) \<Rightarrow>
                  let unprimed_before = stream_unprimed (interval s3);
                      s4 = count_missed s3 elapsed samples for_play
                  in if for_play then count_play_missed s4 elapsed unprimed_before else s4)"

definition on_watchdog :: "uac_stream \<Rightarrow> in_transfer \<Rightarrow> uac_stream" where
  "on_watchdog s transfer =
     (if stream_state (counters s) \<noteq> Streaming then s
      else
        let samples = tracker_samples (interval s) in
        s\<lparr>counters := (counters s)\<lparr>watchdog_expiries := watchdog_expiries (counters s) + 1\<rparr>,
          interval := (interval s)\<lparr>tracker_samples :=
            (case transfer of
               Primed \<Rightarrow> samples\<lparr>host_skipped := host_skipped samples + 1\<rparr>
             | Unprimed \<Rightarrow> samples\<lparr>sample_unprimed := True\<rparr>)\<rparr>\<rparr>)"

section \<open>A completion\<close>

definition note_progress :: "uac_stream \<Rightarrow> u32 \<Rightarrow> uac_stream" where
  "note_progress s tick =
     s\<lparr>play := (play s)\<lparr>progress_tick := tick,
         stalled := stalled (play s) \<or> armed (play s) \<and> tick - progress_tick (play s) > stall_timeout s\<rparr>\<rparr>"

definition confirm_loaded :: "uac_stream \<Rightarrow> u32 \<Rightarrow> uac_stream \<times> u32" where
  "confirm_loaded s fifo_level =
     (let confirmed = (if in_flight s then uac_packet_frames else 0);
          unconfirmed = frames_queued (counters s) - (frames_sent (counters s) + confirmed)
      in (s\<lparr>in_flight := unconfirmed > fifo_level div frame_bytes (open_format (counters s))\<rparr>, confirmed))"

definition note_mismatch :: "uac_stream \<Rightarrow> u32 \<Rightarrow> u32 \<Rightarrow> uac_stream" where
  "note_mismatch s reported confirmed =
     (if reported = confirmed * frame_bytes (open_format (counters s)) then s
      else s\<lparr>counters := (counters s)\<lparr>sent_mismatches :=
                 (if sent_mismatches (counters s) \<noteq> - 1 then sent_mismatches (counters s) + 1
                  else sent_mismatches (counters s))\<rparr>,
             mismatched := mismatched s \<or> pending_frames (play s) \<noteq> 0\<rparr>)"

definition apply_record :: "uac_stream \<Rightarrow> chunk_record \<Rightarrow> uac_stream" where
  "apply_record s r =
     (if chunk_file_frames r = 0 then s
      else
        let p = play s;
            p1 = (if file_frames p = 0
                  then p\<lparr>first_frame_index := chunk_start r, first_frame_sof := tracker_last (interval s),
                         play_format := open_format (counters s)\<rparr> else p)
        in s\<lparr>play := p1\<lparr>file_frames := file_frames p1 + chunk_file_frames r,
               last_frame_index := chunk_start r + chunk_file_frames r - 1,
               crc32_left := chunk_crc_left r, crc32_right := chunk_crc_right r,
               pending_frames := pending_frames p1 - min (pending_frames p1) (chunk_file_frames r)\<rparr>\<rparr>)"

definition max_outstanding_frames :: u32 where
  "max_outstanding_frames = of_nat chunk_record_capacity * uac_packet_frames"

function retire_sent_chunks :: "uac_stream \<Rightarrow> uac_stream" where
  "retire_sent_chunks s =
     (case records_front (records s) of
        None \<Rightarrow> s
      | Some oldest \<Rightarrow>
          let sent_since_start = frames_sent (counters s) - chunk_start oldest in
          if sent_since_start < uac_packet_frames \<or> sent_since_start > max_outstanding_frames then s
          else retire_sent_chunks ((apply_record s oldest)\<lparr>records := records_pop (records s)\<rparr>))"
  by pat_completeness auto
termination
  by (relation "measure (\<lambda>s. records_count (records s))")
    (auto simp: records_front_def records_pop_def split: if_splits)

declare retire_sent_chunks.simps [simp del]

definition commit :: "uac_stream \<Rightarrow> completion \<Rightarrow> u32 \<Rightarrow> uac_stream" where
  "commit s c fifo_level =
     (case confirm_loaded (note_progress s (completion_tick c)) fifo_level of
        (s1, confirmed) \<Rightarrow>
          let s2 = note_mismatch s1 (sent_bytes c) confirmed in
          if stream_state (counters s2) = Priming \<and> confirmed = 0 then s2
          else
            let short = sent_bytes c \<noteq> packet_bytes (open_format (counters s2));
                s3 = s2\<lparr>counters := (counters s2)\<lparr>stream_state := Streaming,
                    short_packets := (if short then short_packets (counters s2) + 1 else short_packets (counters s2))\<rparr>\<rparr>;
                s4 = track_interval s3 c
            in retire_sent_chunks (s4\<lparr>counters := (counters s4)\<lparr>frames_sent := frames_sent (counters s4) + confirmed\<rparr>\<rparr>))"

section \<open>Topping up\<close>

record 'q in_fifo =
  queued :: "'q \<Rightarrow> u32"
  free_space :: "'q \<Rightarrow> u32"
  fifo_write :: "'q \<Rightarrow> bytes \<Rightarrow> 'q \<times> u32"

text \<open>A source writes frames to the front of the chunk it is given.\<close>

type_synonym 'p frame_source = "'p \<Rightarrow> 'p \<times> stereo_frame list \<times> u32"

definition silence :: "'p frame_source" where
  "silence p = (p, replicate chunk_frame_count silent_frame, 0)"

definition written_over :: "stereo_frame list \<Rightarrow> stereo_frame list \<Rightarrow> stereo_frame list" where
  "written_over frames old = take (length old) (frames @ drop (length frames) old)"

definition crcs_with :: "uac_stream \<Rightarrow> u32 \<Rightarrow> channel_crcs" where
  "crcs_with s n =
     foldl (\<lambda>crcs frame. \<lparr>crc_left = crc32_update (crc_left crcs) (wav_bytes (left frame)),
                          crc_right = crc32_update (crc_right crcs) (wav_bytes (right frame))\<rparr>)
       (queued_crcs s) (take (unat n) (chunk s))"

definition count_queued :: "uac_stream \<Rightarrow> u32 \<Rightarrow> channel_crcs \<Rightarrow> uac_stream" where
  "count_queued s n crcs =
     s\<lparr>queued_crcs := crcs,
       counters := (counters s)\<lparr>frames_queued := frames_queued (counters s) + uac_packet_frames,
         source_frames := source_frames (counters s) + n\<rparr>,
       play := (play s)\<lparr>pending_frames := pending_frames (play s) + n\<rparr>\<rparr>"

definition has_room :: "'q in_fifo \<Rightarrow> uac_stream \<Rightarrow> 'q \<Rightarrow> bool" where
  "has_room fifo s q \<longleftrightarrow>
     (let packet = packet_bytes (open_format (counters s)) in
      \<not> records_full (records s) \<and> queued fifo q + packet \<le> fifo_target_bytes (open_format (counters s)) \<and>
      free_space fifo q \<ge> packet)"

definition queue_chunk :: "'q in_fifo \<Rightarrow> uac_stream \<Rightarrow> 'q \<Rightarrow> u32 \<Rightarrow> uac_stream \<times> 'q \<times> status" where
  "queue_chunk fifo s q n =
     (let crcs = crcs_with s n in
      case records_push (records s) \<lparr>chunk_start = frames_queued (counters s), chunk_file_frames = n,
          chunk_crc_left = crc32_value (crc_left crcs), chunk_crc_right = crc32_value (crc_right crcs)\<rparr> of
        (rs, recorded) \<Rightarrow>
          if \<not> is_ok recorded then (s\<lparr>records := rs\<rparr>, q, recorded)
          else
            case fifo_write fifo q (pack_frames (chunk s) (open_format (counters s))) of
              (q', accepted) \<Rightarrow>
                if accepted \<noteq> packet_bytes (open_format (counters s))
                then (s\<lparr>records := records_drop_newest rs\<rparr>, q', chunk_refused)
                else (count_queued (s\<lparr>records := rs\<rparr>) n crcs, q', success))"

definition start_reached :: "uac_stream \<Rightarrow> uac_stream \<times> bool" where
  "start_reached s =
     (case start_at s of
        None \<Rightarrow> (s, True)
      | Some i \<Rightarrow>
          if \<not> index_reached (frames_queued (counters s)) i then (s, False) else (s\<lparr>start_at := None\<rparr>, True))"

definition fill_chunk :: "'p frame_source \<Rightarrow> uac_stream \<Rightarrow> 'p \<Rightarrow> uac_stream \<times> 'p \<times> u32" where
  "fill_chunk source s p =
     (case (if armed (play s) then start_reached s else (s, False)) of
        (s1, supply) \<Rightarrow>
          case (if supply then source p else silence p) of
            (p', frames, supplied) \<Rightarrow>
              (s1\<lparr>chunk := written_over frames (chunk s1)\<rparr>, p', min supplied uac_packet_frames))"

fun top_up_from :: "nat \<Rightarrow> 'q in_fifo \<Rightarrow> 'p frame_source \<Rightarrow> uac_stream \<Rightarrow> 'q \<Rightarrow> 'p \<Rightarrow> uac_stream \<times> 'q \<times> 'p" where
  "top_up_from 0 fifo source s q p = (s, q, p)"
| "top_up_from (Suc left_over) fifo source s q p =
     (if \<not> has_room fifo s q then (s, q, p)
      else
        case fill_chunk source s p of
          (s1, p1, n) \<Rightarrow>
            case queue_chunk fifo s1 q n of
              (s2, q2, st) \<Rightarrow>
                if \<not> is_ok st
                then (s2\<lparr>counters := (counters s2)\<lparr>rejected_chunks := rejected_chunks (counters s2) + 1\<rparr>\<rparr>, q2, p1)
                else top_up_from left_over fifo source s2 q2 p1)"

definition top_up :: "'q in_fifo \<Rightarrow> 'p frame_source \<Rightarrow> uac_stream \<Rightarrow> 'q \<Rightarrow> 'p \<Rightarrow> uac_stream \<times> 'q \<times> 'p" where
  "top_up fifo source s q p = top_up_from (unat fifo_target_chunks) fifo source s q p"

definition on_tx_done :: "'q in_fifo \<Rightarrow> 'p frame_source \<Rightarrow> uac_stream \<Rightarrow> 'q \<Rightarrow> 'p \<Rightarrow> completion \<Rightarrow> uac_stream \<times> 'q \<times> 'p" where
  "on_tx_done fifo source s q p c =
     (if stream_state (counters s) = Closed then (s, q, p)
      else top_up fifo source (commit s c (queued fifo q)) q p)"

definition open_stream :: "'q in_fifo \<Rightarrow> uac_stream \<Rightarrow> 'q \<Rightarrow> stream_format \<Rightarrow> uac_stream \<times> 'q \<times> status" where
  "open_stream fifo s q f =
     (if \<not> configured s then (s, q, stream_not_configured)
      else if f \<notin> set stream_formats then (s, q, stream_format_unknown)
      else
        let s1 = end_stream s;
            s2 = s1\<lparr>counters := (counters s1)\<lparr>opens := opens (counters s1) + 1, stream_state := Priming,
                open_format := f, frames_sent := 0, frames_queued := 0, source_frames := 0,
                last_miss := no_miss, max_gap := 0\<rparr>, interval := no_interval\<rparr>
        in case top_up fifo silence s2 q () of (s3, q', _) \<Rightarrow> (s3, q', success))"

definition confirmed_missed :: "play_statistics \<Rightarrow> u32" where
  "confirmed_missed p = (if miss_unconfirmed p then missed_after_gap (play_missed p) 0 else play_missed p)"

end
