(* ===== verification/UacPlay.thy ===== *)
theory UacPlay
  imports UacStream
begin

text \<open>
  What the USB capture stream says of a play: whatever the FIFO and the source answer and in
  whatever order the stream's operations come, its records are the chunks the FIFO accepted
  and no completion has confirmed, and the play's statistics are those of the file frames
  confirmed sent. Which these are an account beside the stream says, kept from the chunks
  queued, the completions and the FIFO's levels alone.
\<close>

section \<open>The records are a queue\<close>

definition held :: "chunk_records \<Rightarrow> chunk_record list" where
  "held r = ring_contents (record_slots r) (records_first r) (records_count r)"

definition records_shape :: "chunk_records \<Rightarrow> bool" where
  "records_shape r \<longleftrightarrow> length (record_slots r) = chunk_record_capacity \<and>
     records_first r < chunk_record_capacity \<and> records_count r \<le> chunk_record_capacity"

lemma length_records [simp]: "length (held r) = records_count r"
  by (simp add: held_def)

lemma records_held_empty: "held r = [] \<longleftrightarrow> records_count r = 0"
  using length_records [of r] by (metis length_0_conv)

lemma held_push:
  assumes "records_shape r" and "\<not> records_full r"
  shows "snd (records_push r x) = success" and "records_shape (fst (records_push r x))"
    and "held (fst (records_push r x)) = held r @ [x]"
  using assms ring_contents_put [of "records_count r" "record_slots r" "records_first r" x]
  by (auto simp: records_push_def records_shape_def records_full_def held_def)

lemma held_front: "records_shape r \<Longrightarrow> records_front r = (case held r of [] \<Rightarrow> None | x # xs \<Rightarrow> Some x)"
  using ring_contents_take [of "record_slots r" "records_first r" "records_count r - 1"]
  by (auto simp: records_front_def records_shape_def held_def)

lemma held_pop:
  assumes "records_shape r"
  shows "held (records_pop r) = tl (held r)" and "records_shape (records_pop r)"
  using assms ring_contents_take [of "record_slots r" "records_first r" "records_count r - 1"]
  by (auto simp: records_pop_def records_shape_def held_def chunk_record_capacity_def)

lemma held_drop_newest:
  assumes "records_shape r"
  shows "held (records_drop_newest r) = butlast (held r)" and "records_shape (records_drop_newest r)"
  using assms by (cases "records_count r"; auto simp: records_drop_newest_def records_shape_def held_def ring_contents_def)+

lemma held_clear [simp]: "held (records_clear r) = []" "records_shape r \<Longrightarrow> records_shape (records_clear r)"
  by (simp_all add: records_clear_def held_def records_shape_def)

interpretation chunk_queue: bounded_queue held records_shape chunk_record_capacity "\<lambda>_ x. x"
  "\<lambda>r x. case records_push r x of (r', st) \<Rightarrow> if is_ok st then Some r' else None"
  "\<lambda>r. map_option (\<lambda>x. (x, records_pop r)) (records_front r)"
proof
  fix s x
  assume s: "records_shape s"
  show "length (held s) \<le> chunk_record_capacity" using s by (simp add: records_shape_def)
  show "(case records_push s x of (r', st) \<Rightarrow> if is_ok st then Some r' else None) = None"
    if "length (held s) = chunk_record_capacity"
    using that by (simp add: records_push_def records_full_def chunk_records_full_def is_ok_def)
  show "\<exists>s'. (case records_push s x of (r', st) \<Rightarrow> if is_ok st then Some r' else None) = Some s' \<and>
      records_shape s' \<and> held s' = held s @ [x]" if "length (held s) < chunk_record_capacity"
    using that held_push [OF s, of x] by (auto simp: records_full_def is_ok_def success_def split: prod.splits)
  show "map_option (\<lambda>x. (x, records_pop s)) (records_front s) = None" if "held s = []"
    using that held_front [OF s] by simp
  show "\<exists>s'. map_option (\<lambda>x. (x, records_pop s)) (records_front s) = Some (x, s') \<and> records_shape s' \<and> held s' = xs"
    if "held s = x # xs" for xs
    using that held_front [OF s] held_pop [OF s] by simp
qed

text \<open>A play that starts forgets the file frames of the chunks still queued.\<close>

definition without_file_frames :: "chunk_record \<Rightarrow> chunk_record" where
  "without_file_frames x = x\<lparr>chunk_file_frames := 0\<rparr>"

lemma held_forget:
  assumes "records_shape r"
  shows "held (forget_file_frames r) = map without_file_frames (held r)" and "records_shape (forget_file_frames r)"
proof -
  let ?N = chunk_record_capacity
  have step: "k \<le> records_count r \<Longrightarrow>
      (let t = foldl forget_slot r [0..<k] in
        records_shape t \<and> records_first t = records_first r \<and> records_count t = records_count r \<and>
        (\<forall>i < records_count r. held t ! i = (if i < k then without_file_frames (held r ! i) else held r ! i)))" for k
  proof (induction k)
    case 0
    then show ?case using assms by simp
  next
    case (Suc k)
    let ?t = "foldl forget_slot r [0..<k]"
    have t: "records_shape ?t" "records_first ?t = records_first r" "records_count ?t = records_count r"
      and at: "\<And>i. i < records_count r \<Longrightarrow> held ?t ! i = (if i < k then without_file_frames (held r ! i) else held r ! i)"
      using Suc by (auto simp: Let_def)
    have place: "(records_first r + i) mod ?N = (records_first r + k) mod ?N \<longleftrightarrow> i = k" if "i < records_count r" for i
      using that Suc(2) assms ring_places_distinct [of i ?N k "records_first r"] by (auto simp: records_shape_def)
    have N: "0 < ?N" "length (record_slots ?t) = ?N" using t by (simp_all add: chunk_record_capacity_def records_shape_def)
    have shape: "records_shape (forget_slot ?t k)" "records_first (forget_slot ?t k) = records_first r"
      "records_count (forget_slot ?t k) = records_count r"
      using t by (simp_all add: forget_slot_def Let_def records_shape_def)
    have slot: "held (forget_slot ?t k) ! i = (if i = k then without_file_frames (held ?t ! i) else held ?t ! i)"
      if "i < records_count r" for i
      using that t(2,3) N place [OF that]
      by (auto simp: held_def nth_ring_contents forget_slot_def Let_def without_file_frames_def nth_list_update)
    have "foldl forget_slot r [0..<Suc k] = forget_slot ?t k" by simp
    then show ?case using shape slot at by (auto simp: Let_def less_Suc_eq)
  qed
  from step [of "records_count r"] show "records_shape (forget_file_frames r)"
    by (simp add: forget_file_frames_def Let_def)
  from step [of "records_count r"] show "held (forget_file_frames r) = map without_file_frames (held r)"
    by (intro nth_equalityI) (simp_all add: forget_file_frames_def Let_def)
qed

section \<open>What a stream and its play are\<close>

definition stream_live :: "uac_stream \<Rightarrow> bool" where
  "stream_live s \<longleftrightarrow> stream_state (counters s) \<noteq> Closed \<and> opens (counters s) = play_opens s"

text \<open>Records one chunk after the other, from a stream index on.\<close>

fun follow :: "u32 \<Rightarrow> chunk_record list \<Rightarrow> bool" where
  "follow a [] \<longleftrightarrow> True"
| "follow a (x # xs) \<longleftrightarrow> chunk_start x = a \<and> follow (a + uac_packet_frames) xs"

definition stream_ok :: "uac_stream \<Rightarrow> bool" where
  "stream_ok s \<longleftrightarrow> records_shape (records s) \<and> length (chunk s) = chunk_frame_count \<and>
     play_opens s \<le> opens (counters s) \<and> (armed (play s) \<longrightarrow> stream_live s) \<and>
     (in_flight s \<longrightarrow> held (records s) \<noteq> []) \<and>
     (if stream_state (counters s) = Closed then held (records s) = []
      else open_format (counters s) \<in> set stream_formats \<and>
        follow (frames_sent (counters s)) (held (records s)) \<and>
        frames_queued (counters s) = frames_sent (counters s) + of_nat (records_count (records s)) * uac_packet_frames)"

definition channel_crc :: "(stereo_frame \<Rightarrow> u32) \<Rightarrow> stereo_frame list \<Rightarrow> u32" where
  "channel_crc channel fs = crc32 (concat (map (\<lambda>f. wav_bytes (channel f)) fs))"

definition crcs_of :: "stereo_frame list \<Rightarrow> channel_crcs" where
  "crcs_of fs = \<lparr>crc_left = crc32_update crc32_fresh (concat (map (\<lambda>f. wav_bytes (left f)) fs)),
                 crc_right = crc32_update crc32_fresh (concat (map (\<lambda>f. wav_bytes (right f)) fs))\<rparr>"

text \<open>Records that describe the frames of \<open>F\<close> from the \<open>n\<close>th on; what they still wait for.\<close>

fun describe :: "stereo_frame list \<Rightarrow> nat \<Rightarrow> chunk_record list \<Rightarrow> bool" where
  "describe F n [] \<longleftrightarrow> n \<le> length F"
| "describe F n (x # xs) \<longleftrightarrow>
     unat (chunk_file_frames x) \<le> chunk_frame_count \<and>
     (chunk_file_frames x \<noteq> 0 \<longrightarrow>
        chunk_crc_left x = channel_crc left (take (n + unat (chunk_file_frames x)) F) \<and>
        chunk_crc_right x = channel_crc right (take (n + unat (chunk_file_frames x)) F)) \<and>
     describe F (n + unat (chunk_file_frames x)) xs"

definition waiting :: "chunk_record list \<Rightarrow> nat" where
  "waiting xs = (\<Sum>x\<leftarrow>xs. unat (chunk_file_frames x))"

text \<open>\<open>F\<close> are the play's file frames queued so far, the first \<open>n\<close> of them confirmed sent.\<close>

definition play_ok :: "stereo_frame list \<Rightarrow> nat \<Rightarrow> uac_stream \<Rightarrow> bool" where
  "play_ok F n s \<longleftrightarrow>
     file_frames (play s) = of_nat n \<and>
     crc32_left (play s) = channel_crc left (take n F) \<and> crc32_right (play s) = channel_crc right (take n F) \<and>
     queued_crcs s = crcs_of F \<and> describe F n (held (records s)) \<and>
     pending_frames (play s) = of_nat (waiting (held (records s))) \<and>
     (if stream_live s then n + waiting (held (records s)) = length F else waiting (held (records s)) = 0)"

lemma waiting_simps [simp]:
  "waiting [] = 0" "waiting (x # xs) = unat (chunk_file_frames x) + waiting xs"
  "waiting (xs @ ys) = waiting xs + waiting ys"
  by (simp_all add: waiting_def)

lemma waiting_forgotten [simp]: "waiting (map without_file_frames xs) = 0"
  by (induction xs) (simp_all add: without_file_frames_def)

lemma describe_bound: "describe F n xs \<Longrightarrow> n + waiting xs \<le> length F \<and> waiting xs \<le> chunk_frame_count * length xs"
proof (induction xs arbitrary: n)
  case Nil
  then show ?case by simp
next
  case (Cons x xs)
  from Cons.prems Cons.IH [of "n + unat (chunk_file_frames x)"] show ?case by auto
qed

lemma describe_more: "describe F n xs \<Longrightarrow> describe (F @ G) n xs"
proof (induction xs arbitrary: n)
  case Nil
  then show ?case by simp
next
  case (Cons x xs)
  then show ?case using describe_bound [of F "n + unat (chunk_file_frames x)" xs] by simp
qed

lemma describe_snoc:
  "describe F n (xs @ [x]) \<longleftrightarrow> describe F n xs \<and> describe F (n + waiting xs) [x]"
proof (induction xs arbitrary: n)
  case Nil
  then show ?case using describe_bound [of F n "[x]"] by auto
next
  case (Cons y xs)
  then show ?case by (auto simp: add.assoc)
qed

lemma describe_forgotten: "n \<le> length F \<Longrightarrow> describe F n (map without_file_frames xs)"
  by (induction xs) (simp_all add: without_file_frames_def)

lemma follow_snoc:
  "follow a (xs @ [x]) \<longleftrightarrow> follow a xs \<and> chunk_start x = a + of_nat (length xs) * uac_packet_frames"
  by (induction xs arbitrary: a) (auto simp: algebra_simps)

lemma follow_forgotten [simp]: "follow a (map without_file_frames xs) = follow a xs"
  by (induction xs arbitrary: a) (simp_all add: without_file_frames_def)

lemma crcs_of_values:
  "crc32_value (crc_left (crcs_of fs)) = channel_crc left fs"
  "crc32_value (crc_right (crcs_of fs)) = channel_crc right fs"
  by (simp_all add: crcs_of_def channel_crc_def crc32_def)

lemma crcs_of_fresh [simp]: "crcs_of [] = fresh_crcs"
  by (simp add: crcs_of_def fresh_crcs_def)

lemma channel_crc_nothing [simp]: "channel_crc c [] = 0"
  by (simp add: channel_crc_def crc32_def crc32_value_def crc32_fresh_def crc32_initial_def crc32_final_xor_def)

lemma crcs_with_chunk:
  assumes "queued_crcs s = crcs_of F"
  shows "crcs_with s n = crcs_of (F @ take (unat n) (chunk s))"
proof -
  have "foldl (\<lambda>crcs frame. \<lparr>crc_left = crc32_update (crc_left crcs) (wav_bytes (left frame)),
      crc_right = crc32_update (crc_right crcs) (wav_bytes (right frame))\<rparr>) (crcs_of F) G = crcs_of (F @ G)" for G
  proof (induction G rule: rev_induct)
    case Nil
    then show ?case by simp
  next
    case (snoc f G)
    then show ?case by (simp add: crcs_of_def crc_feed.run_append)
  qed
  then show ?thesis by (simp add: crcs_with_def assms)
qed

section \<open>Closing and new plays\<close>

lemma formats_nonzero:
  "f \<in> set stream_formats \<Longrightarrow> frame_bytes f \<noteq> 0"
  by (auto simp: stream_formats_def frame_bytes_def pcm24_stereo_def pcm16_stereo_def pcm16_mono_def)

lemma end_stream_ok:
  assumes "stream_ok s" and "play_ok F n s"
  shows "stream_ok (end_stream s)" and "play_ok F n (end_stream s)"
  using assms describe_bound [of F n "held (records s)"]
  by (auto simp: stream_ok_def play_ok_def end_stream_def stream_live_def)

lemma restart_play_ok:
  assumes "stream_ok s"
  shows "stream_ok (restart_play s i)" and "play_ok [] 0 (restart_play s i)"
  using assms held_forget [of "records s"]
  by (auto simp: stream_ok_def play_ok_def restart_play_def stream_live_def no_play_def describe_forgotten
      length_records [symmetric] simp del: length_records)

lemma accept_play_ok:
  assumes "stream_ok s" and "stream_state (counters s) \<noteq> Closed"
  shows "stream_ok (fst (accept_play s))" and "play_ok [] 0 (fst (accept_play s))"
  using restart_play_ok [OF assms(1), of "frames_sent (counters s)"] assms(2)
  by (auto simp: stream_ok_def play_ok_def accept_play_def stream_live_def restart_play_def no_play_def split: if_splits)

lemma arm_ok:
  assumes "stream_ok s" and "play_ok F n s"
  shows "stream_ok (fst (arm s now timeout start))" and "play_ok F n (fst (arm s now timeout start))"
  using assms by (auto simp: stream_ok_def play_ok_def arm_def stream_live_def Let_def)

lemma disarm_ok:
  assumes "stream_ok s" and "play_ok F n s"
  shows "stream_ok (disarm s)" and "play_ok F n (disarm s)"
  using assms by (auto simp: stream_ok_def play_ok_def disarm_def stream_live_def)

section \<open>A completion\<close>

text \<open>What the judging of gaps leaves alone.\<close>

definition core :: "uac_stream \<Rightarrow> _" where
  "core s = ((stream_state (counters s), open_format (counters s), opens (counters s), frames_sent (counters s),
      frames_queued (counters s), rejected_chunks (counters s), source_frames (counters s)), records s,
     queued_crcs s, play_opens s, chunk s, configured s,
     in_flight s, start_at s, (file_frames (play s), crc32_left (play s), crc32_right (play s), pending_frames (play s), armed (play s)))"

lemma core_steps [simp]:
  "core (set_stream_unprimed s u) = core s" "core (set_gap s g) = core s" "core (set_last_miss s l) = core s"
  "core (count_play_missed s e u) = core s" "core (note_progress s t) = core s" "core (note_mismatch s r c) = core s"
  by (simp_all add: core_def set_stream_unprimed_def set_gap_def set_last_miss_def count_play_missed_def Let_def
      note_progress_def note_mismatch_def)

lemma core_take_back [simp]: "core (take_back_latest_gap s) = core s"
  by (simp add: take_back_latest_gap_def Let_def)

lemma core_locate [simp]: "core (locate_miss s a p f) = core s"
  by (simp add: locate_miss_def Let_def)

lemma core_count_missed [simp]: "core (count_missed s e g f) = core s"
proof -
  have base: "core (s\<lparr>counters := (counters s)\<lparr>missed_intervals := m\<rparr>, interval := i\<rparr>) = core s" for m i
    by (simp add: core_def)
  show ?thesis by (simp add: count_missed_def Let_def base) (simp add: core_def)
qed

lemma core_track [simp]: "core (track_interval s c) = core s"
proof -
  have base: "core (s\<lparr>interval := i, play := (play s)\<lparr>miss_unconfirmed := u\<rparr>\<rparr>) = core s"
    "core (s\<lparr>play := (play s)\<lparr>miss_unconfirmed := u\<rparr>, interval := i\<rparr>) = core s"
    "core (s\<lparr>interval := i, counters := (counters s)\<lparr>max_gap := g\<rparr>\<rparr>) = core s"
    "core (s\<lparr>interval := i\<rparr>) = core s"
    "core (fst (judges_for_play s e)) = core s" for s u i g e
    by (simp_all add: core_def judges_for_play_def Let_def)
  show ?thesis by (auto simp: track_interval_def Let_def base split_beta) (simp_all add: core_def)
qed

lemma core_watchdog: "core (on_watchdog s t) = core s"
  by (simp add: on_watchdog_def core_def Let_def)

lemma core_eq:
  assumes "core s = core t"
  shows "stream_ok s = stream_ok t" and "play_ok F n s = play_ok F n t" and "stream_live s = stream_live t"
  using assms by (auto simp: core_def stream_ok_def play_ok_def stream_live_def)

text \<open>The state once a completion has confirmed what it finished and before it retires records.\<close>

definition confirmed_core :: "uac_stream \<Rightarrow> u32 \<Rightarrow> u32 \<Rightarrow> uac_stream" where
  "confirmed_core s n level =
     s\<lparr>counters := (counters s)\<lparr>stream_state := (if stream_state (counters s) = Priming \<and> n = 0 then Priming else Streaming),
         frames_sent := frames_sent (counters s) + n\<rparr>,
       in_flight := frames_queued (counters s) - (frames_sent (counters s) + n) > level div frame_bytes (open_format (counters s))\<rparr>"

lemma confirm_loaded_core:
  assumes "core t = core s"
  shows "snd (confirm_loaded t level) = (if in_flight s then uac_packet_frames else 0)"
    and "core (fst (confirm_loaded t level)) = core (s\<lparr>in_flight := frames_queued (counters s) -
      (frames_sent (counters s) + (if in_flight s then uac_packet_frames else 0)) > level div frame_bytes (open_format (counters s))\<rparr>)"
  using assms by (simp_all add: confirm_loaded_def core_def Let_def)

lemma core_sent:
  assumes "core u = core t" and "core t = core (s\<lparr>in_flight := b\<rparr>)"
  shows "core (u\<lparr>counters := (counters u)\<lparr>stream_state := Streaming, short_packets := k\<rparr>\<rparr>) =
    core (s\<lparr>counters := (counters s)\<lparr>stream_state := Streaming\<rparr>, in_flight := b\<rparr>)"
  using assms by (simp add: core_def)

lemma core_frames_sent:
  assumes "core u = core (s\<lparr>counters := (counters s)\<lparr>stream_state := Streaming\<rparr>, in_flight := b\<rparr>)"
  shows "core (u\<lparr>counters := (counters u)\<lparr>frames_sent := frames_sent (counters u) + n\<rparr>\<rparr>) =
    core (s\<lparr>counters := (counters s)\<lparr>stream_state := Streaming, frames_sent := frames_sent (counters s) + n\<rparr>, in_flight := b\<rparr>)"
  using assms by (simp add: core_def)

lemma commit_cases:
  fixes s level
  defines "n \<equiv> if in_flight s then uac_packet_frames else (0 :: u32)"
  obtains (waits) "\<not> in_flight s" "stream_state (counters s) = Priming" "core (commit s c level) = core (confirmed_core s 0 level)"
  | (sends) t where "core t = core (confirmed_core s n level)" "commit s c level = retire_sent_chunks t"
proof -
  define t1 where "t1 = fst (confirm_loaded (note_progress s (completion_tick c)) level)"
  define t2 where "t2 = note_mismatch t1 (sent_bytes c) n"
  let ?b = "frames_queued (counters s) - (frames_sent (counters s) + n) > level div frame_bytes (open_format (counters s))"
  have conf: "confirm_loaded (note_progress s (completion_tick c)) level = (t1, n)"
    using confirm_loaded_core(1) [of "note_progress s (completion_tick c)" s level]
    by (simp add: t1_def n_def prod_eq_iff)
  have t1: "core t1 = core (s\<lparr>in_flight := ?b\<rparr>)"
    using confirm_loaded_core(2) [of "note_progress s (completion_tick c)" s level] by (simp add: t1_def n_def)
  have t2: "core t2 = core t1" by (simp add: t2_def)
  have same: "stream_state (counters t2) = stream_state (counters s)" using t1 t2 by (simp add: core_def)
  show thesis
  proof (cases "stream_state (counters s) = Priming \<and> n = 0")
    case True
    then have "\<not> in_flight s" by (auto simp: n_def uac_packet_frames_def split: if_splits)
    moreover have "commit s c level = t2"
      unfolding commit_def conf prod.case Let_def t2_def [symmetric] using True same by simp
    moreover have "core t2 = core (confirmed_core s 0 level)"
      using t1 t2 True by (simp add: core_def confirmed_core_def)
    ultimately show ?thesis using True waits by simp
  next
    case False
    define t3 where "t3 = t2\<lparr>counters := (counters t2)\<lparr>stream_state := Streaming, short_packets :=
      (if sent_bytes c \<noteq> packet_bytes (open_format (counters t2)) then short_packets (counters t2) + 1 else short_packets (counters t2))\<rparr>\<rparr>"
    define t4 where "t4 = track_interval t3 c"
    have t3: "core t3 = core (s\<lparr>counters := (counters s)\<lparr>stream_state := Streaming\<rparr>, in_flight := ?b\<rparr>)"
      unfolding t3_def by (rule core_sent [OF t2 t1])
    have t4: "core (t4\<lparr>counters := (counters t4)\<lparr>frames_sent := frames_sent (counters t4) + n\<rparr>\<rparr>) = core (confirmed_core s n level)"
      using core_frames_sent [where u = t4 and s = s and b = ?b and n = n] t3 False by (auto simp add: t4_def confirmed_core_def)
    have "commit s c level = retire_sent_chunks (t4\<lparr>counters := (counters t4)\<lparr>frames_sent := frames_sent (counters t4) + n\<rparr>\<rparr>)"
      unfolding commit_def conf prod.case Let_def t2_def [symmetric] t4_def t3_def using False same by auto
    then show ?thesis by (rule sends [OF t4])
  qed
qed

text \<open>It retires one record when it confirmed a chunk, and none otherwise.\<close>

lemma retire_none:
  assumes "records_shape (records s)" and "follow (frames_sent (counters s)) (held (records s))"
  shows "retire_sent_chunks s = s"
  using assms by (cases "held (records s)")
    (auto simp: retire_sent_chunks.simps [of s] held_front uac_packet_frames_def Let_def)

lemma retire_first:
  assumes "records_shape (records s)" and "held (records s) = x # xs"
    and "frames_sent (counters s) = a + uac_packet_frames" and "follow a (held (records s))"
  shows "retire_sent_chunks s = (apply_record s x)\<lparr>records := records_pop (records s)\<rparr>"
proof -
  let ?t = "(apply_record s x)\<lparr>records := records_pop (records s)\<rparr>"
  have "frames_sent (counters ?t) = frames_sent (counters s)" by (simp add: apply_record_def Let_def)
  then have "retire_sent_chunks ?t = ?t" using assms held_pop [of "records s"] by (intro retire_none) simp_all
  moreover have "retire_sent_chunks s = retire_sent_chunks ?t"
    using assms by (simp add: retire_sent_chunks.simps [of s] held_front uac_packet_frames_def
        max_outstanding_frames_def chunk_record_capacity_def Let_def)
  ultimately show ?thesis by simp
qed

lemma retire_keeps:
  "counters (retire_sent_chunks s) = counters s \<and> interval (retire_sent_chunks s) = interval s \<and>
   in_flight (retire_sent_chunks s) = in_flight s \<and> play_opens (retire_sent_chunks s) = play_opens s"
proof (induction s rule: retire_sent_chunks.induct)
  case (1 s)
  have apply_keeps: "counters (apply_record t x) = counters t" "interval (apply_record t x) = interval t"
    "in_flight (apply_record t x) = in_flight t" "play_opens (apply_record t x) = play_opens t" for t x
    by (simp_all add: apply_record_def Let_def)
  show ?case
  proof (cases "records_front (records s)")
    case None
    then show ?thesis by (simp add: retire_sent_chunks.simps [of s])
  next
    case (Some x)
    then show ?thesis using 1 [OF Some refl] by (subst (1 2 3 4) retire_sent_chunks.simps) (auto simp: Let_def apply_keeps)
  qed
qed

lemma apply_record_core:
  "core (apply_record s x) = core (s\<lparr>play := (play s)\<lparr>
     file_frames := file_frames (play s) + chunk_file_frames x,
     crc32_left := (if chunk_file_frames x = 0 then crc32_left (play s) else chunk_crc_left x),
     crc32_right := (if chunk_file_frames x = 0 then crc32_right (play s) else chunk_crc_right x),
     pending_frames := pending_frames (play s) - min (pending_frames (play s)) (chunk_file_frames x)\<rparr>\<rparr>)"
  by (simp add: apply_record_def core_def Let_def)

lemma follow_Cons_count: "held r = x # xs \<Longrightarrow> records_count r = Suc (length xs)"
  using length_records [of r] by simp

lemma chunks_above: "(b :: u32) < of_nat k * uac_packet_frames \<Longrightarrow> 0 < k"
  by (cases k) simp_all

lemma confirmed_nothing_ok:
  assumes "stream_ok s" and "stream_state (counters s) \<noteq> Closed" and "play_ok F n s"
  shows "stream_ok (confirmed_core s 0 level)" and "play_ok F n (confirmed_core s 0 level)"
    and "stream_state (counters (confirmed_core s 0 level)) \<noteq> Closed"
  using assms by (auto simp: stream_ok_def play_ok_def confirmed_core_def stream_live_def records_held_empty chunks_above)

lemma commit_confirms:
  assumes s: "stream_ok s" "stream_state (counters s) \<noteq> Closed" "play_ok F n s"
  shows "stream_ok (commit s c level) \<and> stream_state (counters (commit s c level)) \<noteq> Closed \<and>
    frames_queued (counters (commit s c level)) = frames_queued (counters s) \<and>
    frames_sent (counters (commit s c level)) = frames_sent (counters s) + (if in_flight s then uac_packet_frames else 0) \<and>
    held (records (commit s c level)) = (if in_flight s then tl (held (records s)) else held (records s)) \<and>
    play_ok F (if in_flight s then n + unat (chunk_file_frames (hd (held (records s)))) else n) (commit s c level)"
proof (cases "in_flight s")
  case False
  from commit_cases [of s c level]
  have "core (commit s c level) = core (confirmed_core s 0 level)"
  proof cases
    case (sends t)
    then have core: "core t = core (confirmed_core s 0 level)" using False by simp
    have "retire_sent_chunks t = t" by (rule retire_none) (use core s in \<open>auto simp: core_def confirmed_core_def stream_ok_def\<close>)
    then show ?thesis using sends core by simp
  qed simp
  then show ?thesis using confirmed_nothing_ok [OF s, of level] core_eq [of "commit s c level" "confirmed_core s 0 level"] False
    by (auto simp: core_def confirmed_core_def)
next
  case True
  let ?a = "frames_sent (counters s)"
  have shape: "records_shape (records s)" and follow: "follow ?a (held (records s))"
    and queued: "frames_queued (counters s) = ?a + of_nat (records_count (records s)) * uac_packet_frames"
    using s by (auto simp: stream_ok_def)
  obtain x xs where held: "held (records s) = x # xs" using s(1) True by (auto simp: stream_ok_def neq_Nil_conv)
  have count: "records_count (records s) = Suc (length xs)" by (rule follow_Cons_count [OF held])
  obtain t where core: "core t = core (confirmed_core s uac_packet_frames level)" and c: "commit s c level = retire_sent_chunks t"
    using commit_cases [of s c level] True by (metis (full_types))
  have records: "records t = records s" "frames_sent (counters t) = ?a + uac_packet_frames"
    using core by (simp_all add: core_def confirmed_core_def)
  have sent: "commit s c level = (apply_record t x)\<lparr>records := records_pop (records s)\<rparr>"
    unfolding c records(1) [symmetric] by (rule retire_first [where a = ?a]) (use records shape held follow in simp_all)
  have popped: "held (records_pop (records s)) = xs" "records_shape (records_pop (records s))"
    using held_pop [OF shape] held by simp_all
  then have pops: "records_count (records_pop (records s)) = length xs" by (metis length_records)
  have wait: "waiting (x # xs) < 4294967296" and ff: "unat (chunk_file_frames x) \<le> waiting (x # xs)"
    using describe_bound [of F n "x # xs"] s(3) held shape count
    by (auto simp: play_ok_def records_shape_def chunk_record_capacity_def chunk_frame_count_def)
  have pending: "pending_frames (play s) - min (pending_frames (play s)) (chunk_file_frames x) = of_nat (waiting xs)"
  proof -
    have "pending_frames (play s) = of_nat (waiting (x # xs))" using s(3) held by (simp add: play_ok_def)
    moreover have "chunk_file_frames x \<le> of_nat (waiting (x # xs))" unfolding word_le_nat_alt unat_of_nat_32 [OF wait] by (rule ff)
    ultimately show ?thesis by (simp add: min_absorb2)
  qed
  define u where "u = commit s c level"
  have core_u: "core u = core ((confirmed_core s uac_packet_frames level)\<lparr>records := records_pop (records s),
      play := (play s)\<lparr>file_frames := file_frames (play s) + chunk_file_frames x,
        crc32_left := (if chunk_file_frames x = 0 then crc32_left (play s) else chunk_crc_left x),
        crc32_right := (if chunk_file_frames x = 0 then crc32_right (play s) else chunk_crc_right x),
        pending_frames := of_nat (waiting xs)\<rparr>\<rparr>)"
    using core apply_record_core [of t x] pending unfolding u_def sent by (simp add: core_def confirmed_core_def)
  have "stream_ok u" using s(1,2) held popped pops count follow queued core_eq(1) [OF core_u]
    by (auto simp: stream_ok_def confirmed_core_def stream_live_def algebra_simps)
  moreover have "play_ok F (n + unat (chunk_file_frames x)) u"
    unfolding core_eq(2) [OF core_u] using s(2,3) held popped(1)
    by (auto simp: play_ok_def confirmed_core_def stream_live_def split: if_splits)
  ultimately show ?thesis using True held popped core_u
    by (simp add: u_def [symmetric]) (simp add: core_def confirmed_core_def)
qed

lemma commit_keeps:
  "in_flight (commit s c level) = (frames_queued (counters s) - (frames_sent (counters s) +
     (if in_flight s then uac_packet_frames else 0)) > level div frame_bytes (open_format (counters s)))"
  "open_format (counters (commit s c level)) = open_format (counters s)"
  "rejected_chunks (counters (commit s c level)) = rejected_chunks (counters s)"
  "opens (counters (commit s c level)) = opens (counters s)" "play_opens (commit s c level) = play_opens s"
  by (rule commit_cases [of s c level]; simp add: core_def confirmed_core_def retire_keeps)+

section \<open>Topping up\<close>

text \<open>The chunks a top-up queues, each with how many of its leading frames are file frames.\<close>

fun chunks_from :: "nat \<Rightarrow> 'q in_fifo \<Rightarrow> 'p frame_source \<Rightarrow> uac_stream \<Rightarrow> 'q \<Rightarrow> 'p \<Rightarrow> (stereo_frame list \<times> u32) list" where
  "chunks_from 0 fifo source s q p = []"
| "chunks_from (Suc left_over) fifo source s q p =
     (if \<not> has_room fifo s q then []
      else
        case fill_chunk source s p of
          (s1, p1, n) \<Rightarrow>
            case queue_chunk fifo s1 q n of
              (s2, q2, st) \<Rightarrow>
                if \<not> is_ok st then [] else (chunk s1, n) # chunks_from left_over fifo source s2 q2 p1)"

definition file_part :: "(stereo_frame list \<times> u32) list \<Rightarrow> stereo_frame list" where
  "file_part cs = concat (map (\<lambda>(frames, n). take (unat n) frames) cs)"

definition chunks_at :: "'q in_fifo \<Rightarrow> 'p frame_source \<Rightarrow> uac_stream \<Rightarrow> 'q \<Rightarrow> 'p \<Rightarrow> completion \<Rightarrow> (stereo_frame list \<times> u32) list" where
  "chunks_at fifo source s q p c =
     (if stream_state (counters s) = Closed then []
      else chunks_from (unat fifo_target_chunks) fifo source (commit s c (queued fifo q)) q p)"

lemma file_part_simps [simp]:
  "file_part [] = []" "file_part ((frames, n) # cs) = take (unat n) frames @ file_part cs"
  by (simp_all add: file_part_def)

lemma length_written_over [simp]: "length (written_over fs old) = length old"
  by (simp add: written_over_def)

lemma fill_chunk_frame:
  assumes "fill_chunk source s p = (s1, p1, n)"
  shows "counters s1 = counters s" "play s1 = play s" "records s1 = records s" "queued_crcs s1 = queued_crcs s"
    "play_opens s1 = play_opens s" "in_flight s1 = in_flight s" "length (chunk s1) = length (chunk s)"
    "unat n \<le> chunk_frame_count" "\<not> armed (play s) \<Longrightarrow> n = 0"
proof -
  have "min m uac_packet_frames \<le> uac_packet_frames" for m :: u32 by simp
  then have bound: "unat (min m uac_packet_frames) \<le> chunk_frame_count" for m :: u32
    by (simp add: word_le_nat_alt uac_packet_frames_def chunk_frame_count_def unat_min)
  show "counters s1 = counters s" "play s1 = play s" "records s1 = records s" "queued_crcs s1 = queued_crcs s"
    "play_opens s1 = play_opens s" "in_flight s1 = in_flight s" "length (chunk s1) = length (chunk s)"
    "unat n \<le> chunk_frame_count" "\<not> armed (play s) \<Longrightarrow> n = 0"
    using assms bound by (auto simp: fill_chunk_def start_reached_def silence_def split: prod.splits option.splits if_splits)
qed

lemma fill_chunk_ok:
  assumes "fill_chunk source s p = (s1, p1, n)"
  shows "stream_ok s1 = stream_ok s" and "play_ok F m s1 = play_ok F m s" and "stream_live s1 = stream_live s"
  using fill_chunk_frame [OF assms] by (auto simp: stream_ok_def play_ok_def stream_live_def)

lemma queue_chunk_ok:
  assumes q: "queue_chunk fifo s q n = (s2, q2, st)"
    and s: "stream_ok s" "play_ok F m s" "stream_state (counters s) \<noteq> Closed" "\<not> records_full (records s)"
    and n: "unat n \<le> chunk_frame_count" "n \<noteq> 0 \<Longrightarrow> stream_live s"
  shows "stream_ok s2 \<and> stream_state (counters s2) \<noteq> Closed \<and>
    play_ok (if is_ok st then F @ take (unat n) (chunk s) else F) m s2 \<and>
    stream_live s2 = stream_live s \<and> in_flight s2 = in_flight s \<and>
    map chunk_file_frames (held (records s2)) = map chunk_file_frames (held (records s)) @ (if is_ok st then [n] else [])"
proof -
  define G where "G = F @ take (unat n) (chunk s)"
  define x where "x = \<lparr>chunk_start = frames_queued (counters s), chunk_file_frames = n,
    chunk_crc_left = channel_crc left G, chunk_crc_right = channel_crc right G\<rparr>"
  define rs where "rs = fst (records_push (records s) x)"
  have shape: "records_shape (records s)" and lenchunk: "length (chunk s) = chunk_frame_count"
    using s(1) by (simp_all add: stream_ok_def)
  have push: "records_push (records s) x = (rs, success)" "records_shape rs" "held rs = held (records s) @ [x]"
    using held_push [OF shape s(4), of x] by (simp_all add: rs_def prod_eq_iff)
  have crcs: "crcs_with s n = crcs_of G" unfolding G_def using s(2) by (intro crcs_with_chunk) (simp add: play_ok_def)
  have pushed: "records_push (records s) \<lparr>chunk_start = frames_queued (counters s), chunk_file_frames = n,
      chunk_crc_left = crc32_value (crc_left (crcs_of G)), chunk_crc_right = crc32_value (crc_right (crcs_of G))\<rparr> = (rs, success)"
    using push(1) by (simp add: x_def crcs_of_values)
  obtain q' accepted where w: "fifo_write fifo q (pack_frames (chunk s) (open_format (counters s))) = (q', accepted)"
    by (cases "fifo_write fifo q (pack_frames (chunk s) (open_format (counters s)))")
  show ?thesis
  proof (cases "accepted = packet_bytes (open_format (counters s))")
    case False
    then have "s2 = s\<lparr>records := records_drop_newest rs\<rparr>" "st = chunk_refused"
      using q w by (simp_all add: queue_chunk_def crcs pushed is_ok_def success_def)
    moreover have "held (records_drop_newest rs) = held (records s)" "records_shape (records_drop_newest rs)"
      using held_drop_newest [OF push(2)] push(3) by simp_all
    moreover from this have "records_count (records_drop_newest rs) = records_count (records s)" by (metis length_records)
    ultimately show ?thesis using s
      by (auto simp: stream_ok_def play_ok_def stream_live_def is_ok_def chunk_refused_def)
  next
    case True
    then have s2: "s2 = count_queued (s\<lparr>records := rs\<rparr>) n (crcs_of G)" "st = success"
      using q w by (simp_all add: queue_chunk_def crcs pushed is_ok_def success_def)
    have count: "records_count rs = Suc (records_count (records s))" using push(3) by (metis length_append_singleton length_records)
    have lenG: "length G = length F + unat n" using n(1) lenchunk by (simp add: G_def)
    have live: "stream_live s2 = stream_live s" by (simp add: s2 count_queued_def stream_live_def)
    have wait: "m + waiting (held (records s)) = length F" if "n \<noteq> 0"
      using n(2) [OF that] s(2) by (simp add: play_ok_def)
    have "describe G m (held rs)"
      using s(2) wait n(1) lenG describe_bound [of F m "held (records s)"] unfolding push(3) describe_snoc
      by (cases "n = 0") (auto simp: play_ok_def x_def describe_more G_def)
    moreover have "take m G = take m F"
      using s(2) describe_bound [of F m "held (records s)"] by (simp add: play_ok_def G_def)
    moreover have "pending_frames (play s) + n = of_nat (waiting (held rs))"
      using s(2) by (simp add: play_ok_def push(3) x_def)
    moreover have "n = 0 \<or> stream_live s" using n(2) by blast
    ultimately have "play_ok G m s2" using s(2) lenG live unfolding play_ok_def
      by (auto simp: s2(1) count_queued_def push(3) x_def stream_live_def)
    moreover have "stream_ok s2" using s(1,3) push(2,3) count
      by (auto simp: stream_ok_def s2(1) count_queued_def stream_live_def follow_snoc x_def algebra_simps)
    ultimately show ?thesis using s(3) live
      by (simp add: s2 push(3) x_def count_queued_def G_def is_ok_def success_def)
  qed
qed

lemma top_up_ok:
  "top_up_from k fifo source s q p = (s', q', p') \<Longrightarrow> stream_ok s \<Longrightarrow> play_ok F m s \<Longrightarrow>
     stream_state (counters s) \<noteq> Closed \<Longrightarrow>
   stream_ok s' \<and> stream_state (counters s') \<noteq> Closed \<and> play_ok (F @ file_part (chunks_from k fifo source s q p)) m s' \<and>
   stream_live s' = stream_live s \<and> in_flight s' = in_flight s \<and>
   map chunk_file_frames (held (records s')) = map chunk_file_frames (held (records s)) @ map snd (chunks_from k fifo source s q p) \<and>
   (\<forall>c \<in> set (chunks_from k fifo source s q p). unat (snd c) \<le> length (fst c))"
proof (induction k fifo source s q p arbitrary: F s' q' p' rule: chunks_from.induct)
  case (1 fifo source s q p)
  then show ?case by simp
next
  case (2 k fifo source s q p)
  show ?case
  proof (cases "has_room fifo s q")
    case False
    then show ?thesis using 2 by simp
  next
    case True
    obtain s1 p1 n where f: "fill_chunk source s p = (s1, p1, n)" by (metis prod_cases3)
    obtain s2 q2 st where c: "queue_chunk fifo s1 q n = (s2, q2, st)" by (metis prod_cases3)
    note frame = fill_chunk_frame [OF f] and ok = fill_chunk_ok [OF f]
    have "armed (play s) \<Longrightarrow> stream_live s" using 2(3) by (simp add: stream_ok_def)
    then have s2: "stream_ok s2 \<and> stream_state (counters s2) \<noteq> Closed \<and>
        play_ok (if is_ok st then F @ take (unat n) (chunk s1) else F) m s2 \<and>
        stream_live s2 = stream_live s1 \<and> in_flight s2 = in_flight s1 \<and>
        map chunk_file_frames (held (records s2)) = map chunk_file_frames (held (records s1)) @ (if is_ok st then [n] else [])"
      using 2(3-5) True frame ok by (intro queue_chunk_ok [OF c]) (auto simp: has_room_def Let_def)
    note s2 = s2 [unfolded frame ok]
    have long: "unat n \<le> length (chunk s1)" using 2(3) frame by (simp add: stream_ok_def)
    show ?thesis
    proof (cases "is_ok st")
      case True
      have "top_up_from k fifo source s2 q2 p1 = (s', q', p')" using 2(2) \<open>has_room fifo s q\<close> f c True by simp
      from 2(1) [OF _ f [symmetric] refl c [symmetric] refl _ this, of "F @ take (unat n) (chunk s1)"] s2 \<open>has_room fifo s q\<close> True long
      show ?thesis by (simp add: f c)
    next
      case False
      then have "s' = s2\<lparr>counters := (counters s2)\<lparr>rejected_chunks := rejected_chunks (counters s2) + 1\<rparr>\<rparr>"
        using 2(2) \<open>has_room fifo s q\<close> f c by simp
      then show ?thesis using s2 False \<open>has_room fifo s q\<close>
        by (auto simp: f c stream_ok_def play_ok_def stream_live_def)
    qed
  qed
qed

lemma silence_has_no_file_frames:
  fixes u :: 'p
  shows "file_part (chunks_from k fifo silence s q u) = []"
proof (induction k fifo "silence :: 'p frame_source" s q u rule: chunks_from.induct)
  case (1 fifo s q p)
  then show ?case by simp
next
  case (2 k fifo s q p)
  have "snd (snd (fill_chunk silence s p)) = 0"
    by (simp add: fill_chunk_def silence_def start_reached_def split: option.splits)
  then show ?case using 2 by (auto split: prod.splits)
qed

lemma next_above:
  assumes "(a :: u32) \<noteq> - 1"
  shows "a < a + 1"
proof -
  have "unat a \<noteq> unat (- 1 :: u32)" using assms by (simp only: word_unat_eq_iff not_False_eq_True)
  then have "unat a + 1 < 2 ^ 32" using unat_lt_u32 [of a] by (simp add: unsigned_minus_1_eq_mask mask_eq_exp_minus_1)
  then show ?thesis using unat_add_exact [of a 1] by (simp add: word_less_nat_alt)
qed

section \<open>The account of what was sent\<close>

text \<open>
  An account kept beside the stream: the play's file frames confirmed sent, the file frames of
  each chunk queued and not confirmed, oldest first, and whether the endpoint has a packet
  loaded. A completion confirms the chunk that was loaded; the next one is loaded when more is
  outstanding than the FIFO then holds.
\<close>

record account =
  sent_file :: "stereo_frame list"
  outstanding :: "stereo_frame list list"
  packet_loaded :: bool

definition no_account :: account where
  "no_account = \<lparr>sent_file = [], outstanding = [], packet_loaded = False\<rparr>"

definition account_completed :: "nat \<Rightarrow> account \<Rightarrow> account" where
  "account_completed level_frames a =
     (let unconfirmed = drop (of_bool (packet_loaded a)) (outstanding a) in
      \<lparr>sent_file = sent_file a @ concat (take (of_bool (packet_loaded a)) (outstanding a)),
       outstanding = unconfirmed, packet_loaded = (level_frames < chunk_frame_count * length unconfirmed)\<rparr>)"

definition account_queued :: "(stereo_frame list \<times> u32) list \<Rightarrow> account \<Rightarrow> account" where
  "account_queued cs a = a\<lparr>outstanding := outstanding a @ map (\<lambda>(frames, n). take (unat n) frames) cs\<rparr>"

lemma account_queued_simps:
  "sent_file (account_queued cs a) = sent_file a" "packet_loaded (account_queued cs a) = packet_loaded a"
  "outstanding (account_queued cs a) = outstanding a @ map (\<lambda>(frames, n). take (unat n) frames) cs"
  by (simp_all add: account_queued_def)

definition account_closed :: "account \<Rightarrow> account" where
  "account_closed a = a\<lparr>outstanding := [], packet_loaded := False\<rparr>"

definition account_restarted :: "account \<Rightarrow> account" where
  "account_restarted a = a\<lparr>sent_file := [], outstanding := map (\<lambda>_. []) (outstanding a)\<rparr>"

text \<open>The frames the FIFO holds, and the chunks of silence an opening queues.\<close>

definition level_frames :: "'q in_fifo \<Rightarrow> uac_stream \<Rightarrow> 'q \<Rightarrow> nat" where
  "level_frames fifo s q = unat (queued fifo q) div unat (frame_bytes (open_format (counters s)))"

definition just_opened :: "uac_stream \<Rightarrow> stream_format \<Rightarrow> uac_stream" where
  "just_opened s f =
     (let e = end_stream s in
      e\<lparr>counters := (counters e)\<lparr>opens := opens (counters e) + 1, stream_state := Priming,
          open_format := f, frames_sent := 0, frames_queued := 0, source_frames := 0,
          last_miss := no_miss, max_gap := 0\<rparr>, interval := no_interval\<rparr>)"

definition chunks_opened :: "'q in_fifo \<Rightarrow> uac_stream \<Rightarrow> 'q \<Rightarrow> stream_format \<Rightarrow> (stereo_frame list \<times> u32) list" where
  "chunks_opened fifo s q f = chunks_from (unat fifo_target_chunks) fifo silence (just_opened s f) q ()"

text \<open>The stream agrees with its account.\<close>

definition account_ok :: "account \<Rightarrow> uac_stream \<Rightarrow> bool" where
  "account_ok a s \<longleftrightarrow>
     (\<exists>F. play_ok F (length (sent_file a)) s \<and> take (length (sent_file a)) F = sent_file a \<and>
        (stream_live s \<longrightarrow> F = sent_file a @ concat (outstanding a))) \<and>
     map (\<lambda>x. unat (chunk_file_frames x)) (held (records s)) = map length (outstanding a) \<and> in_flight s = packet_loaded a"

lemma waiting_outstanding:
  "map (\<lambda>x. unat (chunk_file_frames x)) xs = map length ys \<Longrightarrow> waiting xs = length (concat ys)"
  by (simp add: waiting_def length_concat)

lemma account_ended:
  assumes "stream_ok s" and "account_ok a s"
  shows "account_ok (account_closed a) (end_stream s)"
proof -
  obtain F where "play_ok F (length (sent_file a)) s" "take (length (sent_file a)) F = sent_file a"
    using assms(2) by (auto simp: account_ok_def)
  then have "play_ok F (length (sent_file a)) (end_stream s)" "take (length (sent_file a)) F = sent_file a"
    using end_stream_ok [OF assms(1)] by blast+
  moreover have "\<not> stream_live (end_stream s)" "held (records (end_stream s)) = []" "\<not> in_flight (end_stream s)"
    by (simp_all add: end_stream_def stream_live_def)
  ultimately show ?thesis by (auto simp: account_ok_def account_closed_def)
qed

lemma account_restart:
  assumes "stream_ok s" and "account_ok a s"
  shows "account_ok (account_restarted a) (restart_play s i)"
proof -
  have "held (records (restart_play s i)) = map without_file_frames (held (records s))" "in_flight (restart_play s i) = in_flight s"
    using held_forget(1) [of "records s"] assms(1) by (simp_all add: restart_play_def stream_ok_def)
  moreover have "length (held (records s)) = length (outstanding a)"
    using assms(2) by (auto simp: account_ok_def dest: map_eq_imp_length_eq)
  moreover have "concat (map (\<lambda>_. []) xs) = []" for xs :: "'x list" by (induction xs) simp_all
  ultimately show ?thesis using restart_play_ok(2) [OF assms(1), of i] assms(2)
    by (auto simp: account_ok_def account_restarted_def comp_def without_file_frames_def map_replicate_const)
qed

lemma account_core:
  assumes "core s = core t"
  shows "account_ok a s = account_ok a t"
  using core_eq(2,3) [OF assms] assms by (simp add: account_ok_def core_def)

lemma account_arm:
  assumes "stream_ok s" and "account_ok a s"
  shows "account_ok a (fst (arm s now timeout start))" and "account_ok a (disarm s)"
proof -
  have same: "stream_live t = stream_live s \<and> records t = records s \<and> in_flight t = in_flight s"
    if "t = fst (arm s now timeout start) \<or> t = disarm s" for t
    using that by (elim disjE) (simp_all add: arm_def disarm_def stream_live_def Let_def)
  show "account_ok a (fst (arm s now timeout start))"
    using assms arm_ok(2) [OF assms(1), of _ _ now timeout start] same [of "fst (arm s now timeout start)"]
    unfolding account_ok_def by auto
  show "account_ok a (disarm s)"
    using assms disarm_ok(2) [OF assms(1)] same [of "disarm s"] unfolding account_ok_def by auto
qed

lemma account_commit:
  assumes s: "stream_ok s" "stream_state (counters s) \<noteq> Closed" and a: "account_ok a s"
  shows "account_ok (account_completed (unat level div unat (frame_bytes (open_format (counters s)))) a) (commit s c level)"
proof -
  let ?t = "commit s c level" and ?k = "of_bool (packet_loaded a) :: nat" and ?n = "length (sent_file a)"
  obtain F where F: "play_ok F ?n s" "take ?n F = sent_file a" "stream_live s \<longrightarrow> F = sent_file a @ concat (outstanding a)"
    and lens: "map (\<lambda>x. unat (chunk_file_frames x)) (held (records s)) = map length (outstanding a)"
    and load: "in_flight s = packet_loaded a"
    using a by (auto simp: account_ok_def)
  note c = commit_confirms [OF s F(1), of c level]
  have count: "records_count (records s) = length (outstanding a)"
    using map_eq_imp_length_eq [OF lens] by simp
  have busy: "packet_loaded a \<Longrightarrow> outstanding a \<noteq> []" using s(1) load lens by (auto simp: stream_ok_def)
  have live: "stream_live ?t = stream_live s" using c s(2) by (simp add: stream_live_def commit_keeps)
  have held: "held (records ?t) = drop ?k (held (records s))" using c load by (cases "packet_loaded a") (simp_all add: drop_Suc)
  have first: "concat (take ?k (outstanding a)) = (if packet_loaded a then hd (outstanding a) else [])"
    using busy by (cases "outstanding a") auto
  have confirmed: "play_ok F (?n + length (concat (take ?k (outstanding a)))) ?t"
    using c load first busy lens by (cases "packet_loaded a"; cases "outstanding a") (auto simp: neq_Nil_conv map_eq_Cons_conv)
  have all: "F = sent_file a @ concat (take ?k (outstanding a)) @ concat (drop ?k (outstanding a))" if "stream_live s"
    using F(3) that by (metis append_take_drop_id concat_append)
  have dead: "concat (take ?k (outstanding a)) = []" if "\<not> stream_live s"
  proof -
    have "waiting (held (records s)) = 0" using F(1) that by (simp add: play_ok_def)
    then have "length (concat (outstanding a)) = 0" by (simp only: waiting_outstanding [OF lens])
    then show ?thesis by (auto dest: in_set_takeD)
  qed
  then have sent: "take (?n + length (concat (take ?k (outstanding a)))) F = sent_file a @ concat (take ?k (outstanding a))"
  proof (cases "stream_live s")
    case True
    then show ?thesis unfolding all [OF True] by simp
  next
    case False
    then show ?thesis unfolding dead [OF False] using F(2) by simp
  qed
  have k: "?k \<le> length (outstanding a)" using busy by (cases "outstanding a") auto
  define X where "X = chunk_frame_count * (length (outstanding a) - ?k)"
  have diff: "frames_queued (counters s) - (frames_sent (counters s) + (if in_flight s then uac_packet_frames else 0)) = of_nat X"
    unfolding X_def using s k load count
    by (cases "packet_loaded a") (auto simp: stream_ok_def of_nat_diff uac_packet_frames_def chunk_frame_count_def algebra_simps)
  have small: "X < 4294967296"
  proof -
    have "length (outstanding a) \<le> 8" using s(1) count by (simp add: stream_ok_def records_shape_def chunk_record_capacity_def)
    then have "chunk_frame_count * (length (outstanding a) - ?k) \<le> chunk_frame_count * 8" by (intro mult_le_mono2) simp
    then show ?thesis by (simp add: X_def chunk_frame_count_def)
  qed
  have "in_flight ?t \<longleftrightarrow> unat level div unat (frame_bytes (open_format (counters s))) < chunk_frame_count * (length (outstanding a) - ?k)"
    unfolding X_def [symmetric] unfolding commit_keeps diff word_less_nat_alt unat_of_nat_32 [OF small] unat_div ..
  then show ?thesis using confirmed sent all live held lens
    by (auto simp: account_ok_def account_completed_def Let_def drop_map [symmetric] intro!: exI [of _ F])
qed

lemma account_topped_up:
  assumes t: "top_up_from k fifo source s q p = (s', q', p')" and s: "stream_ok s" "stream_state (counters s) \<noteq> Closed"
    and a: "account_ok a s"
  shows "stream_ok s' \<and> account_ok (account_queued (chunks_from k fifo source s q p) a) s'"
proof -
  let ?cs = "chunks_from k fifo source s q p" and ?n = "length (sent_file a)"
  obtain F where F: "play_ok F ?n s" "take ?n F = sent_file a" "stream_live s \<longrightarrow> F = sent_file a @ concat (outstanding a)"
    and lens: "map (\<lambda>x. unat (chunk_file_frames x)) (held (records s)) = map length (outstanding a)"
    and load: "in_flight s = packet_loaded a"
    using a by (auto simp: account_ok_def)
  note t = top_up_ok [OF t s(1) F(1) s(2)]
  have M: "map chunk_file_frames (held (records s')) = map chunk_file_frames (held (records s)) @ map snd ?cs"
    and long: "\<forall>c \<in> set ?cs. unat (snd c) \<le> length (fst c)" using t by blast+
  have "map (\<lambda>c. unat (snd c)) ?cs = map length (map (\<lambda>(frames, n). take (unat n) frames) ?cs)"
    using long by (auto simp: min_absorb2)
  then have "map (\<lambda>x. unat (chunk_file_frames x)) (held (records s')) =
      map length (outstanding a @ map (\<lambda>(frames, n). take (unat n) frames) ?cs)"
    using arg_cong [OF M, of "map unat"] lens by (simp add: comp_def)
  moreover have parts: "concat (map (\<lambda>(frames, n). take (unat n) frames) ?cs) = file_part ?cs" by (simp add: file_part_def)
  moreover have "?n \<le> length F" using F(1) describe_bound [of F ?n "held (records s)"] by (simp add: play_ok_def)
  moreover from this F(2) have "take ?n (F @ file_part ?cs) = sent_file a" by simp
  moreover have "stream_live s' \<longrightarrow> F @ file_part ?cs = sent_file a @ concat (outstanding a @ map (\<lambda>(frames, n). take (unat n) frames) ?cs)"
    using t F(3) parts by simp
  ultimately show ?thesis using t load unfolding account_ok_def account_queued_simps by blast
qed

lemma open_stream_ok:
  assumes "stream_ok s" and "account_ok a s" and "opens (counters s) \<noteq> - 1"
    and o: "open_stream fifo s q f = (s', q', st)"
  shows "stream_ok s' \<and> account_ok (if is_ok st then account_queued (chunks_opened fifo s q f) (account_closed a) else a) s'"
proof (cases "configured s \<and> f \<in> set stream_formats")
  case False
  then have "s' = s \<and> \<not> is_ok st"
    using o by (cases "configured s") (auto simp: open_stream_def is_ok_def status_defs)
  then show ?thesis using assms(1,2) by simp
next
  case True
  define e where "e = end_stream s"
  obtain s3 q3 p3 where t: "top_up fifo silence (just_opened s f) q () = (s3, q3, p3)" by (metis prod_cases3)
  have e: "stream_ok e" "account_ok (account_closed a) e"
    using end_stream_ok(1) [OF assms(1)] account_ended [OF assms(1,2)] assms(2) by (auto simp: e_def account_ok_def)
  have o2: "opens (counters e) = opens (counters s)" and closed: "stream_state (counters e) = Closed"
    by (simp_all add: e_def end_stream_def)
  have less: "opens (counters e) < opens (counters e) + 1"
    using next_above assms(3) o2 by simp
  have le: "play_opens e \<le> opens (counters e)" using e(1) by (simp add: stream_ok_def)
  then have later: "play_opens e < opens (counters e) + 1" using less by (rule order.strict_trans1)
  have "stream_ok (just_opened s f) \<and> stream_state (counters (just_opened s f)) \<noteq> Closed"
    using e(1) closed True later records_held_empty [of "records e"]
    by (auto simp: stream_ok_def just_opened_def Let_def e_def [symmetric] stream_live_def)
  moreover have "account_ok (account_closed a) (just_opened s f)"
    using e(2) closed later by (auto simp: account_ok_def play_ok_def just_opened_def Let_def e_def [symmetric] stream_live_def)
  ultimately have "stream_ok s3 \<and> account_ok (account_queued (chunks_opened fifo s q f) (account_closed a)) s3"
    using account_topped_up [OF t [unfolded top_up_def]] by (simp add: chunks_opened_def)
  moreover have "s' = s3 \<and> st = success"
    using True t o by (simp add: open_stream_def Let_def just_opened_def)
  ultimately show ?thesis by (simp add: is_ok_def success_def)
qed

lemma on_tx_done_ok:
  assumes "on_tx_done fifo source s q p c = (s', q', p')" and s: "stream_ok s" "account_ok a s"
  shows "stream_ok s' \<and> account_ok (account_queued (chunks_at fifo source s q p c) (account_completed (level_frames fifo s q) a)) s'"
proof (cases "stream_state (counters s) = Closed")
  case True
  then have "held (records s) = []" "\<not> in_flight s" using s(1) by (auto simp: stream_ok_def)
  then have "outstanding a = []" "\<not> packet_loaded a" using s(2) by (simp_all add: account_ok_def)
  then have "account_completed (level_frames fifo s q) a = a" by (simp add: account_completed_def)
  then show ?thesis using True assms by (auto simp: on_tx_done_def chunks_at_def account_queued_def)
next
  case False
  obtain F n where "play_ok F n s" using s(2) by (auto simp: account_ok_def)
  then have "stream_ok (commit s c (queued fifo q)) \<and> stream_state (counters (commit s c (queued fifo q))) \<noteq> Closed"
    using commit_confirms [OF s(1) False] by blast
  moreover note account_commit [OF s(1) False s(2), of "queued fifo q" c]
  moreover have "top_up_from (unat fifo_target_chunks) fifo source (commit s c (queued fifo q)) q p = (s', q', p')"
    using assms(1) False by (simp add: on_tx_done_def top_up_def)
  ultimately show ?thesis using account_topped_up False by (fastforce simp: chunks_at_def level_frames_def)
qed

section \<open>Every run of the stream\<close>

text \<open>
  The stream's operations in any order, the FIFO and the source answering from any states,
  with the account of each step.
\<close>

inductive uac_reaches :: "'q in_fifo \<Rightarrow> 'p frame_source \<Rightarrow> account \<Rightarrow> uac_stream \<Rightarrow> bool"
  for fifo :: "'q in_fifo" and source :: "'p frame_source"
where
  at_boot: "uac_reaches fifo source no_account stream_at_boot"
| configured: "uac_reaches fifo source a s \<Longrightarrow> uac_reaches fifo source (account_closed a) (configure s)"
| deconfigured: "uac_reaches fifo source a s \<Longrightarrow> uac_reaches fifo source (account_closed a) (deconfigure s)"
| opened: "uac_reaches fifo source a s \<Longrightarrow> opens (counters s) \<noteq> - 1 \<Longrightarrow> open_stream fifo s q f = (s', q', st) \<Longrightarrow>
    uac_reaches fifo source (if is_ok st then account_queued (chunks_opened fifo s q f) (account_closed a) else a) s'"
| closed: "uac_reaches fifo source a s \<Longrightarrow> uac_reaches fifo source (account_closed a) (close_stream s)"
| completed: "uac_reaches fifo source a s \<Longrightarrow> on_tx_done fifo source s q p c = (s', q', p') \<Longrightarrow>
    uac_reaches fifo source (account_queued (chunks_at fifo source s q p c) (account_completed (level_frames fifo s q) a)) s'"
| watched: "uac_reaches fifo source a s \<Longrightarrow> uac_reaches fifo source a (on_watchdog s t)"
| accepted: "uac_reaches fifo source a s \<Longrightarrow> accept_play s = (s', st) \<Longrightarrow>
    uac_reaches fifo source (if is_ok st then account_restarted a else a) s'"
| cleared: "uac_reaches fifo source a s \<Longrightarrow> uac_reaches fifo source (account_restarted a) (clear_play s)"
| armed: "uac_reaches fifo source a s \<Longrightarrow> arm s now timeout start = (s', st) \<Longrightarrow> uac_reaches fifo source a s'"
| disarmed: "uac_reaches fifo source a s \<Longrightarrow> uac_reaches fifo source a (disarm s)"

lemma boot_ok: "stream_ok stream_at_boot" "account_ok no_account stream_at_boot"
  by (auto simp: stream_ok_def account_ok_def no_account_def play_ok_def stream_at_boot_def no_counters_def no_play_def
      stream_live_def records_shape_def held_def chunk_record_capacity_def intro!: exI [of _ "[]"])

lemma account_accepted:
  assumes "stream_ok s" and "account_ok a s" and run: "accept_play s = (s', st)"
  shows "stream_ok s' \<and> account_ok (if is_ok st then account_restarted a else a) s'"
proof (cases "stream_state (counters s) = Closed")
  case True
  then show ?thesis using assms by (auto simp: accept_play_def is_ok_def stream_not_open_def)
next
  case False
  let ?r = "restart_play s (frames_sent (counters s))"
  have s': "s' = ?r\<lparr>play_opens := opens (counters s)\<rparr>" "is_ok st"
    using run False by (auto simp: accept_play_def is_ok_def success_def)
  have "map (\<lambda>x. unat (chunk_file_frames x)) (held (records s')) = map length (outstanding (account_restarted a)) \<and>
      in_flight s' = packet_loaded (account_restarted a)"
    using account_restart [OF assms(1,2), of "frames_sent (counters s)"] by (simp add: account_ok_def s')
  moreover have "stream_ok s'" "play_ok [] 0 s'" using accept_play_ok [OF assms(1) False] run by simp_all
  moreover have "sent_file (account_restarted a) = []" "concat (outstanding (account_restarted a)) = []"
    by (simp_all add: account_restarted_def)
  ultimately show ?thesis using s'(2) by (auto simp: account_ok_def)
qed

lemma reaches_ok: "uac_reaches fifo source a s \<Longrightarrow> stream_ok s \<and> account_ok a s"
proof (induction rule: uac_reaches.induct)
  case at_boot
  then show ?case using boot_ok by blast
next
  case (configured a s)
  have "stream_ok (s\<lparr>configured := True\<rparr>) = stream_ok s" "account_ok a (s\<lparr>configured := True\<rparr>) = account_ok a s"
    by (simp_all add: stream_ok_def account_ok_def play_ok_def stream_live_def)
  then show ?case using configured.IH end_stream_ok(1) account_ended [of "s\<lparr>configured := True\<rparr>" a]
    unfolding configure_def account_ok_def by blast
next
  case (deconfigured a s)
  have "stream_ok (s\<lparr>configured := False\<rparr>) = stream_ok s" "account_ok a (s\<lparr>configured := False\<rparr>) = account_ok a s"
    by (simp_all add: stream_ok_def account_ok_def play_ok_def stream_live_def)
  then show ?case using deconfigured.IH end_stream_ok(1) account_ended [of "s\<lparr>configured := False\<rparr>" a]
    unfolding deconfigure_def account_ok_def by blast
next
  case (opened a s q f s' q' st)
  then show ?case using open_stream_ok [OF _ _ opened(2,3)] by blast
next
  case (closed a s)
  then show ?case using end_stream_ok(1) account_ended [of s a] unfolding close_stream_def account_ok_def by blast
next
  case (completed a s q p c s' q' p')
  then show ?case using on_tx_done_ok [OF completed(2)] by blast
next
  case (watched a s t)
  then show ?case using core_eq(1) [OF core_watchdog] account_core [OF core_watchdog] by simp
next
  case (accepted a s s' st)
  then show ?case using account_accepted by blast
next
  case (cleared a s)
  then show ?case using restart_play_ok(1) account_restart unfolding clear_play_def by blast
next
  case (armed a s now timeout start s' st)
  then have "s' = fst (arm s now timeout start)" by simp
  then show ?case using account_arm(1) arm_ok(1) armed.IH unfolding account_ok_def by blast
next
  case (disarmed a s)
  then show ?case using account_arm(2) disarm_ok(1) unfolding account_ok_def by blast
qed

text \<open>
  C5. At every moment of every run, on any FIFO and any source, the play's statistics are those
  of exactly the file frames of the chunks that completions confirmed: their number, and the
  CRC-32 of their PCM24 bytes per channel. The file frames of the chunks queued and not
  confirmed are pending, all of them and nothing else; these chunks are what the records
  hold, at most eight, and what the stream has queued past what it sent.
\<close>

theorem uac_play_exact:
  assumes "uac_reaches fifo source a s"
  shows "file_frames (play s) = of_nat (length (sent_file a)) \<and>
    crc32_left (play s) = crc32 (concat (map (\<lambda>f. wav_bytes (left f)) (sent_file a))) \<and>
    crc32_right (play s) = crc32 (concat (map (\<lambda>f. wav_bytes (right f)) (sent_file a))) \<and>
    unat (pending_frames (play s)) = length (concat (outstanding a)) \<and>
    map (\<lambda>x. unat (chunk_file_frames x)) (held (records s)) = map length (outstanding a) \<and>
    length (outstanding a) \<le> chunk_record_capacity \<and>
    (stream_state (counters s) \<noteq> Closed \<longrightarrow>
       frames_queued (counters s) - frames_sent (counters s) = of_nat (chunk_frame_count * length (outstanding a)))"
proof -
  have s: "stream_ok s" "account_ok a s" using reaches_ok [OF assms] by blast+
  then obtain F where F: "play_ok F (length (sent_file a)) s" "take (length (sent_file a)) F = sent_file a"
    and lens: "map (\<lambda>x. unat (chunk_file_frames x)) (held (records s)) = map length (outstanding a)"
    by (auto simp: account_ok_def)
  have count: "records_count (records s) = length (outstanding a)"
    using map_eq_imp_length_eq [OF lens] by simp
  have "waiting (held (records s)) \<le> chunk_frame_count * records_count (records s)"
    using F(1) describe_bound [of F "length (sent_file a)" "held (records s)"] by (simp add: play_ok_def)
  moreover have few: "records_count (records s) \<le> chunk_record_capacity"
    using s(1) by (simp add: stream_ok_def records_shape_def)
  ultimately have "unat (of_nat (waiting (held (records s))) :: u32) = waiting (held (records s))"
    by (intro unat_of_nat_32) (simp add: chunk_record_capacity_def chunk_frame_count_def)
  then have "unat (pending_frames (play s)) = length (concat (outstanding a))"
    using F(1) waiting_outstanding [OF lens] by (simp add: play_ok_def)
  moreover have "stream_state (counters s) \<noteq> Closed \<longrightarrow>
      frames_queued (counters s) - frames_sent (counters s) = of_nat (chunk_frame_count * length (outstanding a))"
    using s(1) count by (auto simp: stream_ok_def uac_packet_frames_def chunk_frame_count_def)
  ultimately show ?thesis using F lens few count by (simp add: play_ok_def channel_crc_def)
qed

text \<open>A run on a FIFO that only counts its bytes, of a source with two file frames in each chunk.\<close>

definition counting_fifo :: "nat in_fifo" where
  "counting_fifo = \<lparr>queued = of_nat, free_space = (\<lambda>n. fifo_capacity_bytes - of_nat n),
     fifo_write = (\<lambda>n bs. (n + length bs, of_nat (length bs)))\<rparr>"

definition two_frames :: "unit frame_source" where
  "two_frames u = (u, [player_frame 5, player_frame (- 7)], 2)"

definition mono_completion :: completion where
  "mono_completion = \<lparr>sent_bytes = 96, frame_number = 1, completion_tick = 1\<rparr>"

primrec play_run :: "nat \<Rightarrow> account \<times> uac_stream \<times> nat" where
  "play_run 0 =
     (case open_stream counting_fifo (configure stream_at_boot) 0 pcm16_mono of
        (s, q, st) \<Rightarrow>
          let a = account_closed no_account;
              a1 = (if is_ok st
                    then account_queued (chunks_opened counting_fifo (configure stream_at_boot) 0 pcm16_mono) (account_closed a)
                    else a);
              a2 = (if is_ok (snd (accept_play s)) then account_restarted a1 else a1)
          in (a2, fst (arm (fst (accept_play s)) 0 100 None), q))"
| "play_run (Suc k) =
     (case play_run k of
        (a, s, q) \<Rightarrow>
          (account_queued (chunks_at counting_fifo two_frames s (q - 96) () mono_completion)
             (account_completed (level_frames counting_fifo s (q - 96)) a),
           case on_tx_done counting_fifo two_frames s (q - 96) () mono_completion of (s', q', p) \<Rightarrow> (s', q')))"

lemma play_run_reached:
  "uac_reaches counting_fifo two_frames (fst (play_run k)) (fst (snd (play_run k)))"
proof (induction k)
  case 0
  obtain s q st where o: "open_stream counting_fifo (configure stream_at_boot) 0 pcm16_mono = (s, q, st)"
    by (metis prod_cases3)
  have "opens (counters (configure stream_at_boot)) \<noteq> - 1"
    by (simp add: configure_def end_stream_def stream_at_boot_def no_counters_def)
  note opened = uac_reaches.opened [OF uac_reaches.configured [OF uac_reaches.at_boot] this o, of two_frames]
  note accepted = uac_reaches.accepted [OF opened prod.collapse [symmetric]]
  show ?case using uac_reaches.armed [OF accepted prod.collapse [symmetric], of 0 100 None] by (simp add: o Let_def)
next
  case (Suc k)
  obtain a s q where r: "play_run k = (a, s, q)" by (metis prod_cases3)
  obtain s' q' p where d: "on_tx_done counting_fifo two_frames s (q - 96) () mono_completion = (s', q', p)"
    by (metis prod_cases3)
  show ?case using uac_reaches.completed [OF _ d, of a] Suc by (simp add: r d)
qed

lemma uac_play_exact_witness:
  "crc32_left (play (fst (snd (play_run 4)))) =
     crc32 (concat (map (\<lambda>f. wav_bytes (left f)) (sent_file (fst (play_run 4))))) \<and>
   unat (pending_frames (play (fst (snd (play_run 4))))) = length (concat (outstanding (fst (play_run 4))))"
  using uac_play_exact [OF play_run_reached [of 4]] by blast

end
