(* ===== verification/UacRun.thy ===== *)
theory UacRun
  imports UacPlay
begin

text \<open>
  The USB capture stream on TinyUSB's FIFO. TinyUSB loads the next packet from its FIFO when
  one completes, and then calls the stream, which tops the FIFO up: every packet after the
  first is one whole chunk, in the order the stream queued them, and no chunk is rejected.
\<close>

section \<open>The FIFO\<close>

text \<open>
  What the stream relies on of the FIFO: \<open>content\<close> are the bytes in it, \<open>load\<close> takes the next
  packet of at most that many bytes; a write is accepted whole whenever there is room.
\<close>

definition fifo_keeps_order :: "'q in_fifo \<Rightarrow> ('q \<Rightarrow> bytes) \<Rightarrow> (nat \<Rightarrow> 'q \<Rightarrow> bytes \<times> 'q) \<Rightarrow> bool" where
  "fifo_keeps_order fifo content load \<longleftrightarrow>
     (\<forall>q. length (content q) \<le> unat fifo_capacity_bytes \<longrightarrow>
        queued fifo q = of_nat (length (content q)) \<and>
        free_space fifo q = fifo_capacity_bytes - of_nat (length (content q))) \<and>
     (\<forall>q bs. length (content q) + length bs \<le> unat fifo_capacity_bytes \<longrightarrow>
        snd (fifo_write fifo q bs) = of_nat (length bs) \<and>
        content (fst (fifo_write fifo q bs)) = content q @ bs) \<and>
     (\<forall>n q. fst (load n q) = take n (content q) \<and> content (snd (load n q)) = drop n (content q))"

section \<open>A run of the open stream\<close>

definition packets_of :: "stream_format \<Rightarrow> (stereo_frame list \<times> u32) list \<Rightarrow> bytes list" where
  "packets_of f cs = map (\<lambda>(frames, n). pack_frames frames f) cs"

text \<open>
  \<open>cs\<close> are the chunks queued since the stream opened, \<open>loaded\<close> the packet TinyUSB has loaded
  (a zero-length one at first), \<open>sent\<close> those completed.
\<close>

inductive uac_runs :: "'q in_fifo \<Rightarrow> ('q \<Rightarrow> bytes) \<Rightarrow> (nat \<Rightarrow> 'q \<Rightarrow> bytes \<times> 'q) \<Rightarrow> 'p frame_source \<Rightarrow> stream_format \<Rightarrow>
    u32 \<Rightarrow> (stereo_frame list \<times> u32) list \<Rightarrow> uac_stream \<Rightarrow> 'q \<Rightarrow> bytes \<Rightarrow> bytes list \<Rightarrow> bool"
  for fifo :: "'q in_fifo" and content and load and source :: "'p frame_source" and f
where
  opened: "uac_reaches fifo source a s \<Longrightarrow> opens (counters s) \<noteq> - 1 \<Longrightarrow> configured s \<Longrightarrow> f \<in> set stream_formats \<Longrightarrow>
    content q = [] \<Longrightarrow> open_stream fifo s q f = (s', q', st) \<Longrightarrow>
    uac_runs fifo content load source f (rejected_chunks (counters s))
      (replicate 2 (replicate chunk_frame_count silent_frame, 0)) s' q' [] []"
| completed: "uac_runs fifo content load source f r cs s q loaded sent \<Longrightarrow>
    load (unat (packet_bytes f)) q = (next_packet, q1) \<Longrightarrow> on_tx_done fifo source s q1 p c = (s', q2, p') \<Longrightarrow>
    uac_runs fifo content load source f r (cs @ chunks_at fifo source s q1 p c) s' q2 next_packet (sent @ [loaded])"
| watched: "uac_runs fifo content load source f r cs s q loaded sent \<Longrightarrow>
    uac_runs fifo content load source f r cs (on_watchdog s t) q loaded sent"
| accepted: "uac_runs fifo content load source f r cs s q loaded sent \<Longrightarrow> accept_play s = (s', st) \<Longrightarrow>
    uac_runs fifo content load source f r cs s' q loaded sent"
| cleared: "uac_runs fifo content load source f r cs s q loaded sent \<Longrightarrow>
    uac_runs fifo content load source f r cs (clear_play s) q loaded sent"
| armed: "uac_runs fifo content load source f r cs s q loaded sent \<Longrightarrow> arm s now timeout start = (s', st) \<Longrightarrow>
    uac_runs fifo content load source f r cs s' q loaded sent"
| disarmed: "uac_runs fifo content load source f r cs s q loaded sent \<Longrightarrow>
    uac_runs fifo content load source f r cs (disarm s) q loaded sent"

lemma runs_reaches: "uac_runs fifo content load source f r cs s q loaded sent \<Longrightarrow> \<exists>a. uac_reaches fifo source a s"
  by (induction rule: uac_runs.induct) (blast intro: uac_reaches.intros)+

section \<open>Topping up\<close>

lemma packet_sizes:
  assumes "f \<in> set stream_formats"
  shows "0 < unat (packet_bytes f)" and "unat (packet_bytes f) \<le> 384"
    and "fifo_target_bytes f = 2 * packet_bytes f"
    and "of_nat (unat (packet_bytes f)) div frame_bytes f = uac_packet_frames"
    and "length frames = chunk_frame_count \<Longrightarrow> length (pack_frames frames f) = unat (packet_bytes f)"
proof -
  show "0 < unat (packet_bytes f)" "unat (packet_bytes f) \<le> 384" "fifo_target_bytes f = 2 * packet_bytes f"
    "of_nat (unat (packet_bytes f)) div frame_bytes f = uac_packet_frames"
    using assms by (auto simp: stream_formats_def pcm24_stereo_def pcm16_stereo_def pcm16_mono_def packet_bytes_def
        frame_bytes_def uac_packet_frames_def fifo_target_bytes_def fifo_target_chunks_def)
  show "length (pack_frames frames f) = unat (packet_bytes f)" if "length frames = chunk_frame_count"
    using assms that length_concat_even [of "frame_on_wire pcm24_stereo" 8 frames]
      length_concat_even [of "frame_on_wire pcm16_stereo" 4 frames] length_concat_even [of "frame_on_wire pcm16_mono" 2 frames]
    by (auto simp: stream_formats_def pack_frames_def frame_lengths packet_bytes_def frame_bytes_def
        uac_packet_frames_def chunk_frame_count_def)
      (simp_all add: pcm24_stereo_def pcm16_stereo_def pcm16_mono_def)
qed

lemma fifo_level:
  assumes "fifo_keeps_order fifo content load" and "f \<in> set stream_formats"
    and "length (content q) = j * unat (packet_bytes f)" and "j \<le> 2"
  shows "queued fifo q = of_nat j * packet_bytes f" and "packet_bytes f \<le> free_space fifo q"
    and "queued fifo q + packet_bytes f \<le> fifo_target_bytes f \<longleftrightarrow> j < 2"
proof -
  have "length (content q) \<le> unat fifo_capacity_bytes"
    using assms(3,4) packet_sizes(2) [OF assms(2)] mult_le_mono [of j 2 "unat (packet_bytes f)" 384]
    by (simp add: fifo_capacity_bytes_def)
  then have q: "queued fifo q = of_nat j * packet_bytes f" "free_space fifo q = fifo_capacity_bytes - of_nat j * packet_bytes f"
    using assms(1,3) by (simp_all add: fifo_keeps_order_def)
  then show "queued fifo q = of_nat j * packet_bytes f" by simp
  have j: "j = 0 \<or> j = 1 \<or> j = 2" using assms(4) by linarith
  show "packet_bytes f \<le> free_space fifo q" "queued fifo q + packet_bytes f \<le> fifo_target_bytes f \<longleftrightarrow> j < 2"
    using assms(2) j unfolding q
    by (auto simp: stream_formats_def pcm24_stereo_def pcm16_stereo_def pcm16_mono_def packet_bytes_def
        frame_bytes_def uac_packet_frames_def fifo_target_bytes_def fifo_target_chunks_def fifo_capacity_bytes_def)
qed

lemma queue_chunk_accepted:
  assumes fifo: "fifo_keeps_order fifo content load" and f: "open_format (counters s) \<in> set stream_formats"
    and q: "length (content q) = j * unat (packet_bytes (open_format (counters s)))" "j \<le> 2"
    and s: "records_shape (records s)" "\<not> records_full (records s)" "length (chunk s) = chunk_frame_count"
    and c: "queue_chunk fifo s q n = (s2, q2, st)"
  shows "is_ok st" and "content q2 = content q @ pack_frames (chunk s) (open_format (counters s))"
    and "records_count (records s2) = Suc (records_count (records s))" and "in_flight s2 = in_flight s"
    and "open_format (counters s2) = open_format (counters s)" and "frames_sent (counters s2) = frames_sent (counters s)"
    and "rejected_chunks (counters s2) = rejected_chunks (counters s)"
    and "records_shape (records s2)" and "length (chunk s2) = chunk_frame_count"
    and "stream_state (counters s2) = stream_state (counters s)"
proof -
  let ?f = "open_format (counters s)" and ?bs = "pack_frames (chunk s) (open_format (counters s))"
  have len: "length ?bs = unat (packet_bytes ?f)" by (rule packet_sizes(5) [OF f s(3)])
  have "length (content q) + length ?bs \<le> unat fifo_capacity_bytes"
    using q len packet_sizes(2) [OF f] mult_le_mono [of j 2 "unat (packet_bytes ?f)" 384] by (simp add: fifo_capacity_bytes_def)
  then have w: "snd (fifo_write fifo q ?bs) = packet_bytes ?f" "content (fst (fifo_write fifo q ?bs)) = content q @ ?bs"
    using fifo len unfolding fifo_keeps_order_def by simp_all
  define x where "x = \<lparr>chunk_start = frames_queued (counters s), chunk_file_frames = n,
    chunk_crc_left = crc32_value (crc_left (crcs_with s n)), chunk_crc_right = crc32_value (crc_right (crcs_with s n))\<rparr>"
  have push: "snd (records_push (records s) x) = success"
    "records_count (fst (records_push (records s) x)) = Suc (records_count (records s))"
    "records_shape (fst (records_push (records s) x))"
    using held_push [OF s(1,2), of x] by simp_all (metis length_append_singleton length_records)
  have r: "queue_chunk fifo s q n =
      (count_queued (s\<lparr>records := fst (records_push (records s) x)\<rparr>) n (crcs_with s n), fst (fifo_write fifo q ?bs), success)"
    using w push by (simp add: queue_chunk_def Let_def x_def [symmetric] split_beta is_ok_def success_def)
  show "is_ok st" "content q2 = content q @ ?bs" "records_count (records s2) = Suc (records_count (records s))"
    "in_flight s2 = in_flight s" "open_format (counters s2) = ?f" "frames_sent (counters s2) = frames_sent (counters s)"
    "rejected_chunks (counters s2) = rejected_chunks (counters s)"
    "records_shape (records s2)" "length (chunk s2) = chunk_frame_count"
    "stream_state (counters s2) = stream_state (counters s)"
    using c w push(2,3) s(3) unfolding r by (auto simp: is_ok_def success_def count_queued_def)
qed

text \<open>A top-up with \<open>j\<close> chunks in the FIFO writes \<open>2 - j\<close>.\<close>

lemma top_up_fills:
  assumes f: "f \<in> set stream_formats"
  shows "top_up_from k fifo source s q p = (s', q', p') \<Longrightarrow> fifo_keeps_order fifo content load \<Longrightarrow> open_format (counters s) = f \<Longrightarrow>
    records_shape (records s) \<Longrightarrow> length (chunk s) = chunk_frame_count \<Longrightarrow>
    length (content q) = j * unat (packet_bytes f) \<Longrightarrow> j \<le> 2 \<Longrightarrow> 2 - j \<le> k \<Longrightarrow> records_count (records s) \<le> 1 + j \<Longrightarrow>
    content q' = content q @ concat (packets_of f (chunks_from k fifo source s q p)) \<and>
    length (chunks_from k fifo source s q p) = 2 - j \<and>
    (\<forall>c \<in> set (chunks_from k fifo source s q p). length (fst c) = chunk_frame_count) \<and>
    open_format (counters s') = f \<and> records_count (records s') = records_count (records s) + (2 - j) \<and>
    in_flight s' = in_flight s \<and> frames_sent (counters s') = frames_sent (counters s) \<and>
    rejected_chunks (counters s') = rejected_chunks (counters s) \<and> stream_state (counters s') = stream_state (counters s)"
proof (induction k fifo source s q p arbitrary: j s' q' p' rule: chunks_from.induct [case_names none more])
  case (none fifo source s q p)
  then show ?case by (simp add: packets_of_def)
next
  case (more k fifo source s q p)
  have room: "has_room fifo s q \<longleftrightarrow> j < 2"
    using fifo_level [OF more.prems(2) f more.prems(6,7)] more.prems(3,9)
    by (auto simp: has_room_def Let_def records_full_def chunk_record_capacity_def)
  show ?case
  proof (cases "j < 2")
    case False
    then show ?thesis using more.prems room by (simp add: packets_of_def)
  next
    case True
    obtain s1 p1 n where fill: "fill_chunk source s p = (s1, p1, n)" by (metis prod_cases3)
    obtain s2 q2 st where c: "queue_chunk fifo s1 q n = (s2, q2, st)" by (metis prod_cases3)
    note frame = fill_chunk_frame [OF fill]
    have s1: "open_format (counters s1) = f" "records_shape (records s1)" "\<not> records_full (records s1)"
      "length (chunk s1) = chunk_frame_count"
      using frame more.prems True by (simp_all add: records_full_def chunk_record_capacity_def)
    note queued = queue_chunk_accepted [OF more.prems(2) f [folded s1(1)] more.prems(6) [folded s1(1)] more.prems(7) s1(2-4) c]
    have len: "length (content q2) = Suc j * unat (packet_bytes f)"
      using queued(2) more.prems(6) packet_sizes(5) [OF f s1(4)] s1(1) by simp
    have run: "top_up_from k fifo source s2 q2 p1 = (s', q', p')"
      using more.prems(1) room True fill c queued(1) by simp
    have "has_room fifo s q" using room True by simp
    from more.IH [OF _ fill [symmetric] refl c [symmetric] refl _ run more.prems(2) _ queued(8,9) len] this queued s1 frame more.prems True
    have ih: "content q' = content q2 @ concat (packets_of f (chunks_from k fifo source s2 q2 p1)) \<and>
      length (chunks_from k fifo source s2 q2 p1) = 2 - Suc j \<and>
      (\<forall>c \<in> set (chunks_from k fifo source s2 q2 p1). length (fst c) = chunk_frame_count) \<and>
      open_format (counters s') = f \<and> records_count (records s') = records_count (records s2) + (2 - Suc j) \<and>
      in_flight s' = in_flight s2 \<and> frames_sent (counters s') = frames_sent (counters s2) \<and>
      rejected_chunks (counters s') = rejected_chunks (counters s2) \<and> stream_state (counters s') = stream_state (counters s2)"
      by simp
    then show ?thesis using queued s1 frame room True fill c by (simp add: packets_of_def) (use True in arith)
  qed
qed

lemma silence_is_silent:
  fixes u :: 'p
  shows "length (chunk s) = chunk_frame_count \<Longrightarrow>
    \<forall>c \<in> set (chunks_from k fifo silence s q u). c = (replicate chunk_frame_count silent_frame, 0)"
proof (induction k fifo "silence :: 'p frame_source" s q u rule: chunks_from.induct)
  case (1 fifo s q p)
  then show ?case by simp
next
  case (2 k fifo s q p)
  obtain s1 p1 n where fill: "fill_chunk silence s p = (s1, p1, n)" by (metis prod_cases3)
  then have "chunk s1 = replicate chunk_frame_count silent_frame \<and> n = 0"
    using 2(2) by (auto simp: fill_chunk_def silence_def start_reached_def written_over_def split: option.splits if_splits)
  moreover obtain s2 q2 st where c: "queue_chunk fifo s1 q n = (s2, q2, st)" by (metis prod_cases3)
  moreover from c have "chunk s2 = chunk s1"
    by (auto simp: queue_chunk_def Let_def count_queued_def split: prod.splits if_splits)
  ultimately show ?case using 2(1) [OF _ fill [symmetric] refl c [symmetric] refl] fill by simp
qed

section \<open>What holds throughout a run\<close>

definition run_ok :: "('q \<Rightarrow> bytes) \<Rightarrow> stream_format \<Rightarrow> u32 \<Rightarrow> (stereo_frame list \<times> u32) list \<Rightarrow> uac_stream \<Rightarrow> 'q \<Rightarrow>
    bytes \<Rightarrow> bytes list \<Rightarrow> bool" where
  "run_ok content f r cs s q loaded sent \<longleftrightarrow>
     stream_state (counters s) \<noteq> Closed \<and> open_format (counters s) = f \<and> f \<in> set stream_formats \<and>
     rejected_chunks (counters s) = r \<and> frames_sent (counters s) = of_nat (length sent - 1) * uac_packet_frames \<and>
     in_flight s = (sent \<noteq> []) \<and> records_count (records s) = 2 + of_bool (sent \<noteq> []) \<and>
     (\<forall>c \<in> set cs. length (fst c) = chunk_frame_count) \<and>
     (if sent = [] then loaded = [] else hd sent = []) \<and>
     (\<exists>a b. content q = a @ b \<and> packets_of f cs = tl sent @ (if sent = [] then [] else [loaded]) @ [a, b])"

lemma run_ok_frame:
  assumes "run_ok content f r cs s q loaded sent" and "counters s' = counters s" and "in_flight s' = in_flight s"
    and "records_count (records s') = records_count (records s)"
  shows "run_ok content f r cs s' q loaded sent"
  using assms by (simp add: run_ok_def)

lemma packets_whole:
  assumes "run_ok content f r cs s q loaded sent" and "w \<in> set (packets_of f cs)"
  shows "length w = unat (packet_bytes f)"
  using assms packet_sizes(5) [of f] by (auto simp: run_ok_def packets_of_def)

lemma count_forget: "records_shape rs \<Longrightarrow> records_count (forget_file_frames rs) = records_count rs"
  using held_forget(1) [of rs] by (metis length_records length_map)

lemma packets_of_append [simp]: "packets_of f (cs @ ds) = packets_of f cs @ packets_of f ds"
  by (simp add: packets_of_def)

lemma opened_ok:
  assumes fifo: "fifo_keeps_order fifo content load" and s: "uac_reaches fifo source a s" "configured s"
    and f: "f \<in> set stream_formats" and q: "content q = []" and o: "open_stream fifo s q f = (s', q', st)"
  shows "run_ok content f (rejected_chunks (counters s)) (replicate 2 (replicate chunk_frame_count silent_frame, 0)) s' q' [] []"
proof -
  define e where "e = end_stream s"
  define s2 where "s2 = e\<lparr>counters := (counters e)\<lparr>opens := opens (counters e) + 1, stream_state := Priming,
      open_format := f, frames_sent := 0, frames_queued := 0, source_frames := 0,
      last_miss := no_miss, max_gap := 0\<rparr>, interval := no_interval\<rparr>"
  have ok: "stream_ok s" using reaches_ok [OF s(1)] by blast
  obtain p' where t: "top_up_from (unat fifo_target_chunks) fifo silence s2 q () = (s', q', p')"
    using o s(2) f by (auto simp: open_stream_def Let_def e_def [symmetric] s2_def [symmetric] top_up_def split: prod.splits)
  have s2: "records_shape (records s2)" "length (chunk s2) = chunk_frame_count" "records_count (records s2) \<le> 1 + 0"
    "open_format (counters s2) = f" "\<not> in_flight s2"
    using ok held_clear(2) [of "records s"]
    by (auto simp: s2_def e_def end_stream_def stream_ok_def records_clear_def)
  let ?cs = "chunks_from (unat fifo_target_chunks) fifo silence s2 q ()"
  have r: "records_count (records s2) = 0" "rejected_chunks (counters s2) = rejected_chunks (counters s)"
    "frames_sent (counters s2) = 0"
    "stream_state (counters s2) = Priming" by (simp_all add: s2_def e_def end_stream_def records_clear_def)
  have top: "content q' = content q @ concat (packets_of f ?cs) \<and> length ?cs = 2 - 0 \<and>
    (\<forall>c \<in> set ?cs. length (fst c) = chunk_frame_count) \<and>
    open_format (counters s') = f \<and> records_count (records s') = records_count (records s2) + (2 - 0) \<and>
    in_flight s' = in_flight s2 \<and> frames_sent (counters s') = frames_sent (counters s2) \<and>
    rejected_chunks (counters s') = rejected_chunks (counters s2) \<and> stream_state (counters s') = stream_state (counters s2)"
    using top_up_fills [OF f t fifo s2(4,1,2), of 0] s2(3) q by (simp add: fifo_target_chunks_def)
  moreover have "?cs = replicate 2 (replicate chunk_frame_count silent_frame, 0)"
    using top silence_is_silent [OF s2(2), of "unat fifo_target_chunks" fifo q "()"] by (simp add: replicate_eqI)
  ultimately show ?thesis using top r q s2(5) f
    by (auto simp: run_ok_def packets_of_def numeral_2_eq_2)
qed

lemma commit_runs:
  assumes ok: "stream_ok s" "play_ok F n s" and run: "run_ok content f r cs s q loaded sent"
    and level: "level = packet_bytes f"
  shows "stream_state (counters (commit s c level)) \<noteq> Closed \<and>
    open_format (counters (commit s c level)) = f \<and> rejected_chunks (counters (commit s c level)) = r \<and>
    frames_sent (counters (commit s c level)) = of_nat (length sent) * uac_packet_frames \<and>
    in_flight (commit s c level) \<and> records_count (records (commit s c level)) = 2 \<and> stream_ok (commit s c level)"
proof -
  have s: "stream_state (counters s) \<noteq> Closed" "open_format (counters s) = f" "f \<in> set stream_formats"
    "in_flight s = (sent \<noteq> [])" "records_count (records s) = 2 + of_bool (sent \<noteq> [])"
    "rejected_chunks (counters s) = r" "frames_sent (counters s) = of_nat (length sent - 1) * uac_packet_frames"
    using run by (auto simp: run_ok_def)
  have queued: "frames_queued (counters s) = frames_sent (counters s) + of_nat (records_count (records s)) * uac_packet_frames"
    using ok(1) s(1) by (simp add: stream_ok_def)
  note c = commit_confirms [OF ok(1) s(1) ok(2), of c level]
  have "level div frame_bytes f = uac_packet_frames"
    using packet_sizes(4) [OF s(3)] level by simp
  then have "in_flight (commit s c level)"
    using commit_keeps(1) [of s c level] queued s by (auto simp: uac_packet_frames_def)
  moreover have "records_count (records (commit s c level)) = 2"
    using c s(4,5) length_records [of "records (commit s c level)"] by (auto split: if_splits)
  moreover have "frames_sent (counters (commit s c level)) = of_nat (length sent) * uac_packet_frames"
    using c s(4,7) by (cases sent) (auto simp: algebra_simps)
  ultimately show ?thesis using c commit_keeps(2,3) [of s c level] s by simp
qed

lemma completed_ok:
  assumes fifo: "fifo_keeps_order fifo content load" and reach: "uac_reaches fifo source a s"
    and run: "run_ok content f r cs s q loaded sent"
    and load: "load (unat (packet_bytes f)) q = (next_packet, q1)" and tx: "on_tx_done fifo source s q1 p c = (s', q2, p')"
  shows "run_ok content f r (cs @ chunks_at fifo source s q1 p c) s' q2 next_packet (sent @ [loaded])"
proof -
  obtain F n where ok: "stream_ok s" "play_ok F n s" using reaches_ok [OF reach] by (auto simp: account_ok_def)
  obtain a b where ab: "content q = a @ b" "packets_of f cs = tl sent @ (if sent = [] then [] else [loaded]) @ [a, b]"
    using run by (auto simp: run_ok_def)
  have s: "stream_state (counters s) \<noteq> Closed" and f: "f \<in> set stream_formats" using run by (simp_all add: run_ok_def)
  have len: "length a = unat (packet_bytes f)" "length b = 1 * unat (packet_bytes f)"
    using packets_whole [OF run, of a] packets_whole [OF run, of b] ab(2) by simp_all
  have q1: "next_packet = a" "content q1 = b"
    using fifo load ab(1) len unfolding fifo_keeps_order_def
    by (metis append_eq_conv_conj fst_conv, metis append_eq_conv_conj snd_conv)
  have level: "queued fifo q1 = packet_bytes f" using fifo_level(1) [OF fifo f, of q1 1] q1(2) len(2) by simp
  define t where "t = commit s c (queued fifo q1)"
  note t = commit_runs [OF ok run level, of c, folded t_def]
  have shape: "records_shape (records t)" "length (chunk t) = chunk_frame_count" using t by (simp_all add: stream_ok_def)
  let ?cs = "chunks_at fifo source s q1 p c"
  have cs: "?cs = chunks_from (unat fifo_target_chunks) fifo source t q1 p" using s by (simp add: chunks_at_def t_def)
  have "top_up_from (unat fifo_target_chunks) fifo source t q1 p = (s', q2, p')"
    using tx s by (simp add: on_tx_done_def top_up_def t_def)
  from top_up_fills [OF f this fifo _ shape, of 1] t q1(2) len(2)
  have top: "content q2 = b @ concat (packets_of f ?cs) \<and> length ?cs = 1 \<and>
    (\<forall>c \<in> set ?cs. length (fst c) = chunk_frame_count) \<and>
    open_format (counters s') = f \<and> records_count (records s') = 3 \<and>
    in_flight s' \<and> frames_sent (counters s') = of_nat (length sent) * uac_packet_frames \<and>
    rejected_chunks (counters s') = r \<and> stream_state (counters s') \<noteq> Closed"
    unfolding cs by (simp add: fifo_target_chunks_def)
  then obtain x where x: "?cs = [x]" by (auto simp: length_Suc_conv)
  obtain d where d: "packets_of f ?cs = [d]" by (simp add: x packets_of_def)
  have "\<exists>a' b'. content q2 = a' @ b' \<and> packets_of f (cs @ ?cs) = tl (sent @ [loaded]) @ [next_packet] @ [a', b']"
    using top d ab(2) q1(1) by (intro exI [of _ b] exI [of _ d]) (cases sent; simp)
  then show ?thesis using top run f unfolding run_ok_def
    by (cases sent) auto
qed

text \<open>
  C12. While the stream stays open on TinyUSB's FIFO, in any order of completions, watchdog
  samples and plays starting and ending: no chunk is rejected; each completion after the
  first, a zero-length packet, is of one whole packet, the chunks in the order they were
  queued, from two of silence on; the next is loaded and two more wait in the FIFO, so it never
  runs out; and the frames counted as sent are those of the packets completed.
\<close>

theorem uac_stream_runs:
  assumes "fifo_keeps_order fifo content load" and "uac_runs fifo content load source f r cs s q loaded sent"
  shows "rejected_chunks (counters s) = r \<and> stream_state (counters s) \<noteq> Closed \<and>
    frames_sent (counters s) = of_nat (length sent - 1) * uac_packet_frames \<and>
    (if sent = [] then loaded = [] else hd sent = []) \<and>
    (\<exists>a b. content q = a @ b \<and>
       packets_of f cs = tl sent @ (if sent = [] then [] else [loaded]) @ [a, b] \<and>
       list_all (\<lambda>packet. length packet = unat (packet_bytes f)) (packets_of f cs))"
proof -
  have "run_ok content f r cs s q loaded sent"
    using assms(2)
  proof (induction rule: uac_runs.induct)
    case (opened F s q s' q' st)
    then show ?case using opened_ok [OF assms(1)] by blast
  next
    case (completed r cs s q loaded sent next_packet q1 p c s' q2 p')
    obtain a where "uac_reaches fifo source a s" using runs_reaches [OF completed(1)] by blast
    from completed_ok [OF assms(1) this completed(4,2,3)] show ?case .
  next
    case (watched r cs s q loaded sent t)
    show ?case using watched(2) core_watchdog [of s t] by (auto simp: run_ok_def core_def)
  next
    case (accepted r cs s q loaded sent s' st)
    then have "records_shape (records s)" using reaches_ok runs_reaches by (metis stream_ok_def)
    then show ?case using accepted(2,3) count_forget
      by (intro run_ok_frame [OF accepted(3)]) (auto simp: accept_play_def restart_play_def split: if_splits)
  next
    case (cleared r cs s q loaded sent)
    then have "records_shape (records s)" using reaches_ok runs_reaches by (metis stream_ok_def)
    then show ?case using count_forget
      by (intro run_ok_frame [OF cleared(2)]) (auto simp: clear_play_def restart_play_def)
  next
    case (armed r cs s q loaded sent now timeout start s' st)
    then show ?case by (intro run_ok_frame [OF armed(3)]) (auto simp: arm_def Let_def split: if_splits)
  next
    case (disarmed r cs s q loaded sent)
    then show ?case by (intro run_ok_frame [OF disarmed(2)]) (auto simp: disarm_def)
  qed
  moreover from packets_whole [OF this] have "list_all (\<lambda>packet. length packet = unat (packet_bytes f)) (packets_of f cs)"
    by (simp add: list_all_iff)
  ultimately show ?thesis unfolding run_ok_def by blast
qed

text \<open>A FIFO that is the list of its bytes has the behaviour.\<close>

definition byte_fifo :: "bytes in_fifo" where
  "byte_fifo = \<lparr>queued = (\<lambda>q. of_nat (length q)), free_space = (\<lambda>q. fifo_capacity_bytes - of_nat (length q)),
     fifo_write = (\<lambda>q bs. (q @ bs, of_nat (length bs)))\<rparr>"

definition byte_load :: "nat \<Rightarrow> bytes \<Rightarrow> bytes \<times> bytes" where
  "byte_load n q = (take n q, drop n q)"

lemma byte_fifo_keeps_order: "fifo_keeps_order byte_fifo (\<lambda>q. q) byte_load"
  by (simp add: fifo_keeps_order_def byte_fifo_def byte_load_def)

lemma byte_run:
  "\<exists>cs s q loaded sent. uac_runs byte_fifo (\<lambda>q. q) byte_load two_frames pcm16_mono 0 cs s q loaded sent \<and> length sent = k"
proof (induction k)
  case 0
  let ?s = "configure stream_at_boot"
  obtain s' q' st where o: "open_stream byte_fifo ?s [] pcm16_mono = (s', q', st)" by (metis prod_cases3)
  have "configured ?s" "rejected_chunks (counters ?s) = 0" "opens (counters ?s) \<noteq> - 1" "pcm16_mono \<in> set stream_formats"
    by (simp_all add: configure_def end_stream_def stream_at_boot_def no_counters_def stream_formats_def)
  then have "uac_runs byte_fifo (\<lambda>q. q) byte_load two_frames pcm16_mono (rejected_chunks (counters ?s))
      (replicate 2 (replicate chunk_frame_count silent_frame, 0)) s' q' [] []"
    using o by (intro uac_runs.opened [OF uac_reaches.configured [OF uac_reaches.at_boot]]) simp_all
  then show ?case using \<open>rejected_chunks (counters ?s) = 0\<close> by force
next
  case (Suc k)
  then obtain cs s q loaded sent where run: "uac_runs byte_fifo (\<lambda>q. q) byte_load two_frames pcm16_mono 0 cs s q loaded sent"
    and k: "length sent = k" by blast
  let ?n = "unat (packet_bytes pcm16_mono)"
  obtain s' q2 p' where tx: "on_tx_done byte_fifo two_frames s (drop ?n q) () mono_completion = (s', q2, p')" by (metis prod_cases3)
  have "byte_load ?n q = (take ?n q, drop ?n q)" by (simp add: byte_load_def)
  from uac_runs.completed [OF run this tx] k show ?case by (metis length_append_singleton)
qed

lemma uac_stream_runs_witness:
  "\<exists>cs s q loaded sent. uac_runs byte_fifo (\<lambda>q. q) byte_load two_frames pcm16_mono 0 cs s q loaded sent \<and>
     length sent = 3 \<and> rejected_chunks (counters s) = 0 \<and> frames_sent (counters s) = 96 \<and> hd sent = [] \<and>
     length (sent ! 1) = 96 \<and> length (sent ! 2) = 96 \<and> length loaded = 96"
proof -
  obtain cs s q loaded sent where run: "uac_runs byte_fifo (\<lambda>q. q) byte_load two_frames pcm16_mono 0 cs s q loaded sent"
    and k: "length sent = 3" using byte_run [of 3] by blast
  obtain x y z where sent: "sent = [x, y, z]" using k by (auto simp: numeral_3_eq_3 length_Suc_conv)
  have P: "unat (packet_bytes pcm16_mono) = 96"
    by (simp add: packet_bytes_def frame_bytes_def uac_packet_frames_def pcm16_mono_def)
  show ?thesis using uac_stream_runs [OF byte_fifo_keeps_order run] run k
    by (intro exI [of _ cs] exI [of _ s] exI [of _ q] exI [of _ loaded] exI [of _ sent])
      (auto simp: sent P list_all_iff uac_packet_frames_def)
qed

end
