(* ===== verification/UacGaps.thy ===== *)
theory UacGaps
  imports UacPlay
begin

text \<open>
  How the USB capture stream judges the gaps between completions. The frame numbers the
  interrupt reads have 11 bits and come up to one frame late; from them and the ticks the
  stream extends the frame number exactly, and its count of missed intervals is the number
  of frames in which the host took no packet.
\<close>

section \<open>Gaps past the frame number's range\<close>

lemma dealiased_exact:
  fixes G T :: nat
  assumes "T < G + 1024" and "G < T + 1024" and "T + 1024 < 2 ^ 32"
  shows "dealiased_gap (of_nat (G mod 2048)) (of_nat T) = of_nat G"
proof -
  define a k where "a = G mod 2048" and "k = G div 2048"
  have G: "G = a + 2048 * k" and a: "a < 2048" by (simp_all add: a_def k_def)
  have words: "unat (of_nat T :: u32) = T" "unat (of_nat a :: u32) = a"
    using assms a by simp_all
  have half: "unat (of_nat a + usb_frame_number_half :: u32) = a + 1024"
    using a words by (subst unat_add_exact) (simp_all add: usb_frame_number_half_def usb_frame_number_modulus_def)
  show ?thesis
  proof (cases "T \<le> a + 1024")
    case True
    then have "G = a" using assms(2) G by (cases k) simp_all
    then show ?thesis unfolding a_def [symmetric] dealiased_gap_def using True words half
      by (simp add: word_le_nat_alt)
  next
    case False
    let ?d = "of_nat T - of_nat a + usb_frame_number_half :: u32"
    have d: "?d = of_nat (T - a + 1024)" using False
      by (simp add: usb_frame_number_half_def usb_frame_number_modulus_def of_nat_diff)
    have "unat (of_nat (T - a + 1024) :: u32) = T - a + 1024" using assms(3) by (intro unat_of_nat_32) simp
    then have "unat (?d div usb_frame_number_modulus) = (T - a + 1024) div 2048"
      unfolding d by (simp add: unat_div usb_frame_number_modulus_def)
    also have "(T - a + 1024) div 2048 = k" using assms(1,2) False G by (intro div_nat_eqI) simp_all
    finally have wraps: "?d div usb_frame_number_modulus = of_nat k" by (metis of_nat_unat ucast_id)
    have whole: "(of_nat G :: u32) = of_nat a + of_nat k * usb_frame_number_modulus"
      by (simp add: G usb_frame_number_modulus_def)
    show ?thesis unfolding a_def [symmetric] dealiased_gap_def Let_def wraps whole using False words half
      by (simp add: word_le_nat_alt)
  qed
qed

lemma frame_mask: "(w :: u32) AND usb_frame_number_mask = take_bit 11 w"
proof -
  have "(mask 11 :: u32) = usb_frame_number_mask"
    by (simp add: mask_eq_exp_minus_1 usb_frame_number_mask_def usb_frame_number_modulus_def)
  then show ?thesis by (simp add: take_bit_eq_mask)
qed

text \<open>The difference of a frame number read and an extended one, in 11 bits.\<close>

lemma aliased_gap:
  assumes "M \<le> N" and "B \<le> M" and "2048 dvd B"
  shows "(of_nat (N mod 2048) - of_nat (M - B) :: u32) AND usb_frame_number_mask = of_nat ((N - M) mod 2048)"
proof -
  obtain b where b: "B = 2048 * b" using assms(3) by (elim dvdE)
  have "(of_nat (N mod 2048) - of_nat (M - B) :: u32) = of_int (int (N mod 2048) - int (M - B))" by simp
  then have "(of_nat (N mod 2048) - of_nat (M - B) :: u32) AND usb_frame_number_mask =
      of_int (take_bit 11 (int (N mod 2048) - int (M - B)))"
    by (simp only: frame_mask take_bit_of_int)
  also have "take_bit 11 (int (N mod 2048) - int (M - B)) = int ((N - M) mod 2048)"
  proof -
    have "(int (N mod 2048) - int (M - B)) mod 2048 = (int N - int (M - B)) mod 2048" by (simp add: zmod_int mod_simps)
    also have "int N - int (M - B) = int (N - M) + 2048 * int b" using assms b by simp
    finally show ?thesis by (simp add: take_bit_eq_mod zmod_int)
  qed
  finally show ?thesis by simp
qed

section \<open>The count of missed intervals\<close>

lemma missed_after_gap_nat:
  assumes "m + g < 2 ^ 32"
  shows "missed_after_gap (of_nat m) (of_nat g) = of_nat (m + g - 1)"
proof -
  have zero: "(of_nat x :: u32) = 0 \<longleftrightarrow> x = 0" if "x \<le> m + g" for x
    using that assms unat_of_nat_32 [of x] by (auto simp: word_unat_eq_iff simp del: unat_of_nat_32)
  show ?thesis using zero [of m] zero [of g] by (cases m; cases g) (simp_all add: missed_after_gap_def)
qed

text \<open>What the interrupt reads at a completion: the frame it came in, whether it read it one frame late, the tick.\<close>

type_synonym reading = "nat \<times> bool \<times> nat"

definition lateness :: "reading \<Rightarrow> nat" where "lateness r = (case r of (f, late, t) \<Rightarrow> of_bool late)"
definition frame_read :: "reading \<Rightarrow> nat" where "frame_read r = fst r + lateness r"
definition tick_read :: "reading \<Rightarrow> nat" where "tick_read r = snd (snd r)"

definition reading_completion :: "reading \<Rightarrow> u32 \<Rightarrow> completion" where
  "reading_completion r sent =
     \<lparr>sent_bytes = sent, frame_number = of_nat (frame_read r mod 2048), completion_tick = of_nat (tick_read r)\<rparr>"

text \<open>One completion a frame at most, the two clocks within 1024 ms over each gap.\<close>

fun in_step :: "reading \<Rightarrow> reading list \<Rightarrow> bool" where
  "in_step r [] \<longleftrightarrow> True"
| "in_step r (r' # rs) \<longleftrightarrow>
     fst r < fst r' \<and> tick_read r \<le> tick_read r' \<and> tick_read r' + 1024 < tick_read r + 2 ^ 32 \<and>
     tick_read r' + frame_read r < tick_read r + frame_read r' + 1024 \<and>
     tick_read r + frame_read r' < tick_read r' + frame_read r + 1024 \<and> in_step r' rs"

text \<open>The completions of a stream: what each read, the bytes it reported, the FIFO's level.\<close>

definition commit_readings :: "uac_stream \<Rightarrow> (reading \<times> u32 \<times> u32) list \<Rightarrow> uac_stream" where
  "commit_readings = foldl (\<lambda>s (r, sent, level). commit s (reading_completion r sent) level)"

text \<open>The count over the naturals, and what it is.\<close>

fun counted :: "nat \<Rightarrow> reading \<Rightarrow> reading list \<Rightarrow> nat" where
  "counted m r [] = m"
| "counted m r (r' # rs) = counted (m + (frame_read r' - frame_read r) - 1) r' rs"

definition skipped :: "reading \<Rightarrow> reading list \<Rightarrow> nat" where
  "skipped r rs = fst (last (r # rs)) - fst r - length rs"

lemma lateness_bound: "lateness r \<le> 1"
  by (simp add: lateness_def split: prod.splits)

lemma frame_read_mono: "fst r < fst r' \<Longrightarrow> frame_read r \<le> frame_read r'"
  using lateness_bound [of r] by (simp add: frame_read_def)

lemma in_step_spans: "in_step r rs \<Longrightarrow> fst r + length rs \<le> fst (last (r # rs))"
proof (induction rs arbitrary: r)
  case Nil
  then show ?case by simp
next
  case (Cons r' rs)
  have "last (r # r' # rs) = last (r' # rs)" by simp
  then show ?case using Cons.IH [of r'] Cons.prems by (simp del: last.simps)
qed

lemma skipped_Cons: "in_step r (r' # rs) \<Longrightarrow> skipped r (r' # rs) = (fst r' - fst r - 1) + skipped r' rs"
  using in_step_spans [of r' rs] by (simp add: skipped_def)

lemma counted_bounds:
  "in_step r rs \<Longrightarrow>
     m + skipped r rs + lateness (last (r # rs)) \<le> counted m r rs + lateness r \<and>
     counted m r rs + lateness r \<le> max m (lateness r) + skipped r rs + lateness (last (r # rs))"
proof (induction rs arbitrary: r m)
  case Nil
  then show ?case by (simp add: skipped_def)
next
  case (Cons r' rs)
  define m' where "m' = m + (frame_read r' - frame_read r) - 1"
  have m': "m + (fst r' - fst r - 1) + lateness r' \<le> m' + lateness r"
    "max m' (lateness r') + lateness r \<le> max m (lateness r) + (fst r' - fst r - 1) + lateness r'"
    using Cons.prems lateness_bound [of r] by (auto simp: m'_def frame_read_def)
  have last: "last (r # r' # rs) = last (r' # rs)" and "in_step r' rs" using Cons.prems by simp_all
  then show ?case unfolding last counted.simps m'_def [symmetric] skipped_Cons [OF Cons.prems]
    using Cons.IH [of r' m'] m' by linarith
qed

text \<open>Before the first frame skipped, a completion is read on time.\<close>

fun on_time_before_skip :: "reading \<Rightarrow> reading list \<Rightarrow> bool" where
  "on_time_before_skip r [] \<longleftrightarrow> lateness r = 0"
| "on_time_before_skip r (r' # rs) \<longleftrightarrow> lateness r = 0 \<or> fst r' = Suc (fst r) \<and> on_time_before_skip r' rs"

lemma on_time_first: "lateness r = 0 \<Longrightarrow> on_time_before_skip r rs"
  by (cases rs) simp_all

lemma counted_from:
  assumes "in_step r rs" and "lateness r \<le> m"
  shows "counted m r rs + lateness r = m + skipped r rs + lateness (last (r # rs))"
  using counted_bounds [OF assms(1), of m] assms(2) by (simp add: max_absorb1)

lemma counted_exact:
  "in_step r rs \<Longrightarrow>
     counted 0 r rs + of_bool (\<not> on_time_before_skip r rs) = skipped r rs + lateness (last (r # rs))"
proof (induction rs arbitrary: r)
  case Nil
  then show ?case using lateness_bound [of r] by (simp add: skipped_def)
next
  case (Cons r' rs)
  have last: "last (r # r' # rs) = last (r' # rs)" and steps: "fst r < fst r'" "in_step r' rs"
    using Cons.prems by simp_all
  consider (on_time) "lateness r = 0" | (next_frame) "lateness r = 1" "fst r' = Suc (fst r)"
    | (skip) "lateness r = 1" "Suc (fst r) < fst r'"
    using lateness_bound [of r] steps(1) by linarith
  then show ?case
  proof cases
    case on_time
    then show ?thesis using counted_from [OF Cons.prems, of 0] on_time_first [of r "r' # rs"] by simp
  next
    case next_frame
    then have "frame_read r' - frame_read r - 1 = 0" using lateness_bound [of r'] by (simp add: frame_read_def)
    then show ?thesis unfolding last skipped_Cons [OF Cons.prems]
      using Cons.IH [OF steps(2)] next_frame by simp
  next
    case skip
    define m where "m = frame_read r' - frame_read r - 1"
    have m: "Suc m = (fst r' - fst r - 1) + lateness r'" "lateness r' \<le> m"
      using skip by (auto simp: m_def frame_read_def)
    have "counted 0 r (r' # rs) = counted m r' rs" by (simp add: m_def)
    then show ?thesis unfolding last skipped_Cons [OF Cons.prems]
      using counted_from [OF steps(2) m(2)] m(1) skip by simp
  qed
qed

section \<open>What a completion does to the count\<close>

definition gaps :: "uac_stream \<Rightarrow> u32 \<times> u32 \<times> u32 \<times> bool \<times> u32" where
  "gaps s = (tracker_last (interval s), last_tick (interval s), stream_missed (interval s),
     tracker_valid (interval s), missed_intervals (counters s))"

lemma gaps_steps [simp]:
  "gaps (set_stream_unprimed s u) = gaps s" "gaps (set_gap s g) = gaps s" "gaps (set_last_miss s l) = gaps s"
  "gaps (count_play_missed s e u) = gaps s" "gaps (note_progress s t) = gaps s" "gaps (note_mismatch s r c) = gaps s"
  "gaps (fst (confirm_loaded s k)) = gaps s" "gaps (apply_record s x) = gaps s" "gaps (fst (judges_for_play s e)) = gaps s"
  by (simp_all add: gaps_def set_stream_unprimed_def set_gap_def set_last_miss_def count_play_missed_def Let_def
      note_progress_def note_mismatch_def confirm_loaded_def apply_record_def judges_for_play_def)

lemma gaps_moved [simp]: "gaps (take_back_latest_gap s) = gaps s" "gaps (locate_miss s a p f) = gaps s"
  by (simp_all add: take_back_latest_gap_def locate_miss_def Let_def)

lemma gaps_retire [simp]: "gaps (retire_sent_chunks s) = gaps s"
  by (simp add: gaps_def retire_keeps)

lemma gaps_count_missed:
  assumes "gaps s = (l, t, m, v, all)"
  shows "gaps (count_missed s e g f) = (l, t, missed_after_gap m e, v, all - m + missed_after_gap m e)"
proof -
  define s1 where "s1 = s\<lparr>counters := (counters s)\<lparr>missed_intervals :=
      with_part_updated (missed_intervals (counters s)) (stream_missed (interval s)) (missed_after_gap (stream_missed (interval s)) e)\<rparr>,
    interval := (interval s)\<lparr>stream_missed := missed_after_gap (stream_missed (interval s)) e\<rparr>\<rparr>"
  have "gaps (count_missed s e g f) = gaps s1"
    by (simp add: count_missed_def Let_def s1_def [symmetric]) (simp add: gaps_def s1_def)
  also have "\<dots> = (l, t, missed_after_gap m e, v, all - m + missed_after_gap m e)"
    using assms by (auto simp: gaps_def s1_def with_part_updated_def)
  finally show ?thesis .
qed

lemma gaps_track_first:
  assumes "gaps s = (l, t, m, False, all)"
  shows "gaps (track_interval s c) = (ucast (frame_number c) AND usb_frame_number_mask, completion_tick c, 0, True, all)"
  using assms by (auto simp: track_interval_def Let_def gaps_def no_interval_def)

lemma gaps_track:
  assumes "gaps s = (l, t, m, True, all)"
    and "e = dealiased_gap (((ucast (frame_number c) AND usb_frame_number_mask) - l) AND usb_frame_number_mask) (completion_tick c - t)"
  shows "gaps (track_interval s c) =
    (l + e, completion_tick c, missed_after_gap m e, True, all - m + missed_after_gap m e)"
proof -
  define s2 where "s2 = s\<lparr>play := (play s)\<lparr>miss_unconfirmed := False\<rparr>,
    interval := (interval s)\<lparr>tracker_samples := no_samples, tracker_last := l + e, last_tick := completion_tick c\<rparr>,
    counters := (counters s)\<lparr>max_gap := max (max_gap (counters s)) e\<rparr>\<rparr>"
  have old: "tracker_valid (interval s)" "l = tracker_last (interval s)" "t = last_tick (interval s)"
    using assms(1) by (auto simp: gaps_def)
  have "gaps (track_interval s c) =
      gaps (count_missed (fst (judges_for_play s2 e)) e (tracker_samples (interval s)) (snd (judges_for_play s2 e)))"
    using old by (simp add: track_interval_def Let_def assms(2) s2_def split: prod.splits)
  also have "\<dots> = (l + e, completion_tick c, missed_after_gap m e, True, all - m + missed_after_gap m e)"
    using assms(1) by (intro gaps_count_missed, subst gaps_steps(9)) (auto simp: gaps_def s2_def)
  finally show ?thesis .
qed

lemma gaps_commit:
  assumes "stream_state (counters s) = Streaming \<or> in_flight s"
  shows "\<exists>t. gaps t = gaps s \<and> gaps (commit s c level) = gaps (track_interval t c)"
    and "stream_state (counters (commit s c level)) = Streaming"
proof -
  obtain t1 n where conf: "confirm_loaded (note_progress s (completion_tick c)) level = (t1, n)" by force
  define t2 where "t2 = note_mismatch t1 (sent_bytes c) n"
  define t3 where "t3 = t2\<lparr>counters := (counters t2)\<lparr>stream_state := Streaming, short_packets :=
    (if sent_bytes c \<noteq> packet_bytes (open_format (counters t2)) then short_packets (counters t2) + 1 else short_packets (counters t2))\<rparr>\<rparr>"
  define t4 where "t4 = track_interval t3 c"
  have t1: "t1 = fst (confirm_loaded (note_progress s (completion_tick c)) level)" using conf by simp
  have same: "stream_state (counters t2) = stream_state (counters s)"
    by (simp add: t2_def t1 confirm_loaded_def note_progress_def note_mismatch_def Let_def)
  have n: "stream_state (counters s) = Priming \<Longrightarrow> n \<noteq> 0"
    using conf assms by (auto simp: confirm_loaded_def note_progress_def Let_def uac_packet_frames_def)
  have c: "commit s c level = retire_sent_chunks (t4\<lparr>counters := (counters t4)\<lparr>frames_sent := frames_sent (counters t4) + n\<rparr>\<rparr>)"
    unfolding commit_def conf prod.case Let_def t2_def [symmetric] t4_def t3_def using n same by auto
  have "core t4 = core t3" by (simp add: t4_def)
  then have "stream_state (counters t4) = Streaming" by (simp add: core_def t3_def)
  then show "stream_state (counters (commit s c level)) = Streaming" by (simp add: c retire_keeps)
  have "gaps (commit s c level) = gaps (track_interval t3 c)"
    unfolding c gaps_retire by (simp add: gaps_def t4_def)
  moreover have "gaps t3 = gaps s"
    using gaps_steps(5,6,7) by (simp add: t3_def gaps_def) (simp add: t2_def t1 gaps_def [symmetric])
  ultimately show "\<exists>t. gaps t = gaps s \<and> gaps (commit s c level) = gaps (track_interval t c)" by blast
qed

section \<open>A stream's completions\<close>

lemma frame_number_read:
  "(ucast (of_nat (N mod 2048) :: u16) :: u32) AND usb_frame_number_mask = of_nat (N mod 2048)"
proof -
  have "(ucast (of_nat (N mod 2048) :: u16) :: u32) = of_nat (N mod 2048)"
    by (simp add: word_unat_eq_iff unat_of_nat)
  moreover have "take_bit 11 (of_nat (N mod 2048) :: u32) = of_nat (N mod 2048)"
    by (simp add: word_unat_eq_iff take_bit_eq_mod unat_mod unat_of_nat)
  ultimately show ?thesis by (simp add: frame_mask)
qed

lemma gaps_next_reading:
  assumes s: "gaps s = (of_nat (frame_read r - B), of_nat (tick_read r), of_nat m, True, all + of_nat m)"
    and B: "B \<le> frame_read r" "2048 dvd B" and state: "stream_state (counters s) = Streaming"
    and step: "in_step r (r' # rs)" and small: "m + (frame_read r' - frame_read r) < 2 ^ 32"
  defines "m' \<equiv> m + (frame_read r' - frame_read r) - 1"
  shows "gaps (commit s (reading_completion r' sent) level) =
    (of_nat (frame_read r' - B), of_nat (tick_read r'), of_nat m', True, all + of_nat m')"
proof -
  let ?c = "reading_completion r' sent" and ?g = "frame_read r' - frame_read r"
  have mono: "frame_read r \<le> frame_read r'" using step by (simp add: frame_read_mono)
  obtain t where t: "gaps t = gaps s" "gaps (commit s ?c level) = gaps (track_interval t ?c)"
    using gaps_commit(1) [of s ?c level] state by blast
  have "(of_nat (tick_read r') - of_nat (tick_read r) :: u32) = of_nat (tick_read r' - tick_read r)"
    using step by (simp add: of_nat_diff)
  moreover have "tick_read r' - tick_read r < ?g + 1024" "?g < tick_read r' - tick_read r + 1024"
    "tick_read r' - tick_read r + 1024 < 2 ^ 32"
    using step mono unfolding in_step.simps by linarith+
  ultimately have "dealiased_gap (((ucast (frame_number ?c) AND usb_frame_number_mask) - of_nat (frame_read r - B)) AND usb_frame_number_mask)
      (completion_tick ?c - of_nat (tick_read r)) = of_nat ?g"
    using aliased_gap [OF mono B] dealiased_exact [of "tick_read r' - tick_read r" ?g]
    by (simp add: reading_completion_def frame_number_read)
  from gaps_track [OF _ this [symmetric], of t "of_nat m" "all + of_nat m"] t s
  have "gaps (commit s ?c level) = (of_nat (frame_read r - B) + of_nat ?g, of_nat (tick_read r'),
      missed_after_gap (of_nat m) (of_nat ?g), True, all + missed_after_gap (of_nat m) (of_nat ?g))"
    by (simp add: reading_completion_def)
  moreover have "of_nat (frame_read r - B) + of_nat ?g = (of_nat (frame_read r' - B) :: u32)"
    using mono B(1) by (simp flip: of_nat_add)
  ultimately show ?thesis using missed_after_gap_nat [OF small] by (simp add: m'_def)
qed

lemma gaps_readings:
  "gaps s = (of_nat (frame_read r - B), of_nat (tick_read r), of_nat m, True, all + of_nat m) \<Longrightarrow>
   B \<le> frame_read r \<Longrightarrow> 2048 dvd B \<Longrightarrow> stream_state (counters s) = Streaming \<Longrightarrow>
   in_step r (map fst rs) \<Longrightarrow> m + (fst (last (r # map fst rs)) - fst r) + 1 < 2 ^ 32 \<Longrightarrow>
   gaps (commit_readings s rs) =
     (of_nat (frame_read (last (r # map fst rs)) - B), of_nat (tick_read (last (r # map fst rs))),
      of_nat (counted m r (map fst rs)), True, all + of_nat (counted m r (map fst rs))) \<and>
   counted m r (map fst rs) < 2 ^ 32"
proof (induction rs arbitrary: s r m)
  case Nil
  then show ?case by (simp add: commit_readings_def)
next
  case (Cons x rs)
  obtain r' sent level where x: "x = (r', sent, level)" by (metis prod_cases3)
  let ?m = "m + (frame_read r' - frame_read r) - 1" and ?l = "fst (last (r' # map fst rs))"
  have last: "last (r # map fst (x # rs)) = last (r' # map fst rs)" by (simp add: x)
  have steps: "in_step r (r' # map fst rs)" and tail: "in_step r' (map fst rs)" and less: "fst r < fst r'"
    using Cons.prems(5) unfolding x by simp_all
  have budget: "m + (?l - fst r) + 1 < 2 ^ 32" using Cons.prems(6) unfolding last .
  have le: "fst r' \<le> ?l" using in_step_spans [OF tail] by linarith
  have gap: "frame_read r' - frame_read r \<le> fst r' - fst r + 1"
    using lateness_bound [of r'] less by (simp add: frame_read_def)
  have "m + (frame_read r' - frame_read r) < 2 ^ 32" using budget gap le less by linarith
  from gaps_next_reading [OF Cons.prems(1-4) steps this]
  have next_gaps: "gaps (commit s (reading_completion r' sent) level) =
      (of_nat (frame_read r' - B), of_nat (tick_read r'), of_nat ?m, True, all + of_nat ?m)" .
  have B: "B \<le> frame_read r'" using Cons.prems(2) frame_read_mono [OF less] by linarith
  have state: "stream_state (counters (commit s (reading_completion r' sent) level)) = Streaming"
    by (rule gaps_commit(2)) (simp add: Cons.prems(4))
  have small: "?m + (?l - fst r') + 1 < 2 ^ 32" using budget gap le less by linarith
  show ?case using Cons.IH [OF next_gaps B Cons.prems(3) state tail small]
    unfolding last by (simp add: x commit_readings_def del: last.simps)
qed

text \<open>
  C13. A stream's data completions, read by the interrupt at most one frame late and with the
  two clocks within 1024 ms over each gap, however long: the extended frame number has advanced
  by exactly the frames from the first reading to the last. The stream's missed intervals are
  exactly the frames in which no packet was taken, plus one while the latest completion was read
  late, less one when no completion before the first such frame was read on time (the first one
  being late, what it hides is never made up for). The count since boot has moved with it.
\<close>

theorem missed_intervals_exact:
  assumes "in_step r (map fst rs)" and "stream_state (counters s) = Streaming \<or> in_flight s"
    and "\<not> tracker_valid (interval s)" and "fst (last (r # map fst rs)) - fst r + 1 < 2 ^ 32"
  shows "let t = commit_readings s ((r, sent, level) # rs); final = last (r # map fst rs);
             missed = unat (stream_missed (interval t)) in
    tracker_last (interval t) = of_nat (frame_read r mod 2048 + (frame_read final - frame_read r)) \<and>
    missed_intervals (counters t) = missed_intervals (counters s) + stream_missed (interval t) \<and>
    missed + of_bool (\<not> on_time_before_skip r (map fst rs)) = skipped r (map fst rs) + lateness final"
proof -
  define B where "B = 2048 * (frame_read r div 2048)"
  define s1 where "s1 = commit s (reading_completion r sent) level"
  have B: "B \<le> frame_read r" "2048 dvd B" and r: "frame_read r mod 2048 = frame_read r - B"
    by (simp_all add: B_def minus_mult_div_eq_mod)
  obtain t where "gaps t = gaps s" "gaps s1 = gaps (track_interval t (reading_completion r sent))"
    using gaps_commit(1) [OF assms(2)] by (metis s1_def)
  moreover obtain l k m where "gaps s = (l, k, m, False, missed_intervals (counters s))"
    using assms(3) by (simp add: gaps_def)
  ultimately have s1: "gaps s1 = (of_nat (frame_read r - B), of_nat (tick_read r), of_nat 0, True,
      missed_intervals (counters s) + of_nat 0)"
    using gaps_track_first [of t l k m "missed_intervals (counters s)" "reading_completion r sent"]
    by (simp add: reading_completion_def frame_number_read [of "frame_read r", unfolded r] r)
  have "stream_state (counters s1) = Streaming" using gaps_commit(2) [OF assms(2)] by (simp add: s1_def)
  note run = gaps_readings [OF s1 B this assms(1)]
  have t: "commit_readings s ((r, sent, level) # rs) = commit_readings s1 rs"
    by (simp add: commit_readings_def s1_def)
  have final: "frame_read r \<le> frame_read (last (r # map fst rs))"
    using assms(1) in_step_spans [OF assms(1)] frame_read_mono [of r "last (r # map fst rs)"]
    by (cases rs) (auto simp: not_less)
  show ?thesis using run assms(4) counted_exact [OF assms(1)] final B r
    by (simp add: Let_def t gaps_def del: last.simps)
qed

text \<open>On time at first, one frame skipped, then 4157 frames and a late reading; and a first reading
  late, where the one frame skipped after it is not counted.\<close>

lemma missed_intervals_exact_witness:
  "stream_missed (interval (commit_readings (stream_at_boot\<lparr>in_flight := True\<rparr>)
     [((2040, False, 0), 0, 0), ((2042, False, 1), 0, 0), ((6200, True, 4160), 0, 0)])) = 4159 \<and>
   stream_missed (interval (commit_readings (stream_at_boot\<lparr>in_flight := True\<rparr>)
     [((0, True, 0), 0, 0), ((2, False, 1), 0, 0)])) = 0"
proof -
  let ?s = "stream_at_boot\<lparr>in_flight := True\<rparr>" and ?rs = "[((2042, False, 1), 0, 0), ((6200, True, 4160), 0 :: u32, 0 :: u32)]"
  let ?r = "(2040, False, 0) :: reading" and ?q = "(0, True, 0) :: reading" and ?qs = "[((2, False, 1), 0 :: u32, 0 :: u32)]"
  have valid: "\<not> tracker_valid (interval ?s)" by (simp add: stream_at_boot_def no_interval_def)
  have "in_step ?r (map fst ?rs)" "in_step ?q (map fst ?qs)" by (simp_all add: frame_read_def lateness_def tick_read_def)
  moreover have "fst (last (?r # map fst ?rs)) - fst ?r + 1 < 2 ^ 32" "fst (last (?q # map fst ?qs)) - fst ?q + 1 < 2 ^ 32" by simp_all
  ultimately have "unat (stream_missed (interval (commit_readings ?s ((?r, 0, 0) # ?rs)))) = 4159"
    "unat (stream_missed (interval (commit_readings ?s ((?q, 0, 0) # ?qs)))) = 0"
    using missed_intervals_exact [of ?r ?rs ?s 0 0] missed_intervals_exact [of ?q ?qs ?s 0 0] valid
    by (auto simp: Let_def skipped_def lateness_def)
  then show ?thesis by (simp add: word_unat_eq_iff)
qed

end
