(* ===== verification/UacControls.thy ===== *)
theory UacControls
  imports UacStream
begin

text \<open>
  The USB audio function's control requests (\<^verbatim>\<open>UacControls\<close>), its record of the stack's failed
  assertions (\<^verbatim>\<open>StackAssertLog\<close>) and the C entry points of \<^verbatim>\<open>rt1170/usb_audio.cpp\<close>. A
  volume is the 16-bit word of its signed value. The firmware's one stream and one set of
  controls are arguments.
\<close>

section \<open>Requests and answers\<close>

record control_request =
  request_code :: u8
  entity :: u8
  selector :: u8
  channel :: u8

record control_response =
  response_bytes :: bytes
  response_length :: u32

record host_settings =
  volume :: u16
  muted :: bool

definition sample_rate_hz :: u32 where "sample_rate_hz = 48000"
definition request_cur :: u8 where "request_cur = 1"
definition request_range :: u8 where "request_range = 2"
definition clock_source :: u8 where "clock_source = 4"
definition feature_unit :: u8 where "feature_unit = 2"
definition clock_frequency :: u8 where "clock_frequency = 1"
definition clock_validity :: u8 where "clock_validity = 2"
definition feature_mute :: u8 where "feature_mute = 1"
definition feature_volume :: u8 where "feature_volume = 2"
definition master_channel :: u8 where "master_channel = 0"
definition mute_off :: u8 where "mute_off = 0"
definition mute_on :: u8 where "mute_on = 1"
definition clock_is_valid :: u8 where "clock_is_valid = 1"
definition one_subrange :: u16 where "one_subrange = 1"
definition fixed_rate_resolution_hz :: u32 where "fixed_rate_resolution_hz = 0"
definition volume_min :: u16 where "volume_min = - 25600"
definition volume_max :: u16 where "volume_max = 0"
definition volume_resolution :: u16 where "volume_resolution = 256"
definition control_response_capacity :: nat where "control_response_capacity = 14"

definition fresh_settings :: host_settings where
  "fresh_settings = \<lparr>volume = volume_max, muted = False\<rparr>"

definition request_unsupported :: status where
  [status_defs]: "request_unsupported = \<lparr>code = Invalid_argument, message = ''UAC2 request not supported''\<rparr>"
definition rejected_value :: status where
  [status_defs]: "rejected_value = \<lparr>code = Invalid_argument, message = ''UAC2 value rejected''\<rparr>"

definition make_response :: "bytes \<Rightarrow> control_response" where
  "make_response payload =
     \<lparr>response_bytes = payload @ replicate (control_response_capacity - length payload) 0,
      response_length = of_nat (length payload)\<rparr>"

definition sample_rate_cur :: control_response where
  "sample_rate_cur = make_response (le_bytes32 sample_rate_hz)"
definition sample_rate_range :: control_response where
  "sample_rate_range = make_response
     (le_bytes16 one_subrange @ le_bytes32 sample_rate_hz @ le_bytes32 sample_rate_hz @ le_bytes32 fixed_rate_resolution_hz)"
definition clock_valid_cur :: control_response where
  "clock_valid_cur = make_response [clock_is_valid]"
definition volume_range :: control_response where
  "volume_range = make_response
     (le_bytes16 one_subrange @ le_bytes16 volume_min @ le_bytes16 volume_max @ le_bytes16 volume_resolution)"

definition from_le_bytes8 :: "bytes \<Rightarrow> u8 result" where
  "from_le_bytes8 data = (if length data \<noteq> 1 then Inl rejected_value else Inr (data ! 0))"

definition from_le_bytes16 :: "bytes \<Rightarrow> u16 result" where
  "from_le_bytes16 data =
     (if length data \<noteq> 2 then Inl rejected_value
      else Inr (ucast (data ! 0) OR push_bit 8 (ucast (data ! 1))))"

definition from_le_bytes32 :: "bytes \<Rightarrow> u32 result" where
  "from_le_bytes32 data =
     (if length data \<noteq> 4 then Inl rejected_value
      else Inr (ucast (data ! 0) OR push_bit 8 (ucast (data ! 1)) OR push_bit 16 (ucast (data ! 2)) OR
        push_bit 24 (ucast (data ! 3))))"

section \<open>Requests\<close>

definition is_cur :: "control_request \<Rightarrow> u8 \<Rightarrow> bool" where
  "is_cur r s \<longleftrightarrow> selector r = s \<and> request_code r = request_cur"

definition is_range :: "control_request \<Rightarrow> u8 \<Rightarrow> bool" where
  "is_range r s \<longleftrightarrow> selector r = s \<and> request_code r = request_range"

definition clock_get :: "control_request \<Rightarrow> control_response result" where
  "clock_get r =
     (if is_cur r clock_frequency then Inr sample_rate_cur
      else if is_range r clock_frequency then Inr sample_rate_range
      else if is_cur r clock_validity then Inr clock_valid_cur
      else Inl request_unsupported)"

definition feature_get :: "control_request \<Rightarrow> host_settings \<Rightarrow> control_response result" where
  "feature_get r settings =
     (if is_cur r feature_mute then Inr (make_response [if muted settings then mute_on else mute_off])
      else if is_cur r feature_volume then Inr (make_response (le_bytes16 (volume settings)))
      else if is_range r feature_volume then Inr volume_range
      else Inl request_unsupported)"

definition check_sample_rate :: "bytes \<Rightarrow> status" where
  "check_sample_rate data =
     (case from_le_bytes32 data of
        Inl e \<Rightarrow> rejected_value
      | Inr rate \<Rightarrow> if rate = sample_rate_hz then success else rejected_value)"

definition store_mute :: "bytes \<Rightarrow> host_settings \<Rightarrow> host_settings \<times> status" where
  "store_mute data settings =
     (case from_le_bytes8 data of
        Inl e \<Rightarrow> (settings, rejected_value)
      | Inr mute \<Rightarrow>
          if mute > mute_on then (settings, rejected_value)
          else (settings\<lparr>muted := mute = mute_on\<rparr>, success))"

definition store_volume :: "bytes \<Rightarrow> host_settings \<Rightarrow> host_settings \<times> status" where
  "store_volume data settings =
     (case from_le_bytes16 data of
        Inl e \<Rightarrow> (settings, rejected_value)
      | Inr v \<Rightarrow>
          if sint v < sint volume_min \<or> sint v > sint volume_max then (settings, rejected_value)
          else (settings\<lparr>volume := v\<rparr>, success))"

definition controls_get :: "host_settings \<Rightarrow> control_request \<Rightarrow> control_response result" where
  "controls_get settings r =
     (if channel r \<noteq> master_channel then Inl request_unsupported
      else if entity r = clock_source then clock_get r
      else if entity r = feature_unit then feature_get r settings
      else Inl request_unsupported)"

definition controls_set :: "host_settings \<Rightarrow> control_request \<Rightarrow> bytes \<Rightarrow> host_settings \<times> status" where
  "controls_set settings r data =
     (if request_code r \<noteq> request_cur \<or> channel r \<noteq> master_channel then (settings, request_unsupported)
      else if entity r = clock_source \<and> selector r = clock_frequency then (settings, check_sample_rate data)
      else if entity r = feature_unit \<and> selector r = feature_mute then store_mute data settings
      else if entity r = feature_unit \<and> selector r = feature_volume then store_volume data settings
      else (settings, request_unsupported))"

section \<open>The stack's assertions\<close>

record stack_asserts =
  assert_count :: u32
  first_pc :: u32
  last_pc :: u32
  assert_frame_index :: u32
  assert_tick :: u32

definition no_asserts :: stack_asserts where
  "no_asserts = \<lparr>assert_count = 0, first_pc = 0, last_pc = 0, assert_frame_index = 0, assert_tick = 0\<rparr>"

definition thumb_state_bit :: u32 where "thumb_state_bit = 1"
definition thumb_halfword_bytes :: u32 where "thumb_halfword_bytes = 2"

definition call_site :: "u32 \<Rightarrow> u32" where
  "call_site return_address = (return_address AND NOT thumb_state_bit) - thumb_halfword_bytes"

definition record_assert :: "stack_asserts \<Rightarrow> u32 \<Rightarrow> u32 \<Rightarrow> u32 \<Rightarrow> stack_asserts" where
  "record_assert log pc frame_index tick =
     (let l1 = (if assert_count log = 0 then log\<lparr>first_pc := pc\<rparr> else log);
          l2 = (if assert_count l1 \<noteq> - 1 then l1\<lparr>assert_count := assert_count l1 + 1\<rparr> else l1)
      in l2\<lparr>last_pc := pc, assert_frame_index := frame_index, assert_tick := tick\<rparr>)"

definition count_stack_assert :: "uac_stream \<Rightarrow> stack_asserts \<Rightarrow> u32 \<Rightarrow> u32 \<Rightarrow> stack_asserts" where
  "count_stack_assert stream log return_address tick =
     record_assert log (call_site return_address) (frames_sent (counters stream)) tick"

section \<open>The C entry points\<close>

datatype request_result = Request_accepted | Request_stall

record uac_response =
  answer_result :: request_result
  answer_length :: u16
  answer_bytes :: bytes

definition in_write_length :: "bytes \<Rightarrow> u16" where
  "in_write_length packet = of_nat (min (length packet) max_packet_byte_count)"

definition to_in_transfer :: "bool \<Rightarrow> in_transfer" where
  "to_in_transfer transfer_primed = (if transfer_primed then Primed else Unprimed)"

definition c_length :: "u32 \<Rightarrow> u16" where
  "c_length n = ucast (min n (of_nat control_response_capacity))"

definition get_request :: "host_settings \<Rightarrow> control_request \<Rightarrow> uac_response" where
  "get_request settings r =
     (case controls_get settings r of
        Inl e \<Rightarrow> \<lparr>answer_result = Request_stall, answer_length = 0, answer_bytes = replicate control_response_capacity 0\<rparr>
      | Inr response \<Rightarrow> \<lparr>answer_result = Request_accepted, answer_length = c_length (response_length response),
                         answer_bytes = response_bytes response\<rparr>)"

definition set_request :: "host_settings \<Rightarrow> control_request \<Rightarrow> bytes \<Rightarrow> host_settings \<times> request_result" where
  "set_request settings r payload =
     (case controls_set settings r payload of
        (settings', st) \<Rightarrow> (settings', if is_ok st then Request_accepted else Request_stall))"

definition open_alternate :: "bool \<Rightarrow> 'q in_fifo \<Rightarrow> uac_stream \<Rightarrow> 'q \<Rightarrow> u8 \<Rightarrow> uac_stream \<times> 'q \<times> request_result" where
  "open_alternate mono_alternate fifo s q alternate_number =
     (case offered_format mono_alternate (ucast alternate_number) of
        Inl e \<Rightarrow> (s, q, Request_stall)
      | Inr f \<Rightarrow>
          (case open_stream fifo s q f of
             (s', q', st) \<Rightarrow> (s', q', if is_ok st then Request_accepted else Request_stall)))"

definition tx_done :: "'q in_fifo \<Rightarrow> 'p frame_source \<Rightarrow> uac_stream \<Rightarrow> 'q \<Rightarrow> 'p \<Rightarrow> u16 \<Rightarrow> u16 \<Rightarrow> u32 \<Rightarrow> uac_stream \<times> 'q \<times> 'p" where
  "tx_done fifo player s q p bytes_sent number tick =
     on_tx_done fifo player s q p \<lparr>sent_bytes = ucast bytes_sent, frame_number = number, completion_tick = tick\<rparr>"

definition watchdog_expired :: "uac_stream \<Rightarrow> bool \<Rightarrow> uac_stream" where
  "watchdog_expired s transfer_primed = on_watchdog s (to_in_transfer transfer_primed)"

section \<open>What the host sets it gets back\<close>

lemma byte_of_le_word:
  assumes "length bs \<le> 4" and "k < length bs"
  shows "byte_of k (le_word bs) = bs ! k"
proof (rule bit_word_eqI)
  fix n assume "n < LENGTH(8)"
  then have "(8 * k + n) div 8 = k" "(8 * k + n) mod 8 = n" by simp_all
  then show "bit (byte_of k (le_word bs)) n = bit (bs ! k) n"
    using assms \<open>n < LENGTH(8)\<close> by (simp add: bit_byte_of bit_le_word)
qed

lemma from_le_bytes16_iff: "from_le_bytes16 data = Inr v \<longleftrightarrow> data = le_bytes16 v"
proof
  assume "from_le_bytes16 data = Inr v"
  then obtain b0 b1 where data: "data = [b0, b1]" and v: "v = ucast b0 OR push_bit 8 (ucast b1)"
    by (auto simp: from_le_bytes16_def numeral_2_eq_2 length_Suc_conv split: if_splits)
  have "byte_of 0 v = b0" "byte_of (Suc 0) v = b1"
    unfolding v by (rule bit_word_eqI, auto simp: bit_byte_of bit_simps dest: bit_imp_le_length)+
  then show "data = le_bytes16 v" by (simp add: data le_bytes16_def)
next
  assume "data = le_bytes16 v"
  then show "from_le_bytes16 data = Inr v" using le16_bytes [of v] by (simp add: from_le_bytes16_def le_bytes16_def)
qed

lemma from_le_bytes32_iff: "from_le_bytes32 data = Inr v \<longleftrightarrow> data = le_bytes32 v"
proof
  assume r: "from_le_bytes32 data = Inr v"
  then have "length data = 4" by (auto simp: from_le_bytes32_def split: if_splits)
  then obtain b0 b1 b2 b3 where data: "data = [b0, b1, b2, b3]" by (auto simp: eval_nat_numeral length_Suc_conv)
  have "v = le_word data" using r unfolding data
    by (auto simp: from_le_bytes32_def intro!: bit_word_eqI) (auto simp: bit_simps dest: bit_imp_le_length)
  moreover have "byte_of 0 (le_word data) = data ! 0" "byte_of 1 (le_word data) = data ! 1"
    "byte_of 2 (le_word data) = data ! 2" "byte_of 3 (le_word data) = data ! 3"
    using \<open>length data = 4\<close> by (simp_all add: byte_of_le_word)
  ultimately have "le_bytes32 v = [data ! 0, data ! 1, data ! 2, data ! 3]" by (simp only: le_bytes32_def)
  then show "data = le_bytes32 v" by (simp add: data)
next
  assume "data = le_bytes32 v"
  then show "from_le_bytes32 data = Inr v" using le32_bytes [of v]
    by (simp add: from_le_bytes32_def le_bytes32_def numeral_3_eq_3 numeral_2_eq_2)
qed

lemma from_le_bytes_cases:
  "(\<exists>v. from_le_bytes16 data = Inr v \<and> data = le_bytes16 v) \<or>
     from_le_bytes16 data = Inl rejected_value \<and> (\<forall>v. data \<noteq> le_bytes16 v)"
  using from_le_bytes16_iff [of data] by (cases "from_le_bytes16 data") (auto simp: from_le_bytes16_def split: if_splits)

text \<open>What a SET accepts.\<close>

definition acceptable :: "control_request \<Rightarrow> bytes \<Rightarrow> bool" where
  "acceptable r data \<longleftrightarrow> request_code r = request_cur \<and> channel r = master_channel \<and>
     (entity r = clock_source \<and> selector r = clock_frequency \<and> data = le_bytes32 sample_rate_hz \<or>
      entity r = feature_unit \<and> selector r = feature_mute \<and> (data = [mute_off] \<or> data = [mute_on]) \<or>
      entity r = feature_unit \<and> selector r = feature_volume \<and>
        (\<exists>v. data = le_bytes16 v \<and> - 25600 \<le> sint v \<and> sint v \<le> 0))"

lemmas control_constants = request_cur_def request_range_def clock_source_def feature_unit_def clock_frequency_def
  clock_validity_def feature_mute_def feature_volume_def master_channel_def

lemma refusals [simp]: "\<not> is_ok rejected_value" "\<not> is_ok request_unsupported"
  by (simp_all add: is_ok_def status_defs)

lemma check_sample_rate_iff: "is_ok (check_sample_rate data) \<longleftrightarrow> data = le_bytes32 sample_rate_hz"
proof -
  have "is_ok (check_sample_rate data) \<longleftrightarrow> from_le_bytes32 data = Inr sample_rate_hz"
    by (auto simp: check_sample_rate_def split: sum.splits)
  then show ?thesis by (simp add: from_le_bytes32_iff)
qed

lemma store_mute_iff:
  "is_ok (snd (store_mute data s)) \<longleftrightarrow> data = [mute_off] \<or> data = [mute_on]"
  "is_ok (snd (store_mute data s)) \<Longrightarrow> data = [if muted (fst (store_mute data s)) then mute_on else mute_off]"
  "\<not> is_ok (snd (store_mute data s)) \<Longrightarrow> fst (store_mute data s) = s"
proof -
  have small: "m = 0 \<or> m = 1" if "m \<le> 1" for m :: u8
    using that by (metis word_le_nat_alt unat_1 unat_0 le_Suc_eq le_0_eq One_nat_def word_unat_eq_iff)
  show "is_ok (snd (store_mute data s)) \<longleftrightarrow> data = [mute_off] \<or> data = [mute_on]"
    "is_ok (snd (store_mute data s)) \<Longrightarrow> data = [if muted (fst (store_mute data s)) then mute_on else mute_off]"
    "\<not> is_ok (snd (store_mute data s)) \<Longrightarrow> fst (store_mute data s) = s"
    by (auto dest: small simp: store_mute_def from_le_bytes8_def mute_on_def mute_off_def
        length_Suc_conv not_less split: sum.splits if_splits)
qed

lemma store_volume_iff:
  "is_ok (snd (store_volume data s)) \<longleftrightarrow> (\<exists>v. data = le_bytes16 v \<and> - 25600 \<le> sint v \<and> sint v \<le> 0)"
  "is_ok (snd (store_volume data s)) \<Longrightarrow> data = le_bytes16 (volume (fst (store_volume data s)))"
  "\<not> is_ok (snd (store_volume data s)) \<Longrightarrow> fst (store_volume data s) = s"
proof -
  have inj: "le_bytes16 u = le_bytes16 v \<longleftrightarrow> u = v" for u v by (metis from_le_bytes16_iff sum.inject(2))
  have "sint volume_min = - 25600" "sint volume_max = 0" by (simp_all add: volume_min_def volume_max_def)
  then show "is_ok (snd (store_volume data s)) \<longleftrightarrow> (\<exists>v. data = le_bytes16 v \<and> - 25600 \<le> sint v \<and> sint v \<le> 0)"
    "is_ok (snd (store_volume data s)) \<Longrightarrow> data = le_bytes16 (volume (fst (store_volume data s)))"
    "\<not> is_ok (snd (store_volume data s)) \<Longrightarrow> fst (store_volume data s) = s"
    using from_le_bytes_cases [of data] inj
    by (auto simp: store_volume_def split: sum.splits if_splits)
qed

lemma short_answer:
  assumes "controls_get s r = Inr (make_response data)" and "length data \<le> 4"
  shows "get_request s r = \<lparr>answer_result = Request_accepted, answer_length = of_nat (length data),
    answer_bytes = data @ replicate (control_response_capacity - length data) 0\<rparr>"
proof -
  have "length data = 0 \<or> length data = 1 \<or> length data = 2 \<or> length data = 3 \<or> length data = 4" using assms(2) by linarith
  then have "c_length (of_nat (length data)) = of_nat (length data)"
    by (auto simp: c_length_def control_response_capacity_def)
  then show ?thesis using assms(1) by (simp add: get_request_def make_response_def)
qed

text \<open>The kinds of SET: of the clock, the mute, the volume, and those the function does not have.\<close>

lemma set_cases:
  obtains (clock) "request_code r = request_cur" "channel r = master_channel" "entity r = clock_source" "selector r = clock_frequency"
    | (mute) "request_code r = request_cur" "channel r = master_channel" "entity r = feature_unit" "selector r = feature_mute"
    | (vol) "request_code r = request_cur" "channel r = master_channel" "entity r = feature_unit" "selector r = feature_volume"
    | (none) "controls_set s r data = (s, request_unsupported)" "\<not> acceptable r data"
  by atomize_elim (auto simp: controls_set_def acceptable_def)

lemma accepted_iff: "is_ok (snd (controls_set s r data)) \<longleftrightarrow> acceptable r data"
proof (cases rule: set_cases [where r = r and s = s and data = data])
  case clock
  then show ?thesis using check_sample_rate_iff [of data] by (auto simp: controls_set_def acceptable_def control_constants)
next
  case mute
  then show ?thesis using store_mute_iff(1) [of data s] by (auto simp: controls_set_def acceptable_def control_constants)
next
  case vol
  then show ?thesis using store_volume_iff(1) [of data s] by (auto simp: controls_set_def acceptable_def control_constants)
qed simp

lemma set_reads_back:
  assumes "is_ok (snd (controls_set s r data))"
  shows "controls_get (fst (controls_set s r data)) r = Inr (make_response data) \<and> length data \<le> 4"
proof (cases rule: set_cases [where r = r and s = s and data = data])
  case clock
  then have set: "controls_set s r data = (s, check_sample_rate data)" by (simp add: controls_set_def)
  then have "data = le_bytes32 sample_rate_hz" using assms check_sample_rate_iff [of data] by simp
  then show ?thesis using clock set by (simp add: controls_get_def clock_get_def is_cur_def sample_rate_cur_def)
next
  case mute
  then have set: "controls_set s r data = store_mute data s" by (simp add: controls_set_def control_constants)
  then have data: "data = [if muted (fst (controls_set s r data)) then mute_on else mute_off]"
    using store_mute_iff(2) [of data s] assms by simp
  then have "length data = length [if muted (fst (controls_set s r data)) then mute_on else mute_off]" by (rule arg_cong)
  then have "length data \<le> 4" by simp
  then show ?thesis using mute data by (simp add: controls_get_def feature_get_def is_cur_def control_constants)
next
  case vol
  then have set: "controls_set s r data = store_volume data s" by (simp add: controls_set_def control_constants)
  then have data: "data = le_bytes16 (volume (fst (controls_set s r data)))"
    using store_volume_iff(2) [of data s] assms by simp
  then have "length data = length (le_bytes16 (volume (fst (controls_set s r data))))" by (rule arg_cong)
  then have "length data \<le> 4" by simp
  then show ?thesis using vol data by (simp add: controls_get_def feature_get_def is_cur_def control_constants)
next
  case none
  then show ?thesis using assms by simp
qed

lemma set_refused:
  assumes "\<not> is_ok (snd (controls_set s r data))"
  shows "fst (controls_set s r data) = s"
  using assms store_mute_iff(3) [of data s] store_volume_iff(3) [of data s]
  by (auto simp: controls_set_def split: if_splits)

lemma set_leaves_others:
  assumes "(entity other, selector other) \<noteq> (entity r, selector r)"
  shows "get_request (fst (controls_set s r data)) other = get_request s other"
proof -
  have "volume (fst (store_mute data s)) = volume s" "muted (fst (store_volume data s)) = muted s"
    by (simp_all add: store_mute_def store_volume_def split: sum.splits)
  then show ?thesis using assms
    by (auto simp: controls_set_def get_request_def controls_get_def feature_get_def is_cur_def is_range_def)
qed

text \<open>
  C36. Whatever the host has set before: a SET is accepted exactly when it names the rate the
  clock has, a mute of 0 or 1, or a volume from -100 dB to 0 dB, in that control's bytes on the
  master channel; the GET of the same control then answers exactly those bytes, no other
  control's answer changes, and a refused SET changes nothing.
\<close>

theorem accepted_settings_read_back:
  "case set_request s r data of (s', answer) \<Rightarrow>
     (answer = Request_accepted \<longleftrightarrow> acceptable r data) \<and>
     (answer = Request_accepted \<longrightarrow> get_request s' r =
        \<lparr>answer_result = Request_accepted, answer_length = of_nat (length data),
         answer_bytes = data @ replicate (control_response_capacity - length data) 0\<rparr>) \<and>
     (answer = Request_stall \<longrightarrow> s' = s) \<and>
     (\<forall>other. (entity other, selector other) \<noteq> (entity r, selector r) \<longrightarrow> get_request s' other = get_request s other)"
proof -
  obtain s' st where set: "controls_set s r data = (s', st)" by force
  show ?thesis
    using accepted_iff [of s r data] set_reads_back [of s r data] set_refused [of s r data]
      set_leaves_others [where r = r and s = s and data = data] short_answer [of s' r data]
    by (auto simp: set_request_def set)
qed

lemma accepted_settings_read_back_witness:
  "snd (set_request fresh_settings \<lparr>request_code = 1, entity = 2, selector = 2, channel = 0\<rparr> [0, 0xF6]) = Request_accepted \<and>
   answer_bytes (get_request (fst (set_request fresh_settings \<lparr>request_code = 1, entity = 2, selector = 2, channel = 0\<rparr> [0, 0xF6]))
     \<lparr>request_code = 1, entity = 2, selector = 2, channel = 0\<rparr>) = [0, 0xF6] @ replicate 12 0"
proof -
  let ?r = "\<lparr>request_code = 1, entity = 2, selector = 2, channel = 0\<rparr>"
  have "[0, 0xF6] = le_bytes16 (- 2560)" by (simp add: le_bytes16_def byte_of_def)
  moreover have "sint (- 2560 :: u16) = - 2560" by simp
  ultimately have "acceptable ?r [0, 0xF6]" by (auto simp: acceptable_def control_constants intro!: exI [of _ "- 2560"])
  then show ?thesis using accepted_settings_read_back [where s = fresh_settings and r = ?r and data = "[0, 0xF6]"]
    by (auto simp: control_response_capacity_def split: prod.splits)
qed

text \<open>The count of failed assertions stays at its maximum; the first one's place is kept.\<close>

lemma asserts_counted:
  "unat (assert_count (foldl (\<lambda>l (pc, i, t). record_assert l pc i t) no_asserts xs)) = min (length xs) (2 ^ 32 - 1) \<and>
   (xs \<noteq> [] \<longrightarrow> first_pc (foldl (\<lambda>l (pc, i, t). record_assert l pc i t) no_asserts xs) = fst (hd xs) \<and>
     last_pc (foldl (\<lambda>l (pc, i, t). record_assert l pc i t) no_asserts xs) = fst (last xs))"
proof (induction xs rule: rev_induct)
  case Nil
  then show ?case by (simp add: no_asserts_def)
next
  case (snoc x xs)
  obtain pc i t where x: "x = (pc, i, t)" by (metis prod_cases3)
  define l where "l = foldl (\<lambda>l (pc, i, t). record_assert l pc i t) no_asserts xs"
  have ih: "xs \<noteq> [] \<Longrightarrow> first_pc l = fst (hd xs)" using snoc by (simp add: l_def)
  have count: "unat (assert_count l) = min (length xs) (2 ^ 32 - 1)" using snoc by (simp add: l_def)
  have zero: "assert_count l = 0 \<longleftrightarrow> xs = []" using count by (auto simp: word_unat_eq_iff min_def split: if_splits)
  have full: "assert_count l = - 1 \<longleftrightarrow> 2 ^ 32 - 1 \<le> length xs"
    using count by (auto simp: word_unat_eq_iff unsigned_minus_1_eq_mask mask_eq_exp_minus_1)
  have "unat (assert_count l + 1) = unat (assert_count l) + 1" if "\<not> 2 ^ 32 - 1 \<le> length xs"
    using that count by (subst unat_add_exact) auto
  then show ?case using ih count zero full unfolding x foldl_append
    by (auto simp: l_def [symmetric] record_assert_def Let_def hd_append)
qed

end
