(* ===== verification/TxProtocol.thy ===== *)
theory TxProtocol
  imports Status
begin

text \<open>
  \<^verbatim>\<open>common/tx_protocol.hpp\<close> and \<^verbatim>\<open>.cpp\<close>: the requests of the transmit link and the parser of
  its commands. A character array that holds a C string is the string; the text so far of a
  command is a string, its length \<^verbatim>\<open>size_\<close>.
\<close>

section \<open>Requests\<close>

datatype request_kind = Kind_data | Kind_mode | Kind_send | Kind_reset | Kind_select | Kind_info | Kind_query
  | Kind_generate_file

definition maximum_payload :: nat where "maximum_payload = 256"

record tx_request =
  request_kind :: request_kind
  request_data :: bytes
  request_size :: u16
  request_rate :: u16
  request_interleave :: u8
  request_name :: string
  request_input_name :: string
  request_encoder :: string
  request_profile :: string

definition fresh_request :: tx_request where
  "fresh_request = \<lparr>request_kind = Kind_query, request_data = replicate maximum_payload 0, request_size = 0,
     request_rate = 600, request_interleave = 1, request_name = ''GEN.WAV'', request_input_name = [],
     request_encoder = [], request_profile = []\<rparr>"

record tx_reply =
  reply_ok :: bool
  reply_error :: string
  reply_payload_bytes :: u32
  reply_frames :: u64
  reply_generating :: bool
  reply_complete :: bool

record tx_mode =
  token :: string
  rate :: u16
  interleave :: u8

definition modes :: "tx_mode list" where
  "modes = map (\<lambda>(t, r, i). \<lparr>token = t, rate = r, interleave = i\<rparr>)
     [(''75S'', 75, 0), (''75L'', 75, 1), (''150S'', 150, 0), (''150L'', 150, 1), (''300S'', 300, 0), (''300L'', 300, 1),
      (''600S'', 600, 0), (''600L'', 600, 1), (''1200S'', 1200, 0), (''1200L'', 1200, 1), (''2400S'', 2400, 0),
      (''2400L'', 2400, 1), (''4800U'', 4800, 2)]"

definition mode_token :: "u16 \<Rightarrow> u8 \<Rightarrow> string option" where
  "mode_token r i = map_option token (find (\<lambda>m. rate m = r \<and> interleave m = i) modes)"

section \<open>File names\<close>

definition name_capacity :: nat where "name_capacity = 13"

definition name_refused :: status where
  [status_defs]: "name_refused = \<lparr>code = Invalid_argument, message = ''not an 8.3 file name with that extension''\<rparr>"

definition name_char :: "char \<Rightarrow> bool" where
  "name_char ch \<longleftrightarrow> (char_code CHR ''A'' \<le> char_code ch \<and> char_code ch \<le> char_code CHR ''Z'') \<or>
     (char_code CHR ''0'' \<le> char_code ch \<and> char_code ch \<le> char_code CHR ''9'') \<or> ch = CHR ''_''"

text \<open>The loop over the stem of a name; \<^term>\<open>None\<close> is its \<^verbatim>\<open>return false\<close>.\<close>

primrec stem_end :: "nat \<Rightarrow> string \<Rightarrow> nat option" where
  "stem_end stem [] = Some stem"
| "stem_end stem (ch # rest) =
     (if stem < 9 \<and> ch \<noteq> CHR ''.'' then (if \<not> name_char ch then None else stem_end (Suc stem) rest)
      else Some stem)"

definition valid_filename :: "string \<Rightarrow> string \<Rightarrow> bool" where
  "valid_filename text_arg extension =
     (case stem_end 0 text_arg of
        None \<Rightarrow> False
      | Some stem \<Rightarrow> 1 \<le> stem \<and> stem \<le> 8 \<and> stem < length text_arg \<and> text_arg ! stem = CHR ''.'' \<and>
          drop (stem + 1) text_arg = extension)"

definition copy_name :: "string \<Rightarrow> string \<Rightarrow> string \<Rightarrow> string \<times> status" where
  "copy_name value_arg output extension =
     (if length value_arg \<ge> name_capacity \<or> \<not> valid_filename value_arg extension then (output, name_refused)
      else (value_arg, success))"

section \<open>The command parser\<close>

record command_parser =
  parser_text :: string
  parser_request :: tx_request
  parser_ready :: bool
  parser_valid :: bool
  parser_mode_query :: bool
  parser_overflow :: bool

definition parser_reset :: command_parser where
  "parser_reset = \<lparr>parser_text = [], parser_request = fresh_request, parser_ready = False, parser_valid = False,
     parser_mode_query = False, parser_overflow = False\<rparr>"

definition text_capacity :: nat where "text_capacity = 257"

definition cmd_info :: string where "cmd_info = ''CMD:MODEM INFO:?''"
definition cmd_send :: string where "cmd_send = ''CMD:SENDBUFFER''"
definition cmd_reset :: string where "cmd_reset = ''CMD:RESET MDM''"
definition cmd_rate :: string where "cmd_rate = ''CMD:DATA RATE:''"
definition cmd_select :: string where "cmd_select = ''CMD:WAV FILE:''"
definition cmd_generate :: string where "cmd_generate = ''CMD:TX FILE:''"
definition cmd_status :: string where "cmd_status = ''CMD:STATUS:?''"

definition answer :: "command_parser \<Rightarrow> tx_request \<Rightarrow> bool \<Rightarrow> command_parser" where
  "answer p r valid = p\<lparr>parser_request := r, parser_ready := True, parser_valid := valid\<rparr>"

text \<open>The branch of a data rate: a query, a mode's token, or text still to come.\<close>

definition parse_rate :: "command_parser \<Rightarrow> string \<Rightarrow> command_parser" where
  "parse_rate p t =
     (if t = ''?'' then (answer p ((parser_request p)\<lparr>request_kind := Kind_query\<rparr>) True)\<lparr>parser_mode_query := True\<rparr>
      else
        case find (\<lambda>m. t = token m) modes of
          None \<Rightarrow> p
        | Some m \<Rightarrow> answer p ((parser_request p)\<lparr>request_kind := Kind_mode, request_rate := rate m,
                                request_interleave := interleave m\<rparr>) True)"

definition parse_select :: "command_parser \<Rightarrow> string \<Rightarrow> command_parser" where
  "parse_select p t =
     (case copy_name t (request_name (parser_request p)) ''WAV'' of
        (n, st) \<Rightarrow> answer p ((parser_request p)\<lparr>request_kind := Kind_select, request_name := n\<rparr>) (is_ok st))"

definition parse_generate :: "command_parser \<Rightarrow> string \<Rightarrow> command_parser" where
  "parse_generate p names =
     (let r = (parser_request p)\<lparr>request_kind := Kind_generate_file\<rparr> in
      case find_char CHR '':'' names of
        None \<Rightarrow> answer p r False
      | Some colon \<Rightarrow>
          (case copy_name (take colon names) (request_input_name r) ''BIN'' of
             (i, st) \<Rightarrow>
               if \<not> is_ok st then answer p r False
               else
                 (case copy_name (drop (colon + 1) names) (request_name r) ''WAV'' of
                    (n, st') \<Rightarrow> answer p (r\<lparr>request_input_name := i, request_name := n\<rparr>) (is_ok st'))))"

definition parse_text :: "command_parser \<Rightarrow> bool \<Rightarrow> command_parser" where
  "parse_text p terminated =
     (let command = parser_text p; r = parser_request p in
      if command = cmd_info then answer p (r\<lparr>request_kind := Kind_info\<rparr>) True
      else if command = cmd_send then answer p (r\<lparr>request_kind := Kind_send\<rparr>) True
      else if command = cmd_reset then answer p (r\<lparr>request_kind := Kind_reset\<rparr>) True
      else if starts_with command cmd_rate then parse_rate p (drop (length cmd_rate) command)
      else if terminated \<and> starts_with command cmd_select then parse_select p (drop (length cmd_select) command)
      else if terminated \<and> starts_with command cmd_generate then parse_generate p (drop (length cmd_generate) command)
      else if terminated \<and> command = cmd_status then answer p (r\<lparr>request_kind := Kind_query\<rparr>) True
      else p)"

definition parse_command :: "command_parser \<Rightarrow> bool \<Rightarrow> command_parser" where
  "parse_command p terminated =
     (if parser_overflow p then p\<lparr>parser_ready := terminated, parser_valid := False\<rparr>
      else
        let p' = parse_text p terminated in
        if terminated \<and> \<not> parser_ready p' then p'\<lparr>parser_ready := True, parser_valid := False\<rparr> else p')"

definition parser_feed :: "command_parser \<Rightarrow> u8 \<Rightarrow> command_parser" where
  "parser_feed p byte =
     (if parser_ready p then p
      else if byte = 13 \<or> byte = 10 then
        (if parser_text p \<noteq> [] \<or> parser_overflow p then parse_command p True else p)
      else if parser_overflow p then p
      else if length (parser_text p) = text_capacity - 1 \<or> byte < 32 \<or> byte > 126 then p\<lparr>parser_overflow := True\<rparr>
      else parse_command (p\<lparr>parser_text := parser_text p @ [char_of (unat byte)]\<rparr>) False)"

section \<open>Commands as the host spells them\<close>

text \<open>The owner takes each command the parser has ready and lets it start again.\<close>

fun commands_of :: "command_parser \<Rightarrow> bytes \<Rightarrow> (bool \<times> bool \<times> tx_request) list" where
  "commands_of p [] = []"
| "commands_of p (byte # bytes) =
     (let p' = parser_feed p byte in
      if parser_ready p'
      then (parser_valid p', parser_mode_query p', parser_request p') # commands_of parser_reset bytes
      else commands_of p' bytes)"

text \<open>The stem of a file name, without its extension.\<close>

datatype spoken = Say_info | Say_send | Say_reset | Say_rate | Say_mode tx_mode | Say_select string
  | Say_generate string string | Say_status

definition spelling :: "spoken \<Rightarrow> string" where
  "spelling c =
     (case c of
        Say_info \<Rightarrow> cmd_info | Say_send \<Rightarrow> cmd_send | Say_reset \<Rightarrow> cmd_reset | Say_rate \<Rightarrow> cmd_rate @ ''?''
      | Say_mode m \<Rightarrow> cmd_rate @ token m | Say_select n \<Rightarrow> cmd_select @ n @ ''.WAV''
      | Say_generate i n \<Rightarrow> cmd_generate @ i @ ''.BIN:'' @ n @ ''.WAV'' | Say_status \<Rightarrow> cmd_status)"

text \<open>A command that only an end of line completes.\<close>

definition needs_end :: "spoken \<Rightarrow> bool" where
  "needs_end c = (case c of Say_select n \<Rightarrow> True | Say_generate i n \<Rightarrow> True | Say_status \<Rightarrow> True | _ \<Rightarrow> False)"

definition stem_ok :: "string \<Rightarrow> bool" where
  "stem_ok n \<longleftrightarrow> 1 \<le> length n \<and> length n \<le> 8 \<and> list_all name_char n"

definition spoken_ok :: "spoken \<Rightarrow> bool" where
  "spoken_ok c = (case c of Say_mode m \<Rightarrow> m \<in> set modes | Say_select n \<Rightarrow> stem_ok n
     | Say_generate i n \<Rightarrow> stem_ok i \<and> stem_ok n | _ \<Rightarrow> True)"

definition meaning :: "spoken \<Rightarrow> tx_request" where
  "meaning c =
     (case c of
        Say_info \<Rightarrow> fresh_request\<lparr>request_kind := Kind_info\<rparr>
      | Say_send \<Rightarrow> fresh_request\<lparr>request_kind := Kind_send\<rparr>
      | Say_reset \<Rightarrow> fresh_request\<lparr>request_kind := Kind_reset\<rparr>
      | Say_rate \<Rightarrow> fresh_request
      | Say_mode m \<Rightarrow> fresh_request\<lparr>request_kind := Kind_mode, request_rate := rate m, request_interleave := interleave m\<rparr>
      | Say_select n \<Rightarrow> fresh_request\<lparr>request_kind := Kind_select, request_name := n @ ''.WAV''\<rparr>
      | Say_generate i n \<Rightarrow> fresh_request\<lparr>request_kind := Kind_generate_file, request_name := n @ ''.WAV'',
          request_input_name := i @ ''.BIN''\<rparr>
      | Say_status \<Rightarrow> fresh_request)"

definition ascii_bytes :: "string \<Rightarrow> bytes" where
  "ascii_bytes t = map (\<lambda>c. of_nat (char_code c)) t"

definition printable :: "char \<Rightarrow> bool" where
  "printable c \<longleftrightarrow> 32 \<le> char_code c \<and> char_code c \<le> 126"

section \<open>Feeding a command\<close>

text \<open>Text that completes no command by itself.\<close>

definition quiet :: "string \<Rightarrow> bool" where
  "quiet t \<longleftrightarrow> t \<noteq> cmd_info \<and> t \<noteq> cmd_send \<and> t \<noteq> cmd_reset \<and>
     (starts_with t cmd_rate \<longrightarrow> drop (length cmd_rate) t \<noteq> ''?'' \<and> list_all (\<lambda>m. drop (length cmd_rate) t \<noteq> token m) modes)"

definition reading_text :: "string \<Rightarrow> command_parser" where
  "reading_text t = parser_reset\<lparr>parser_text := t\<rparr>"

lemma reading_nothing [simp]: "reading_text [] = parser_reset"
  by (simp add: reading_text_def parser_reset_def)

lemma quiet_parse:
  assumes "quiet t"
  shows "parse_command (reading_text t) False = reading_text t"
proof -
  have "find (\<lambda>m. drop (length cmd_rate) t = token m) modes = None" if "starts_with t cmd_rate"
    using assms that by (auto simp: quiet_def find_None_iff list_all_iff)
  then show ?thesis using assms
    by (auto simp: parse_command_def parse_text_def parse_rate_def reading_text_def parser_reset_def quiet_def Let_def)
qed

lemma byte_of_char:
  assumes "printable c"
  shows "char_of (unat (of_nat (char_code c) :: u8)) = c" and "(of_nat (char_code c) :: u8) \<noteq> 10"
    and "(of_nat (char_code c) :: u8) \<noteq> 13" and "\<not> (of_nat (char_code c) :: u8) < 32" and "\<not> 126 < (of_nat (char_code c) :: u8)"
proof -
  have u: "unat (of_nat (char_code c) :: u8) = char_code c"
    using assms by (simp add: printable_def unat_of_nat)
  then show "char_of (unat (of_nat (char_code c) :: u8)) = c" by simp
  show "(of_nat (char_code c) :: u8) \<noteq> 10" "(of_nat (char_code c) :: u8) \<noteq> 13"
    "\<not> (of_nat (char_code c) :: u8) < 32" "\<not> 126 < (of_nat (char_code c) :: u8)"
    using assms u by (auto simp: printable_def word_less_nat_alt word_unat_eq_iff)
qed

lemma feed_char:
  assumes "printable c" and "length t < 256"
  shows "parser_feed (reading_text t) (of_nat (char_code c)) = parse_command (reading_text (t @ [c])) False"
  using byte_of_char [OF assms(1)] assms(2)
  by (simp add: parser_feed_def reading_text_def parser_reset_def text_capacity_def)

lemma commands_of_quiet:
  assumes "list_all printable x" and "length (t @ x) \<le> 256"
    and "\<And>k. 0 < k \<Longrightarrow> k \<le> length x \<Longrightarrow> quiet (t @ take k x)"
  shows "commands_of (reading_text t) (ascii_bytes x @ rest) = commands_of (reading_text (t @ x)) rest"
  using assms
proof (induction x arbitrary: t)
  case Nil
  then show ?case by (simp add: ascii_bytes_def)
next
  case (Cons c x)
  have "quiet (t @ [c])" using Cons.prems(3) [of 1] by simp
  then have "parser_feed (reading_text t) (of_nat (char_code c)) = reading_text (t @ [c])"
    using Cons.prems by (simp add: feed_char quiet_parse)
  moreover have "quiet ((t @ [c]) @ take k x)" if "0 < k" "k \<le> length x" for k
    using Cons.prems(3) [of "Suc k"] that by simp
  ultimately show ?case using Cons.IH [of "t @ [c]"] Cons.prems(1,2)
    by (simp add: ascii_bytes_def Let_def) (simp add: reading_text_def parser_reset_def)
qed

lemma commands_of_ends: "list_all (\<lambda>e. e = 10 \<or> e = 13) ends \<Longrightarrow> commands_of parser_reset (ends @ rest) = commands_of parser_reset rest"
  by (induction ends) (auto simp: parser_feed_def parser_reset_def Let_def)

lemma commands_of_completed:
  assumes "list_all printable x" and "x \<noteq> []" and "length x \<le> 256"
    and "\<And>k. 0 < k \<Longrightarrow> k < length x \<Longrightarrow> quiet (take k x)"
    and "parser_ready (parse_command (reading_text x) False)"
  shows "commands_of parser_reset (ascii_bytes x @ rest) =
    (let p = parse_command (reading_text x) False in
       (parser_valid p, parser_mode_query p, parser_request p) # commands_of parser_reset rest)"
proof -
  let ?x = "butlast x" and ?c = "last x"
  have x: "x = ?x @ [?c]" using assms(2) by simp
  then have printable: "list_all printable ?x" "printable ?c" using assms(1,2)
    by (auto simp: list_all_iff dest: in_set_butlastD)
  have quiet: "quiet ([] @ take k ?x)" if "0 < k" "k \<le> length ?x" for k
    using assms(4) [of k] that assms(2) by (simp add: take_butlast)
  have "ascii_bytes x @ rest = ascii_bytes ?x @ (of_nat (char_code ?c) :: u8) # rest"
    by (subst x) (simp add: ascii_bytes_def)
  then have "commands_of parser_reset (ascii_bytes x @ rest) = commands_of (reading_text ?x) (of_nat (char_code ?c) # rest)"
    using commands_of_quiet [OF printable(1) _ quiet, of "of_nat (char_code ?c) # rest"] assms(3) by simp
  moreover have "parser_feed (reading_text ?x) (of_nat (char_code ?c)) = parse_command (reading_text x) False"
  proof -
    have "length ?x < 256" using assms(2,3) by (cases x rule: rev_cases) simp_all
    from feed_char [OF printable(2) this] show ?thesis by (simp add: append_butlast_last_id [OF assms(2)])
  qed
  ultimately show ?thesis using assms(5) by (simp add: Let_def)
qed

lemma commands_of_ended:
  assumes "list_all printable x" and "x \<noteq> []" and "length x \<le> 256" and "e = 10 \<or> e = 13"
    and "\<And>k. 0 < k \<Longrightarrow> k \<le> length x \<Longrightarrow> quiet (take k x)"
    and "parser_ready (parse_command (reading_text x) True)"
  shows "commands_of parser_reset (ascii_bytes x @ e # rest) =
    (let p = parse_command (reading_text x) True in
       (parser_valid p, parser_mode_query p, parser_request p) # commands_of parser_reset rest)"
proof -
  have "commands_of parser_reset (ascii_bytes x @ e # rest) = commands_of (reading_text x) (e # rest)"
    using commands_of_quiet [of x "[]" "e # rest"] assms by simp
  moreover have "parser_feed (reading_text x) e = parse_command (reading_text x) True"
    using assms(2,4) by (auto simp: parser_feed_def reading_text_def parser_reset_def)
  ultimately show ?thesis using assms(6) by (simp add: Let_def)
qed

section \<open>What each command means\<close>

lemma stem_end_name:
  "list_all name_char n \<Longrightarrow> k + length n \<le> 8 \<Longrightarrow> stem_end k (n @ CHR ''.'' # ext) = Some (k + length n)"
  by (induction n arbitrary: k) (auto simp: name_char_def)

lemma copy_name_ok:
  assumes "stem_ok n" and "length ext = 3"
  shows "copy_name (n @ CHR ''.'' # ext) old ext = (n @ CHR ''.'' # ext, success)"
  using assms stem_end_name [of n 0 ext]
  by (simp add: copy_name_def name_capacity_def valid_filename_def stem_ok_def nth_append)

lemma starts_below: "list_all (\<lambda>k. P (take k x)) [1..<n] \<Longrightarrow> 0 < k \<Longrightarrow> k < n \<Longrightarrow> P (take k x)"
  by (auto simp: list_all_iff)

lemma quiet_fixed:
  "0 < k \<Longrightarrow> k < length cmd_info \<Longrightarrow> quiet (take k cmd_info)"
  "0 < k \<Longrightarrow> k < length cmd_send \<Longrightarrow> quiet (take k cmd_send)"
  "0 < k \<Longrightarrow> k < length cmd_reset \<Longrightarrow> quiet (take k cmd_reset)"
  "0 < k \<Longrightarrow> k < length (cmd_rate @ ''?'') \<Longrightarrow> quiet (take k (cmd_rate @ ''?''))"
  "0 < k \<Longrightarrow> k < Suc (length cmd_status) \<Longrightarrow> quiet (take k cmd_status)"
  "0 < k \<Longrightarrow> k < Suc (length cmd_select) \<Longrightarrow> quiet (take k cmd_select)"
  "0 < k \<Longrightarrow> k < Suc (length cmd_generate) \<Longrightarrow> quiet (take k cmd_generate)"
  by (erule starts_below [rotated], assumption, code_simp)+

lemma quiet_mode:
  assumes "m \<in> set modes" and "0 < k" and "k < length (cmd_rate @ token m)"
  shows "quiet (take k (cmd_rate @ token m))"
proof -
  have "list_all (\<lambda>m. list_all (\<lambda>k. quiet (take k (cmd_rate @ token m))) [1..<length (cmd_rate @ token m)]) modes"
    by code_simp
  then have "list_all (\<lambda>k. quiet (take k (cmd_rate @ token m))) [1..<length (cmd_rate @ token m)]"
    using assms(1) by (simp add: list_all_iff)
  from starts_below [OF this assms(2,3)] show ?thesis .
qed

lemma printable_fixed:
  "list_all (list_all printable) [cmd_info, cmd_send, cmd_reset, cmd_rate @ ''?'', cmd_status, cmd_select, cmd_generate]"
  "list_all (\<lambda>m. list_all printable (cmd_rate @ token m)) modes" "list_all (\<lambda>m. length (cmd_rate @ token m) \<le> 20) modes"
  by code_simp+

text \<open>A select or generate command and every start of it completes nothing.\<close>

lemma quiet_fourth:
  assumes "5 \<le> length t" and "t ! 4 \<notin> {CHR ''M'', CHR ''S'', CHR ''R'', CHR ''D''}"
  shows "quiet t"
proof -
  have "t ! 4 = x ! 4" if "starts_with t x" "5 \<le> length x" for x
    using that by (metis nth_take starts_with_def less_eq_Suc_le numeral_nat(2) eval_nat_numeral(3) Suc_numeral semiring_norm(5))
  from this [of cmd_rate] have "\<not> starts_with t cmd_rate" using assms(2) by (auto simp: cmd_rate_def)
  then show ?thesis using assms(2) by (auto simp: quiet_def cmd_info_def cmd_send_def cmd_reset_def)
qed

lemma quiet_file_command:
  assumes "x = cmd_select \<or> x = cmd_generate" and "0 < k"
  shows "quiet (take k (x @ y))"
proof (cases "k \<le> length x")
  case True
  then have "take k (x @ y) = take k x" "k < Suc (length x)" by simp_all
  then show ?thesis using assms quiet_fixed(6,7) by metis
next
  case False
  then have "take k (x @ y) ! 4 = x ! 4" "5 \<le> length (take k (x @ y))"
    using assms(1) by (auto simp: cmd_select_def cmd_generate_def nth_append)
  then show ?thesis using assms(1) by (intro quiet_fourth) (auto simp: cmd_select_def cmd_generate_def)
qed

lemma printable_names: "list_all name_char n \<Longrightarrow> list_all printable n"
  by (auto simp: list_all_iff name_char_def printable_def)

lemma spelling_printable: "spoken_ok c \<Longrightarrow> list_all printable (spelling c) \<and> spelling c \<noteq> [] \<and> length (spelling c) \<le> 256"
  using printable_fixed printable_names
  by (cases c) (auto simp: spelling_def spoken_ok_def stem_ok_def list_all_iff cmd_select_def cmd_generate_def
      cmd_info_def cmd_send_def cmd_reset_def cmd_rate_def cmd_status_def printable_def)

lemma spelling_quiet:
  assumes "spoken_ok c" and "0 < k" and "if needs_end c then k \<le> length (spelling c) else k < length (spelling c)"
  shows "quiet (take k (spelling c))"
proof (cases c)
  case (Say_mode m)
  then show ?thesis using assms quiet_mode [of m k] by (simp add: spelling_def spoken_ok_def needs_end_def)
next
  case Say_status
  then show ?thesis using assms quiet_fixed(5) [of k] by (simp add: spelling_def needs_end_def)
next
  case (Say_select n)
  then show ?thesis using assms(2) by (simp add: spelling_def del: take_append add: quiet_file_command)
next
  case (Say_generate i n)
  then show ?thesis using assms(2) by (simp add: spelling_def del: take_append add: quiet_file_command)
next
  case Say_rate
  then show ?thesis using assms quiet_fixed(4) [of k] by (simp add: spelling_def needs_end_def)
qed (use assms quiet_fixed(1-3) [of k] in \<open>simp_all add: spelling_def needs_end_def\<close>)

lemma parse_mode:
  assumes "m \<in> set modes"
  shows "parse_rate p (token m) = answer p ((parser_request p)\<lparr>request_kind := Kind_mode, request_rate := rate m,
    request_interleave := interleave m\<rparr>) True"
proof -
  have "list_all (\<lambda>m. token m \<noteq> ''?'' \<and> find (\<lambda>m'. token m = token m') modes = Some m) modes" by code_simp
  then show ?thesis using assms by (auto simp: parse_rate_def list_all_iff)
qed

lemmas cmd_defs = cmd_info_def cmd_send_def cmd_reset_def cmd_rate_def cmd_select_def cmd_generate_def cmd_status_def

lemma cmds_differ:
  "cmd_rate @ y \<noteq> cmd_info" "cmd_rate @ y \<noteq> cmd_send" "cmd_rate @ y \<noteq> cmd_reset"
  "cmd_select @ y \<noteq> cmd_info" "cmd_select @ y \<noteq> cmd_send" "cmd_select @ y \<noteq> cmd_reset" "\<not> starts_with (cmd_select @ y) cmd_rate"
  "cmd_generate @ y \<noteq> cmd_info" "cmd_generate @ y \<noteq> cmd_send" "cmd_generate @ y \<noteq> cmd_reset"
  "\<not> starts_with (cmd_generate @ y) cmd_rate" "\<not> starts_with (cmd_generate @ y) cmd_select"
  "cmd_status \<noteq> cmd_info" "cmd_status \<noteq> cmd_send" "cmd_status \<noteq> cmd_reset" "\<not> starts_with cmd_status cmd_rate"
  "\<not> starts_with cmd_status cmd_select" "\<not> starts_with cmd_status cmd_generate"
  "cmd_send \<noteq> cmd_info" "cmd_reset \<noteq> cmd_info" "cmd_reset \<noteq> cmd_send"
  by (simp_all add: cmd_defs starts_with_def)

lemma reading_text_simps [simp]:
  "parser_text (reading_text t) = t" "parser_request (reading_text t) = fresh_request"
  "parser_ready (reading_text t) = False" "parser_overflow (reading_text t) = False"
  "parser_mode_query (reading_text t) = False"
  by (simp_all add: reading_text_def parser_reset_def)

lemma find_colon:
  assumes "list_all name_char i"
  shows "find_char CHR '':'' (i @ ''.BIN:'' @ y) = Some (length (i @ ''.BIN''))"
proof -
  have "CHR '':'' \<notin> set (i @ ''.BIN'')" using assms by (auto simp: list_all_iff name_char_def)
  from find_char_append [OF this, of y] show ?thesis by simp
qed

lemma spelling_parsed:
  assumes "spoken_ok c"
  shows "(let p = parse_command (reading_text (spelling c)) (needs_end c) in
    parser_ready p \<and> parser_valid p \<and> parser_mode_query p = (c = Say_rate) \<and> parser_request p = meaning c)"
proof (cases c)
  case (Say_mode m)
  then show ?thesis using assms
    by (simp add: spelling_def spoken_ok_def needs_end_def meaning_def parse_command_def parse_text_def cmds_differ
        parse_mode answer_def Let_def)
next
  case (Say_select n)
  have "copy_name (n @ ''.WAV'') old ''WAV'' = (n @ ''.WAV'', success)" for old
    using assms Say_select copy_name_ok [of n "''WAV''" old] by (simp add: spoken_ok_def)
  then show ?thesis using Say_select
    by (simp add: spelling_def needs_end_def meaning_def parse_command_def parse_text_def cmds_differ
        parse_select_def answer_def Let_def)
next
  case (Say_generate i n)
  have names: "copy_name (n @ ''.WAV'') old ''WAV'' = (n @ ''.WAV'', success)"
    "copy_name (i @ ''.BIN'') old ''BIN'' = (i @ ''.BIN'', success)" for old
    using assms Say_generate copy_name_ok [of n "''WAV''" old] copy_name_ok [of i "''BIN''" old] by (simp_all add: spoken_ok_def)
  have colon: "find_char CHR '':'' (i @ ''.BIN:'' @ n @ ''.WAV'') = Some (length (i @ ''.BIN''))"
    using assms Say_generate by (intro find_colon) (simp add: spoken_ok_def stem_ok_def)
  show ?thesis using Say_generate names colon
    by (simp add: spelling_def needs_end_def meaning_def parse_command_def parse_text_def cmds_differ
        parse_generate_def answer_def Let_def)
qed (simp_all add: spelling_def needs_end_def meaning_def parse_command_def parse_text_def cmds_differ
    parse_rate_def answer_def fresh_request_def Let_def)

text \<open>
  C37. A host's commands, each spelled with its end of line where it needs one and any ends of
  line after it, are read back in order, one request for each and nothing else, however the
  bytes are cut: the commands of fixed text at their last character, the others at the end of
  their line.
\<close>

theorem commands_read_back:
  assumes "list_all (\<lambda>(c, ends). spoken_ok c \<and> list_all (\<lambda>e. e = 10 \<or> e = 13) ends \<and> (needs_end c \<longrightarrow> ends \<noteq> [])) cs"
  shows "commands_of parser_reset (concat (map (\<lambda>(c, ends). ascii_bytes (spelling c) @ ends) cs)) =
    map (\<lambda>(c, ends). (True, c = Say_rate, meaning c)) cs"
  using assms
proof (induction cs)
  case Nil
  then show ?case by simp
next
  case (Cons x cs)
  obtain c ends where x: "x = (c, ends)" by force
  let ?rest = "concat (map (\<lambda>(c, ends). ascii_bytes (spelling c) @ ends) cs)"
  have c: "spoken_ok c" and ends: "list_all (\<lambda>e. e = 10 \<or> e = 13) ends" using Cons.prems by (simp_all add: x)
  note shown = spelling_printable [OF c] and parsed = spelling_parsed [OF c]
  have "commands_of parser_reset (ascii_bytes (spelling c) @ ends @ ?rest) =
      (True, c = Say_rate, meaning c) # commands_of parser_reset ?rest"
  proof (cases "needs_end c")
    case True
    then obtain e es where e: "ends = e # es" using Cons.prems by (auto simp: x neq_Nil_conv)
    then show ?thesis using commands_of_ended [of "spelling c" e "es @ ?rest"] shown parsed ends True
        spelling_quiet [OF c] by (simp add: commands_of_ends Let_def)
  next
    case False
    then show ?thesis using commands_of_completed [of "spelling c" "ends @ ?rest"] shown parsed ends
        spelling_quiet [OF c] by (simp add: commands_of_ends Let_def)
  qed
  then show ?case using Cons by (simp add: x)
qed

lemma commands_read_back_witness:
  "commands_of parser_reset (ascii_bytes ''CMD:DATA RATE:75SCMD:TX FILE:A.BIN:B_1.WAV'' @ [13, 10] @ ascii_bytes ''CMD:DATA RATE:?'') =
     [(True, False, fresh_request\<lparr>request_kind := Kind_mode, request_rate := 75, request_interleave := 0\<rparr>),
      (True, False, fresh_request\<lparr>request_kind := Kind_generate_file, request_name := ''B_1.WAV'', request_input_name := ''A.BIN''\<rparr>),
      (True, True, fresh_request)]"
proof -
  let ?cs = "[(Say_mode \<lparr>token = ''75S'', rate = 75, interleave = 0\<rparr>, []), (Say_generate ''A'' ''B_1'', [13, 10]), (Say_rate, [])]"
  have "list_all (\<lambda>(c, ends). spoken_ok c \<and> list_all (\<lambda>e. e = 10 \<or> e = 13) ends \<and> (needs_end c \<longrightarrow> ends \<noteq> [])) ?cs"
    by (simp add: spoken_ok_def needs_end_def stem_ok_def name_char_def modes_def)
  from commands_read_back [OF this] show ?thesis
    by (simp add: spelling_def cmd_defs meaning_def ascii_bytes_def)
qed

end
