(* ===== verification/Quantize.thy ===== *)
theory Quantize
  imports Complex_Main Pcm24
begin

text \<open>
  The conversion of normalized floating-point frames to samples: \<^verbatim>\<open>quantize_pcm24()\<close> and
  \<^verbatim>\<open>round_half_even()\<close> of \<^verbatim>\<open>signal-lab/src/det_math.cpp\<close>, \<^verbatim>\<open>pcm24_to_float()\<close> of
  \<^verbatim>\<open>common/pcm24.hpp\<close>. A finite float is its value, a rational. A float has 24 significant bits
  and the scales are powers of two, so the products are exact in a double, and so are the floor
  and the quotients by two; the difference of a value and its floor is exact as well unless it
  is so close to one that only its comparison with a half matters, which rounding keeps.
\<close>

datatype sample_float = Finite rat | Infinite (is_negative: bool) | Not_a_number

definition is_finite :: "sample_float \<Rightarrow> bool" where
  "is_finite f = (case f of Finite v \<Rightarrow> True | _ \<Rightarrow> False)"

definition pcm24_scale :: rat where "pcm24_scale = 8388608"

definition pcm24_to_float :: "pcm24_sample \<Rightarrow> sample_float" where
  "pcm24_to_float s = Finite (of_int s / pcm24_scale)"

definition round_half_even :: "rat \<Rightarrow> int" where
  "round_half_even v =
     (let floored = \<lfloor>v\<rfloor>; fraction = v - of_int floored in
      if fraction < 1 / 2 then floored
      else if fraction > 1 / 2 then floored + 1
      else
        let half = of_int floored / (2 :: rat) in
        if half = of_int \<lfloor>half\<rfloor> then floored else floored + 1)"

text \<open>The floor of an infinity is that infinity, which the last comparison then returns.\<close>

definition quantize_pcm24 :: "sample_float \<Rightarrow> pcm24_sample" where
  "quantize_pcm24 f =
     (case f of
        Not_a_number \<Rightarrow> 0
      | Infinite negative \<Rightarrow> (if negative then pcm24_min else pcm24_max)
      | Finite v \<Rightarrow>
          let rounded = round_half_even (v * pcm24_scale) in
          if rounded < pcm24_min then pcm24_min
          else if rounded > pcm24_max then pcm24_max
          else rounded)"

section \<open>What quantizing does\<close>

lemma quantize_is_pcm24: "is_pcm24 (quantize_pcm24 f)"
  by (cases f) (auto simp: quantize_pcm24_def is_pcm24_def pcm24_min_def pcm24_max_def Let_def)

lemma round_half_even_of_int [simp]: "round_half_even (of_int s) = s"
  by (simp add: round_half_even_def)

lemma round_half_even_near: "\<bar>of_int (round_half_even v) - v\<bar> \<le> 1 / 2"
proof -
  have "of_int \<lfloor>v\<rfloor> \<le> v" "v < of_int \<lfloor>v\<rfloor> + 1" by linarith+
  then show ?thesis by (auto simp: round_half_even_def Let_def)
qed

text \<open>No integer is nearer than the one chosen, and of two as near it is the even one.\<close>

lemma half_whole_even: "of_int f / (2 :: rat) = of_int \<lfloor>of_int f / (2 :: rat)\<rfloor> \<longleftrightarrow> even f"
proof
  assume "of_int f / (2 :: rat) = of_int \<lfloor>of_int f / (2 :: rat)\<rfloor>"
  then have "(of_int f :: rat) = of_int (2 * \<lfloor>of_int f / (2 :: rat)\<rfloor>)" by simp
  then have "f = 2 * \<lfloor>of_int f / (2 :: rat)\<rfloor>" by (simp only: of_int_eq_iff)
  then show "even f" by (metis dvd_triv_left)
qed (auto elim!: evenE)

lemma round_half_even_even:
  "round_half_even v =
     (if v - of_int \<lfloor>v\<rfloor> < 1 / 2 then \<lfloor>v\<rfloor>
      else if v - of_int \<lfloor>v\<rfloor> > 1 / 2 then \<lfloor>v\<rfloor> + 1
      else if even \<lfloor>v\<rfloor> then \<lfloor>v\<rfloor> else \<lfloor>v\<rfloor> + 1)"
  by (simp only: round_half_even_def Let_def half_whole_even)

lemma round_half_even_tie:
  assumes "\<bar>of_int (round_half_even v) - v\<bar> = 1 / 2"
  shows "even (round_half_even v)"
proof -
  have "of_int \<lfloor>v\<rfloor> \<le> v" "v < of_int \<lfloor>v\<rfloor> + 1" by linarith+
  then have "v - of_int \<lfloor>v\<rfloor> = 1 / 2"
    using assms by (simp add: round_half_even_even abs_if split: if_splits) linarith
  then show ?thesis by (simp add: round_half_even_even)
qed

lemma quantize_exact: "is_pcm24 s \<Longrightarrow> quantize_pcm24 (pcm24_to_float s) = s"
  by (simp add: quantize_pcm24_def pcm24_to_float_def pcm24_scale_def is_pcm24_def)

end
