(* ===== verification/WavGenerator.thy ===== *)
theory WavGenerator
  imports Wav Quantize Sha256
begin

text \<open>
  \<^verbatim>\<open>waveform-source/wav_generator.hpp\<close>, \<^verbatim>\<open>.cpp\<close>, \<^verbatim>\<open>encoder.hpp\<close>: the job that writes an
  encoder's frames as a WAV file. The encoder is a plug-in; it, the payload's source and the sink
  are an environment and the operations on it. A running encoder may ask the job for payload
  bytes (\<^verbatim>\<open>ByteSource::read\<close>) any number of times: its operations are computations that ask, and
  the job answers.
\<close>

section \<open>The job\<close>

type_synonym wav_encoding = u8

definition pcm16_legacy :: wav_encoding where "pcm16_legacy = 0"
definition pcm24_encoding :: wav_encoding where "pcm24_encoding = 1"

datatype job_state = Job_idle | Job_running | Job_complete | Job_failed

record wav_generator =
  gen_attached :: bool
  gen_payload_bytes :: nat
  gen_payload_read :: nat
  gen_frames_written :: u64
  gen_total_frames :: u64
  gen_waveform_frames :: u64
  gen_payload_digest :: sha256
  gen_wav_digest :: sha256
  gen_pcm_digest :: sha256
  gen_sample_bytes :: u32
  gen_status :: status
  gen_state :: job_state

definition fresh_generator :: wav_generator where
  "fresh_generator = \<lparr>gen_attached = False, gen_payload_bytes = 0, gen_payload_read = 0, gen_frames_written = 0,
     gen_total_frames = 0, gen_waveform_frames = 0, gen_payload_digest = sha_fresh, gen_wav_digest = sha_fresh,
     gen_pcm_digest = sha_fresh, gen_sample_bytes = 3, gen_status = success, gen_state = Job_idle\<rparr>"

text \<open>A computation of the encoder: its result, or a read of so many bytes and what it does with them.\<close>

datatype ('e, 'r) asking = Gives 'r 'e | Asks nat 'e "bytes \<Rightarrow> 'e \<Rightarrow> ('e, 'r) asking"

record 'e job_ops =
  op_configure :: "string \<Rightarrow> nat \<Rightarrow> 'e \<Rightarrow> ('e, status) asking"
  op_total_frames :: "'e \<Rightarrow> u64"
  op_read_float :: "nat \<Rightarrow> 'e \<Rightarrow> ('e, sample_float list) asking"
  op_status :: "'e \<Rightarrow> status"
  op_stop :: "'e \<Rightarrow> 'e"
  op_payload :: "nat \<Rightarrow> 'e \<Rightarrow> bytes \<times> 'e"
  op_write :: "bytes \<Rightarrow> 'e \<Rightarrow> status \<times> 'e"

definition maximum_step_frames :: nat where "maximum_step_frames = 2048"

definition header_not_written :: string where "header_not_written = ''failed to write native WAV header''"
definition pcm_not_written :: string where "pcm_not_written = ''failed to write native WAV PCM''"

definition unsupported_encoding :: status where
  [status_defs]: "unsupported_encoding = \<lparr>code = Invalid_argument, message = ''unsupported WAV encoding''\<rparr>"
definition riff_size_exceeded :: status where
  [status_defs]: "riff_size_exceeded = \<lparr>code = Invalid_argument, message = ''native WAV exceeds the RIFF size limit''\<rparr>"
definition frame_count_broken :: status where
  [status_defs]: "frame_count_broken = \<lparr>code = Io_error, message = ''encoder did not honor its declared frame count''\<rparr>"
definition payload_not_consumed :: status where
  [status_defs]: "payload_not_consumed =
     \<lparr>code = Io_error, message = ''encoder ended without consuming its declared payload''\<rparr>"
definition sample_not_finite :: status where
  [status_defs]: "sample_not_finite = \<lparr>code = Invalid_argument, message = ''encoder returned a nonfinite sample''\<rparr>"
definition payload_incomplete :: status where
  [status_defs]: "payload_incomplete = \<lparr>code = Io_error, message = ''native payload consumption was incomplete''\<rparr>"

text \<open>\<^verbatim>\<open>read()\<close>, the job as the encoder's payload, and an encoder's computation that calls it.\<close>

definition gen_read :: "'e job_ops \<Rightarrow> nat \<Rightarrow> wav_generator \<Rightarrow> 'e \<Rightarrow> bytes \<times> wav_generator \<times> 'e" where
  "gen_read ops capacity g e =
     (case op_payload ops capacity e of
        (bs, e') \<Rightarrow>
          if length bs > capacity \<or> length bs > gen_payload_bytes g - gen_payload_read g then ([], g, e')
          else (bs, g\<lparr>gen_payload_read := gen_payload_read g + length bs,
                  gen_payload_digest := sha_update (gen_payload_digest g) bs\<rparr>, e'))"

primrec ask :: "'e job_ops \<Rightarrow> ('e, 'r) asking \<Rightarrow> wav_generator \<Rightarrow> 'r \<times> wav_generator \<times> 'e" where
  "ask ops (Gives r e) g = (r, g, e)"
| "ask ops (Asks capacity e k) g = (case gen_read ops capacity g e of (bs, g', e') \<Rightarrow> ask ops (k bs e') g')"

definition gen_fail :: "'e job_ops \<Rightarrow> status \<Rightarrow> wav_generator \<Rightarrow> 'e \<Rightarrow> wav_generator \<times> 'e" where
  "gen_fail ops st g e =
     (g\<lparr>gen_status := st, gen_state := Job_failed\<rparr>, if gen_attached g then op_stop ops e else e)"

definition gen_stop :: "'e job_ops \<Rightarrow> wav_generator \<Rightarrow> 'e \<Rightarrow> wav_generator \<times> 'e" where
  "gen_stop ops g e =
     (g\<lparr>gen_attached := False, gen_state := Job_idle, gen_status := success\<rparr>,
      if gen_attached g \<and> gen_state g = Job_running then op_stop ops e else e)"

section \<open>The header\<close>

definition put16 :: "u16 \<Rightarrow> bytes" where "put16 v = [byte_of 0 v, byte_of 1 v]"

definition put32 :: "u32 \<Rightarrow> bytes" where "put32 v = map (\<lambda>i. byte_of i v) [0..<4]"

definition tag_bytes :: "string \<Rightarrow> bytes" where "tag_bytes t = map of_char t"

definition wav_header :: "u32 \<Rightarrow> u32 \<Rightarrow> bytes" where
  "wav_header sample_bytes data_bytes =
     tag_bytes ''RIFF'' @ put32 (36 + data_bytes) @ tag_bytes ''WAVEfmt '' @ put32 16 @ put16 1 @ put16 1 @
     put32 48000 @ put32 (48000 * sample_bytes) @ put16 (ucast sample_bytes) @ put16 (ucast (sample_bytes * 8)) @
     tag_bytes ''data'' @ put32 data_bytes"

section \<open>Beginning and stepping\<close>

definition maximum_frames :: "u32 \<Rightarrow> u64" where "maximum_frames sample_bytes = ucast ((- 1 - 36) div sample_bytes :: u32)"

text \<open>From the sizes on: the header, or the refusal.\<close>

definition gen_open :: "'e job_ops \<Rightarrow> u32 \<Rightarrow> wav_generator \<Rightarrow> 'e \<Rightarrow> wav_generator \<times> 'e" where
  "gen_open ops trailing_silence g e =
     (let g = g\<lparr>gen_waveform_frames := op_total_frames ops e\<rparr>;
          top = maximum_frames (gen_sample_bytes g) in
      if gen_waveform_frames g > top \<or> ucast trailing_silence > top - gen_waveform_frames g
      then gen_fail ops riff_size_exceeded g e
      else
        let g = g\<lparr>gen_total_frames := gen_waveform_frames g + ucast trailing_silence\<rparr>;
            data_bytes = ucast (gen_total_frames g * ucast (gen_sample_bytes g));
            header = wav_header (gen_sample_bytes g) data_bytes in
        case op_write ops header e of
          (written, e) \<Rightarrow>
            if \<not> is_ok written then gen_fail ops \<lparr>code = code written, message = header_not_written\<rparr> g e
            else
              (g\<lparr>gen_wav_digest := sha_update (gen_wav_digest g) header,
                 gen_state := (if gen_total_frames g = 0 \<and> gen_payload_read g = gen_payload_bytes g
                               then Job_complete else Job_running)\<rparr>, e))"

text \<open>What \<^verbatim>\<open>begin()\<close> returns is the job's status afterwards.\<close>

definition gen_begin :: "'e job_ops \<Rightarrow> string \<Rightarrow> nat \<Rightarrow> u32 \<Rightarrow> wav_encoding \<Rightarrow> wav_generator \<Rightarrow> 'e \<Rightarrow>
    wav_generator \<times> 'e" where
  "gen_begin ops profile payload trailing_silence encoding g e =
     (case gen_stop ops g e of
        (g, e) \<Rightarrow>
          let g = g\<lparr>gen_attached := True, gen_payload_bytes := payload, gen_payload_read := 0, gen_frames_written := 0,
                gen_total_frames := 0, gen_payload_digest := sha_fresh, gen_wav_digest := sha_fresh,
                gen_pcm_digest := sha_fresh\<rparr> in
          if encoding \<noteq> pcm24_encoding \<and> encoding \<noteq> pcm16_legacy then gen_fail ops unsupported_encoding g e
          else
            let g = g\<lparr>gen_sample_bytes := (if encoding = pcm24_encoding then 3 else 2)\<rparr> in
            case ask ops (op_configure ops profile payload e) g of
              (configured, g, e) \<Rightarrow>
                if \<not> is_ok configured then gen_fail ops configured g e
                else gen_open ops trailing_silence g e)"

text \<open>The encoder's part of a step: the frames read, or the failed job.\<close>

definition gen_pull :: "'e job_ops \<Rightarrow> nat \<Rightarrow> wav_generator \<Rightarrow> 'e \<Rightarrow>
    (wav_generator \<times> 'e) + (sample_float list \<times> wav_generator \<times> 'e)" where
  "gen_pull ops limit g e =
     (if gen_frames_written g < gen_waveform_frames g then
        (let request = min limit (unat (gen_waveform_frames g - gen_frames_written g)) in
         case ask ops (op_read_float ops request e) g of
           (frames, g, e) \<Rightarrow>
             if \<not> is_ok (op_status ops e) then Inl (gen_fail ops (op_status ops e) g e)
             else if length frames = 0 \<or> length frames > request then Inl (gen_fail ops frame_count_broken g e)
             else Inr (frames, g, e))
      else Inr ([], g, e))"

definition quantize_pcm16 :: "sample_float \<Rightarrow> int" where
  "quantize_pcm16 f =
     (case f of Finite v \<Rightarrow> max (- 32768) (min 32767 (round_half_even (v * 32768))) | _ \<Rightarrow> 0)"

definition frame_bytes :: "u32 \<Rightarrow> sample_float \<Rightarrow> bytes" where
  "frame_bytes sample_bytes f =
     (if sample_bytes = 3 then (case write_pcm24_le (quantize_pcm24 f) of (b0, b1, b2) \<Rightarrow> [b0, b1, b2])
      else put16 (word_of_int (quantize_pcm16 f)))"

text \<open>The rest of a step: samples, the sink and the end.\<close>

definition gen_emit :: "'e job_ops \<Rightarrow> sample_float list \<Rightarrow> wav_generator \<Rightarrow> 'e \<Rightarrow> wav_generator \<times> 'e" where
  "gen_emit ops frames g e =
     (if length frames = 0 then gen_fail ops payload_not_consumed g e
      else if \<not> list_all is_finite frames then gen_fail ops sample_not_finite g e
      else
        let out = concat (map (frame_bytes (gen_sample_bytes g)) frames) in
        case op_write ops out e of
          (written, e) \<Rightarrow>
            if \<not> is_ok written then gen_fail ops \<lparr>code = code written, message = pcm_not_written\<rparr> g e
            else
              let g = g\<lparr>gen_wav_digest := sha_update (gen_wav_digest g) out,
                        gen_pcm_digest := sha_update (gen_pcm_digest g) out,
                        gen_frames_written := gen_frames_written g + of_nat (length frames)\<rparr> in
              if gen_frames_written g = gen_total_frames g then
                if gen_payload_read g \<noteq> gen_payload_bytes g then gen_fail ops payload_incomplete g e
                else (g\<lparr>gen_state := Job_complete\<rparr>, e)
              else (g, e))"

definition step_limit :: "nat \<Rightarrow> wav_generator \<Rightarrow> nat" where
  "step_limit max_frames g =
     min (min max_frames maximum_step_frames) (unat (gen_total_frames g - gen_frames_written g))"

definition gen_step :: "'e job_ops \<Rightarrow> nat \<Rightarrow> wav_generator \<Rightarrow> 'e \<Rightarrow> wav_generator \<times> 'e" where
  "gen_step ops max_frames g e =
     (if gen_state g \<noteq> Job_running \<or> max_frames = 0 then (g, e)
      else
        let limit = step_limit max_frames g in
        case gen_pull ops limit g e of
          Inl failed \<Rightarrow> failed
        | Inr (frames, g, e) \<Rightarrow>
            gen_emit ops
              (if gen_frames_written g + of_nat (length frames) = gen_waveform_frames g \<or>
                 gen_frames_written g \<ge> gen_waveform_frames g
               then frames @ replicate (limit - length frames) (Finite 0) else frames) g e)"

record artifact_hashes =
  hash_payload :: string
  hash_wav :: string
  hash_pcm :: string

definition gen_hashes :: "wav_generator \<Rightarrow> artifact_hashes option" where
  "gen_hashes g =
     (if gen_state g = Job_complete then
        (case (sha_hex (gen_payload_digest g), sha_hex (gen_wav_digest g), sha_hex (gen_pcm_digest g)) of
           (Some p, Some w, Some c) \<Rightarrow> Some \<lparr>hash_payload = p, hash_wav = w, hash_pcm = c\<rparr>
         | _ \<Rightarrow> None)
      else Some \<lparr>hash_payload = [], hash_wav = [], hash_pcm = []\<rparr>)"

section \<open>A job with its record\<close>

text \<open>What a job's environment saw: the bytes the sink took, the payload source's answers, and the frames
  the encoder gave.\<close>

record job_log =
  log_file :: bytes
  log_reads :: "(nat \<times> bytes) list"
  log_frames :: "sample_float list"

definition no_log :: job_log where "no_log = \<lparr>log_file = [], log_reads = [], log_frames = []\<rparr>"

primrec recorded_asking :: "('r \<Rightarrow> 'x \<Rightarrow> 'x) \<Rightarrow> ('e, 'r) asking \<Rightarrow> 'x \<Rightarrow> ('e \<times> 'x, 'r) asking" where
  "recorded_asking f (Gives r e) l = Gives r (e, f r l)"
| "recorded_asking f (Asks capacity e k) l =
     Asks capacity (e, l) (\<lambda>bs x. recorded_asking f (k bs (fst x)) (snd x))"

definition recorded :: "'e job_ops \<Rightarrow> ('e \<times> job_log) job_ops" where
  "recorded ops =
     \<lparr>op_configure = (\<lambda>profile n (e, l). recorded_asking (\<lambda>r l. l) (op_configure ops profile n e) l),
      op_total_frames = (\<lambda>(e, l). op_total_frames ops e),
      op_read_float = (\<lambda>request (e, l).
        recorded_asking (\<lambda>r l. l\<lparr>log_frames := log_frames l @ r\<rparr>) (op_read_float ops request e) l),
      op_status = (\<lambda>(e, l). op_status ops e),
      op_stop = (\<lambda>(e, l). (op_stop ops e, l)),
      op_payload = (\<lambda>capacity (e, l).
        case op_payload ops capacity e of (bs, e') \<Rightarrow> (bs, e', l\<lparr>log_reads := log_reads l @ [(capacity, bs)]\<rparr>)),
      op_write = (\<lambda>bs (e, l).
        case op_write ops bs e of (st, e') \<Rightarrow> (st, e', if is_ok st then l\<lparr>log_file := log_file l @ bs\<rparr> else l))\<rparr>"

lemma recorded_simps [simp]:
  "op_configure (recorded ops) profile n (e, l) = recorded_asking (\<lambda>r l. l) (op_configure ops profile n e) l"
  "op_total_frames (recorded ops) (e, l) = op_total_frames ops e"
  "op_read_float (recorded ops) request (e, l) =
     recorded_asking (\<lambda>r l. l\<lparr>log_frames := log_frames l @ r\<rparr>) (op_read_float ops request e) l"
  "op_status (recorded ops) (e, l) = op_status ops e"
  "op_stop (recorded ops) (e, l) = (op_stop ops e, l)"
  "op_payload (recorded ops) capacity (e, l) =
     (case op_payload ops capacity e of (bs, e') \<Rightarrow> (bs, e', l\<lparr>log_reads := log_reads l @ [(capacity, bs)]\<rparr>))"
  "op_write (recorded ops) bs (e, l) =
     (case op_write ops bs e of (st, e') \<Rightarrow> (st, e', if is_ok st then l\<lparr>log_file := log_file l @ bs\<rparr> else l))"
  by (simp_all add: recorded_def)

text \<open>A job of \<open>payload\<close> bytes: it begins, then makes the given steps.\<close>

definition run_job :: "'e job_ops \<Rightarrow> string \<Rightarrow> nat \<Rightarrow> u32 \<Rightarrow> wav_encoding \<Rightarrow> nat list \<Rightarrow> wav_generator \<Rightarrow> 'e \<Rightarrow>
    wav_generator \<times> 'e \<times> job_log" where
  "run_job ops profile payload trailing encoding sizes g e =
     foldl (\<lambda>(g, x) n. gen_step (recorded ops) n g x)
       (gen_begin (recorded ops) profile payload trailing encoding g (e, no_log)) sizes"

text \<open>The payload the encoder was handed: the answers that fit the read and the declared size.\<close>

definition hand :: "nat \<Rightarrow> bytes \<Rightarrow> nat \<times> bytes \<Rightarrow> bytes" where
  "hand n given = (\<lambda>(capacity, bs). if length bs \<le> capacity \<and> length given + length bs \<le> n then given @ bs else given)"

definition handed :: "nat \<Rightarrow> (nat \<times> bytes) list \<Rightarrow> bytes" where
  "handed n reads = foldl (hand n) [] reads"

lemma handed_snoc: "handed n (reads @ [r]) = hand n (handed n reads) r"
  by (simp add: handed_def)

lemma handed_length: "length (handed n reads) \<le> n"
  by (induction reads rule: rev_induct) (auto simp: handed_snoc hand_def handed_def)

definition payload_ok :: "wav_generator \<Rightarrow> job_log \<Rightarrow> bool" where
  "payload_ok g l \<longleftrightarrow> sha_fed (handed (gen_payload_bytes g) (log_reads l)) (gen_payload_digest g) \<and>
     gen_payload_read g = length (handed (gen_payload_bytes g) (log_reads l))"

text \<open>Two states of a job that differ in what of the payload was read.\<close>

definition same_but_payload :: "wav_generator \<Rightarrow> wav_generator \<Rightarrow> bool" where
  "same_but_payload g g' \<longleftrightarrow>
     g' = g\<lparr>gen_payload_read := gen_payload_read g', gen_payload_digest := gen_payload_digest g'\<rparr>"

lemma same_but_payload_refl [simp]: "same_but_payload g g"
  by (simp add: same_but_payload_def)

lemma same_but_payload_trans: "same_but_payload g h \<Longrightarrow> same_but_payload h k \<Longrightarrow> same_but_payload g k"
  unfolding same_but_payload_def by (metis (no_types, lifting) wav_generator.update_convs(3,7) wav_generator.surjective)

lemma same_but_payloadD:
  assumes "same_but_payload g g'"
  shows "gen_attached g' = gen_attached g" "gen_payload_bytes g' = gen_payload_bytes g"
    "gen_frames_written g' = gen_frames_written g" "gen_total_frames g' = gen_total_frames g"
    "gen_waveform_frames g' = gen_waveform_frames g" "gen_wav_digest g' = gen_wav_digest g"
    "gen_pcm_digest g' = gen_pcm_digest g" "gen_sample_bytes g' = gen_sample_bytes g"
    "gen_status g' = gen_status g" "gen_state g' = gen_state g"
  using assms unfolding same_but_payload_def
  by (metis wav_generator.select_convs wav_generator.update_convs wav_generator.surjective)+

lemma gen_read_recorded:
  assumes "payload_ok g l" and "gen_read (recorded ops) capacity g (e, l) = (bs, g', x)"
  shows "\<exists>e' reads. x = (e', l\<lparr>log_reads := reads\<rparr>) \<and> same_but_payload g g' \<and> payload_ok g' (l\<lparr>log_reads := reads\<rparr>)"
proof -
  obtain bs' e' where r: "op_payload ops capacity e = (bs', e')" by force
  let ?reads = "log_reads l @ [(capacity, bs')]"
  have "length (handed (gen_payload_bytes g) (log_reads l)) \<le> gen_payload_bytes g" by (rule handed_length)
  then have "x = (e', l\<lparr>log_reads := ?reads\<rparr>) \<and> same_but_payload g g' \<and> payload_ok g' (l\<lparr>log_reads := ?reads\<rparr>)"
    using assms by (auto simp: gen_read_def r payload_ok_def handed_snoc hand_def same_but_payload_def sha_fed_update
        split: if_splits)
  then show ?thesis by blast
qed

lemma ask_recorded:
  assumes "payload_ok g l" and "ask (recorded ops) (recorded_asking f a l) g = (r, g', x)"
  shows "\<exists>e' reads. x = (e', f r (l\<lparr>log_reads := reads\<rparr>)) \<and> same_but_payload g g' \<and>
    payload_ok g' (l\<lparr>log_reads := reads\<rparr>)"
  using assms
proof (induction a arbitrary: l g)
  case (Gives r0 e)
  then have "x = (e, f r (l\<lparr>log_reads := log_reads l\<rparr>))" "g' = g" by auto
  then show ?case using Gives.prems(1) by (intro exI [of _ e] exI [of _ "log_reads l"]) simp
next
  case (Asks capacity e k)
  obtain bs g1 x1 where read: "gen_read (recorded ops) capacity g (e, l) = (bs, g1, x1)" by (rule prod_cases3)
  then obtain e1 reads where x1: "x1 = (e1, l\<lparr>log_reads := reads\<rparr>)" and g1: "same_but_payload g g1"
    and ok: "payload_ok g1 (l\<lparr>log_reads := reads\<rparr>)"
    using gen_read_recorded [OF Asks.prems(1) read] by blast
  have "ask (recorded ops) (recorded_asking f (k bs e1) (l\<lparr>log_reads := reads\<rparr>)) g1 = (r, g', x)"
    using Asks.prems(2) by (simp add: read x1)
  from Asks.IH [OF rangeI rangeI ok this] obtain e' reads' where
    "x = (e', f r (l\<lparr>log_reads := reads'\<rparr>))" "same_but_payload g1 g'" "payload_ok g' (l\<lparr>log_reads := reads'\<rparr>)"
    by auto
  then show ?case using same_but_payload_trans [OF g1] by blast
qed

section \<open>What a job has done so far\<close>

text \<open>The frames of the file: the encoder's, then the silence.\<close>

definition padded :: "u32 \<Rightarrow> job_log \<Rightarrow> sample_float list" where
  "padded trailing l = log_frames l @ replicate (unat trailing) (Finite 0)"

definition pcm_bytes :: "u32 \<Rightarrow> sample_float list \<Rightarrow> bytes" where
  "pcm_bytes sample_bytes frames = concat (map (frame_bytes sample_bytes) frames)"

definition sizes_ok :: "u32 \<Rightarrow> nat \<Rightarrow> u32 \<Rightarrow> wav_generator \<Rightarrow> bool" where
  "sizes_ok sb n trailing g \<longleftrightarrow> gen_sample_bytes g = sb \<and> gen_payload_bytes g = n \<and> gen_attached g \<and>
     unat (gen_total_frames g) = unat (gen_waveform_frames g) + unat trailing \<and>
     36 + unat (gen_total_frames g) * unat (gen_sample_bytes g) < 2 ^ 32"

definition written_ok :: "u32 \<Rightarrow> wav_generator \<Rightarrow> job_log \<Rightarrow> bool" where
  "written_ok trailing g l \<longleftrightarrow>
     list_all is_finite (log_frames l) \<and>
     length (log_frames l) = min (unat (gen_frames_written g)) (unat (gen_waveform_frames g)) \<and>
     (let data = pcm_bytes (gen_sample_bytes g) (take (unat (gen_frames_written g)) (padded trailing l)) in
      log_file l = wav_header (gen_sample_bytes g) (of_nat (unat (gen_total_frames g) * unat (gen_sample_bytes g))) @ data \<and>
      sha_fed (log_file l) (gen_wav_digest g) \<and> sha_fed data (gen_pcm_digest g))"

definition state_ok :: "wav_generator \<Rightarrow> bool" where
  "state_ok g \<longleftrightarrow>
     (gen_state g = Job_running \<longrightarrow> gen_frames_written g < gen_total_frames g \<or>
        gen_frames_written g = 0 \<and> gen_total_frames g = 0) \<and>
     (gen_state g = Job_complete \<longrightarrow> gen_frames_written g = gen_total_frames g \<and> gen_payload_read g = gen_payload_bytes g)"

definition job_ok :: "u32 \<Rightarrow> nat \<Rightarrow> u32 \<Rightarrow> wav_generator \<Rightarrow> job_log \<Rightarrow> bool" where
  "job_ok sb n trailing g l \<longleftrightarrow>
     (gen_state g \<in> {Job_running, Job_complete} \<longrightarrow>
        sizes_ok sb n trailing g \<and> payload_ok g l \<and> written_ok trailing g l \<and> state_ok g)"

lemma gen_fail_ok [simp]: "gen_fail ops st g x = (g', y) \<Longrightarrow> job_ok sb n trailing g' l"
  by (auto simp: gen_fail_def job_ok_def)

lemma gen_open_ok:
  assumes "gen_sample_bytes g = sb \<and> gen_payload_bytes g = n \<and> sb \<in> {2, 3}" and "gen_attached g" and "payload_ok g l" and "log_file l = []"
    and "log_frames l = []" and "gen_frames_written g = 0" and "gen_wav_digest g = sha_fresh" and "gen_pcm_digest g = sha_fresh"
    and "gen_open (recorded ops) trailing g (e, l) = (g', e', l')"
  shows "job_ok sb n trailing g' l'"
proof (cases "gen_state g' \<in> {Job_running, Job_complete}")
  case False
  then show ?thesis by (simp add: job_ok_def)
next
  case True
  let ?w = "op_total_frames ops e" and ?top = "maximum_frames (gen_sample_bytes g)"
  let ?total = "?w + ucast trailing"
  let ?header = "wav_header (gen_sample_bytes g) (ucast (?total * ucast (gen_sample_bytes g)))"
  have fits: "?w \<le> ?top" "ucast trailing \<le> ?top - ?w"
    using assms(9) True by (auto simp: gen_open_def gen_fail_def Let_def split: if_splits)
  obtain st e1 where out: "op_write ops ?header e = (st, e1)" by force
  have st: "is_ok st" using assms(9) True fits
    by (auto simp: gen_open_def gen_fail_def Let_def out split: if_splits)
  have top: "unat ?top * unat (gen_sample_bytes g) + 36 < 2 ^ 32"
    using assms(1) by (auto simp: maximum_frames_def)
  have total: "unat ?total = unat ?w + unat trailing" "unat ?total \<le> unat ?top"
  proof -
    have "unat trailing \<le> unat ?top - unat ?w" using fits by (simp add: to_nat unat_sub_exact)
    then have "unat ?w + unat trailing \<le> unat ?top" using fits(1) by (simp add: to_nat)
    then show "unat ?total = unat ?w + unat trailing" "unat ?total \<le> unat ?top"
      using unat_lt_u64 [of ?top] by (simp_all add: unat_add_exact)
  qed
  have bound: "unat ?total * unat (gen_sample_bytes g) + 36 < 2 ^ 32"
    using mult_le_mono1 [OF total(2), of "unat (gen_sample_bytes g)"] top by linarith
  then have data: "(ucast (?total * ucast (gen_sample_bytes g)) :: u32) = of_nat (unat ?total * unat (gen_sample_bytes g))"
  proof -
    have "unat (?total * ucast (gen_sample_bytes g)) = unat ?total * unat (gen_sample_bytes g)"
      using bound by (simp add: unat_mult_exact)
    then show ?thesis by (metis of_nat_unat)
  qed
  have "gen_open (recorded ops) trailing g (e, l) =
      (g\<lparr>gen_waveform_frames := ?w, gen_total_frames := ?total, gen_wav_digest := sha_update sha_fresh ?header,
        gen_state := (if ?total = 0 \<and> gen_payload_read g = gen_payload_bytes g then Job_complete else Job_running)\<rparr>,
       e1, l\<lparr>log_file := ?header\<rparr>)"
    using assms(4,7) st leD [OF fits(1)] leD [OF fits(2)] by (simp add: gen_open_def Let_def out)
  then have x: "l' = l\<lparr>log_file := ?header\<rparr>" and g': "g' = g\<lparr>gen_waveform_frames := ?w, gen_total_frames := ?total,
      gen_wav_digest := sha_update sha_fresh ?header, gen_state := gen_state g'\<rparr>"
    and st': "gen_state g' = (if ?total = 0 \<and> gen_payload_read g = gen_payload_bytes g then Job_complete else Job_running)"
    using assms(9) by auto
  have "sizes_ok sb n trailing g'" using assms(1,2) total(1) bound by (subst g') (simp add: sizes_ok_def)
  moreover have "payload_ok g' l'" using assms(3) by (subst g') (simp add: x payload_ok_def)
  moreover have "written_ok trailing g' l'"
    using assms(5,6,8) sha_fed_update [OF sha_fed_fresh, of ?header]
    by (subst g') (simp add: x written_ok_def padded_def pcm_bytes_def sha_fed_fresh data Let_def)
  moreover have "state_ok g'" using st' assms(6) by (subst g') (auto simp: state_ok_def word_gt_0)
  ultimately show ?thesis by (simp add: job_ok_def)
qed

lemma gen_stop_recorded:
  "gen_stop (recorded ops) g (e, l) =
     (g\<lparr>gen_attached := False, gen_state := Job_idle, gen_status := success\<rparr>,
      (if gen_attached g \<and> gen_state g = Job_running then op_stop ops e else e), l)"
  by (simp add: gen_stop_def)

lemma gen_begin_ok:
  assumes "gen_begin (recorded ops) profile n trailing encoding g (e, no_log) = (g', e', l')"
  shows "job_ok (if encoding = pcm24_encoding then 3 else 2) n trailing g' l'"
proof (cases "gen_state g' \<in> {Job_running, Job_complete}")
  case False
  then show ?thesis by (simp add: job_ok_def)
next
  case True
  let ?sb = "if encoding = pcm24_encoding then 3 else 2 :: u32"
  obtain h e0 where stop: "gen_stop (recorded ops) g (e, no_log) = (h, e0, no_log)"
    by (simp add: gen_stop_recorded)
  let ?h = "h\<lparr>gen_attached := True, gen_payload_bytes := n, gen_payload_read := 0, gen_frames_written := 0,
    gen_total_frames := 0, gen_payload_digest := sha_fresh, gen_wav_digest := sha_fresh, gen_pcm_digest := sha_fresh,
    gen_sample_bytes := ?sb\<rparr>"
  have h: "payload_ok ?h no_log" by (simp add: payload_ok_def no_log_def handed_def sha_fed_fresh)
  obtain st k x where asked: "ask (recorded ops) (recorded_asking (\<lambda>r l. l) (op_configure ops profile n e0) no_log) ?h = (st, k, x)"
    by (rule prod_cases3)
  from ask_recorded [OF h this] obtain e1 reads where x: "x = (e1, no_log\<lparr>log_reads := reads\<rparr>)"
    and k: "same_but_payload ?h k" and ok: "payload_ok k (no_log\<lparr>log_reads := reads\<rparr>)" by auto
  have "gen_open (recorded ops) trailing k (e1, no_log\<lparr>log_reads := reads\<rparr>) = (g', e', l')"
    using assms True by (auto simp: gen_begin_def stop asked x gen_fail_def Let_def split: if_splits)
  from gen_open_ok [OF _ _ ok _ _ _ _ _ this, of ?sb n] show ?thesis
    using same_but_payloadD [OF k] by (simp add: no_log_def)
qed

lemma gen_pull_recorded:
  assumes "payload_ok g l" and "gen_pull (recorded ops) limit g (e, l) = Inr (frames, g', x)"
  shows "\<exists>e' reads. x = (e', l\<lparr>log_reads := reads, log_frames := log_frames l @ frames\<rparr>) \<and> same_but_payload g g' \<and>
    payload_ok g' (l\<lparr>log_reads := reads\<rparr>) \<and> length frames \<le> limit \<and>
    (if gen_frames_written g < gen_waveform_frames g
     then frames \<noteq> [] \<and> unat (gen_frames_written g) + length frames \<le> unat (gen_waveform_frames g) else frames = [])"
proof (cases "gen_frames_written g < gen_waveform_frames g")
  case False
  then have "frames = []" "g' = g" "x = (e, l\<lparr>log_reads := log_reads l, log_frames := log_frames l @ []\<rparr>)"
    using assms(2) by (simp_all add: gen_pull_def)
  then show ?thesis using assms(1) False by (intro exI [of _ e] exI [of _ "log_reads l"]) simp
next
  case True
  let ?request = "min limit (unat (gen_waveform_frames g - gen_frames_written g))"
  let ?f = "\<lambda>r l. l\<lparr>log_frames := log_frames l @ r\<rparr>"
  obtain r k y where asked: "ask (recorded ops) (recorded_asking ?f (op_read_float ops ?request e) l) g = (r, k, y)"
    by (rule prod_cases3)
  from ask_recorded [OF assms(1) this] obtain e1 reads where y: "y = (e1, ?f r (l\<lparr>log_reads := reads\<rparr>))"
    and k: "same_but_payload g k" "payload_ok k (l\<lparr>log_reads := reads\<rparr>)" by blast
  have pull: "gen_pull (recorded ops) limit g (e, l) =
      (if \<not> is_ok (op_status (recorded ops) y) then Inl (gen_fail (recorded ops) (op_status (recorded ops) y) k y)
       else if length r = 0 \<or> length r > ?request then Inl (gen_fail (recorded ops) frame_count_broken k y)
       else Inr (r, k, y))"
    using True by (simp only: gen_pull_def recorded_simps asked if_True Let_def prod.case)
  have "r = frames \<and> g' = k \<and> x = y \<and> r \<noteq> [] \<and> length r \<le> ?request"
    using assms(2) unfolding pull by (simp only: split: if_splits) auto
  then have r: "r = frames" "g' = k" "x = y" "frames \<noteq> []" "length frames \<le> ?request" by auto
  have "unat (gen_waveform_frames g - gen_frames_written g) = unat (gen_waveform_frames g) - unat (gen_frames_written g)"
    using True by (simp add: unat_sub_exact)
  then have "length frames \<le> limit" "unat (gen_frames_written g) + length frames \<le> unat (gen_waveform_frames g)"
    using r(5) True unfolding word_less_nat_alt by linarith+
  then show ?thesis using True y k r(1-4) by (intro exI [of _ e1] exI [of _ reads]) simp
qed

lemma take_padded:
  assumes "length given = min a w" and "a + limit \<le> w + t" and "length new \<le> limit"
    and "if a < w then new \<noteq> [] \<and> a + length new \<le> w else new = []"
    and "fs = (if a + length new = w \<or> w \<le> a then new @ replicate (limit - length new) z else new)"
  shows "take (a + length fs) (given @ new @ replicate t z) = take a (given @ replicate t z) @ fs"
    and "length fs \<le> limit" and "length (given @ new) = min (a + length fs) w"
proof -
  consider (inside) "a < w" "a + length new < w" | (border) "a < w" "a + length new = w" | (after) "w \<le> a"
    using assms(4) by (metis leI le_neq_implies_less)
  then show "take (a + length fs) (given @ new @ replicate t z) = take a (given @ replicate t z) @ fs"
    using assms by cases (auto simp: min_def simp flip: replicate_add)
  show "length fs \<le> limit" "length (given @ new) = min (a + length fs) w"
    using assms by (auto simp: min_def split: if_splits)
qed

lemma gen_pull_failed: "gen_pull ops limit g e = Inl (g', y) \<Longrightarrow> gen_state g' = Job_failed"
  by (auto simp: gen_pull_def gen_fail_def Let_def split: if_splits prod.splits)

text \<open>A step's output, after \<open>old\<close> frames were written and \<open>new\<close> ones given.\<close>

lemma gen_emit_ok:
  assumes sizes: "sizes_ok sb n trailing g" and payload: "payload_ok g l" and "gen_state g = Job_running"
    and finite: "list_all is_finite old" and given: "log_frames l = old @ new" and sub: "set new \<subseteq> set fs"
    and count: "length (log_frames l) = min (unat (gen_frames_written g) + length fs) (unat (gen_waveform_frames g))"
    and fits: "unat (gen_frames_written g) + length fs \<le> unat (gen_total_frames g)"
    and taken: "take (unat (gen_frames_written g) + length fs) (padded trailing l) = before_fs @ fs"
    and on_file: "log_file l = wav_header sb (of_nat (unat (gen_total_frames g) * unat sb)) @ pcm_bytes sb before_fs"
      "sha_fed (log_file l) (gen_wav_digest g)" "sha_fed (pcm_bytes sb before_fs) (gen_pcm_digest g)"
    and emit: "gen_emit (recorded ops) fs g (e, l) = (g', e', l')"
  shows "job_ok sb n trailing g' l'"
proof (cases "gen_state g' \<in> {Job_running, Job_complete}")
  case False
  then show ?thesis by (simp add: job_ok_def)
next
  case True
  let ?out = "concat (map (frame_bytes sb) fs)"
  let ?written = "gen_frames_written g + of_nat (length fs)"
  have sb: "gen_sample_bytes g = sb" using sizes by (simp add: sizes_ok_def)
  obtain st e1 where out: "op_write ops ?out e = (st, e1)" by force
  have checks: "fs \<noteq> []" "list_all is_finite fs" "is_ok st"
    using emit True by (auto simp: gen_emit_def gen_fail_def sb out Let_def split: if_splits)
  let ?g = "g\<lparr>gen_wav_digest := sha_update (gen_wav_digest g) ?out, gen_pcm_digest := sha_update (gen_pcm_digest g) ?out,
      gen_frames_written := ?written\<rparr>"
  have g': "g' = ?g\<lparr>gen_state := gen_state g'\<rparr>" and l': "l' = l\<lparr>log_file := log_file l @ ?out\<rparr>"
    and ends: "gen_state g' = (if ?written = gen_total_frames g then Job_complete else Job_running)"
      "?written = gen_total_frames g \<Longrightarrow> gen_payload_read g = gen_payload_bytes g"
    using emit True checks assms(3) by (auto simp: gen_emit_def gen_fail_def sb out Let_def split: if_splits)
  have written: "unat ?written = unat (gen_frames_written g) + length fs"
    using fits unat_lt_u64 [of "gen_total_frames g"] by (simp add: unat_add_exact)
  have "sizes_ok sb n trailing g'" using sizes by (subst g') (auto simp: sizes_ok_def)
  moreover have "payload_ok g' l'" using payload by (subst g') (simp add: payload_ok_def l')
  moreover have "written_ok trailing g' l'"
  proof -
    have "list_all is_finite (log_frames l)" using finite checks(2) given sub by (auto simp: list_all_iff)
    moreover have "take (unat ?written) (padded trailing l') = before_fs @ fs"
      using taken by (simp add: written padded_def l')
    ultimately show ?thesis
      using count on_file sha_fed_update [OF on_file(2), of ?out] sha_fed_update [OF on_file(3), of ?out]
      by (subst g') (simp add: written_ok_def written l' sb pcm_bytes_def Let_def)
  qed
  moreover have "state_ok g'" using ends fits written by (subst g') (auto simp: state_ok_def to_nat)
  ultimately show ?thesis by (simp add: job_ok_def)
qed

lemma gen_step_ok:
  assumes job: "job_ok sb n trailing g l" and step: "gen_step (recorded ops) m g (e, l) = (g', e', l')"
  shows "job_ok sb n trailing g' l'"
proof (cases "gen_state g = Job_running \<and> m \<noteq> 0")
  case False
  then have "gen_step (recorded ops) m g (e, l) = (g, e, l)" by (auto simp: gen_step_def)
  then show ?thesis using job step by simp
next
  case True
  let ?limit = "step_limit m g"
  have sizes: "sizes_ok sb n trailing g" and payload: "payload_ok g l" and written: "written_ok trailing g l"
    and state: "state_ok g"
    using job True by (simp_all add: job_ok_def)
  show ?thesis
  proof (cases "gen_pull (recorded ops) ?limit g (e, l)")
    case (Inl failed)
    then have "gen_state g' = Job_failed" using step True gen_pull_failed by (fastforce simp: gen_step_def)
    then show ?thesis by (simp add: job_ok_def)
  next
    case (Inr pulled)
    obtain frames h x where pulled: "pulled = (frames, h, x)" by (rule prod_cases3)
    from gen_pull_recorded [OF payload Inr [unfolded this]] obtain e1 reads where
      x: "x = (e1, l\<lparr>log_reads := reads, log_frames := log_frames l @ frames\<rparr>)" and h: "same_but_payload g h"
      and ok: "payload_ok h (l\<lparr>log_reads := reads\<rparr>)" and frames: "length frames \<le> ?limit"
        "if gen_frames_written g < gen_waveform_frames g
         then frames \<noteq> [] \<and> unat (gen_frames_written g) + length frames \<le> unat (gen_waveform_frames g) else frames = []"
      by auto
    note same = same_but_payloadD [OF h]
    let ?a = "unat (gen_frames_written g)" and ?w = "unat (gen_waveform_frames g)"
    define fs where "fs = (if ?a + length frames = ?w \<or> ?w \<le> ?a
      then frames @ replicate (?limit - length frames) (Finite 0) else frames)"
    have room: "?a + ?limit \<le> ?w + unat trailing"
      using sizes state True by (auto simp: step_limit_def sizes_ok_def state_ok_def unat_sub_exact to_nat)
    have "length (log_frames l) = min ?a ?w" using written by (simp add: written_ok_def)
    note taken = take_padded [OF this room frames(1) frames(2) [unfolded word_less_nat_alt] fs_def]
    have sum: "unat (gen_frames_written g + of_nat (length frames)) = ?a + length frames"
    proof -
      have "?a + length frames < 2 ^ 64"
        using room frames(1) sizes unat_lt_u64 [of "gen_total_frames g"] by (simp add: sizes_ok_def)
      then show ?thesis by (simp add: unat_add_exact)
    qed
    have emit: "gen_emit (recorded ops) fs h x = (g', e', l')"
      using step True by (simp add: gen_step_def Inr pulled same fs_def to_nat sum)
    let ?l = "l\<lparr>log_reads := reads, log_frames := log_frames l @ frames\<rparr>"
    have sb: "gen_sample_bytes g = sb" using sizes by (simp add: sizes_ok_def)
    have same_file: "log_file ?l = log_file l" by simp
    have "sizes_ok sb n trailing h" "payload_ok h ?l" "gen_state h = Job_running"
      using sizes ok True by (auto simp: sizes_ok_def same payload_ok_def)
    moreover have "list_all is_finite (log_frames l)" "log_frames ?l = log_frames l @ frames" "set frames \<subseteq> set fs"
      using written by (simp_all add: written_ok_def fs_def)
    moreover have "length (log_frames ?l) = min (unat (gen_frames_written h) + length fs) (unat (gen_waveform_frames h))"
      using taken(3) by (simp add: same)
    moreover have "unat (gen_frames_written h) + length fs \<le> unat (gen_total_frames h)"
      using taken(2) room sizes by (simp add: same sizes_ok_def)
    moreover have "take (unat (gen_frames_written h) + length fs) (padded trailing ?l) = take ?a (padded trailing l) @ fs"
      using taken(1) by (simp add: same padded_def)
    moreover have "log_file ?l = wav_header sb (of_nat (unat (gen_total_frames h) * unat sb)) @ pcm_bytes sb (take ?a (padded trailing l))"
      "sha_fed (log_file ?l) (gen_wav_digest h)" "sha_fed (pcm_bytes sb (take ?a (padded trailing l))) (gen_pcm_digest h)"
      using written unfolding written_ok_def same sb Let_def same_file by blast+
    ultimately show ?thesis using emit unfolding x by (rule gen_emit_ok)
  qed
qed

lemma run_job_ok:
  assumes "run_job ops profile n trailing encoding sizes g e = (g', e', l')"
  shows "job_ok (if encoding = pcm24_encoding then 3 else 2) n trailing g' l'"
  using assms
proof (induction sizes arbitrary: g' e' l' rule: rev_induct)
  case Nil
  then show ?case using gen_begin_ok [of ops profile n trailing encoding g e g' e' l'] by (simp add: run_job_def)
next
  case (snoc m sizes)
  obtain h e1 l1 where "run_job ops profile n trailing encoding sizes g e = (h, e1, l1)" by (rule prod_cases3)
  then show ?case using snoc.IH [of h e1 l1] snoc.prems by (auto simp: run_job_def intro: gen_step_ok)
qed

lemma frame_bytes_length: "length (frame_bytes sb f) = (if sb = 3 then 3 else 2)"
  by (simp add: frame_bytes_def put16_def split: prod.split)

lemma pcm_bytes_length: "length (pcm_bytes sb frames) = length frames * (if sb = 3 then 3 else 2)"
  by (induction frames) (simp_all add: pcm_bytes_def frame_bytes_length)

lemma job_complete:
  assumes "job_ok sb n trailing g l" and "gen_state g = Job_complete" and "sb = 3 \<or> sb = 2"
  defines "data \<equiv> pcm_bytes sb (padded trailing l)"
  shows "log_file l = wav_header sb (of_nat (length data)) @ data"
    and "length (log_frames l) = unat (gen_waveform_frames g)" and "list_all is_finite (log_frames l)"
    and "length data = unat (gen_total_frames g) * unat sb" and "36 + length data < 2 ^ 32"
    and "length (handed n (log_reads l)) = n"
    and "gen_hashes g = Some \<lparr>hash_payload = sha256_text (handed n (log_reads l)), hash_wav = sha256_text (log_file l),
      hash_pcm = sha256_text data\<rparr>"
proof -
  have sizes: "sizes_ok sb n trailing g" and payload: "payload_ok g l" and written: "written_ok trailing g l"
    and state: "state_ok g"
    using assms(1,2) by (simp_all add: job_ok_def)
  have all: "gen_frames_written g = gen_total_frames g" "gen_payload_read g = n"
    using state assms(2) sizes by (simp_all add: state_ok_def sizes_ok_def)
  show frames: "length (log_frames l) = unat (gen_waveform_frames g)" "list_all is_finite (log_frames l)"
    using written sizes by (simp_all add: written_ok_def all sizes_ok_def)
  have sb: "gen_sample_bytes g = sb" using sizes by (simp add: sizes_ok_def)
  from frames have padded: "length (padded trailing l) = unat (gen_total_frames g)" using sizes by (simp add: padded_def sizes_ok_def)
  then have taken: "take (unat (gen_total_frames g)) (padded trailing l) = padded trailing l" by simp
  from padded show len: "length data = unat (gen_total_frames g) * unat sb"
    using assms(3) by (auto simp: data_def pcm_bytes_length)
  then show "36 + length data < 2 ^ 32" using sizes by (auto simp: sizes_ok_def)
  have "log_file l = wav_header sb (of_nat (unat (gen_total_frames g) * unat sb)) @ data \<and>
      sha_fed (log_file l) (gen_wav_digest g) \<and> sha_fed data (gen_pcm_digest g)"
    using written unfolding written_ok_def all sb taken Let_def data_def by blast
  then have on_file: "log_file l = wav_header sb (of_nat (length data)) @ data" "sha_fed (log_file l) (gen_wav_digest g)"
    "sha_fed data (gen_pcm_digest g)"
    unfolding len by blast+
  then show "log_file l = wav_header sb (of_nat (length data)) @ data" by blast
  show "length (handed n (log_reads l)) = n" using payload all sizes by (simp add: payload_ok_def sizes_ok_def)
  have "sha_fed (handed n (log_reads l)) (gen_payload_digest g)" using payload sizes by (simp add: payload_ok_def sizes_ok_def)
  then show "gen_hashes g = Some \<lparr>hash_payload = sha256_text (handed n (log_reads l)), hash_wav = sha256_text (log_file l),
      hash_pcm = sha256_text data\<rparr>"
    using on_file(2,3) assms(2) by (simp add: gen_hashes_def sha_hex_fed)
qed

end
