(* ===== verification/WavArtifact.thy ===== *)
theory WavArtifact
  imports WavGenerator
begin

text \<open>
  What a WAV job leaves: the file and its digests, whether the program's own validator
  (\<^verbatim>\<open>common/wav.hpp\<close>) accepts the file, and that every job ends.
\<close>

section \<open>The header as the validator reads it\<close>

lemma read_put32 [simp]: "wav_read_le32 (put32 v @ rest) = v" "wav_read_le32 (put32 v) = v"
  using le32_bytes [of v] by (simp_all add: wav_read_le32_def put32_def numeral_2_eq_2 numeral_3_eq_3 upt_rec)

lemma read_put16 [simp]: "wav_read_le16 (put16 v @ rest) = v" "wav_read_le16 (put16 v) = v"
  using le16_bytes [of v] by (simp_all add: wav_read_le16_def put16_def)

lemma lengths [simp]: "length (put32 v) = 4" "length (put16 w) = 2" "length (tag_bytes t) = length t"
  by (simp_all add: put32_def put16_def tag_bytes_def)

lemma read_tags:
  "wav_read_le32 (tag_bytes ''RIFF'' @ rest) = wav_fourcc CHR ''R'' CHR ''I'' CHR ''F'' CHR ''F''"
  "wav_read_le32 (tag_bytes ''WAVE'') = wav_fourcc CHR ''W'' CHR ''A'' CHR ''V'' CHR ''E''"
  "wav_read_le32 (tag_bytes ''fmt '' @ rest) = format_id"
  "wav_read_le32 (tag_bytes ''data'' @ rest) = data_id"
  by (simp_all add: tag_bytes_def wav_read_le32_def wav_fourcc_def format_id_def data_id_def)

lemma tag_split: "tag_bytes ''WAVEfmt '' = tag_bytes ''WAVE'' @ tag_bytes ''fmt ''"
  by (simp add: tag_bytes_def)

lemma header_pieces:
  assumes "contents = wav_header 3 d @ data"
  shows "take 12 contents = tag_bytes ''RIFF'' @ put32 (36 + d) @ tag_bytes ''WAVE''"
    and "take 8 (drop 12 contents) = tag_bytes ''fmt '' @ put32 16"
    and "take 16 (drop 20 contents) = put16 1 @ put16 1 @ put32 48000 @ put32 144000 @ put16 3 @ put16 24"
    and "take 8 (drop 36 contents) = tag_bytes ''data'' @ put32 d"
    and "length contents = 44 + length data"
  by (simp_all add: assms wav_header_def tag_split)

lemma format_ids: "format_id \<noteq> data_id" "data_id \<noteq> format_id"
  by (simp_all add: format_id_def data_id_def wav_fourcc_def)

lemma reader_of_exact:
  assumes "file_size (reader_of contents) = m" and "off \<le> m" and "n \<le> unat (m - off)"
  shows "wav_read_exact (reader_of contents) off n = Inr (take n (drop (unat off) contents))"
  using assms by (simp add: wav_read_exact_def reader_of_def leD)

section \<open>The validator on a job's file\<close>

text \<open>The chunk walk of a file whose sizes the validator can read, \<open>d\<close> the size of its data.\<close>

definition fits_riff :: "u32 \<Rightarrow> bytes \<Rightarrow> bool" where
  "fits_riff d data \<longleftrightarrow> unat d = length data \<and> 36 + length data \<le> 4294967287"

lemma fits_riff_unat:
  assumes "fits_riff d data"
  shows "unat (44 + d) = 44 + length data" "unat (36 + d) = 36 + length data"
    "file_size (reader_of (wav_header 3 d @ data)) = 44 + d"
proof -
  show n: "unat (44 + d) = 44 + length data" "unat (36 + d) = 36 + length data"
    using assms by (simp_all add: fits_riff_def unat_add_exact)
  have "file_size (reader_of (wav_header 3 d @ data)) = of_nat (44 + length data)"
    by (simp only: reader_of_def wav_reader.select_convs header_pieces(5) [OF refl])
  then show "file_size (reader_of (wav_header 3 d @ data)) = 44 + d" unfolding n(1) [symmetric] by simp
qed

lemma walk_header:
  assumes "fits_riff d data"
  shows "read_riff_header (reader_of (wav_header 3 d @ data)) riff_start = Inr (riff_start\<lparr>riff_end := 44 + d\<rparr>)"
proof -
  note n = fits_riff_unat [OF assms]
  have "wav_read_exact (reader_of (wav_header 3 d @ data)) 0 12 = Inr (tag_bytes ''RIFF'' @ put32 (36 + d) @ tag_bytes ''WAVE'')"
    using reader_of_exact [OF n(3), of 0 12] header_pieces(1) [of "wav_header 3 d @ data" d data] n(1) by simp
  moreover have "\<not> 44 + d < 12" "\<not> 36 + d < 4" "\<not> 36 + d > - 1 - 8"
    using n(1,2) assms by (simp_all add: word_less_nat_alt fits_riff_def)
  ultimately show ?thesis using n(3) by (simp add: read_riff_header_def read_tags)
qed

lemma walk_format:
  assumes "fits_riff d data"
  shows "riff_pass (reader_of (wav_header 3 d @ data)) (riff_start\<lparr>riff_end := 44 + d\<rparr>) no_payload no_format =
    Inr (\<lparr>riff_end = 44 + d, cursor = 36, header_bytes = 36\<rparr>, no_payload,
      \<lparr>audio_format = 1, channels = 1, sample_rate = 48000, byte_rate = 144000, block_align = 3, bits_per_sample = 24,
        have_format = True, have_data = False\<rparr>)"
proof -
  note n = fits_riff_unat [OF assms]
  let ?r = "reader_of (wav_header 3 d @ data)"
  have sub: "unat (44 + d - k) = 44 + length data - unat k" if "unat k \<le> 44" for k
    using that n(1) by (simp add: unat_sub_exact word_le_nat_alt)
  have "wav_read_exact ?r 12 8 = Inr (tag_bytes ''fmt '' @ put32 16)"
    using reader_of_exact [OF n(3), of 12 8] header_pieces(2) [of "wav_header 3 d @ data" d data] n(1) sub [of 12]
    by (simp add: word_le_nat_alt)
  moreover have "wav_read_exact ?r 20 16 = Inr (put16 1 @ put16 1 @ put32 48000 @ put32 144000 @ put16 3 @ put16 24)"
    using reader_of_exact [OF n(3), of 20 16] header_pieces(3) [of "wav_header 3 d @ data" d data] n(1) sub [of 20]
    by (simp add: word_le_nat_alt)
  moreover have "\<not> 44 + d - 12 < 8" "\<not> 16 > 44 + d - 20"
    using sub [of 12] sub [of 20] by (simp_all add: word_less_nat_alt)
  ultimately show ?thesis
    by (simp add: riff_pass_def read_chunk_def read_format_def riff_start_def no_format_def wav_header_byte_limit_def
        read_tags format_ids Let_def)
qed

lemma walk_data:
  assumes "fits_riff d data" and "have_data f = False"
  shows "riff_pass (reader_of (wav_header 3 d @ data)) \<lparr>riff_end = 44 + d, cursor = 36, header_bytes = 36\<rparr> no_payload f =
    (if odd (length data) then Inl Invalid_riff
     else Inr (\<lparr>riff_end = 44 + d, cursor = 44 + d, header_bytes = 44\<rparr>,
       no_payload\<lparr>payload_offset := 44, payload_bytes := d\<rparr>, f\<lparr>have_data := True\<rparr>))"
proof -
  note n = fits_riff_unat [OF assms(1)]
  let ?r = "reader_of (wav_header 3 d @ data)"
  have d: "unat d = length data" "length data \<le> 4294967251" using assms(1) by (simp_all add: fits_riff_def)
  have sub: "unat (44 + d - k) = 44 + length data - unat k" if "unat k \<le> 44" for k
    using that n(1) by (simp add: unat_sub_exact word_le_nat_alt)
  have "wav_read_exact ?r 36 8 = Inr (tag_bytes ''data'' @ put32 d)"
    using reader_of_exact [OF n(3), of 36 8] header_pieces(4) [of "wav_header 3 d @ data" d data] n(1) sub [of 36]
    by (simp add: word_le_nat_alt)
  moreover have "\<not> 44 + d - 36 < 8" "\<not> d > 44 + d - 44"
    using sub [of 36] by (simp_all add: word_less_nat_alt)
  moreover have "unat (d AND 1) = length data mod 2" using d by (simp add: and_one_eq unat_mod_distrib)
  then have pad: "unat (d + (d AND 1)) = length data + length data mod 2" using d by (simp add: unat_add_exact)
  then have "\<not> d + (d AND 1) < d" "d + (d AND 1) > 44 + d - 44 \<longleftrightarrow> odd (length data)"
    using d by (simp_all add: word_less_nat_alt odd_iff_mod_2_eq_one)
  moreover have "d + (d AND 1) = d" if "even (length data)"
    using pad d that by (intro word_unat_eq_iff [THEN iffD2]) (simp add: even_iff_mod_2_eq_zero)
  ultimately show ?thesis using assms(2)
    by (simp add: riff_pass_def read_chunk_def wav_header_byte_limit_def read_tags format_ids Let_def)
qed

lemma riff_chunks_step:
  "\<not> cursor st < riff_end st \<Longrightarrow> riff_chunks r st p f = Inr (p, f)"
  "cursor st < riff_end st \<Longrightarrow> riff_pass r st p f = Inl e \<Longrightarrow> riff_chunks r st p f = Inl e"
  "cursor st < riff_end st \<Longrightarrow> riff_pass r st p f = Inr (st', p', f') \<Longrightarrow> riff_chunks r st p f = riff_chunks r st' p' f'"
  by (subst riff_chunks.simps; simp)+

lemma validate_fitting:
  assumes "fits_riff d data" and "length data mod 3 = 0"
  shows "validate_pcm24_mono_48k_wav (reader_of (wav_header 3 d @ data)) =
    (if odd (length data) then Inl Invalid_riff
     else if data = [] then Inl Missing_data
     else Inr \<lparr>payload_offset = 44, payload_bytes = d, payload_bits = 24, payload_frame = 3\<rparr>)"
proof -
  note n = fits_riff_unat [OF assms(1)]
  define r where "r = reader_of (wav_header 3 d @ data)"
  let ?f = "\<lparr>audio_format = 1, channels = 1, sample_rate = 48000, byte_rate = 144000, block_align = 3, bits_per_sample = 24,
    have_format = True, have_data = False\<rparr>"
  have below: "12 < 44 + d" "36 < 44 + d" using n(1) by (simp_all add: word_less_nat_alt)
  have zero: "d mod 3 = 0" "d = 0 \<longleftrightarrow> data = []" using assms
    by (simp_all add: fits_riff_def word_unat_eq_iff unat_mod_distrib)
  have "parse_riff r = riff_chunks r \<lparr>riff_end = 44 + d, cursor = 36, header_bytes = 36\<rparr> no_payload ?f"
    using walk_header [OF assms(1)] riff_chunks_step(3) [OF _ walk_format [OF assms(1)]] below(1)
    by (simp add: parse_riff_def r_def riff_start_def)
  also have "\<dots> = (if odd (length data) then Inl Invalid_riff
     else Inr (no_payload\<lparr>payload_offset := 44, payload_bytes := d\<rparr>, ?f\<lparr>have_data := True\<rparr>))"
    using walk_data [OF assms(1), of ?f] below(2) by (simp add: r_def [symmetric] riff_chunks_step)
  finally show ?thesis using zero unfolding r_def [symmetric]
    by (auto simp: validate_pcm24_mono_48k_wav_def validate_pcm_mono_48k_wav_def validate_pcm_wav_def no_payload_def Let_def)
qed

lemma validate_oversize:
  assumes "36 + length data > 4294967287" and "36 + length data < 2 ^ 32"
  shows "\<exists>e. validate_pcm24_mono_48k_wav (reader_of (wav_header 3 (of_nat (length data)) @ data)) = Inl e"
proof -
  let ?d = "of_nat (length data) :: u32" and ?r = "reader_of (wav_header 3 (of_nat (length data)) @ data)"
  have d: "unat (36 + ?d) = 36 + length data" using assms(2) by (simp add: unat_add_exact)
  then have big: "36 + ?d > - 1 - 8" using assms(1) by (simp add: word_less_nat_alt)
  have "wav_read_exact ?r 0 12 = Inr (tag_bytes ''RIFF'' @ put32 (36 + ?d) @ tag_bytes ''WAVE'')"
    if "\<not> file_size ?r < 12"
    using reader_of_exact [OF refl, of 0 _ 12] that header_pieces(1) [OF refl, of ?d data]
    by (simp add: word_le_nat_alt word_less_nat_alt)
  then have "\<exists>e. read_riff_header ?r riff_start = Inl e"
    using big by (simp add: read_riff_header_def)
  then show ?thesis
    by (auto simp: validate_pcm24_mono_48k_wav_def validate_pcm_mono_48k_wav_def validate_pcm_wav_def parse_riff_def)
qed

section \<open>Every job ends\<close>

lemma gen_step_grows:
  assumes "job_ok sb n trailing g l" and step: "gen_step (recorded ops) m g (e, l) = (g', e', l')"
    and running: "gen_state g = Job_running" "m \<noteq> 0" "gen_state g' = Job_running"
  shows "length (log_file l) < length (log_file l')"
proof (cases "gen_pull (recorded ops) (step_limit m g) g (e, l)")
  case (Inl failed)
  then show ?thesis using step running gen_pull_failed by (fastforce simp: gen_step_def)
next
  case (Inr pulled)
  obtain frames h x where pulled: "pulled = (frames, h, x)" by (rule prod_cases3)
  have "payload_ok g l" using assms(1) running by (simp add: job_ok_def)
  from gen_pull_recorded [OF this Inr [unfolded pulled]] obtain e1 reads where
    x: "x = (e1, l\<lparr>log_reads := reads, log_frames := log_frames l @ frames\<rparr>)" by auto
  obtain fs where emit: "gen_emit (recorded ops) fs h x = (g', e', l')"
    using step running by (auto simp: gen_step_def Inr pulled split: if_splits)
  let ?out = "concat (map (frame_bytes (gen_sample_bytes h)) fs)"
  obtain st e2 where "op_write ops ?out e1 = (st, e2)" by force
  then have "fs \<noteq> []" "log_file l' = log_file l @ ?out"
    using emit running(3) by (auto simp: gen_emit_def gen_fail_def x Let_def split: if_splits)
  then show ?thesis by (cases fs) (simp_all add: frame_bytes_length)
qed

lemma running_length:
  assumes "job_ok sb n trailing g l" and "gen_state g = Job_running" and "sb = 3 \<or> sb = 2"
  shows "length (log_file l) = 44 + unat (gen_frames_written g) * unat sb" and "gen_frames_written g \<le> gen_total_frames g"
proof -
  have sizes: "sizes_ok sb n trailing g" and written: "written_ok trailing g l" and state: "state_ok g"
    using assms(1,2) by (simp_all add: job_ok_def)
  then show upto: "gen_frames_written g \<le> gen_total_frames g" using assms(2) by (auto simp: state_ok_def)
  have header: "length (wav_header sb d) = 44" for d by (simp add: wav_header_def)
  have "length (padded trailing l) = min (unat (gen_frames_written g)) (unat (gen_waveform_frames g)) + unat trailing"
    using written by (simp add: written_ok_def padded_def)
  then have "unat (gen_frames_written g) \<le> length (padded trailing l)"
    using upto sizes by (simp add: sizes_ok_def word_le_nat_alt)
  then show "length (log_file l) = 44 + unat (gen_frames_written g) * unat sb"
    using written sizes assms(3) by (auto simp: written_ok_def sizes_ok_def header pcm_bytes_length Let_def)
qed

text \<open>A job that has begun is not idle until it is stopped, and one that failed says why.\<close>

definition settled :: "wav_generator \<Rightarrow> bool" where
  "settled g \<longleftrightarrow> gen_state g \<noteq> Job_idle \<and> (gen_state g = Job_failed \<longrightarrow> \<not> is_ok (gen_status g))"

lemma gen_fail_settled: "\<not> is_ok st \<Longrightarrow> settled (fst (gen_fail ops st g e))"
  by (simp add: gen_fail_def settled_def)

lemma gen_refusals:
  "\<not> is_ok unsupported_encoding" "\<not> is_ok riff_size_exceeded" "\<not> is_ok frame_count_broken" "\<not> is_ok payload_not_consumed"
  "\<not> is_ok sample_not_finite" "\<not> is_ok payload_incomplete" "is_ok \<lparr>code = code st, message = m\<rparr> = is_ok st"
  by (simp_all add: status_defs is_ok_def)

lemma gen_open_settled: "settled (fst (gen_open ops trailing g e))"
  by (simp add: gen_open_def gen_fail_settled gen_refusals Let_def split: prod.split) (simp add: settled_def)

lemma gen_begin_settled: "settled (fst (gen_begin ops profile n trailing encoding g e))"
  by (simp add: gen_begin_def gen_open_settled gen_fail_settled gen_refusals Let_def split: prod.split)

lemma ask_settled: "ask ops a g = (r, g', e') \<Longrightarrow> settled g' = settled g"
proof (induction a arbitrary: g)
  case (Asks capacity e k)
  obtain bs h x where read: "gen_read ops capacity g e = (bs, h, x)" by (rule prod_cases3)
  then have "settled h = settled g" by (auto simp: gen_read_def settled_def split: prod.splits if_splits)
  then show ?case using Asks.IH [OF rangeI rangeI, of bs x h] Asks.prems by (simp add: read)
qed simp

lemma gen_pull_settled:
  "gen_pull ops limit g e = Inr (frames, g', e') \<Longrightarrow> settled g' = settled g"
  "gen_pull ops limit g e = Inl failed \<Longrightarrow> settled (fst failed)"
  by (auto simp: gen_pull_def gen_fail_settled gen_refusals Let_def dest: ask_settled split: if_splits prod.splits)

lemma gen_emit_settled: "settled g \<Longrightarrow> settled (fst (gen_emit ops fs g e))"
  by (simp add: gen_emit_def gen_fail_settled gen_refusals Let_def split: prod.split) (simp add: settled_def)

lemma gen_step_settled:
  assumes "settled g"
  shows "settled (fst (gen_step ops m g e))"
proof (cases "gen_pull ops (step_limit m g) g e")
  case (Inl failed)
  then show ?thesis using assms gen_pull_settled(2) [OF Inl] by (simp add: gen_step_def)
next
  case (Inr pulled)
  obtain frames h x where pulled: "pulled = (frames, h, x)" by (rule prod_cases3)
  then have "settled h" using gen_pull_settled(1) [of ops _ g e frames h x] Inr assms by simp
  then show ?thesis using assms by (simp add: gen_step_def Inr pulled gen_emit_settled)
qed

lemma run_job_settled:
  assumes "run_job ops profile n trailing encoding sizes g e = (g', e', l')"
  shows "settled g'"
  using assms
proof (induction sizes arbitrary: g' e' l' rule: rev_induct)
  case Nil
  then show ?case using gen_begin_settled [of "recorded ops" profile n trailing encoding g "(e, no_log)"] by (simp add: run_job_def)
next
  case (snoc m sizes)
  obtain h e1 l1 where h: "run_job ops profile n trailing encoding sizes g e = (h, e1, l1)" by (rule prod_cases3)
  then show ?case using gen_step_settled [OF snoc.IH [OF h], of "recorded ops" m "(e1, l1)"] snoc.prems
    by (simp add: run_job_def)
qed

lemma run_job_progress:
  assumes "run_job ops profile n trailing encoding sizes g e = (g', e', l')" and "gen_state g' = Job_running"
  shows "length (filter (\<lambda>m. m \<noteq> 0) sizes) \<le> unat (gen_frames_written g')"
  using assms
proof (induction sizes arbitrary: g' e' l' rule: rev_induct)
  case Nil
  then show ?case by simp
next
  case (snoc m sizes)
  let ?sb = "if encoding = pcm24_encoding then 3 else 2 :: u32"
  obtain h e1 l1 where h: "run_job ops profile n trailing encoding sizes g e = (h, e1, l1)" by (rule prod_cases3)
  then have step: "gen_step (recorded ops) m h (e1, l1) = (g', e', l')" using snoc.prems(1) by (simp add: run_job_def)
  show ?case
  proof (cases "gen_state h = Job_running \<and> m \<noteq> 0")
    case False
    then have "gen_step (recorded ops) m h (e1, l1) = (h, e1, l1)" by (auto simp: gen_step_def)
    then have g': "g' = h" using step by simp
    then show ?thesis using snoc.IH [OF h] snoc.prems(2) False by simp
  next
    case True
    note ok = run_job_ok [OF h] run_job_ok [OF snoc.prems(1)]
    have "length (log_file l1) < length (log_file l')" using gen_step_grows [OF ok(1) step] True snoc.prems(2) by simp
    then have "unat (gen_frames_written h) * unat ?sb < unat (gen_frames_written g') * unat ?sb"
      using running_length(1) [OF ok(1)] running_length(1) [OF ok(2)] True snoc.prems(2) by simp
    then have "unat (gen_frames_written h) < unat (gen_frames_written g')" by simp
    then show ?thesis using snoc.IH [OF h] True by simp
  qed
qed

section \<open>Two jobs\<close>

text \<open>An encoder of so many silent frames, no payload and a sink that takes everything.\<close>

definition silent_ops :: "nat \<Rightarrow> unit job_ops" where
  "silent_ops n =
     \<lparr>op_configure = (\<lambda>profile payload e. Gives success e), op_total_frames = (\<lambda>e. of_nat n),
      op_read_float = (\<lambda>request e. Gives (replicate request (Finite 0)) e), op_status = (\<lambda>e. success),
      op_stop = (\<lambda>e. e), op_payload = (\<lambda>capacity e. ([], e)), op_write = (\<lambda>bs e. (success, e))\<rparr>"

definition silent_job :: "nat \<Rightarrow> nat list \<Rightarrow> wav_generator \<times> unit \<times> job_log" where
  "silent_job n sizes = run_job (silent_ops n) [] 0 1 pcm24_encoding sizes fresh_generator ()"

lemma silent_jobs:
  "gen_state (fst (silent_job 3 [4])) = Job_complete" "gen_state (fst (silent_job 2 [2, 2])) = Job_complete"
  "gen_waveform_frames (fst (silent_job 3 [4])) = 3" "gen_waveform_frames (fst (silent_job 2 [2, 2])) = 2"
  by code_simp+

lemma silent_job_run: "run_job (silent_ops n) [] 0 1 pcm24_encoding sizes fresh_generator () =
    (fst (silent_job n sizes), fst (snd (silent_job n sizes)), snd (snd (silent_job n sizes)))"
  unfolding silent_job_def by (simp only: prod.collapse)

section \<open>What a job leaves\<close>

text \<open>C18. A job that completes has written the file it declared, whatever the encoder, the source and the sink: the
  header with the sizes of what follows, then every frame the encoder gave, quantized, then the
  silence; it gave the encoder the whole payload; and its three digests are those of the payload,
  of the file and of its data.\<close>

theorem finished_wav_exact:
  assumes "run_job ops profile n trailing encoding sizes g e = (g', e', l)" and "gen_state g' = Job_complete"
  shows "let sb = (if encoding = pcm24_encoding then 3 else 2);
      data = pcm_bytes sb (log_frames l @ replicate (unat trailing) (Finite 0)) in
    log_file l = wav_header sb (of_nat (length data)) @ data \<and> 36 + length data < 2 ^ 32 \<and>
    length (log_frames l) = unat (gen_waveform_frames g') \<and> list_all is_finite (log_frames l) \<and>
    length (handed n (log_reads l)) = n \<and>
    gen_hashes g' = Some \<lparr>hash_payload = sha256_text (handed n (log_reads l)), hash_wav = sha256_text (log_file l),
      hash_pcm = sha256_text data\<rparr>"
  using job_complete [OF run_job_ok [OF assms(1)] assms(2)] unfolding padded_def Let_def by simp

theorem finished_wav_exact_witness:
  "let l = snd (snd (silent_job 3 [4])) in
    length (log_file l) = 56 \<and> gen_hashes (fst (silent_job 3 [4])) = Some \<lparr>hash_payload = sha256_text [],
      hash_wav = sha256_text (log_file l), hash_pcm = sha256_text (pcm_bytes 3 (log_frames l @ [Finite 0]))\<rparr>"
  using finished_wav_exact [OF silent_job_run silent_jobs(1)] silent_jobs(3)
  by (simp add: pcm_bytes_length wav_header_def Let_def)

text \<open>C17. The program plays the files it makes, with one exception: the validator the player runs accepts the
  file of a completed 24-bit job, with exactly its data, just when the file has frames, their
  number is even and the sizes stay eight bytes below the limit the job checks. The data of an odd
  number of frames is an odd number of bytes, and the job writes no padding byte after it.\<close>

theorem finished_wav_accepted:
  assumes "run_job ops profile n trailing pcm24_encoding sizes g e = (g', e', l)" and "gen_state g' = Job_complete"
  shows "validate_pcm24_mono_48k_wav (reader_of (log_file l)) = Inr p \<longleftrightarrow>
    (let frames = unat (gen_waveform_frames g') + unat trailing in
     0 < frames \<and> even frames \<and> 36 + 3 * frames \<le> 4294967287 \<and>
     p = \<lparr>payload_offset = 44, payload_bytes = of_nat (3 * frames), payload_bits = 24, payload_frame = 3\<rparr>)"
proof -
  let ?data = "pcm_bytes 3 (padded trailing l)" and ?frames = "unat (gen_waveform_frames g') + unat trailing"
  note ok = run_job_ok [OF assms(1), simplified]
  note done_job = job_complete [OF ok assms(2)]
  have len: "length ?data = 3 * ?frames" using done_job(2) by (simp add: pcm_bytes_length padded_def)
  then have empty: "?data = [] \<longleftrightarrow> ?frames = 0" and odd: "odd (length ?data) \<longleftrightarrow> odd ?frames" by (auto simp flip: length_0_conv)
  show ?thesis
  proof (cases "36 + length ?data \<le> 4294967287")
    case True
    then have "fits_riff (of_nat (length ?data)) ?data" by (simp add: fits_riff_def)
    from validate_fitting [OF this] show ?thesis
      using True done_job(1) odd empty unfolding len Let_def by (auto simp del: of_nat_mult of_nat_add)
  next
    case False
    then show ?thesis using validate_oversize [of ?data] done_job(1,5) unfolding len Let_def by auto
  qed
qed

theorem finished_wav_accepted_witness:
  "validate_pcm24_mono_48k_wav (reader_of (log_file (snd (snd (silent_job 3 [4]))))) =
     Inr \<lparr>payload_offset = 44, payload_bytes = 12, payload_bits = 24, payload_frame = 3\<rparr> \<and>
   validate_pcm24_mono_48k_wav (reader_of (log_file (snd (snd (silent_job 2 [2, 2]))))) \<noteq>
     Inr \<lparr>payload_offset = 44, payload_bytes = 9, payload_bits = 24, payload_frame = 3\<rparr>"
  using finished_wav_accepted [OF silent_job_run silent_jobs(1)] finished_wav_accepted [OF silent_job_run silent_jobs(2)]
  by (simp add: silent_jobs)

text \<open>C19. Every job ends: whatever the encoder, the source and the sink do, after one step more than the frames it
  declares the job is complete, or it has failed with an error.\<close>

theorem job_ends:
  assumes "run_job ops profile n trailing encoding sizes g e = (g', e', l)"
    and "unat (gen_total_frames g') < length (filter (\<lambda>m. m \<noteq> 0) sizes)"
  shows "gen_state g' = Job_complete \<or> gen_state g' = Job_failed \<and> \<not> is_ok (gen_status g')"
proof -
  have "gen_state g' \<noteq> Job_running"
  proof
    assume running: "gen_state g' = Job_running"
    then have "gen_frames_written g' \<le> gen_total_frames g'"
      using running_length(2) [OF run_job_ok [OF assms(1)]] by simp
    then show False using run_job_progress [OF assms(1) running] assms(2) by (simp add: word_le_nat_alt)
  qed
  then show ?thesis using run_job_settled [OF assms(1)] by (cases "gen_state g'") (simp_all add: settled_def)
qed

theorem job_ends_witness:
  "gen_state (fst (silent_job 2 [1, 0, 1, 1, 1])) = Job_complete \<or>
   gen_state (fst (silent_job 2 [1, 0, 1, 1, 1])) = Job_failed \<and> \<not> is_ok (gen_status (fst (silent_job 2 [1, 0, 1, 1, 1])))"
proof (rule job_ends [OF silent_job_run])
  have "gen_total_frames (fst (silent_job 2 [1, 0, 1, 1, 1])) = 3" by code_simp
  then show "unat (gen_total_frames (fst (silent_job 2 [1, 0, 1, 1, 1]))) < length (filter (\<lambda>m. m \<noteq> 0) [1, 0, 1, 1, 1 :: nat])"
    by simp
qed

end
