(* ===== verification/Encoders.thy ===== *)
theory Encoders
  imports WavGenerator
begin

text \<open>
  \<^verbatim>\<open>waveform-source/encoder_registry.hpp\<close>, \<^verbatim>\<open>.cpp\<close>: the catalogue of encoder plug-ins. The
  descriptors a plug-in module supplies are an argument; an identifier or version that is a null
  pointer is \<^term>\<open>None\<close>.
\<close>

definition encoder_workspace_capacity :: nat where "encoder_workspace_capacity = 128 * 1024"
definition encoder_workspace_alignment :: nat where "encoder_workspace_alignment = 32"
definition maximum_encoders :: nat where "maximum_encoders = 8"

record encoder_descriptor =
  encoder_id :: "string option"
  encoder_version :: "string option"
  workspace_bytes :: nat
  workspace_alignment :: nat
  has_construct :: bool
  legacy_default :: bool

definition token_char :: "bool \<Rightarrow> char \<Rightarrow> bool" where
  "token_char version c \<longleftrightarrow>
     (char_code CHR ''A'' \<le> char_code c \<and> char_code c \<le> char_code CHR ''Z'') \<or>
     (char_code CHR ''0'' \<le> char_code c \<and> char_code c \<le> char_code CHR ''9'') \<or> c = CHR ''_'' \<or>
     (version \<and> ((char_code CHR ''a'' \<le> char_code c \<and> char_code c \<le> char_code CHR ''z'') \<or> c = CHR ''-'' \<or>
        c = CHR ''.'' \<or> c = CHR ''/''))"

text \<open>The loop reads the places 0 to \<open>maximum\<close> and needs the end of the string at one of them.\<close>

fun token_from :: "nat \<Rightarrow> bool \<Rightarrow> nat \<Rightarrow> string \<Rightarrow> bool" where
  "token_from maximum version i [] = (i \<le> maximum)"
| "token_from maximum version i (c # rest) =
     (i \<le> maximum \<and> token_char version c \<and> token_from maximum version (i + 1) rest)"

definition valid_token :: "string option \<Rightarrow> nat \<Rightarrow> bool \<Rightarrow> bool" where
  "valid_token v maximum version =
     (case v of None \<Rightarrow> False | Some text_arg \<Rightarrow> text_arg \<noteq> [] \<and> token_from maximum version 0 text_arg)"

definition descriptor_refused :: "encoder_descriptor \<Rightarrow> bool \<Rightarrow> bool" where
  "descriptor_refused d legacy_seen =
     (\<not> valid_token (encoder_id d) 15 False \<or> \<not> valid_token (encoder_version d) 63 True \<or> workspace_bytes d = 0 \<or>
      workspace_bytes d > encoder_workspace_capacity \<or> workspace_alignment d = 0 \<or>
      workspace_alignment d > encoder_workspace_alignment \<or>
      ((of_nat (workspace_alignment d) :: u32) AND (of_nat (workspace_alignment d) - 1)) \<noteq> 0 \<or>
      \<not> has_construct d \<or> (legacy_default d \<and> legacy_seen))"

text \<open>The loop over the descriptors, \<open>seen\<close> those before: whether none is refused.\<close>

fun encoders_accepted :: "encoder_descriptor list \<Rightarrow> bool \<Rightarrow> encoder_descriptor list \<Rightarrow> bool" where
  "encoders_accepted seen legacy_seen [] = True"
| "encoders_accepted seen legacy_seen (d # rest) =
     (if descriptor_refused d legacy_seen then False
      else if list_ex (\<lambda>d'. encoder_id d' = encoder_id d) seen then False
      else encoders_accepted (seen @ [d]) (legacy_seen \<or> legacy_default d) rest)"

definition registered_encoders :: "encoder_descriptor list \<Rightarrow> encoder_descriptor list" where
  "registered_encoders encoders =
     (if length encoders > maximum_encoders then []
      else if encoders_accepted [] False encoders then encoders else [])"

definition find_encoder :: "encoder_descriptor list \<Rightarrow> string \<Rightarrow> encoder_descriptor option" where
  "find_encoder encoders i =
     find (\<lambda>d. Some i = encoder_id d \<or> (i = [] \<and> legacy_default d)) (registered_encoders encoders)"

section \<open>What the catalogue promises\<close>

lemma encoders_accepted_distinct:
  "encoders_accepted seen legacy_seen encoders \<Longrightarrow> distinct (map encoder_id seen) \<Longrightarrow>
    distinct (map encoder_id (seen @ encoders)) \<and> (\<forall>d \<in> set encoders. \<not> descriptor_refused d False)"
proof (induction encoders arbitrary: seen legacy_seen)
  case Nil
  then show ?case by simp
next
  case (Cons d encoders)
  have ok: "\<not> descriptor_refused d legacy_seen" "\<not> list_ex (\<lambda>d'. encoder_id d' = encoder_id d) seen"
    "encoders_accepted (seen @ [d]) (legacy_seen \<or> legacy_default d) encoders"
    using Cons.prems(1) by (auto split: if_splits)
  then have "distinct (map encoder_id (seen @ [d]))"
    using Cons.prems(2) by (auto simp: list_ex_iff)
  from Cons.IH [OF ok(3) this] ok(1) show ?case by (auto simp: descriptor_refused_def)
qed

text \<open>An encoder found by its name is the only one of that name, and can be constructed in the workspace.\<close>

lemma find_encoder_valid:
  assumes "find_encoder encoders i = Some d"
  shows "d \<in> set encoders" and "distinct (map encoder_id encoders)" and "\<not> descriptor_refused d False"
proof -
  have found: "d \<in> set (registered_encoders encoders)"
    using assms unfolding find_encoder_def by (metis find_Some_iff nth_mem)
  then have all: "registered_encoders encoders = encoders" "encoders_accepted [] False encoders"
    by (auto simp: registered_encoders_def split: if_splits)
  then show "d \<in> set encoders" "distinct (map encoder_id encoders)" "\<not> descriptor_refused d False"
    using found encoders_accepted_distinct [OF all(2)] by auto
qed

end
