(* ===== verification/TxArtifact.thy ===== *)
theory TxArtifact
  imports Encoders TxProtocol Decimal
begin

text \<open>
  \<^verbatim>\<open>rt1170/tx_artifact.hpp\<close>, \<^verbatim>\<open>.cpp\<close>: the owner of a transmit artifact, which receives a payload,
  has a WAV job make its waveform, and publishes the file and its manifest on the card. The card's
  file system, the encoder plug-in and the rest of the player are a world and the operations on it;
  critical sections protect single copies and are left out. The owner's task runs
  \<^verbatim>\<open>service_tx_artifact()\<close>, the USB task the other entry points.
\<close>

section \<open>Refusals\<close>

definition refusal_busy :: status where [status_defs]: "refusal_busy = \<lparr>code = Busy, message = ''BUSY''\<rparr>"
definition bad_mode :: status where [status_defs]: "bad_mode = \<lparr>code = Invalid_argument, message = ''BAD_MODE''\<rparr>"
definition upload_in_progress :: status where
  [status_defs]: "upload_in_progress = \<lparr>code = Unavailable, message = ''UPLOAD_IN_PROGRESS''\<rparr>"
definition bad_filename :: status where [status_defs]: "bad_filename = \<lparr>code = Invalid_argument, message = ''BAD_FILENAME''\<rparr>"
definition select_new_file :: status where
  [status_defs]: "select_new_file = \<lparr>code = Unavailable, message = ''SELECT_NEW_FILE''\<rparr>"
definition payload_too_large :: status where
  [status_defs]: "payload_too_large = \<lparr>code = Buffer_too_small, message = ''PAYLOAD_TOO_LARGE''\<rparr>"
definition media_not_local :: status where
  [status_defs]: "media_not_local = \<lparr>code = Unavailable, message = ''MEDIA_NOT_LOCAL''\<rparr>"
definition media_failed :: status where [status_defs]: "media_failed = \<lparr>code = Io_error, message = ''MEDIA_NOT_LOCAL''\<rparr>"
definition payload_exists_or_io_error :: status where
  [status_defs]: "payload_exists_or_io_error = \<lparr>code = Io_error, message = ''PAYLOAD_EXISTS_OR_IO_ERROR''\<rparr>"
definition payload_write_error :: status where
  [status_defs]: "payload_write_error = \<lparr>code = Io_error, message = ''PAYLOAD_WRITE_ERROR''\<rparr>"
definition no_uploaded_payload :: status where
  [status_defs]: "no_uploaded_payload = \<lparr>code = Unavailable, message = ''NO_UPLOADED_PAYLOAD''\<rparr>"
definition unknown_encoder :: status where
  [status_defs]: "unknown_encoder = \<lparr>code = Invalid_argument, message = ''UNKNOWN_ENCODER''\<rparr>"
definition output_exists :: status where
  [status_defs]: "output_exists = \<lparr>code = Invalid_argument, message = ''OUTPUT_EXISTS''\<rparr>"
definition output_unchecked :: status where [status_defs]: "output_unchecked = \<lparr>code = Io_error, message = ''OUTPUT_EXISTS''\<rparr>"
definition bad_payload_file :: status where
  [status_defs]: "bad_payload_file = \<lparr>code = Invalid_argument, message = ''BAD_PAYLOAD_FILE''\<rparr>"
definition encoder_workspace_error :: status where
  [status_defs]: "encoder_workspace_error = \<lparr>code = Internal_error, message = ''ENCODER_WORKSPACE_ERROR''\<rparr>"
definition artifact_finalize_error :: status where
  [status_defs]: "artifact_finalize_error = \<lparr>code = Io_error, message = ''ARTIFACT_FINALIZE_ERROR''\<rparr>"
definition output_not_created :: status where
  [status_defs]: "output_not_created = \<lparr>code = Io_error, message = ''the temporary WAV could not be created''\<rparr>"
definition output_not_written :: status where
  [status_defs]: "output_not_written = \<lparr>code = Io_error, message = ''the card took less than the whole write''\<rparr>"
definition refusal_bad_request :: status where
  [status_defs]: "refusal_bad_request = \<lparr>code = Invalid_argument, message = ''BAD_REQUEST''\<rparr>"

section \<open>The world\<close>

datatype card_file = Payload_file | Output_file | Manifest_file

datatype card_result = Fr_ok | Fr_no_file | Fr_exist | Fr_error

datatype open_mode = Open_read | Create_new

record 'e tx_world =
  card_open :: "card_file \<Rightarrow> string \<Rightarrow> open_mode \<Rightarrow> 'e \<Rightarrow> card_result \<times> 'e"
  card_close :: "card_file \<Rightarrow> 'e \<Rightarrow> card_result \<times> 'e"
  card_sync :: "card_file \<Rightarrow> 'e \<Rightarrow> card_result \<times> 'e"
  card_read :: "nat \<Rightarrow> 'e \<Rightarrow> bytes option \<times> 'e"
  card_write :: "card_file \<Rightarrow> bytes \<Rightarrow> 'e \<Rightarrow> card_result \<times> nat \<times> 'e"
  card_size :: "card_file \<Rightarrow> 'e \<Rightarrow> u64"
  card_stat :: "string \<Rightarrow> 'e \<Rightarrow> card_result \<times> 'e"
  card_mkdir :: "string \<Rightarrow> 'e \<Rightarrow> card_result \<times> 'e"
  card_mount :: "'e \<Rightarrow> card_result \<times> 'e"
  card_unmount :: "'e \<Rightarrow> card_result \<times> 'e"
  card_rename :: "string \<Rightarrow> string \<Rightarrow> 'e \<Rightarrow> card_result \<times> 'e"
  media_local :: "'e \<Rightarrow> bool"
  player_busy :: "'e \<Rightarrow> bool"
  plugin_encoders :: "encoder_descriptor list"
  construct_encoder :: "encoder_descriptor \<Rightarrow> 'e \<Rightarrow> bool \<times> 'e"
  destroy_encoder :: "'e \<Rightarrow> 'e"
  encoder_configure :: "string \<Rightarrow> nat \<Rightarrow> 'e \<Rightarrow> ('e, status) asking"
  encoder_total_frames :: "'e \<Rightarrow> u64"
  encoder_read_float :: "nat \<Rightarrow> 'e \<Rightarrow> ('e, sample_float list) asking"
  encoder_status :: "'e \<Rightarrow> status"
  encoder_stop :: "'e \<Rightarrow> 'e"
  build_id :: string

section \<open>The owner's state\<close>

record tx_snapshot =
  snap_state :: u32
  snap_payload_bytes :: u32
  snap_frames_written :: u64
  snap_total_frames :: u64
  snap_rate :: u16
  snap_interleave :: u8
  snap_filename :: string
  snap_wav_sha256 :: string
  snap_error :: string

definition fresh_snapshot :: tx_snapshot where
  "fresh_snapshot = \<lparr>snap_state = 0, snap_payload_bytes = 0, snap_frames_written = 0, snap_total_frames = 0,
     snap_rate = 600, snap_interleave = 1, snap_filename = ''GEN.WAV'', snap_wav_sha256 = [], snap_error = ''none''\<rparr>"

record tx_artifact =
  art_encoder :: bool
  art_writer :: "wav_generator option"
  art_mounted :: bool
  art_payload_open :: bool
  art_output_open :: bool
  art_manifest_open :: bool
  art_cleanup_pending :: bool
  art_request_pending :: bool
  art_response_pending :: bool
  art_disconnected :: bool
  art_processing_request :: bool
  art_request_slot :: tx_request
  art_response_slot :: tx_reply
  art_snapshot :: tx_snapshot
  art_rate :: u16
  art_interleave :: u8
  art_encoder_name :: string
  art_profile :: string
  art_descriptor :: "encoder_descriptor option"
  art_input_path :: string
  art_output_path :: string
  art_temporary_path :: string
  art_manifest_path :: string
  art_manifest_temporary_path :: string

definition fresh_reply :: tx_reply where
  "fresh_reply = \<lparr>reply_ok = False, reply_error = ''none'', reply_payload_bytes = 0, reply_frames = 0,
     reply_generating = False, reply_complete = False\<rparr>"

definition fresh_artifact :: tx_artifact where
  "fresh_artifact = \<lparr>art_encoder = False, art_writer = None, art_mounted = False, art_payload_open = False,
     art_output_open = False, art_manifest_open = False, art_cleanup_pending = False, art_request_pending = False,
     art_response_pending = False, art_disconnected = False, art_processing_request = False,
     art_request_slot = fresh_request, art_response_slot = fresh_reply, art_snapshot = fresh_snapshot,
     art_rate = 600, art_interleave = 1, art_encoder_name = [], art_profile = [], art_descriptor = None,
     art_input_path = ''2:/WG/GEN.BIN'', art_output_path = ''2:/WG/GEN.WAV'', art_temporary_path = ''2:/WG/GEN.TMP'',
     art_manifest_path = ''2:/WG/GEN.JSON'', art_manifest_temporary_path = ''2:/WG/GEN.JMP''\<rparr>"

abbreviation set_state :: "u32 \<Rightarrow> tx_artifact \<Rightarrow> tx_artifact" where
  "set_state s a \<equiv> a\<lparr>art_snapshot := (art_snapshot a)\<lparr>snap_state := s\<rparr>\<rparr>"

abbreviation art_state :: "tx_artifact \<Rightarrow> u32" where
  "art_state a \<equiv> snap_state (art_snapshot a)"

section \<open>The job's source and sink\<close>

text \<open>The job runs on the world and the mark of the output file, which its sink opens.\<close>

definition file_bytes_read :: "'e tx_world \<Rightarrow> nat \<Rightarrow> 'e \<Rightarrow> bytes \<times> 'e" where
  "file_bytes_read w capacity e = (case card_read w capacity e of (r, e') \<Rightarrow> (case r of None \<Rightarrow> [] | Some bs \<Rightarrow> bs, e'))"

definition sink_append :: "'e tx_world \<Rightarrow> bytes \<Rightarrow> 'e \<Rightarrow> status \<times> 'e \<times> bool" where
  "sink_append w bs e =
     (case card_write w Output_file bs e of
        (r, actual, e') \<Rightarrow> (if r = Fr_ok \<and> actual = length bs then success else output_not_written, e', True))"

definition file_sink_write :: "'e tx_world \<Rightarrow> string \<Rightarrow> bytes \<Rightarrow> 'e \<times> bool \<Rightarrow> status \<times> 'e \<times> bool" where
  "file_sink_write w temporary bs = (\<lambda>(e, opened).
     if \<not> opened then
       (case card_open w Output_file temporary Create_new e of
          (r, e') \<Rightarrow> if r \<noteq> Fr_ok then (output_not_created, e', False) else sink_append w bs e')
     else sink_append w bs e)"

definition artifact_job :: "'e tx_world \<Rightarrow> string \<Rightarrow> ('e \<times> bool) job_ops" where
  "artifact_job w temporary =
     \<lparr>op_configure = (\<lambda>profile n (e, opened). recorded_asking (\<lambda>r m. m) (encoder_configure w profile n e) opened),
      op_total_frames = (\<lambda>(e, opened). encoder_total_frames w e),
      op_read_float = (\<lambda>request (e, opened). recorded_asking (\<lambda>r m. m) (encoder_read_float w request e) opened),
      op_status = (\<lambda>(e, opened). encoder_status w e),
      op_stop = (\<lambda>(e, opened). (encoder_stop w e, opened)),
      op_payload = (\<lambda>capacity (e, opened). case file_bytes_read w capacity e of (bs, e') \<Rightarrow> (bs, e', opened)),
      op_write = (\<lambda>bs x. file_sink_write w temporary bs x)\<rparr>"

section \<open>Closing and failing\<close>

text \<open>Closes a file marked open: whether it stays marked.\<close>

definition still_open :: "'e tx_world \<Rightarrow> card_file \<Rightarrow> bool \<Rightarrow> 'e \<Rightarrow> bool \<times> 'e" where
  "still_open w f opened e = (if opened then (case card_close w f e of (r, e') \<Rightarrow> (r \<noteq> Fr_ok, e')) else (False, e))"

definition close_files :: "'e tx_world \<Rightarrow> tx_artifact \<Rightarrow> 'e \<Rightarrow> status \<times> tx_artifact \<times> 'e" where
  "close_files w a e =
     (case still_open w Payload_file (art_payload_open a) e of (p, e) \<Rightarrow>
      case still_open w Output_file (art_output_open a) e of (out, e) \<Rightarrow>
      case still_open w Manifest_file (art_manifest_open a) e of (m, e) \<Rightarrow>
      let a = a\<lparr>art_payload_open := p, art_output_open := out, art_manifest_open := m\<rparr> in
      if p \<or> out \<or> m then (artifact_finalize_error, a\<lparr>art_cleanup_pending := True\<rparr>, e)
      else if art_mounted a then
        (case card_unmount w e of (r, e) \<Rightarrow>
           if r \<noteq> Fr_ok then (artifact_finalize_error, a\<lparr>art_cleanup_pending := True\<rparr>, e)
           else (success, a\<lparr>art_mounted := False, art_cleanup_pending := False\<rparr>, e))
      else (success, a\<lparr>art_cleanup_pending := False\<rparr>, e))"

definition stop_writer :: "'e tx_world \<Rightarrow> tx_artifact \<Rightarrow> 'e \<Rightarrow> tx_artifact \<times> 'e" where
  "stop_writer w a e =
     (case art_writer a of
        None \<Rightarrow> (a, e)
      | Some g \<Rightarrow>
          (case gen_stop (artifact_job w (art_temporary_path a)) g (e, art_output_open a) of
             (g', e', opened) \<Rightarrow> (a\<lparr>art_writer := Some g', art_output_open := opened\<rparr>, e')))"

definition art_fail :: "'e tx_world \<Rightarrow> string \<Rightarrow> tx_artifact \<Rightarrow> 'e \<Rightarrow> status \<times> tx_artifact \<times> 'e" where
  "art_fail w error_text a e =
     (case stop_writer w a e of (a, e) \<Rightarrow>
      case close_files w a e of (cleanup, a, e) \<Rightarrow>
        (cleanup,
         a\<lparr>art_snapshot := (art_snapshot a)\<lparr>snap_state := 4,
             snap_error := (if is_ok cleanup then error_text else message cleanup)\<rparr>\<rparr>, e))"

definition art_mount :: "'e tx_world \<Rightarrow> tx_artifact \<Rightarrow> 'e \<Rightarrow> status \<times> tx_artifact \<times> 'e" where
  "art_mount w a e =
     (if art_cleanup_pending a then (refusal_busy, a, e)
      else if \<not> media_local w e then (media_not_local, a, e)
      else if art_mounted a then (success, a, e)
      else
        let a = a\<lparr>art_mounted := True\<rparr>;
            give_up = (\<lambda>e. case close_files w a e of
              (cleanup, a, e) \<Rightarrow> (if is_ok cleanup then media_failed else cleanup, a, e)) in
        case card_mount w e of (r, e) \<Rightarrow>
          if r \<noteq> Fr_ok then give_up e
          else
            case card_mkdir w ''2:/WG'' e of (d, e) \<Rightarrow>
              if d \<noteq> Fr_ok \<and> d \<noteq> Fr_exist then give_up e else (success, a, e))"

section \<open>Paths\<close>

text \<open>\<^verbatim>\<open>make_path()\<close>; with an extension, it replaces the last dot of the path and what follows.\<close>

definition last_dot :: "string \<Rightarrow> nat" where
  "last_dot path = length path - length (takeWhile (\<lambda>c. c \<noteq> CHR ''.'') (rev path)) - 1"

definition make_path :: "string \<Rightarrow> string option \<Rightarrow> string" where
  "make_path filename extension =
     (let path = ''2:/WG/'' @ filename in
      case extension of None \<Rightarrow> path | Some ext \<Rightarrow> take (last_dot path) path @ ext)"

definition select_output :: "string \<Rightarrow> tx_artifact \<Rightarrow> tx_artifact" where
  "select_output name a =
     a\<lparr>art_snapshot := fresh_snapshot\<lparr>snap_filename := name\<rparr>,
       art_output_path := make_path name None,
       art_input_path := make_path name (Some ''.BIN''),
       art_temporary_path := make_path name (Some ''.TMP''),
       art_manifest_path := make_path name (Some ''.JSON''),
       art_manifest_temporary_path := make_path name (Some ''.JMP'')\<rparr>"

definition check_absent :: "'e tx_world \<Rightarrow> string \<Rightarrow> 'e \<Rightarrow> status \<times> 'e" where
  "check_absent w path e =
     (case card_stat w path e of (found, e) \<Rightarrow>
        (if found = Fr_no_file then success else if found = Fr_ok then output_exists else output_unchecked, e))"

primrec check_all_absent :: "'e tx_world \<Rightarrow> string list \<Rightarrow> 'e \<Rightarrow> status \<times> 'e" where
  "check_all_absent w [] e = (success, e)"
| "check_all_absent w (path # paths) e =
     (case check_absent w path e of (free, e) \<Rightarrow> if \<not> is_ok free then (free, e) else check_all_absent w paths e)"

definition check_outputs_absent :: "'e tx_world \<Rightarrow> tx_artifact \<Rightarrow> 'e \<Rightarrow> status \<times> 'e" where
  "check_outputs_absent w a e =
     check_all_absent w [art_output_path a, art_manifest_path a, art_temporary_path a, art_manifest_temporary_path a] e"

section \<open>Starting a job\<close>

definition maximum_upload_bytes :: u32 where "maximum_upload_bytes = 1024 * 1024"

definition open_named_payload :: "'e tx_world \<Rightarrow> tx_artifact \<Rightarrow> 'e \<Rightarrow> (status + u64) \<times> tx_artifact \<times> 'e" where
  "open_named_payload w a e =
     (case card_open w Payload_file (art_input_path a) Open_read e of (r, e) \<Rightarrow>
        if r \<noteq> Fr_ok then (Inl bad_payload_file, a, e)
        else
          let a = a\<lparr>art_payload_open := True\<rparr>; size_bytes = card_size w Payload_file e in
          if size_bytes > ucast maximum_upload_bytes then (Inl payload_too_large, a, e)
          else (Inr size_bytes, a, e))"

definition open_payload :: "'e tx_world \<Rightarrow> tx_artifact \<Rightarrow> 'e \<Rightarrow> (status + u64) \<times> tx_artifact \<times> 'e" where
  "open_payload w a e =
     (if art_payload_open a then
        (case card_sync w Payload_file e of (good, e) \<Rightarrow>
         case card_close w Payload_file e of (shut, e) \<Rightarrow>
         let a = (if shut = Fr_ok then a\<lparr>art_payload_open := False\<rparr> else a) in
         if good \<noteq> Fr_ok \<or> shut \<noteq> Fr_ok then (Inl payload_write_error, a, e)
         else open_named_payload w a e)
      else open_named_payload w a e)"

definition interleave_name :: "u8 \<Rightarrow> string" where
  "interleave_name i = (if i = 0 then ''short'' else if i = 1 then ''long'' else ''zero'')"

text \<open>The profile of the older commands, cut to the field's 31 characters.\<close>

definition legacy_profile :: "u16 \<Rightarrow> u8 \<Rightarrow> string" where
  "legacy_profile r i = take 31 (uint64_text Decimal_radix 1 (ucast r) @ '':'' @ interleave_name i)"

text \<open>The job's start once the payload is open and the encoder constructed.\<close>

definition begin_job :: "'e tx_world \<Rightarrow> u64 \<Rightarrow> tx_artifact \<Rightarrow> 'e \<Rightarrow> status \<times> tx_artifact \<times> 'e" where
  "begin_job w size_bytes a e =
     (let a = (if art_profile a = [] then a\<lparr>art_profile := legacy_profile (art_rate a) (art_interleave a)\<rparr> else a);
          g = (case art_writer a of None \<Rightarrow> fresh_generator | Some g \<Rightarrow> g) in
      case gen_begin (artifact_job w (art_temporary_path a)) (art_profile a) (unat size_bytes) 48000 pcm24_encoding g
          (e, art_output_open a) of
        (g, e, opened) \<Rightarrow>
          let a = a\<lparr>art_writer := Some g, art_output_open := opened\<rparr> in
          if \<not> is_ok (gen_status g) then (gen_status g, a, e)
          else
            (success,
             a\<lparr>art_snapshot := (art_snapshot a)\<lparr>snap_state := 2, snap_payload_bytes := ucast size_bytes,
                 snap_frames_written := 0, snap_total_frames := gen_total_frames g, snap_error := ''none''\<rparr>\<rparr>, e))"

definition construct_and_begin :: "'e tx_world \<Rightarrow> encoder_descriptor \<Rightarrow> u64 \<Rightarrow> tx_artifact \<Rightarrow> 'e \<Rightarrow>
    status \<times> tx_artifact \<times> 'e" where
  "construct_and_begin w d size_bytes a e =
     (case stop_writer w a e of (a, e) \<Rightarrow>
      let e = (if art_encoder a then destroy_encoder w e else e) in
      case construct_encoder w d e of (made, e) \<Rightarrow>
      let a = a\<lparr>art_encoder := made\<rparr> in
      if \<not> made then (encoder_workspace_error, a, e) else begin_job w size_bytes a e)"

definition start_generation :: "'e tx_world \<Rightarrow> tx_artifact \<Rightarrow> 'e \<Rightarrow> status \<times> tx_artifact \<times> 'e" where
  "start_generation w a e =
     (let a = a\<lparr>art_descriptor := find_encoder (plugin_encoders w) (art_encoder_name a)\<rparr> in
      case art_descriptor a of
        None \<Rightarrow> (unknown_encoder, a, e)
      | Some d \<Rightarrow>
          (case art_mount w a e of (media, a, e) \<Rightarrow>
           if \<not> is_ok media then (media, a, e)
           else
             case check_outputs_absent w a e of (free, e) \<Rightarrow>
             if \<not> is_ok free then (free, a, e)
             else
               case open_payload w a e of (payload, a, e) \<Rightarrow>
               (case payload of
                  Inl why \<Rightarrow> (why, a, e)
                | Inr size_bytes \<Rightarrow> construct_and_begin w d size_bytes a e)))"

section \<open>Publishing\<close>

text \<open>
  \<^verbatim>\<open>hex()\<close> returns for the digests of a job (\<open>WavArtifact\<close>); where it would not, the empty texts stand
  for the call that does not return.
\<close>

definition job_hashes :: "wav_generator \<Rightarrow> artifact_hashes" where
  "job_hashes g = (case gen_hashes g of Some h \<Rightarrow> h | None \<Rightarrow> \<lparr>hash_payload = [], hash_wav = [], hash_pcm = []\<rparr>)"

definition text_of :: "string option \<Rightarrow> string" where
  "text_of t = (case t of None \<Rightarrow> [] | Some x \<Rightarrow> x)"

definition quoted :: "string \<Rightarrow> string \<Rightarrow> string" where
  "quoted key v = CHR 0x22 # key @ [CHR 0x22, CHR '':'', CHR 0x22] @ v @ [CHR 0x22]"

definition key_text :: "string \<Rightarrow> string" where
  "key_text key = CHR 0x22 # key @ [CHR 0x22, CHR '':'']"

definition manifest_text :: "'e tx_world \<Rightarrow> tx_artifact \<Rightarrow> artifact_hashes \<Rightarrow> string" where
  "manifest_text w a h =
     (let d = art_descriptor a;
          descriptor_text = (\<lambda>f. case d of None \<Rightarrow> [] | Some x \<Rightarrow> text_of (f x));
          nl = [CHR 0x0A] in
      ''{'' @ nl @ quoted ''schema'' ''waveform-artifact/1'' @ '','' @
      quoted ''encoder'' (descriptor_text encoder_id) @ '','' @ quoted ''generator'' (descriptor_text encoder_version) @ '','' @
      quoted ''build_id'' (build_id w) @ '','' @ quoted ''profile'' (art_profile a) @ '','' @
      key_text ''sample_rate_hz'' @ ''48000,'' @ key_text ''channels'' @ ''1,'' @ key_text ''bits_per_sample'' @ ''24,'' @
      key_text ''frames'' @ uint64_text Decimal_radix 1 (snap_total_frames (art_snapshot a)) @ '','' @
      key_text ''trailing_silence_frames'' @ ''48000,'' @
      key_text ''payload'' @ ''{'' @ quoted ''path'' (drop 6 (art_input_path a)) @ '','' @
      key_text ''bytes'' @ uint64_text Decimal_radix 1 (ucast (snap_payload_bytes (art_snapshot a))) @ '','' @
      quoted ''sha256'' (hash_payload h) @ ''},'' @
      key_text ''wav'' @ ''{'' @ quoted ''path'' (snap_filename (art_snapshot a)) @ '','' @ quoted ''sha256'' (hash_wav h) @ '','' @
      quoted ''pcm_sha256'' (hash_pcm h) @ ''},'' @ key_text ''complete'' @ ''true}'' @ nl)"

definition metadata_capacity :: nat where "metadata_capacity = 1536"

definition rename_outputs :: "'e tx_world \<Rightarrow> string \<Rightarrow> tx_artifact \<Rightarrow> 'e \<Rightarrow> status \<times> tx_artifact \<times> 'e" where
  "rename_outputs w wav_hash a e =
     (case card_rename w (art_temporary_path a) (art_output_path a) e of (r, e) \<Rightarrow>
      if r \<noteq> Fr_ok then (artifact_finalize_error, a, e)
      else
        case card_rename w (art_manifest_temporary_path a) (art_manifest_path a) e of (r, e) \<Rightarrow>
        if r \<noteq> Fr_ok then
          (artifact_finalize_error, a, snd (card_rename w (art_output_path a) (art_temporary_path a) e))
        else
          let a = a\<lparr>art_snapshot := (art_snapshot a)\<lparr>snap_wav_sha256 := wav_hash, snap_state := 3\<rparr>\<rparr> in
          case close_files w a e of (cleanup, a, e) \<Rightarrow>
            (success,
             if is_ok cleanup then a else a\<lparr>art_snapshot := (art_snapshot a)\<lparr>snap_error := message cleanup\<rparr>\<rparr>, e))"

definition write_manifest :: "'e tx_world \<Rightarrow> artifact_hashes \<Rightarrow> tx_artifact \<Rightarrow> 'e \<Rightarrow> status \<times> tx_artifact \<times> 'e" where
  "write_manifest w h a e =
     (let metadata = manifest_text w a h in
      if length metadata \<ge> metadata_capacity then (artifact_finalize_error, a, e)
      else
        case card_open w Manifest_file (art_manifest_temporary_path a) Create_new e of (r, e) \<Rightarrow>
        if r \<noteq> Fr_ok then (artifact_finalize_error, a, e)
        else
          case card_write w Manifest_file (tag_bytes metadata) e of (wrote, actual, e) \<Rightarrow>
          case card_sync w Manifest_file e of (synced, e) \<Rightarrow>
          case card_close w Manifest_file e of (shut, e) \<Rightarrow>
          let a = a\<lparr>art_manifest_open := (shut \<noteq> Fr_ok)\<rparr> in
          if \<not> (wrote = Fr_ok \<and> actual = length metadata) \<or> synced \<noteq> Fr_ok \<or> shut \<noteq> Fr_ok
          then (artifact_finalize_error, a, e)
          else rename_outputs w (hash_wav h) a e)"

text \<open>It runs with a writer whose job is complete.\<close>

definition publish_artifact :: "'e tx_world \<Rightarrow> wav_generator \<Rightarrow> tx_artifact \<Rightarrow> 'e \<Rightarrow> status \<times> tx_artifact \<times> 'e" where
  "publish_artifact w g a e =
     (case card_sync w Output_file e of (synced, e) \<Rightarrow>
      if synced \<noteq> Fr_ok then (artifact_finalize_error, a, e)
      else
        case still_open w Output_file (art_output_open a) e of (out, e) \<Rightarrow>
        case still_open w Payload_file (art_payload_open a) e of (p, e) \<Rightarrow>
        let a = a\<lparr>art_output_open := out, art_payload_open := p\<rparr> in
        if out \<or> p then (artifact_finalize_error, a, e)
        else write_manifest w (job_hashes g) a e)"

section \<open>Requests\<close>

definition failed_transaction :: "'e tx_world \<Rightarrow> status \<times> tx_artifact \<times> 'e \<Rightarrow> status \<times> tx_artifact \<times> 'e" where
  "failed_transaction w = (\<lambda>(failure, a, e).
     if \<not> is_ok failure then
       (case art_fail w (message failure) a e of (cleanup, a, e) \<Rightarrow>
          if \<not> is_ok cleanup then (cleanup, a, e) else (failure, a, e))
     else (failure, a, e))"

definition select_defaults :: "tx_artifact \<Rightarrow> tx_artifact" where
  "select_defaults a =
     select_output ''GEN.WAV''
       (a\<lparr>art_rate := snap_rate fresh_snapshot, art_interleave := snap_interleave fresh_snapshot, art_encoder_name := [],
          art_profile := []\<rparr>)"

definition serve_reset :: "'e tx_world \<Rightarrow> tx_artifact \<Rightarrow> 'e \<Rightarrow> status \<times> tx_artifact \<times> 'e" where
  "serve_reset w a e =
     (case (if art_state a = 1 \<or> art_state a = 2 then art_fail w ''ABORTED'' a e else close_files w a e) of
        (cleanup, a, e) \<Rightarrow>
          if \<not> is_ok cleanup then (cleanup, a, e) else (success, select_defaults a, e))"

definition serve_mode :: "tx_request \<Rightarrow> tx_artifact \<Rightarrow> 'e \<Rightarrow> status \<times> tx_artifact \<times> 'e" where
  "serve_mode r a e =
     (if mode_token (request_rate r) (request_interleave r) = None then (bad_mode, a, e)
      else
        (success,
         a\<lparr>art_rate := request_rate r, art_interleave := request_interleave r, art_encoder_name := [], art_profile := []\<rparr>, e))"

definition serve_select :: "'e tx_world \<Rightarrow> tx_request \<Rightarrow> tx_artifact \<Rightarrow> 'e \<Rightarrow> status \<times> tx_artifact \<times> 'e" where
  "serve_select w r a e =
     (if art_state a = 1 then (upload_in_progress, a, e)
      else if \<not> valid_filename (request_name r) ''WAV'' then (bad_filename, a, e)
      else
        case close_files w a e of (cleanup, a, e) \<Rightarrow>
          if \<not> is_ok cleanup then (cleanup, a, e)
          else (success, (select_output (request_name r) a)\<lparr>art_encoder_name := [], art_profile := []\<rparr>, e))"

text \<open>The bytes of a request are its buffer's first \<^verbatim>\<open>size\<close>.\<close>

definition write_payload :: "'e tx_world \<Rightarrow> tx_request \<Rightarrow> tx_artifact \<Rightarrow> 'e \<Rightarrow> status \<times> tx_artifact \<times> 'e" where
  "write_payload w r a e =
     (case card_write w Payload_file (take (unat (request_size r)) (request_data r)) e of (wrote, actual, e) \<Rightarrow>
      if wrote \<noteq> Fr_ok \<or> actual \<noteq> unat (request_size r) then failed_transaction w (payload_write_error, a, e)
      else
        (success,
         a\<lparr>art_snapshot := (art_snapshot a)\<lparr>snap_payload_bytes := snap_payload_bytes (art_snapshot a) + ucast (request_size r),
             snap_state := 1\<rparr>\<rparr>, e))"

definition append_payload :: "'e tx_world \<Rightarrow> tx_request \<Rightarrow> tx_artifact \<Rightarrow> 'e \<Rightarrow> status \<times> tx_artifact \<times> 'e" where
  "append_payload w r a e =
     (if \<not> art_payload_open a then
        (case card_open w Payload_file (art_input_path a) Create_new e of (opened, e) \<Rightarrow>
           if opened \<noteq> Fr_ok then failed_transaction w (payload_exists_or_io_error, a, e)
           else write_payload w r (a\<lparr>art_payload_open := True\<rparr>) e)
      else write_payload w r a e)"

definition serve_data :: "'e tx_world \<Rightarrow> tx_request \<Rightarrow> tx_artifact \<Rightarrow> 'e \<Rightarrow> status \<times> tx_artifact \<times> 'e" where
  "serve_data w r a e =
     (if art_state a \<noteq> 0 \<and> art_state a \<noteq> 1 then (select_new_file, a, e)
      else if request_size r = 0 \<or> unat (request_size r) > maximum_payload \<or>
        ucast (request_size r) > maximum_upload_bytes - snap_payload_bytes (art_snapshot a)
      then (payload_too_large, a, e)
      else
        case art_mount w a e of (media, a, e) \<Rightarrow>
          if \<not> is_ok media then (media, a, e) else append_payload w r a e)"

definition serve_send :: "'e tx_world \<Rightarrow> tx_artifact \<Rightarrow> 'e \<Rightarrow> status \<times> tx_artifact \<times> 'e" where
  "serve_send w a e =
     (if art_state a \<noteq> 1 then (no_uploaded_payload, a, e) else failed_transaction w (start_generation w a e))"

definition serve_generate :: "'e tx_world \<Rightarrow> tx_request \<Rightarrow> tx_artifact \<Rightarrow> 'e \<Rightarrow> status \<times> tx_artifact \<times> 'e" where
  "serve_generate w r a e =
     (if art_state a = 1 then (upload_in_progress, a, e)
      else if \<not> valid_filename (request_name r) ''WAV'' \<or> \<not> valid_filename (request_input_name r) ''BIN''
      then (bad_filename, a, e)
      else
        case close_files w a e of (cleanup, a, e) \<Rightarrow>
          if \<not> is_ok cleanup then (cleanup, a, e)
          else
            failed_transaction w
              (start_generation w
                 ((select_output (request_name r) a)\<lparr>art_input_path := make_path (request_input_name r) None,
                    art_rate := request_rate r, art_interleave := request_interleave r,
                    art_encoder_name := request_encoder r, art_profile := request_profile r\<rparr>) e))"

definition serve_request :: "'e tx_world \<Rightarrow> tx_request \<Rightarrow> tx_artifact \<Rightarrow> 'e \<Rightarrow> status \<times> tx_artifact \<times> 'e" where
  "serve_request w r a e =
     (if request_kind r = Kind_info \<or> request_kind r = Kind_query then (success, a, e)
      else if request_kind r = Kind_reset then serve_reset w a e
      else if art_cleanup_pending a then (refusal_busy, a, e)
      else if player_busy w e \<or> art_state a = 2 then (refusal_busy, a, e)
      else
        case request_kind r of
          Kind_mode \<Rightarrow> serve_mode r a e
        | Kind_select \<Rightarrow> serve_select w r a e
        | Kind_data \<Rightarrow> serve_data w r a e
        | Kind_send \<Rightarrow> serve_send w a e
        | Kind_generate_file \<Rightarrow> serve_generate w r a e
        | _ \<Rightarrow> (refusal_bad_request, a, e))"

section \<open>The owner's entry points\<close>

definition failed_quietly :: "'e tx_world \<Rightarrow> string \<Rightarrow> tx_artifact \<Rightarrow> 'e \<Rightarrow> tx_artifact \<times> 'e" where
  "failed_quietly w error_text a e = snd (art_fail w error_text a e)"

definition continue_with :: "'e tx_world \<Rightarrow> wav_generator \<Rightarrow> tx_artifact \<Rightarrow> 'e \<Rightarrow> tx_artifact \<times> 'e" where
  "continue_with w g a e =
     (case gen_step (artifact_job w (art_temporary_path a)) maximum_step_frames g (e, art_output_open a) of
        (g, e, opened) \<Rightarrow>
          let a = a\<lparr>art_writer := Some g, art_output_open := opened,
                    art_snapshot := (art_snapshot a)\<lparr>snap_frames_written := gen_frames_written g\<rparr>\<rparr> in
          if gen_state g = Job_failed then failed_quietly w (message (gen_status g)) a e
          else if gen_state g = Job_complete then
            (case publish_artifact w g a e of (published, a, e) \<Rightarrow>
               if \<not> is_ok published then failed_quietly w (message published) a e else (a, e))
          else (a, e))"

text \<open>In state 2 there is a writer; without one the code would follow a null pointer.\<close>

definition continue_generation :: "'e tx_world \<Rightarrow> tx_artifact \<Rightarrow> 'e \<Rightarrow> tx_artifact \<times> 'e" where
  "continue_generation w a e = (case art_writer a of None \<Rightarrow> (a, e) | Some g \<Rightarrow> continue_with w g a e)"

definition submit_tx_request :: "tx_request \<Rightarrow> tx_artifact \<Rightarrow> status \<times> tx_artifact" where
  "submit_tx_request r a =
     (if art_request_pending a \<or> art_response_pending a \<or> art_disconnected a then (refusal_busy, a)
      else (success, a\<lparr>art_request_slot := r, art_request_pending := True\<rparr>))"

definition take_tx_reply :: "tx_artifact \<Rightarrow> tx_reply option \<times> tx_artifact" where
  "take_tx_reply a =
     (if \<not> art_response_pending a then (None, a)
      else (Some (art_response_slot a), a\<lparr>art_response_pending := False\<rparr>))"

definition tx_artifact_busy :: "tx_artifact \<Rightarrow> bool" where
  "tx_artifact_busy a \<longleftrightarrow> art_mounted a \<or> art_payload_open a \<or> art_output_open a \<or> art_manifest_open a \<or>
     art_cleanup_pending a \<or> art_request_pending a \<or> art_processing_request a \<or> art_state a = 2"

definition tx_artifact_snapshot :: "tx_artifact \<Rightarrow> tx_snapshot" where
  "tx_artifact_snapshot a = (art_snapshot a)\<lparr>snap_rate := art_rate a, snap_interleave := art_interleave a\<rparr>"

definition disconnect_tx_artifact :: "tx_artifact \<Rightarrow> tx_artifact" where
  "disconnect_tx_artifact a = a\<lparr>art_disconnected := True\<rparr>"

definition close_quietly :: "'e tx_world \<Rightarrow> tx_artifact \<Rightarrow> 'e \<Rightarrow> tx_artifact \<times> 'e" where
  "close_quietly w a e = snd (close_files w a e)"

definition abort_tx_artifact :: "'e tx_world \<Rightarrow> tx_artifact \<Rightarrow> 'e \<Rightarrow> tx_artifact \<times> 'e" where
  "abort_tx_artifact w a e =
     (if art_state a = 1 \<or> art_state a = 2 then failed_quietly w ''ABORTED'' a e
      else if art_cleanup_pending a then close_quietly w a e
      else (a, e))"

definition serve_disconnect :: "'e tx_world \<Rightarrow> tx_artifact \<Rightarrow> 'e \<Rightarrow> tx_artifact \<times> 'e" where
  "serve_disconnect w a e =
     (if art_disconnected a then
        (let a = a\<lparr>art_disconnected := False, art_request_pending := False, art_response_pending := False\<rparr> in
         if art_state a = 1 then failed_quietly w ''UPLOAD_DISCONNECTED'' a e
         else if art_cleanup_pending a then close_quietly w a e
         else (a, e))
      else (a, e))"

definition reply_for :: "status \<Rightarrow> tx_artifact \<Rightarrow> tx_reply" where
  "reply_for served a =
     \<lparr>reply_ok = is_ok served, reply_error = (if is_ok served then ''none'' else message served),
      reply_payload_bytes = snap_payload_bytes (art_snapshot a), reply_frames = snap_frames_written (art_snapshot a),
      reply_generating = (art_state a = 2), reply_complete = (art_state a = 3)\<rparr>"

definition serve_mailbox :: "'e tx_world \<Rightarrow> tx_artifact \<Rightarrow> 'e \<Rightarrow> tx_artifact \<times> 'e" where
  "serve_mailbox w a e =
     (if art_request_pending a then
        (case serve_request w (art_request_slot a) (a\<lparr>art_request_pending := False, art_processing_request := True\<rparr>) e of
           (served, a, e) \<Rightarrow>
             (a\<lparr>art_response_slot := reply_for served a, art_response_pending := True, art_processing_request := False\<rparr>, e))
      else (a, e))"

definition service_tx_artifact :: "'e tx_world \<Rightarrow> tx_artifact \<Rightarrow> 'e \<Rightarrow> tx_artifact \<times> 'e" where
  "service_tx_artifact w a e =
     (case serve_disconnect w a e of (a, e) \<Rightarrow>
      case serve_mailbox w a e of (a, e) \<Rightarrow>
        if art_state a = 2 then continue_generation w a e else (a, e))"

end
