(* ===== verification/TxCard.thy ===== *)
theory TxCard
  imports TxArtifact WavArtifact
begin

text \<open>
  What the owner of a transmit artifact relies on of the card's file system, and what a WAV job does to
  the world it runs in.
\<close>

section \<open>A job and its environment\<close>

text \<open>A computation of the encoder that keeps \<open>I\<close> of the environment, whatever it is answered.\<close>

primrec asking_keeps :: "('e \<Rightarrow> bool) \<Rightarrow> ('e, 'r) asking \<Rightarrow> bool" where
  "asking_keeps I (Gives r e) = I e"
| "asking_keeps I (Asks capacity e k) = (I e \<and> (\<forall>bs e'. I e' \<longrightarrow> asking_keeps I (k bs e')))"

text \<open>
  Operations that keep \<open>I\<close>; a write that fails may break it down to \<open>J\<close>.
\<close>

definition ops_keep :: "('e \<Rightarrow> bool) \<Rightarrow> ('e \<Rightarrow> bool) \<Rightarrow> 'e job_ops \<Rightarrow> bool" where
  "ops_keep I J ops \<longleftrightarrow>
     (\<forall>e. I e \<longrightarrow> J e) \<and>
     (\<forall>profile n e. I e \<longrightarrow> asking_keeps I (op_configure ops profile n e)) \<and>
     (\<forall>request e. I e \<longrightarrow> asking_keeps I (op_read_float ops request e)) \<and>
     (\<forall>e. J e \<longrightarrow> J (op_stop ops e)) \<and>
     (\<forall>e. I e \<longrightarrow> I (op_stop ops e)) \<and>
     (\<forall>capacity e. I e \<longrightarrow> I (snd (op_payload ops capacity e))) \<and>
     (\<forall>bs e. I e \<longrightarrow> (if is_ok (fst (op_write ops bs e)) then I (snd (op_write ops bs e)) else J (snd (op_write ops bs e))))"

lemma ask_keeps:
  assumes "ops_keep I J ops" and "asking_keeps I a" and "ask ops a g = (r, g', e')"
  shows "I e'"
  using assms(2,3)
proof (induction a arbitrary: g)
  case (Asks capacity e k)
  obtain bs h x where read: "gen_read ops capacity g e = (bs, h, x)" by (rule prod_cases3)
  have "I (snd (op_payload ops capacity e))" using assms(1) Asks.prems(1) by (simp add: ops_keep_def)
  then have "I x" using read by (auto simp: gen_read_def split: prod.splits if_splits)
  then show ?case using Asks.IH [OF rangeI rangeI, of bs x h] Asks.prems by (simp add: read)
qed simp

lemma ask_state: "ask ops a g = (r, g', e') \<Longrightarrow> gen_state g' = gen_state g"
proof (induction a arbitrary: g)
  case (Asks capacity e k)
  obtain bs h x where read: "gen_read ops capacity g e = (bs, h, x)" by (rule prod_cases3)
  then have "gen_state h = gen_state g" by (auto simp: gen_read_def split: prod.splits if_splits)
  then show ?case using Asks.IH [OF rangeI rangeI, of bs x h] Asks.prems by (simp add: read)
qed simp

text \<open>What a job that \<open>I\<close> held for leaves: \<open>I\<close>, or \<open>J\<close> where it failed.\<close>

definition left_by :: "('e \<Rightarrow> bool) \<Rightarrow> ('e \<Rightarrow> bool) \<Rightarrow> wav_generator \<times> 'e \<Rightarrow> bool" where
  "left_by I J = (\<lambda>(g, e). if gen_state g = Job_failed then J e else I e)"

lemma gen_fail_left: "ops_keep I J ops \<Longrightarrow> J e \<Longrightarrow> left_by I J (gen_fail ops st g e)"
  by (simp add: left_by_def gen_fail_def ops_keep_def)

lemma ops_keepD: "ops_keep I J ops \<Longrightarrow> I e \<Longrightarrow> J e"
  by (simp add: ops_keep_def)

lemma gen_write_left:
  assumes "ops_keep I J ops" and "I e" and "op_write ops bs e = (st, e')"
  shows "is_ok st \<Longrightarrow> I e'" and "J e'"
proof -
  have w: "if is_ok st then I e' else J e'" using assms unfolding ops_keep_def by (metis fst_conv snd_conv)
  then show "is_ok st \<Longrightarrow> I e'" by simp
  show "J e'" using w ops_keepD [OF assms(1)] by (cases "is_ok st") simp_all
qed

lemma gen_open_left:
  assumes "ops_keep I J ops" and "I e"
  shows "left_by I J (gen_open ops trailing g e)"
proof -
  have fail: "left_by I J (gen_fail ops st h e)" for st h
    using gen_fail_left [OF assms(1) ops_keepD [OF assms]] .
  let ?total = "op_total_frames ops e + ucast trailing"
  obtain st e1 where out: "op_write ops (wav_header (gen_sample_bytes g) (ucast (?total * ucast (gen_sample_bytes g)))) e = (st, e1)"
    by force
  note w = gen_write_left [OF assms out]
  have failed: "left_by I J (gen_fail ops st' h e1)" for st' h using gen_fail_left [OF assms(1) w(2)] .
  show ?thesis using out w(1) fail failed by (simp add: gen_open_def Let_def) (simp add: left_by_def)
qed

lemma gen_emit_left:
  assumes "ops_keep I J ops" and "I e" and "gen_state g \<noteq> Job_failed"
  shows "left_by I J (gen_emit ops fs g e)"
proof -
  have fail: "left_by I J (gen_fail ops st h e)" for st h
    using gen_fail_left [OF assms(1) ops_keepD [OF assms(1,2)]] .
  show ?thesis
  proof (cases "length fs = 0 \<or> \<not> list_all is_finite fs")
    case True
    then show ?thesis using fail by (auto simp: gen_emit_def)
  next
    case False
    obtain st e' where out: "op_write ops (concat (map (frame_bytes (gen_sample_bytes g)) fs)) e = (st, e')" by force
    note w = gen_write_left [OF assms(1,2) out]
    show ?thesis using False w gen_fail_left [OF assms(1) w(2)] assms(3)
      by (auto simp: gen_emit_def out Let_def left_by_def)
  qed
qed

lemma gen_pull_left:
  assumes "ops_keep I J ops" and "I e"
  shows "gen_pull ops limit g e = Inl failed \<Longrightarrow> left_by I J failed"
    and "gen_pull ops limit g e = Inr (frames, g', e') \<Longrightarrow> I e' \<and> gen_state g' = gen_state g"
proof -
  have asked: "I e'" if "ask ops (op_read_float ops k e) g = (r, h, e')" for k r h e'
    using ask_keeps [OF assms(1) _ that] assms by (simp add: ops_keep_def)
  show "gen_pull ops limit g e = Inl failed \<Longrightarrow> left_by I J failed"
    using gen_fail_left [OF assms(1)] ops_keepD [OF assms(1)]
    by (auto simp: gen_pull_def Let_def dest: asked split: if_splits prod.splits)
  show "gen_pull ops limit g e = Inr (frames, g', e') \<Longrightarrow> I e' \<and> gen_state g' = gen_state g"
    using assms(2) by (auto simp: gen_pull_def Let_def dest: asked ask_state split: if_splits prod.splits)
qed

lemma gen_step_left:
  assumes "ops_keep I J ops" and "I e" and "gen_state g \<noteq> Job_failed"
  shows "left_by I J (gen_step ops m g e)"
proof (cases "gen_state g \<noteq> Job_running \<or> m = 0")
  case True
  then show ?thesis using assms(2,3) by (simp add: gen_step_def left_by_def)
next
  case False
  show ?thesis
  proof (cases "gen_pull ops (step_limit m g) g e")
    case (Inl failed)
    then show ?thesis using gen_pull_left(1) [OF assms(1,2) Inl] False by (simp add: gen_step_def)
  next
    case (Inr pulled)
    obtain frames h x where pulled: "pulled = (frames, h, x)" by (rule prod_cases3)
    from gen_pull_left(2) [OF assms(1,2) Inr [unfolded this]] have x: "I x" "gen_state h \<noteq> Job_failed"
      using False by simp_all
    show ?thesis using False gen_emit_left [OF assms(1) x] by (simp add: gen_step_def Inr pulled)
  qed
qed

lemma gen_begin_left:
  assumes "ops_keep I J ops" and "I e"
  shows "left_by I J (gen_begin ops profile n trailing encoding g e)"
proof -
  obtain h e0 where stopped: "gen_stop ops g e = (h, e0)" by force
  then have e0: "I e0" using assms by (auto simp: gen_stop_def ops_keep_def split: if_splits)
  have fail: "left_by I J (gen_fail ops st k e1)" if "I e1" for st k e1
    using gen_fail_left [OF assms(1) ops_keepD [OF assms(1) that]] .
  have "asking_keeps I (op_configure ops profile n e0)" using assms(1) e0 by (simp add: ops_keep_def)
  then have asked: "I e1" if "ask ops (op_configure ops profile n e0) k = (st, k', e1)" for st k k' e1
    using ask_keeps [OF assms(1) _ that] by simp
  show ?thesis using e0
    by (auto simp: gen_begin_def stopped Let_def intro: fail gen_open_left [OF assms(1)] dest: asked split: prod.split)
qed

section \<open>The record of a job changes nothing else\<close>

text \<open>A recorded job and the job itself do the same.\<close>

lemma gen_fail_recorded:
  "gen_fail (recorded ops) st g (e, l) = (fst (gen_fail ops st g e), snd (gen_fail ops st g e), l)"
  by (simp add: gen_fail_def)

lemma gen_read_plain:
  "gen_read (recorded ops) capacity g (e, l) = (bs, g', x) \<Longrightarrow> gen_read ops capacity g e = (bs, g', fst x)"
  by (auto simp: gen_read_def split: prod.splits if_splits)

lemma ask_plain: "ask (recorded ops) (recorded_asking f a l) g = (r, g', x) \<Longrightarrow> ask ops a g = (r, g', fst x)"
proof (induction a arbitrary: g l)
  case (Asks capacity e k)
  obtain bs h y where read: "gen_read (recorded ops) capacity g (e, l) = (bs, h, y)" by (rule prod_cases3)
  then show ?case using gen_read_plain [OF read] Asks.IH [OF rangeI rangeI, of bs "fst y" "snd y" h] Asks.prems
    by simp
qed auto

lemma gen_open_plain:
  assumes "gen_open (recorded ops) trailing g (e, l) = (g', x)"
  shows "gen_open ops trailing g e = (g', fst x)"
proof -
  let ?total = "op_total_frames ops e + ucast trailing"
  obtain st e1 where "op_write ops (wav_header (gen_sample_bytes g) (ucast (?total * ucast (gen_sample_bytes g)))) e = (st, e1)"
    by force
  then show ?thesis using assms by (auto simp: gen_open_def gen_fail_recorded Let_def split: if_splits)
qed

lemma gen_begin_plain:
  assumes "gen_begin (recorded ops) profile n trailing encoding g (e, l) = (g', x)"
  shows "gen_begin ops profile n trailing encoding g e = (g', fst x)"
proof -
  obtain h e0 where stop: "gen_stop ops g e = (h, e0)" by force
  then have stop': "gen_stop (recorded ops) g (e, l) = (h, e0, l)" by (auto simp: gen_stop_def)
  let ?sb = "if encoding = pcm24_encoding then 3 else 2 :: u32"
  let ?h = "h\<lparr>gen_attached := True, gen_payload_bytes := n, gen_payload_read := 0, gen_frames_written := 0,
    gen_total_frames := 0, gen_payload_digest := sha_fresh, gen_wav_digest := sha_fresh, gen_pcm_digest := sha_fresh,
    gen_sample_bytes := ?sb\<rparr>"
  obtain st k y where asked: "ask (recorded ops) (recorded_asking (\<lambda>r l. l) (op_configure ops profile n e0) l) ?h = (st, k, y)"
    by (rule prod_cases3)
  obtain e1 l1 where y: "y = (e1, l1)" by force
  have "ask ops (op_configure ops profile n e0) ?h = (st, k, e1)" using ask_plain [OF asked] y by simp
  then show ?thesis using assms asked gen_open_plain [of ops trailing k e1 l1 g' x]
    by (auto simp: gen_begin_def stop stop' y gen_fail_recorded Let_def split: if_splits)
qed

lemma gen_pull_plain:
  "gen_pull (recorded ops) limit g (e, l) = Inl (g', x) \<Longrightarrow> gen_pull ops limit g e = Inl (g', fst x)"
  "gen_pull (recorded ops) limit g (e, l) = Inr (frames, g', x) \<Longrightarrow> gen_pull ops limit g e = Inr (frames, g', fst x)"
proof -
  let ?request = "min limit (unat (gen_waveform_frames g - gen_frames_written g))"
  obtain r k y where asked: "ask (recorded ops)
      (recorded_asking (\<lambda>r l. l\<lparr>log_frames := log_frames l @ r\<rparr>) (op_read_float ops ?request e) l) g = (r, k, y)"
    by (rule prod_cases3)
  obtain e1 l1 where y: "y = (e1, l1)" by force
  have plain: "ask ops (op_read_float ops ?request e) g = (r, k, e1)" using ask_plain [OF asked] y by simp
  show "gen_pull (recorded ops) limit g (e, l) = Inl (g', x) \<Longrightarrow> gen_pull ops limit g e = Inl (g', fst x)"
    using asked plain by (auto simp: gen_pull_def y gen_fail_recorded Let_def split: if_splits)
  show "gen_pull (recorded ops) limit g (e, l) = Inr (frames, g', x) \<Longrightarrow> gen_pull ops limit g e = Inr (frames, g', fst x)"
    using asked plain by (auto simp: gen_pull_def y Let_def split: if_splits)
qed

lemma gen_emit_plain:
  assumes "gen_emit (recorded ops) fs g (e, l) = (g', x)"
  shows "gen_emit ops fs g e = (g', fst x)"
proof -
  obtain st e1 where "op_write ops (concat (map (frame_bytes (gen_sample_bytes g)) fs)) e = (st, e1)" by force
  then show ?thesis using assms by (auto simp: gen_emit_def gen_fail_recorded Let_def split: if_splits)
qed

lemma gen_step_plain:
  assumes "gen_step (recorded ops) m g (e, l) = (g', x)"
  shows "gen_step ops m g e = (g', fst x)"
proof (cases "gen_pull (recorded ops) (step_limit m g) g (e, l)")
  case (Inl failed)
  then show ?thesis using assms gen_pull_plain(1) [of ops "step_limit m g" g e l "fst failed" "snd failed"]
    by (auto simp: gen_step_def split: if_splits)
next
  case (Inr pulled)
  obtain frames h y where pulled: "pulled = (frames, h, y)" by (rule prod_cases3)
  obtain e1 l1 where y: "y = (e1, l1)" by force
  have "gen_pull ops (step_limit m g) g e = Inr (frames, h, e1)"
    using gen_pull_plain(2) [of ops "step_limit m g" g e l frames h y] Inr y pulled by simp
  then show ?thesis using assms gen_emit_plain [of ops _ h e1 l1 g' x]
    by (auto simp: gen_step_def Inr pulled y Let_def split: if_splits)
qed

section \<open>The card\<close>

text \<open>What of the world is the card: the files and their contents, and what each of the owner's handles is
  open on.\<close>

record card_view =
  card_files :: "string \<Rightarrow> bytes option"
  card_handle :: "card_file \<Rightarrow> (string \<times> open_mode) option"

text \<open>A computation that leaves the card alone between its reads.\<close>

primrec asking_leaves :: "('e \<Rightarrow> 'v) \<Rightarrow> ('e, 'r) asking \<Rightarrow> 'v \<Rightarrow> bool" where
  "asking_leaves view (Gives r e) v = (view e = v)"
| "asking_leaves view (Asks capacity e k) v = (view e = v \<and> (\<forall>bs e'. asking_leaves view (k bs e') (view e')))"

text \<open>
  What FatFs documents of the calls the owner makes. A new file is only created where there was none and is
  then empty; a call that fails leaves the files that were there, but for the one it is on; a write
  changes the file its handle is open on, and one that succeeds on a file it created appends; a rename
  needs a free name. The encoder, the mounting and the rest leave the files alone.
\<close>

definition open_law :: "'e tx_world \<Rightarrow> ('e \<Rightarrow> card_view) \<Rightarrow> bool" where
  "open_law w view \<longleftrightarrow> (\<forall>f p m e. case card_open w f p m e of (r, e') \<Rightarrow>
     if r = Fr_ok then
       card_handle (view e') = (card_handle (view e))(f := Some (p, m)) \<and>
       (if m = Create_new then card_files (view e) p = None \<and> card_files (view e') = (card_files (view e))(p := Some [])
        else card_files (view e') = card_files (view e))
     else map_le (card_files (view e)) (card_files (view e')) \<and>
       (\<forall>g. g \<noteq> f \<longrightarrow> card_handle (view e') g = card_handle (view e) g))"

definition write_law :: "'e tx_world \<Rightarrow> ('e \<Rightarrow> card_view) \<Rightarrow> bool" where
  "write_law w view \<longleftrightarrow> (\<forall>f bs e. case card_write w f bs e of (r, n, e') \<Rightarrow>
     n \<le> length bs \<and> card_handle (view e') = card_handle (view e) \<and>
     (\<forall>q. (\<forall>m. card_handle (view e) f \<noteq> Some (q, m)) \<longrightarrow> card_files (view e') q = card_files (view e) q) \<and>
     (\<forall>p c. r = Fr_ok \<and> n = length bs \<and> card_handle (view e) f = Some (p, Create_new) \<and> card_files (view e) p = Some c \<longrightarrow>
        card_files (view e') p = Some (c @ bs)))"

definition rename_law :: "'e tx_world \<Rightarrow> ('e \<Rightarrow> card_view) \<Rightarrow> bool" where
  "rename_law w view \<longleftrightarrow> (\<forall>old new e. case card_rename w old new e of (r, e') \<Rightarrow>
     card_handle (view e') = card_handle (view e) \<and>
     (if r = Fr_ok then
        card_files (view e) new = None \<and> card_files (view e) old \<noteq> None \<and>
        card_files (view e') = (card_files (view e))(old := None, new := card_files (view e) old)
      else \<forall>q c. q \<noteq> old \<and> card_files (view e) q = Some c \<longrightarrow> card_files (view e') q = Some c))"

definition stat_law :: "'e tx_world \<Rightarrow> ('e \<Rightarrow> card_view) \<Rightarrow> bool" where
  "stat_law w view \<longleftrightarrow> (\<forall>p e. case card_stat w p e of (r, e') \<Rightarrow>
     view e' = view e \<and> (r = Fr_no_file \<longrightarrow> card_files (view e) p = None))"

definition close_law :: "'e tx_world \<Rightarrow> ('e \<Rightarrow> card_view) \<Rightarrow> bool" where
  "close_law w view \<longleftrightarrow> (\<forall>f e. card_files (view (snd (card_close w f e))) = card_files (view e) \<and>
     (\<forall>g. g \<noteq> f \<longrightarrow> card_handle (view (snd (card_close w f e))) g = card_handle (view e) g))"

definition still_law :: "'e tx_world \<Rightarrow> ('e \<Rightarrow> card_view) \<Rightarrow> bool" where
  "still_law w view \<longleftrightarrow>
     (\<forall>f e. view (snd (card_sync w f e)) = view e) \<and> (\<forall>n e. view (snd (card_read w n e)) = view e) \<and>
     (\<forall>p e. view (snd (card_mkdir w p e)) = view e) \<and> (\<forall>e. view (snd (card_mount w e)) = view e) \<and>
     (\<forall>e. view (snd (card_unmount w e)) = view e)"

definition encoder_law :: "'e tx_world \<Rightarrow> ('e \<Rightarrow> card_view) \<Rightarrow> bool" where
  "encoder_law w view \<longleftrightarrow>
     (\<forall>d e. view (snd (construct_encoder w d e)) = view e) \<and> (\<forall>e. view (destroy_encoder w e) = view e) \<and>
     (\<forall>e. view (encoder_stop w e) = view e) \<and>
     (\<forall>profile n e. asking_leaves view (encoder_configure w profile n e) (view e)) \<and>
     (\<forall>request e. asking_leaves view (encoder_read_float w request e) (view e))"

definition card_laws :: "'e tx_world \<Rightarrow> ('e \<Rightarrow> card_view) \<Rightarrow> bool" where
  "card_laws w view \<longleftrightarrow> open_law w view \<and> write_law w view \<and> rename_law w view \<and> stat_law w view \<and>
     close_law w view \<and> still_law w view \<and> encoder_law w view"

lemma card_lawsD:
  assumes "card_laws w view"
  shows "open_law w view" "write_law w view" "rename_law w view" "stat_law w view" "close_law w view" "still_law w view"
    "encoder_law w view"
  using assms by (simp_all add: card_laws_def)

text \<open>The laws, one call at a time.\<close>

lemma card_openD:
  assumes "card_laws w view" and "card_open w f p m e = (r, e')"
  shows "r = Fr_ok \<Longrightarrow> card_handle (view e') = (card_handle (view e))(f := Some (p, m))"
    and "r = Fr_ok \<Longrightarrow> m = Create_new \<Longrightarrow> card_files (view e) p = None"
    and "r = Fr_ok \<Longrightarrow> m = Create_new \<Longrightarrow> card_files (view e') = (card_files (view e))(p := Some [])"
    and "r = Fr_ok \<Longrightarrow> m = Open_read \<Longrightarrow> card_files (view e') = card_files (view e)"
    and "map_le (card_files (view e)) (card_files (view e'))"
    and "g \<noteq> f \<Longrightarrow> card_handle (view e') g = card_handle (view e) g"
proof -
  have law: "if r = Fr_ok then
       card_handle (view e') = (card_handle (view e))(f := Some (p, m)) \<and>
       (if m = Create_new then card_files (view e) p = None \<and> card_files (view e') = (card_files (view e))(p := Some [])
        else card_files (view e') = card_files (view e))
     else map_le (card_files (view e)) (card_files (view e')) \<and>
       (\<forall>g. g \<noteq> f \<longrightarrow> card_handle (view e') g = card_handle (view e) g)"
    using spec [OF spec [OF spec [OF spec [OF card_lawsD(1) [OF assms(1), unfolded open_law_def], of f], of p], of m], of e]
    unfolding assms(2) prod.case .
  then show "r = Fr_ok \<Longrightarrow> card_handle (view e') = (card_handle (view e))(f := Some (p, m))"
    "r = Fr_ok \<Longrightarrow> m = Create_new \<Longrightarrow> card_files (view e) p = None"
    "r = Fr_ok \<Longrightarrow> m = Create_new \<Longrightarrow> card_files (view e') = (card_files (view e))(p := Some [])"
    "r = Fr_ok \<Longrightarrow> m = Open_read \<Longrightarrow> card_files (view e') = card_files (view e)"
    "g \<noteq> f \<Longrightarrow> card_handle (view e') g = card_handle (view e) g"
    by (simp_all split: if_splits)
  show "map_le (card_files (view e)) (card_files (view e'))"
    using law by (auto simp: map_le_def split: if_splits)
qed

lemma card_writeD:
  assumes "card_laws w view" and "card_write w f bs e = (r, n, e')"
  shows "card_handle (view e') = card_handle (view e)"
    and "(\<And>m. card_handle (view e) f \<noteq> Some (q, m)) \<Longrightarrow> card_files (view e') q = card_files (view e) q"
    and "r = Fr_ok \<Longrightarrow> n = length bs \<Longrightarrow> card_handle (view e) f = Some (p, Create_new) \<Longrightarrow>
      card_files (view e) p = Some c \<Longrightarrow> card_files (view e') p = Some (c @ bs)"
    and "n \<le> length bs"
  using spec [OF spec [OF spec [OF card_lawsD(2) [OF assms(1), unfolded write_law_def], of f], of bs], of e]
  unfolding assms(2) prod.case by blast+

lemma card_renameD:
  assumes "card_laws w view" and "card_rename w old new e = (r, e')"
  shows "card_handle (view e') = card_handle (view e)"
    and "r = Fr_ok \<Longrightarrow> card_files (view e) new = None"
    and "r = Fr_ok \<Longrightarrow> card_files (view e') = (card_files (view e))(old := None, new := card_files (view e) old)"
    and "r \<noteq> Fr_ok \<Longrightarrow> q \<noteq> old \<Longrightarrow> card_files (view e) q = Some c \<Longrightarrow> card_files (view e') q = Some c"
  using spec [OF spec [OF spec [OF card_lawsD(3) [OF assms(1), unfolded rename_law_def], of old], of new], of e]
  unfolding assms(2) prod.case by (simp_all split: if_splits)

lemma card_statD:
  assumes "card_laws w view" and "card_stat w p e = (r, e')"
  shows "view e' = view e" and "r = Fr_no_file \<Longrightarrow> card_files (view e) p = None"
  using spec [OF spec [OF card_lawsD(4) [OF assms(1), unfolded stat_law_def], of p], of e]
  unfolding assms(2) prod.case by simp_all

lemma card_closeD:
  assumes "card_laws w view" and "card_close w f e = (r, e')"
  shows "card_files (view e') = card_files (view e)" and "g \<noteq> f \<Longrightarrow> card_handle (view e') g = card_handle (view e) g"
  using spec [OF spec [OF card_lawsD(5) [OF assms(1), unfolded close_law_def], of f], of e] by (simp_all add: assms(2))

lemma card_stillD:
  assumes "card_laws w view"
  shows "card_sync w f e = (r, e') \<Longrightarrow> view e' = view e" and "card_read w n e = (x, e') \<Longrightarrow> view e' = view e"
    and "card_mkdir w p e = (r, e') \<Longrightarrow> view e' = view e" and "card_mount w e = (r, e') \<Longrightarrow> view e' = view e"
    and "card_unmount w e = (r, e') \<Longrightarrow> view e' = view e" and "construct_encoder w d e = (b, e') \<Longrightarrow> view e' = view e"
    and "view (destroy_encoder w e) = view e" and "view (encoder_stop w e) = view e"
    and "asking_leaves view (encoder_configure w profile n e) (view e)"
    and "asking_leaves view (encoder_read_float w n e) (view e)"
  using card_lawsD(6,7) [OF assms] unfolding still_law_def encoder_law_def by (metis snd_conv)+

section \<open>A job on the card\<close>

text \<open>
  The job's world with its record: nothing of the first card is lost, and the temporary file, once open, holds
  what the sink took.
\<close>

definition card_kept :: "('e \<Rightarrow> card_view) \<Rightarrow> (string \<Rightarrow> bytes option) \<Rightarrow> 'e \<Rightarrow> bool" where
  "card_kept view first e \<longleftrightarrow> map_le first (card_files (view e))"

definition job_on_card :: "('e \<Rightarrow> card_view) \<Rightarrow> (string \<Rightarrow> bytes option) \<Rightarrow> string \<Rightarrow> ('e \<times> bool) \<times> job_log \<Rightarrow> bool" where
  "job_on_card view first temporary = (\<lambda>((e, opened), l).
     card_kept view first e \<and> first temporary = None \<and>
     (if opened then card_handle (view e) Output_file = Some (temporary, Create_new) \<and>
        card_files (view e) temporary = Some (log_file l)
      else log_file l = []))"

definition job_kept :: "('e \<Rightarrow> card_view) \<Rightarrow> (string \<Rightarrow> bytes option) \<Rightarrow> ('e \<times> bool) \<times> job_log \<Rightarrow> bool" where
  "job_kept view first = (\<lambda>((e, opened), l). card_kept view first e)"

lemma asking_on_card:
  assumes "asking_leaves view a (view e)" and "job_on_card view first t ((e, opened), l)"
    and "\<And>r l. log_file (f r l) = log_file l"
  shows "asking_keeps (job_on_card view first t) (recorded_asking f (recorded_asking (\<lambda>r m. m) a opened) l)"
  using assms(1,2)
proof (induction a arbitrary: e opened l)
  case (Gives r e')
  then show ?case by (simp add: job_on_card_def card_kept_def assms(3) del: fun_upd_apply)
next
  case (Asks capacity e' k)
  have "job_on_card view first t ((e', opened), l)" using Asks.prems by (simp add: job_on_card_def card_kept_def)
  moreover have "asking_keeps (job_on_card view first t)
      (recorded_asking f (recorded_asking (\<lambda>r m. m) (k bs (fst (fst y))) (snd (fst y))) (snd y))"
    if y: "job_on_card view first t y" for bs y
  proof -
    obtain e2 o2 l2 where "y = ((e2, o2), l2)" by (metis surj_pair)
    then show ?thesis using Asks.IH [OF rangeI rangeI, of bs e2 e2 o2 l2] Asks.prems(1) y by simp
  qed
  ultimately show ?case by simp
qed

lemma artifact_job_simps [simp]:
  "op_configure (artifact_job w t) profile n (e, m) = recorded_asking (\<lambda>r m. m) (encoder_configure w profile n e) m"
  "op_total_frames (artifact_job w t) (e, m) = encoder_total_frames w e"
  "op_read_float (artifact_job w t) request (e, m) = recorded_asking (\<lambda>r m. m) (encoder_read_float w request e) m"
  "op_status (artifact_job w t) (e, m) = encoder_status w e"
  "op_stop (artifact_job w t) (e, m) = (encoder_stop w e, m)"
  "op_payload (artifact_job w t) capacity (e, m) = (case file_bytes_read w capacity e of (bs, e') \<Rightarrow> (bs, e', m))"
  "op_write (artifact_job w t) bs x = file_sink_write w t bs x"
  by (simp_all add: artifact_job_def)

lemma view_kept: "view e' = view e \<Longrightarrow> job_on_card view first t ((e', m), l) = job_on_card view first t ((e, m), l)"
  by (simp add: job_on_card_def card_kept_def)

lemma sink_on_card:
  assumes laws: "card_laws w view" and on: "job_on_card view first t ((e, m), l)"
    and out: "file_sink_write w t bs (e, m) = (st, e', m')"
  shows "card_kept view first e'" and "is_ok st \<Longrightarrow> job_on_card view first t ((e', m'), l\<lparr>log_file := log_file l @ bs\<rparr>)"
proof -
  have free: "first t = None" and kept: "card_kept view first e" using on by (simp_all add: job_on_card_def)
  have append: "card_kept view first e2 \<and>
      (is_ok st2 \<longrightarrow> m2 \<and> card_handle (view e2) Output_file = Some (t, Create_new) \<and> card_files (view e2) t = Some (c @ bs))"
    if "card_kept view first e1" and h: "card_handle (view e1) Output_file = Some (t, Create_new)"
      and c: "card_files (view e1) t = Some c" and a: "sink_append w bs e1 = (st2, e2, m2)" for e1 c st2 e2 m2
  proof -
    obtain r n x where out: "card_write w Output_file bs e1 = (r, n, x)" by (rule prod_cases3)
    note law = card_writeD [OF laws out]
    have x: "e2 = x" "m2" and st2: "is_ok st2 \<longleftrightarrow> r = Fr_ok \<and> n = length bs"
      using a by (auto simp: sink_append_def out is_ok_def status_defs split: if_splits) (simp_all add: success_def)
    have "card_files (view x) q = card_files (view e1) q" if "first q \<noteq> None" for q
    proof (rule law(2))
      show "card_handle (view e1) Output_file \<noteq> Some (q, m')" for m' using h that free by auto
    qed
    then have "card_kept view first x" using that(1) by (auto simp: card_kept_def map_le_def)
    moreover have "card_files (view x) t = Some (c @ bs)" if "r = Fr_ok" "n = length bs" using law(3) [OF that h c] .
    ultimately show ?thesis using x st2 law(1) h by auto
  qed
  have "card_kept view first e' \<and> (is_ok st \<longrightarrow> job_on_card view first t ((e', m'), l\<lparr>log_file := log_file l @ bs\<rparr>))"
  proof (cases m)
    case True
    then show ?thesis using append [OF kept, of "log_file l" st e' m'] on out free
      by (auto simp: file_sink_write_def job_on_card_def)
  next
    case False
    obtain r e1 where o: "card_open w Output_file t Create_new e = (r, e1)" by force
    note law = card_openD [OF laws o]
    have kept1: "card_kept view first e1" using kept law(5) map_le_trans by (auto simp: card_kept_def)
    show ?thesis
    proof (cases "r = Fr_ok")
      case True
      then show ?thesis using append [OF kept1, of "[]" st e' m'] on out free False law(1,3)
        by (auto simp: file_sink_write_def job_on_card_def o)
    next
      case r: False
      then show ?thesis using out False kept1 by (auto simp: file_sink_write_def o is_ok_def status_defs)
    qed
  qed
  then show "card_kept view first e'" "is_ok st \<Longrightarrow> job_on_card view first t ((e', m'), l\<lparr>log_file := log_file l @ bs\<rparr>)" by simp_all
qed

lemma artifact_job_keeps:
  assumes "card_laws w view"
  shows "ops_keep (job_on_card view first t) (job_kept view first) (recorded (artifact_job w t))"
  unfolding ops_keep_def
proof (intro conjI allI impI)
  fix y assume on: "job_on_card view first t y"
  obtain e m l where y: "y = ((e, m), l)" by (metis surj_pair)
  note on = on [unfolded y]
  show "job_kept view first y" using on by (simp add: y job_on_card_def job_kept_def)
  show "asking_keeps (job_on_card view first t) (op_configure (recorded (artifact_job w t)) profile n y)" for profile n
    using asking_on_card [OF card_stillD(9) [OF assms] on, of "\<lambda>r l. l"] by (simp add: y)
  show "asking_keeps (job_on_card view first t) (op_read_float (recorded (artifact_job w t)) request y)" for request
    using asking_on_card [OF card_stillD(10) [OF assms] on, of "\<lambda>r l. l\<lparr>log_frames := log_frames l @ r\<rparr>"] by (simp add: y)
  show "job_on_card view first t (op_stop (recorded (artifact_job w t)) y)"
    using on view_kept [of view, OF card_stillD(8) [OF assms]] by (simp add: y)
  show "job_on_card view first t (snd (op_payload (recorded (artifact_job w t)) capacity y))" for capacity
  proof -
    obtain bs e' where r: "file_bytes_read w capacity e = (bs, e')" by force
    then have "view e' = view e" using card_stillD(2) [OF assms] by (auto simp: file_bytes_read_def split: prod.splits)
    then show ?thesis using on by (simp add: y r job_on_card_def card_kept_def)
  qed
  show "if is_ok (fst (op_write (recorded (artifact_job w t)) bs y))
      then job_on_card view first t (snd (op_write (recorded (artifact_job w t)) bs y))
      else job_kept view first (snd (op_write (recorded (artifact_job w t)) bs y))" for bs
  proof -
    obtain st e' m' where out: "file_sink_write w t bs (e, m) = (st, e', m')" by (rule prod_cases3)
    show ?thesis using sink_on_card [OF assms on out] by (simp add: y out job_kept_def)
  qed
next
  fix y assume "job_kept view first y"
  then show "job_kept view first (op_stop (recorded (artifact_job w t)) y)"
    using card_stillD(8) [OF assms] by (cases y) (auto simp: job_kept_def card_kept_def)
qed

end
