(* ===== verification/TxPublish.thy ===== *)
theory TxPublish
  imports TxCard
begin

text \<open>
  The invariant of the owner of a transmit artifact over the card: what it receives, makes and publishes is
  on the card as its status says, and no file the card had before is touched.
\<close>

section \<open>The count of frames\<close>

lemma ask_counts:
  "ask ops a g = (r, g', e') \<Longrightarrow>
    gen_frames_written g' = gen_frames_written g \<and> gen_total_frames g' = gen_total_frames g"
proof (induction a arbitrary: g)
  case (Asks capacity e k)
  obtain bs h x where read: "gen_read ops capacity g e = (bs, h, x)" by (rule prod_cases3)
  then have "gen_frames_written h = gen_frames_written g" "gen_total_frames h = gen_total_frames g"
    by (auto simp: gen_read_def split: prod.splits if_splits)
  then show ?case using Asks.IH [OF rangeI rangeI, of bs x h] Asks.prems by (simp add: read)
qed simp

lemma gen_open_counts: "gen_frames_written (fst (gen_open ops trailing g e)) = gen_frames_written g"
  by (simp add: gen_open_def gen_fail_def Let_def split: prod.split)

lemma gen_begin_counts: "gen_frames_written (fst (gen_begin ops profile n trailing encoding g e)) = 0"
proof -
  obtain h e0 where stop: "gen_stop ops g e = (h, e0)" by force
  let ?h = "h\<lparr>gen_attached := True, gen_payload_bytes := n, gen_payload_read := 0, gen_frames_written := 0,
    gen_total_frames := 0, gen_payload_digest := sha_fresh, gen_wav_digest := sha_fresh, gen_pcm_digest := sha_fresh,
    gen_sample_bytes := (if encoding = pcm24_encoding then 3 else 2)\<rparr>"
  obtain st k e1 where asked: "ask ops (op_configure ops profile n e0) ?h = (st, k, e1)" by (rule prod_cases3)
  have "gen_frames_written k = 0" using ask_counts [OF asked] by simp
  then show ?thesis using asked by (simp add: gen_begin_def stop Let_def gen_fail_def gen_open_counts)
qed

lemma gen_pull_counts:
  "gen_pull ops limit g e = Inl failed \<Longrightarrow> gen_total_frames (fst failed) = gen_total_frames g"
  "gen_pull ops limit g e = Inr (frames, g', e') \<Longrightarrow> gen_total_frames g' = gen_total_frames g"
  by (auto simp: gen_pull_def gen_fail_def Let_def dest: ask_counts split: prod.splits if_splits)

lemma gen_emit_counts: "gen_total_frames (fst (gen_emit ops fs g e)) = gen_total_frames g"
  by (simp add: gen_emit_def gen_fail_def Let_def split: prod.split)

lemma gen_step_counts: "gen_total_frames (fst (gen_step ops m g e)) = gen_total_frames g"
proof (cases "gen_pull ops (step_limit m g) g e")
  case (Inl failed)
  then show ?thesis using gen_pull_counts(1) [OF Inl] by (simp add: gen_step_def)
next
  case (Inr pulled)
  obtain frames h x where "pulled = (frames, h, x)" by (rule prod_cases3)
  then show ?thesis using gen_pull_counts(2) [of ops _ g e frames h x] Inr by (simp add: gen_step_def gen_emit_counts)
qed

section \<open>The invariant\<close>

text \<open>An upload in progress: the payload file is the owner's own and has exactly the bytes counted.\<close>

definition upload_ok :: "('e \<Rightarrow> card_view) \<Rightarrow> (string \<Rightarrow> bytes option) \<Rightarrow> tx_artifact \<Rightarrow> 'e \<Rightarrow> bool" where
  "upload_ok view first a e \<longleftrightarrow>
     art_payload_open a \<and> art_mounted a \<and> first (art_input_path a) = None \<and>
     card_handle (view e) Payload_file = Some (art_input_path a, Create_new) \<and>
     (\<exists>c. card_files (view e) (art_input_path a) = Some c \<and> length c = unat (snap_payload_bytes (art_snapshot a)) \<and>
        snap_payload_bytes (art_snapshot a) \<le> maximum_upload_bytes)"

text \<open>A job in progress, and the progress the snapshot reports.\<close>

definition generating_ok :: "('e \<Rightarrow> card_view) \<Rightarrow> (string \<Rightarrow> bytes option) \<Rightarrow> tx_artifact \<Rightarrow> 'e \<Rightarrow> bool" where
  "generating_ok view first a e \<longleftrightarrow>
     \<not> art_cleanup_pending a \<and>
     (\<forall>p \<in> {art_output_path a, art_temporary_path a, art_manifest_path a, art_manifest_temporary_path a}. first p = None) \<and>
     (\<exists>g l n. art_writer a = Some g \<and> settled g \<and> gen_state g \<in> {Job_running, Job_complete} \<and> job_ok 3 n 48000 g l \<and>
        snap_frames_written (art_snapshot a) = gen_frames_written g \<and> snap_total_frames (art_snapshot a) = gen_total_frames g \<and>
        job_on_card view first (art_temporary_path a) ((e, art_output_open a), l))"

text \<open>A published artifact: the file of a completed job, its digest, and the manifest that names it.\<close>

definition published :: "'e tx_world \<Rightarrow> ('e \<Rightarrow> card_view) \<Rightarrow> tx_artifact \<Rightarrow> 'e \<Rightarrow> bool" where
  "published w view a e \<longleftrightarrow>
     (\<exists>g l n a0. job_ok 3 n 48000 g l \<and> gen_state g = Job_complete \<and>
        card_files (view e) (art_output_path a) = Some (log_file l) \<and>
        snap_wav_sha256 (art_snapshot a) = hash_wav (job_hashes g) \<and>
        snap_filename (art_snapshot a0) = snap_filename (art_snapshot a) \<and>
        card_files (view e) (art_manifest_path a) = Some (tag_bytes (manifest_text w a0 (job_hashes g))))"

definition names_ok :: "tx_artifact \<Rightarrow> bool" where
  "names_ok a \<longleftrightarrow> art_output_path a = make_path (snap_filename (art_snapshot a)) None \<and>
     art_manifest_path a = make_path (snap_filename (art_snapshot a)) (Some ''.JSON'')"

definition tx_inv :: "'e tx_world \<Rightarrow> ('e \<Rightarrow> card_view) \<Rightarrow> (string \<Rightarrow> bytes option) \<Rightarrow> tx_artifact \<times> 'e \<Rightarrow> bool" where
  "tx_inv w view first = (\<lambda>(a, e).
     card_kept view first e \<and> names_ok a \<and>
     (\<not> art_cleanup_pending a \<and> art_state a \<noteq> 2 \<longrightarrow> \<not> art_output_open a) \<and>
     (art_state a = 0 \<longrightarrow> \<not> art_payload_open a \<and> snap_payload_bytes (art_snapshot a) = 0) \<and>
     (art_state a = 1 \<longrightarrow> upload_ok view first a e) \<and>
     (art_state a = 2 \<longrightarrow> generating_ok view first a e) \<and>
     (art_state a = 3 \<longrightarrow> published w view a e))"

section \<open>Closing and failing\<close>

lemma still_open_files:
  assumes "card_laws w view" and "still_open w f opened e = (b, e')"
  shows "card_files (view e') = card_files (view e)"
  using assms(2) card_closeD(1) [OF assms(1)] by (auto simp: still_open_def split: if_splits prod.splits)

text \<open>What closing leaves: the same files, and either everything closed or a cleanup pending.\<close>

definition only_closed :: "tx_artifact \<Rightarrow> tx_artifact \<Rightarrow> bool" where
  "only_closed a a' \<longleftrightarrow>
     a' = a\<lparr>art_payload_open := art_payload_open a', art_output_open := art_output_open a',
       art_manifest_open := art_manifest_open a', art_mounted := art_mounted a', art_cleanup_pending := art_cleanup_pending a'\<rparr>"

lemma close_files_left:
  assumes laws: "card_laws w view" and run: "close_files w a e = (st, a', e')"
  shows "card_files (view e') = card_files (view e)" and "only_closed a a'"
    and "is_ok st \<Longrightarrow> \<not> art_cleanup_pending a' \<and> \<not> art_payload_open a' \<and> \<not> art_output_open a' \<and> \<not> art_manifest_open a'"
    and "\<not> is_ok st \<Longrightarrow> art_cleanup_pending a'" and "art_payload_open a' \<Longrightarrow> art_payload_open a"
proof -
  obtain p e1 where p: "still_open w Payload_file (art_payload_open a) e = (p, e1)" by force
  obtain out e2 where out: "still_open w Output_file (art_output_open a) e1 = (out, e2)" by force
  obtain m e3 where m: "still_open w Manifest_file (art_manifest_open a) e2 = (m, e3)" by force
  obtain r e4 where r: "card_unmount w e3 = (r, e4)" by force
  have "p \<Longrightarrow> art_payload_open a" using p by (auto simp: still_open_def split: if_splits)
  then show "art_payload_open a' \<Longrightarrow> art_payload_open a"
    using run by (auto simp: close_files_def p out m r Let_def split: if_splits)
  have "card_files (view e3) = card_files (view e)" "view e4 = view e3"
    using still_open_files [OF laws] p out m card_stillD(5) [OF laws r] by metis+
  then show "card_files (view e') = card_files (view e)"
    using run by (auto simp: close_files_def p out m r Let_def split: if_splits)
  show "only_closed a a'" using run by (auto simp: close_files_def p out m r only_closed_def Let_def split: if_splits)
  show "is_ok st \<Longrightarrow> \<not> art_cleanup_pending a' \<and> \<not> art_payload_open a' \<and> \<not> art_output_open a' \<and> \<not> art_manifest_open a'"
    "\<not> is_ok st \<Longrightarrow> art_cleanup_pending a'"
    using run by (auto simp: close_files_def p out m r Let_def is_ok_def status_defs success_def split: if_splits)
qed

lemma only_closedD:
  assumes "only_closed a a'"
  shows "art_snapshot a' = art_snapshot a" "art_output_path a' = art_output_path a" "art_input_path a' = art_input_path a"
    "art_temporary_path a' = art_temporary_path a" "art_manifest_path a' = art_manifest_path a"
    "art_manifest_temporary_path a' = art_manifest_temporary_path a" "art_writer a' = art_writer a"
  by (subst assms [unfolded only_closed_def], simp)+

lemma kept_files: "card_files (view e') = card_files (view e) \<Longrightarrow> card_kept view first e' = card_kept view first e"
  by (simp add: card_kept_def)

lemma stop_writer_left:
  assumes "card_laws w view" and "stop_writer w a e = (a', e')"
  shows "view e' = view e" and "\<exists>g. a' = a\<lparr>art_writer := g\<rparr>"
proof -
  have "view e' = view e \<and> (\<exists>g. a' = a\<lparr>art_writer := g\<rparr>)"
  proof (cases "art_writer a")
    case None
    then have "a' = a\<lparr>art_writer := None\<rparr>" "e' = e" using assms(2) by (simp_all add: stop_writer_def)
    then show ?thesis by blast
  next
    case (Some g)
    then have "a' = a\<lparr>art_writer := Some (fst (gen_stop (artifact_job w (art_temporary_path a)) g (e, art_output_open a)))\<rparr>"
      "e' = e \<or> e' = encoder_stop w e"
      using assms(2) by (auto simp: stop_writer_def gen_stop_def split: if_splits)
    then show ?thesis using card_stillD(8) [OF assms(1)] by auto
  qed
  then show "view e' = view e" "\<exists>g. a' = a\<lparr>art_writer := g\<rparr>" by simp_all
qed

text \<open>A failure ends in state 4 with everything closed, or a cleanup pending.\<close>

lemma art_fail_left:
  assumes laws: "card_laws w view" and "card_kept view first e" and "names_ok a"
    and run: "art_fail w why a e = (st, a', e')"
  shows "tx_inv w view first (a', e') \<and> art_state a' = 4 \<and>
    (is_ok st \<longrightarrow> \<not> art_cleanup_pending a' \<and> \<not> art_payload_open a' \<and> \<not> art_output_open a')"
proof -
  obtain a1 e1 where stop: "stop_writer w a e = (a1, e1)" by force
  obtain st2 a2 e2 where closing: "close_files w a1 e1 = (st2, a2, e2)" by (rule prod_cases3)
  note c = close_files_left [OF laws closing] and o = only_closedD [OF close_files_left(2) [OF laws closing]]
  have a': "a' = a2\<lparr>art_snapshot := (art_snapshot a2)\<lparr>snap_state := 4,
      snap_error := (if is_ok st2 then why else message st2)\<rparr>\<rparr>" and e': "e' = e2"
    using run by (auto simp: art_fail_def stop closing)
  have "card_kept view first e'"
    using assms(2) stop_writer_left(1) [OF laws stop] c(1) by (simp add: e' card_kept_def)
  moreover have "names_ok a'"
    using assms(3) stop_writer_left(2) [OF laws stop] o by (auto simp: a' names_ok_def)
  ultimately show ?thesis using c(3,4) run by (cases "is_ok st2") (simp_all add: tx_inv_def a' art_fail_def stop closing)
qed

lemma failed_transaction_left:
  assumes laws: "card_laws w view" and "card_kept view first e" and "names_ok a"
    and "is_ok st \<Longrightarrow> tx_inv w view first (a, e)" and "failed_transaction w (st, a, e) = (st', a', e')"
  shows "tx_inv w view first (a', e')"
proof (cases "is_ok st")
  case True
  then show ?thesis using assms(4,5) by (simp add: failed_transaction_def)
next
  case False
  obtain c a1 e1 where f: "art_fail w (message st) a e = (c, a1, e1)" by (rule prod_cases3)
  then have "a' = a1" "e' = e1" using assms(5) False by (auto simp: failed_transaction_def split: if_splits)
  then show ?thesis using art_fail_left [OF laws assms(2,3) f] by simp
qed

section \<open>Mounting and looking\<close>

lemma art_mount_left:
  assumes laws: "card_laws w view" and run: "art_mount w a e = (st, a', e')"
  shows "card_files (view e') = card_files (view e)" and "only_closed a a'"
    and "is_ok st \<Longrightarrow> view e' = view e \<and> \<not> art_cleanup_pending a \<and> a' = a\<lparr>art_mounted := True\<rparr>"
    and "art_mounted a \<Longrightarrow> a' = a" and "art_payload_open a' \<Longrightarrow> art_payload_open a"
    and "\<not> art_output_open a \<Longrightarrow> \<not> art_cleanup_pending a' \<Longrightarrow> \<not> art_output_open a'"
proof -
  let ?a = "a\<lparr>art_mounted := True\<rparr>"
  obtain r e1 where m: "card_mount w e = (r, e1)" by force
  obtain d e2 where d: "card_mkdir w ''2:/WG'' e1 = (d, e2)" by force
  have v: "view e1 = view e" "view e2 = view e" using card_stillD(3,4) [OF laws] m d by metis+
  have give_up: "card_files (view e4) = card_files (view e) \<and> only_closed a a4 \<and> \<not> is_ok st4 \<and>
      (art_payload_open a4 \<longrightarrow> art_payload_open a) \<and>
      (\<not> art_output_open a \<longrightarrow> \<not> art_cleanup_pending a4 \<longrightarrow> \<not> art_output_open a4)"
    if "close_files w ?a e3 = (c, a4, e4)" "view e3 = view e" "st4 = (if is_ok c then media_failed else c)" for e3 c a4 e4 st4
    using close_files_left [OF laws that(1)] that(2,3)
    by (cases "is_ok c") (auto simp: only_closed_def is_ok_def status_defs)
  have same: "only_closed a ?a" "only_closed a a" by (simp_all add: only_closed_def)
  have "card_files (view e') = card_files (view e) \<and> only_closed a a' \<and>
     (is_ok st \<longrightarrow> view e' = view e \<and> \<not> art_cleanup_pending a \<and> a' = ?a) \<and> (art_mounted a \<longrightarrow> a' = a) \<and>
     (art_payload_open a' \<longrightarrow> art_payload_open a) \<and>
     (\<not> art_output_open a \<longrightarrow> \<not> art_cleanup_pending a' \<longrightarrow> \<not> art_output_open a')"
  proof (cases "art_cleanup_pending a \<or> \<not> media_local w e \<or> art_mounted a")
    case True
    then show ?thesis using run same
      by (auto simp: art_mount_def is_ok_def status_defs success_def split: if_splits)
  next
    case False
    obtain c1 a1 f1 where c1: "close_files w ?a e1 = (c1, a1, f1)" by (rule prod_cases3)
    obtain c2 a2 f2 where c2: "close_files w ?a e2 = (c2, a2, f2)" by (rule prod_cases3)
    show ?thesis using run False same v give_up [OF c1 v(1) refl] give_up [OF c2 v(2) refl]
      by (auto simp: art_mount_def m d c1 c2 Let_def split: if_splits)
  qed
  then show "card_files (view e') = card_files (view e)" "only_closed a a'"
    "is_ok st \<Longrightarrow> view e' = view e \<and> \<not> art_cleanup_pending a \<and> a' = ?a" "art_mounted a \<Longrightarrow> a' = a"
    "art_payload_open a' \<Longrightarrow> art_payload_open a"
    "\<not> art_output_open a \<Longrightarrow> \<not> art_cleanup_pending a' \<Longrightarrow> \<not> art_output_open a'" by blast+
qed

lemma check_all_absent_left:
  assumes "card_laws w view" and "check_all_absent w paths e = (st, e')"
  shows "view e' = view e" and "is_ok st \<Longrightarrow> p \<in> set paths \<Longrightarrow> card_files (view e) p = None"
proof -
  have "view e' = view e \<and> (is_ok st \<longrightarrow> (\<forall>p \<in> set paths. card_files (view e) p = None))"
    using assms(2)
  proof (induction paths arbitrary: e)
    case Nil
    then show ?case by simp
  next
    case (Cons q paths)
    obtain r e1 where stat: "card_stat w q e = (r, e1)" by force
    note law = card_statD [OF assms(1) stat]
    show ?case
    proof (cases "r = Fr_no_file")
      case True
      then have "check_all_absent w paths e1 = (st, e')" using Cons.prems by (simp add: check_absent_def stat)
      from Cons.IH [OF this] show ?thesis using law True by simp
    next
      case False
      then have "e' = e1" "\<not> is_ok st"
        using Cons.prems by (auto simp: check_absent_def stat is_ok_def status_defs split: if_splits)
      then show ?thesis using law by simp
    qed
  qed
  then show "view e' = view e" "is_ok st \<Longrightarrow> p \<in> set paths \<Longrightarrow> card_files (view e) p = None" by blast+
qed

lemma kept_free: "card_kept view first e \<Longrightarrow> card_files (view e) p = None \<Longrightarrow> first p = None"
  by (metis card_kept_def domIff map_le_def)

text \<open>What starting a job changes of the owner before it begins: the marks and the encoder.\<close>

definition same_names :: "tx_artifact \<Rightarrow> tx_artifact \<Rightarrow> bool" where
  "same_names a a' \<longleftrightarrow>
     art_snapshot a' = art_snapshot a \<and> art_output_path a' = art_output_path a \<and> art_temporary_path a' = art_temporary_path a \<and>
     art_manifest_path a' = art_manifest_path a \<and> art_manifest_temporary_path a' = art_manifest_temporary_path a"

lemma open_named_payload_left:
  assumes laws: "card_laws w view" and "open_named_payload w a e = (r, a', e')"
  shows "card_files (view e') = card_files (view e) \<or> map_le (card_files (view e)) (card_files (view e'))"
    and "\<exists>m. a' = a\<lparr>art_payload_open := m\<rparr>"
proof -
  obtain x e1 where o: "card_open w Payload_file (art_input_path a) Open_read e = (x, e1)" by force
  have "a' = a\<lparr>art_payload_open := art_payload_open a'\<rparr>" "e' = e1"
    using assms(2) by (auto simp: open_named_payload_def o Let_def split: if_splits)
  then show "card_files (view e') = card_files (view e) \<or> map_le (card_files (view e)) (card_files (view e'))"
    and "\<exists>m. a' = a\<lparr>art_payload_open := m\<rparr>"
    using card_openD(5) [OF laws o] by blast+
qed

lemma open_payload_left:
  assumes laws: "card_laws w view" and kept: "card_kept view first e" and run: "open_payload w a e = (r, a', e')"
  shows "card_kept view first e'" and "\<exists>m. a' = a\<lparr>art_payload_open := m\<rparr>"
proof -
  have named: "card_kept view first e2 \<and> (\<exists>m. a2 = a1\<lparr>art_payload_open := m\<rparr>)"
    if "open_named_payload w a1 e1 = (r, a2, e2)" "card_kept view first e1" for a1 e1 a2 e2
    using open_named_payload_left [OF laws that(1)] that(2) map_le_trans by (auto simp: card_kept_def)
  have "card_kept view first e' \<and> (\<exists>m. a' = a\<lparr>art_payload_open := m\<rparr>)"
  proof (cases "art_payload_open a")
    case False
    then show ?thesis using named [of a e] run kept by (simp add: open_payload_def)
  next
    case True
    obtain good e1 where y: "card_sync w Payload_file e = (good, e1)" by force
    obtain shut e2 where c: "card_close w Payload_file e1 = (shut, e2)" by force
    have e2: "card_kept view first e2"
      using kept card_stillD(1) [OF laws y] card_closeD(1) [OF laws c] by (simp add: card_kept_def)
    show ?thesis
    proof (cases "good = Fr_ok \<and> shut = Fr_ok")
      case ok: True
      then show ?thesis using named [OF _ e2, of "a\<lparr>art_payload_open := False\<rparr>" a' e'] run True
        by (auto simp: open_payload_def y c Let_def)
    next
      case False
      then have "a' = a\<lparr>art_payload_open := art_payload_open a'\<rparr>" "e' = e2"
        using run True by (auto simp: open_payload_def y c Let_def split: if_splits)
      then show ?thesis using e2 by blast
    qed
  qed
  then show "card_kept view first e'" "\<exists>m. a' = a\<lparr>art_payload_open := m\<rparr>" by simp_all
qed

lemma open_named_payload_refused: "open_named_payload w a e = (Inl why, x) \<Longrightarrow> \<not> is_ok why"
  by (auto simp: open_named_payload_def is_ok_def status_defs Let_def split: if_splits prod.splits)

lemma open_payload_refused: "open_payload w a e = (Inl why, x) \<Longrightarrow> \<not> is_ok why"
  by (auto simp: open_payload_def Let_def is_ok_def payload_write_error_def split: if_splits prod.splits
      dest: open_named_payload_refused [unfolded is_ok_def])

lemma begin_job_left:
  assumes laws: "card_laws w view" and kept: "card_kept view first e" and shut: "\<not> art_output_open a"
    and free: "\<forall>p \<in> {art_output_path a, art_temporary_path a, art_manifest_path a, art_manifest_temporary_path a}. first p = None"
    and pending: "\<not> art_cleanup_pending a" and names: "names_ok a" and run: "begin_job w size_bytes a e = (st, a', e')"
  shows "card_kept view first e'" and "is_ok st \<Longrightarrow> art_state a' = 2 \<and> generating_ok view first a' e'" and "names_ok a'"
proof -
  define b where "b = (if art_profile a = [] then a\<lparr>art_profile := legacy_profile (art_rate a) (art_interleave a)\<rparr> else a)"
  define g0 where "g0 = (case art_writer b of None \<Rightarrow> fresh_generator | Some g \<Rightarrow> g)"
  let ?job = "artifact_job w (art_temporary_path a)"
  obtain g y where rec: "gen_begin (recorded ?job) (art_profile b) (unat size_bytes) 48000 pcm24_encoding g0 ((e, False), no_log) = (g, y)"
    by (rule prod.exhaust)
  obtain e1 m l where y: "y = ((e1, m), l)" by (metis surj_pair)
  have plain: "gen_begin ?job (art_profile b) (unat size_bytes) 48000 pcm24_encoding g0 (e, False) = (g, e1, m)"
    using gen_begin_plain [OF rec] by (simp add: y)
  have start: "job_on_card view first (art_temporary_path a) ((e, False), no_log)"
    using kept free by (simp add: job_on_card_def no_log_def)
  have left: "left_by (job_on_card view first (art_temporary_path a)) (job_kept view first) (g, y)"
    using gen_begin_left [OF artifact_job_keeps [OF laws] start] rec by metis
  have job: "job_ok 3 (unat size_bytes) 48000 g l" using gen_begin_ok [OF rec [unfolded y]] by simp
  have settled: "settled g" using gen_begin_settled [of ?job "art_profile b" "unat size_bytes" 48000 pcm24_encoding g0 "(e, False)"] plain by simp
  have none: "gen_frames_written g = 0"
    using gen_begin_counts [of ?job "art_profile b" "unat size_bytes" 48000 pcm24_encoding g0 "(e, False)"] plain by simp
  have b: "art_temporary_path b = art_temporary_path a" "art_output_open b = False" "same_names a b"
    "art_cleanup_pending b = art_cleanup_pending a" using shut by (simp_all add: b_def same_names_def)
  have end_state: "if is_ok (gen_status g) then st = success \<and> a' = b\<lparr>art_writer := Some g, art_output_open := m,
        art_snapshot := (art_snapshot b)\<lparr>snap_state := 2, snap_payload_bytes := ucast size_bytes,
          snap_frames_written := 0, snap_total_frames := gen_total_frames g, snap_error := ''none''\<rparr>\<rparr>
      else st = gen_status g \<and> a' = b\<lparr>art_writer := Some g, art_output_open := m\<rparr>" and e': "e' = e1"
    using run b(1,2) unfolding begin_job_def Let_def b_def [symmetric] g0_def [symmetric] by (simp_all add: plain split: if_splits)
  show "card_kept view first e'"
    using left by (auto simp: left_by_def y e' job_kept_def job_on_card_def split: if_splits)
  show "names_ok a'" using end_state names b(3) by (auto simp: names_ok_def same_names_def split: if_splits)
  show "art_state a' = 2 \<and> generating_ok view first a' e'" if "is_ok st"
  proof -
    have ok: "is_ok (gen_status g)" using end_state that by (auto split: if_splits)
    then have "gen_state g \<in> {Job_running, Job_complete}" using settled by (cases "gen_state g") (simp_all add: settled_def)
    moreover have "job_on_card view first (art_temporary_path a) ((e1, m), l)"
      using left ok settled by (auto simp: left_by_def y settled_def split: if_splits)
    ultimately show ?thesis using end_state ok settled job free pending b none by (auto simp: generating_ok_def e' same_names_def)
  qed
qed

text \<open>What a start leaves: a job in progress, or an error with nothing of the first card lost.\<close>

definition start_left :: "('e \<Rightarrow> card_view) \<Rightarrow> (string \<Rightarrow> bytes option) \<Rightarrow> status \<times> tx_artifact \<times> 'e \<Rightarrow> bool" where
  "start_left view first = (\<lambda>(st, a, e). card_kept view first e \<and> names_ok a \<and>
     (is_ok st \<longrightarrow> art_state a = 2 \<and> generating_ok view first a e))"

lemma construct_and_begin_left:
  assumes laws: "card_laws w view" and kept: "card_kept view first e" and shut: "\<not> art_output_open a"
    and free: "\<forall>p \<in> {art_output_path a, art_temporary_path a, art_manifest_path a, art_manifest_temporary_path a}. first p = None"
    and pending: "\<not> art_cleanup_pending a" and names: "names_ok a"
  shows "start_left view first (construct_and_begin w d size_bytes a e)"
proof -
  obtain a1 e1 where stop: "stop_writer w a e = (a1, e1)" by force
  from stop_writer_left [OF laws this] obtain g where a1: "a1 = a\<lparr>art_writer := g\<rparr>" and e1: "view e1 = view e" by blast
  let ?e2 = "if art_encoder a1 then destroy_encoder w e1 else e1"
  obtain made e3 where make: "construct_encoder w d ?e2 = (made, e3)" by force
  have "view ?e2 = view e" using e1 card_stillD(7) [OF laws] by simp
  then have e3: "card_kept view first e3" using kept card_stillD(6) [OF laws make] by (simp add: card_kept_def)
  let ?a = "a1\<lparr>art_encoder := made\<rparr>"
  obtain st a4 e4 where begun: "begin_job w size_bytes ?a e3 = (st, a4, e4)" by (rule prod_cases3)
  have "\<not> art_output_open ?a" "\<not> art_cleanup_pending ?a" "names_ok ?a"
    "\<forall>p \<in> {art_output_path ?a, art_temporary_path ?a, art_manifest_path ?a, art_manifest_temporary_path ?a}. first p = None"
    using shut free pending names by (simp_all add: a1 names_ok_def)
  note left = begin_job_left [OF laws e3 this(1) this(4) this(2) this(3) begun]
  show ?thesis
  proof (cases made)
    case True
    then have "construct_and_begin w d size_bytes a e = (st, a4, e4)" using make begun
      by (simp add: construct_and_begin_def stop Let_def)
    then show ?thesis using left by (simp add: start_left_def)
  next
    case False
    then have "construct_and_begin w d size_bytes a e = (encoder_workspace_error, ?a, e3)" using make
      by (simp add: construct_and_begin_def stop Let_def)
    then show ?thesis using e3 \<open>names_ok ?a\<close> by (simp add: start_left_def is_ok_def status_defs)
  qed
qed

lemma start_left_error: "card_kept view first e \<Longrightarrow> names_ok a \<Longrightarrow> \<not> is_ok st \<Longrightarrow> start_left view first (st, a, e)"
  by (simp add: start_left_def)

lemma start_generation_left:
  assumes laws: "card_laws w view" and kept: "card_kept view first e" and names: "names_ok a"
    and shut: "\<not> art_cleanup_pending a \<longrightarrow> \<not> art_output_open a"
  shows "start_left view first (start_generation w a e)"
proof -
  let ?a = "a\<lparr>art_descriptor := find_encoder (plugin_encoders w) (art_encoder_name a)\<rparr>"
  have names1: "names_ok ?a" using names by (simp add: names_ok_def)
  show ?thesis
  proof (cases "art_descriptor ?a")
    case None
    then have "start_generation w a e = (unknown_encoder, ?a, e)" by (simp add: start_generation_def Let_def)
    then show ?thesis using start_left_error [OF kept names1] by (simp add: is_ok_def status_defs)
  next
    case (Some d)
    obtain media a2 e2 where mount: "art_mount w ?a e = (media, a2, e2)" by (rule prod_cases3)
    note m = art_mount_left [OF laws mount]
    have kept2: "card_kept view first e2" and names2: "names_ok a2"
      using kept names1 m(1) only_closedD [OF m(2)] by (simp_all add: card_kept_def names_ok_def)
    show ?thesis
    proof (cases "is_ok media")
      case False
      then have "start_generation w a e = (media, a2, e2)" using mount Some by (simp add: start_generation_def Let_def)
      then show ?thesis using start_left_error [OF kept2 names2 False] by simp
    next
      case True
      have a2: "\<not> art_output_open a2" "\<not> art_cleanup_pending a2" using m(3) [OF True] shut by simp_all
      obtain fst3 e3 where absent: "check_outputs_absent w a2 e2 = (fst3, e3)" by force
      note free = check_all_absent_left [OF laws absent [unfolded check_outputs_absent_def]]
      have kept3: "card_kept view first e3" using kept2 free(1) by (simp add: card_kept_def)
      show ?thesis
      proof (cases "is_ok fst3")
        case False
        then have "start_generation w a e = (fst3, a2, e3)" using mount Some True absent
          by (simp add: start_generation_def Let_def)
        then show ?thesis using start_left_error [OF kept3 names2 False] by simp
      next
        case ok: True
        obtain r a4 e4 where payload: "open_payload w a2 e3 = (r, a4, e4)" by (rule prod_cases3)
        note p = open_payload_left [OF laws kept3 payload]
        obtain mk where a4: "a4 = a2\<lparr>art_payload_open := mk\<rparr>" using p(2) by blast
        have "\<forall>p \<in> {art_output_path a4, art_temporary_path a4, art_manifest_path a4, art_manifest_temporary_path a4}. first p = None"
          using free(2) [OF ok] kept_free [OF kept2] by (simp add: a4)
        then have "start_left view first (construct_and_begin w d size_bytes a4 e4)" for size_bytes
          using construct_and_begin_left [OF laws p(1)] a2 names2 by (simp add: a4 names_ok_def)
        moreover have "start_generation w a e = (case r of Inl why \<Rightarrow> (why, a4, e4) | Inr n \<Rightarrow> construct_and_begin w d n a4 e4)"
          using mount Some True ok absent payload by (simp add: start_generation_def Let_def)
        moreover have "\<not> is_ok why" if "r = Inl why" for why
          using open_payload_refused [of w a2 e3 why "(a4, e4)"] payload that by simp
        ultimately show ?thesis using p(1) names2 by (auto simp: start_left_def a4 names_ok_def split: sum.split)
      qed
    qed
  qed
qed

section \<open>Publishing\<close>

lemma kept_step:
  assumes "card_kept view first e" and "\<And>q c. first q \<noteq> None \<Longrightarrow> card_files (view e) q = Some c \<Longrightarrow> card_files (view e') q = Some c"
  shows "card_kept view first e'"
  unfolding card_kept_def map_le_def
proof
  fix q assume "q \<in> dom first"
  then obtain c where c: "first q = Some c" by blast
  then have "card_files (view e) q = Some c" using assms(1) by (force simp: card_kept_def map_le_def)
  then show "first q = card_files (view e') q" using assms(2) [of q c] c by simp
qed

lemma rename_kept:
  assumes laws: "card_laws w view" and kept: "card_kept view first e" and "first old = None"
    and run: "card_rename w old new e = (r, e')"
  shows "card_kept view first e'"
proof (rule kept_step [OF kept])
  fix q c assume q: "first q \<noteq> None" "card_files (view e) q = Some c"
  note law = card_renameD [OF laws run]
  have "q \<noteq> old" using q(1) assms(3) by auto
  show "card_files (view e') q = Some c"
  proof (cases "r = Fr_ok")
    case True
    then have "q \<noteq> new" using law(2) q(2) by auto
    then show ?thesis using law(3) [OF True] q(2) \<open>q \<noteq> old\<close> by simp
  next
    case False
    then show ?thesis using law(4) q(2) \<open>q \<noteq> old\<close> by blast
  qed
qed

text \<open>What publishing leaves: a published artifact, or an error with nothing of the first card lost.\<close>

definition publish_left :: "'e tx_world \<Rightarrow> ('e \<Rightarrow> card_view) \<Rightarrow> (string \<Rightarrow> bytes option) \<Rightarrow> status \<times> tx_artifact \<times> 'e \<Rightarrow> bool" where
  "publish_left w view first = (\<lambda>(st, a, e). card_kept view first e \<and> names_ok a \<and>
     (is_ok st \<longrightarrow> art_state a = 3 \<and> tx_inv w view first (a, e)))"

lemma publish_left_error: "card_kept view first e \<Longrightarrow> names_ok a \<Longrightarrow> \<not> is_ok st \<Longrightarrow> publish_left w view first (st, a, e)"
  by (simp add: publish_left_def)

lemma finalize_refused [simp]: "\<not> is_ok artifact_finalize_error"
  by (simp add: is_ok_def status_defs)

lemma rename_outputs_left:
  assumes laws: "card_laws w view" and kept: "card_kept view first e" and names: "names_ok a"
    and free: "first (art_output_path a) = None" "first (art_temporary_path a) = None" "first (art_manifest_temporary_path a) = None"
    and wav: "card_files (view e) (art_temporary_path a) = Some (log_file l)"
    and listed: "card_files (view e) (art_manifest_temporary_path a) = Some (tag_bytes (manifest_text w a0 (job_hashes g)))"
    and distinct: "art_manifest_temporary_path a \<noteq> art_temporary_path a"
    and job: "job_ok 3 n 48000 g l" "gen_state g = Job_complete"
    and same: "snap_filename (art_snapshot a0) = snap_filename (art_snapshot a)" and shut: "\<not> art_output_open a"
  shows "publish_left w view first (rename_outputs w (hash_wav (job_hashes g)) a e)"
proof -
  obtain r1 e1 where one: "card_rename w (art_temporary_path a) (art_output_path a) e = (r1, e1)" by force
  obtain r2 e2 where two: "card_rename w (art_manifest_temporary_path a) (art_manifest_path a) e1 = (r2, e2)" by force
  obtain r3 e3 where undo: "card_rename w (art_output_path a) (art_temporary_path a) e2 = (r3, e3)" by force
  note law1 = card_renameD [OF laws one] and law2 = card_renameD [OF laws two]
  have kept1: "card_kept view first e1" by (rule rename_kept [OF laws kept free(2) one])
  have kept2: "card_kept view first e2" by (rule rename_kept [OF laws kept1 free(3) two])
  have kept3: "card_kept view first e3" by (rule rename_kept [OF laws kept2 free(1) undo])
  show ?thesis
  proof (cases "r1 = Fr_ok \<and> r2 = Fr_ok")
    case False
    then show ?thesis using kept1 kept3 names publish_left_error [of view first _ a artifact_finalize_error]
      by (auto simp: rename_outputs_def one two undo)
  next
    case True
    let ?a = "a\<lparr>art_snapshot := (art_snapshot a)\<lparr>snap_wav_sha256 := hash_wav (job_hashes g), snap_state := 3\<rparr>\<rparr>"
    obtain c b e4 where shutting: "close_files w ?a e2 = (c, b, e4)" by (rule prod_cases3)
    note closing = close_files_left [OF laws shutting] and b = only_closedD [OF close_files_left(2) [OF laws shutting]]
    let ?b = "if is_ok c then b else b\<lparr>art_snapshot := (art_snapshot b)\<lparr>snap_error := message c\<rparr>\<rparr>"
    have f1: "card_files (view e1) (art_output_path a) = Some (log_file l)"
      "card_files (view e1) (art_manifest_temporary_path a) = Some (tag_bytes (manifest_text w a0 (job_hashes g)))"
      using True law1(2,3) wav listed distinct by auto
    have "art_output_path a \<noteq> art_manifest_temporary_path a" "art_output_path a \<noteq> art_manifest_path a"
      using True law1(2) law2(2) listed f1(1) by auto
    then have f2: "card_files (view e2) (art_output_path a) = Some (log_file l)"
      "card_files (view e2) (art_manifest_path a) = Some (tag_bytes (manifest_text w a0 (job_hashes g)))"
      using True law2(3) f1 by auto
    have kept4: "card_kept view first e4" using kept2 closing(1) by (simp add: card_kept_def)
    have "published w view ?b e4" unfolding published_def
      using job f2 same by (intro exI [of _ g] exI [of _ l] exI [of _ n] exI [of _ a0]) (simp add: closing(1) b)
    moreover have "names_ok ?b" using names b by (simp add: names_ok_def)
    moreover have "\<not> art_cleanup_pending b \<longrightarrow> \<not> art_output_open b" using closing(3,4) by blast
    moreover have "rename_outputs w (hash_wav (job_hashes g)) a e = (success, ?b, e4)"
      using True by (simp add: rename_outputs_def one two shutting Let_def)
    ultimately show ?thesis using kept4 b(1) by (simp add: publish_left_def tx_inv_def)
  qed
qed

lemma write_manifest_left:
  assumes laws: "card_laws w view" and kept: "card_kept view first e" and names: "names_ok a"
    and free: "first (art_output_path a) = None" "first (art_temporary_path a) = None" "first (art_manifest_temporary_path a) = None"
    and wav: "card_files (view e) (art_temporary_path a) = Some (log_file l)"
    and job: "job_ok 3 n 48000 g l" "gen_state g = Job_complete" and shut: "\<not> art_output_open a"
  shows "publish_left w view first (write_manifest w (job_hashes g) a e)"
proof -
  let ?text = "manifest_text w a (job_hashes g)" and ?path = "art_manifest_temporary_path a"
  obtain r e1 where o: "card_open w Manifest_file ?path Create_new e = (r, e1)" by force
  obtain wrote k e2 where out: "card_write w Manifest_file (tag_bytes ?text) e1 = (wrote, k, e2)" by (rule prod_cases3)
  obtain synced e3 where sync: "card_sync w Manifest_file e2 = (synced, e3)" by force
  obtain closing e4 where close: "card_close w Manifest_file e3 = (closing, e4)" by force
  let ?a = "a\<lparr>art_manifest_open := (closing \<noteq> Fr_ok)\<rparr>"
  note law1 = card_openD [OF laws o] and law2 = card_writeD [OF laws out]
  have kept1: "card_kept view first e1" using kept law1(5) map_le_trans by (auto simp: card_kept_def)
  have names': "names_ok ?a" using names by (simp add: names_ok_def)
  show ?thesis
  proof (cases "length ?text < metadata_capacity \<and> r = Fr_ok")
    case False
    then show ?thesis using publish_left_error [of view first _ a] kept kept1 names
      by (auto simp: write_manifest_def o Let_def)
  next
    case True
    then have handle: "card_handle (view e1) Manifest_file = Some (?path, Create_new)"
      and files: "card_files (view e1) = (card_files (view e))(?path := Some [])" and fresh: "card_files (view e) ?path = None"
      using law1(1-3) by simp_all
    have other: "card_files (view e2) q = card_files (view e1) q" if "q \<noteq> ?path" for q
      using law2(2) [of q] handle that by simp
    have "card_kept view first e2"
      by (rule kept_step [OF kept1]) (use other free(3) in metis)
    then have kept4: "card_kept view first e4"
      using card_stillD(1) [OF laws sync] card_closeD(1) [OF laws close] by (simp add: card_kept_def)
    show ?thesis
    proof (cases "wrote = Fr_ok \<and> k = length ?text \<and> synced = Fr_ok \<and> closing = Fr_ok")
      case False
      then have "write_manifest w (job_hashes g) a e = (artifact_finalize_error, ?a, e4)"
        using True by (auto simp: write_manifest_def o out sync close Let_def)
      then show ?thesis using publish_left_error [OF kept4 names'] by simp
    next
      case ok: True
      have "card_files (view e4) = card_files (view e2)"
        using card_stillD(1) [OF laws sync] card_closeD(1) [OF laws close] by simp
      moreover have "card_files (view e2) ?path = Some ([] @ tag_bytes ?text)"
        using law2(3) [OF _ _ handle] ok files by simp
      moreover have differ: "?path \<noteq> art_temporary_path a" using fresh wav by auto
      moreover have "card_files (view e2) (art_temporary_path a) = Some (log_file l)" using other differ files wav by simp
      moreover have "write_manifest w (job_hashes g) a e = rename_outputs w (hash_wav (job_hashes g)) ?a e4"
        using True ok by (simp add: write_manifest_def o out sync close Let_def)
      ultimately show ?thesis
        using rename_outputs_left [OF laws kept4 names', of l a g n] free job shut by simp
    qed
  qed
qed

lemma publish_artifact_left:
  assumes laws: "card_laws w view" and names: "names_ok a" and free: "first (art_output_path a) = None"
    "first (art_manifest_temporary_path a) = None"
    and on: "job_on_card view first (art_temporary_path a) ((e, art_output_open a), l)"
    and job: "job_ok 3 n 48000 g l" "gen_state g = Job_complete"
  shows "publish_left w view first (publish_artifact w g a e)"
proof -
  have "log_file l \<noteq> []" using job_complete(1) [OF job] by (simp add: wav_header_def tag_bytes_def)
  then have kept: "card_kept view first e" and temp: "first (art_temporary_path a) = None"
    "card_files (view e) (art_temporary_path a) = Some (log_file l)"
    using on by (auto simp: job_on_card_def split: if_splits)
  obtain synced e1 where sync: "card_sync w Output_file e = (synced, e1)" by force
  obtain out e2 where o: "still_open w Output_file (art_output_open a) e1 = (out, e2)" by force
  obtain p e3 where pay: "still_open w Payload_file (art_payload_open a) e2 = (p, e3)" by force
  let ?a = "a\<lparr>art_output_open := out, art_payload_open := p\<rparr>"
  have files: "card_files (view e1) = card_files (view e)" "card_files (view e3) = card_files (view e)"
    using card_stillD(1) [OF laws sync] still_open_files [OF laws o] still_open_files [OF laws pay] by simp_all
  have kepts: "card_kept view first e1" "card_kept view first e3" using kept files by (simp_all add: card_kept_def)
  have names': "names_ok ?a" using names by (simp add: names_ok_def)
  show ?thesis
  proof (cases "synced = Fr_ok \<and> \<not> out \<and> \<not> p")
    case False
    then have "publish_artifact w g a e = (artifact_finalize_error, a, e1) \<or> publish_artifact w g a e = (artifact_finalize_error, ?a, e3)"
      by (auto simp: publish_artifact_def sync o pay Let_def)
    then show ?thesis using publish_left_error [OF kepts(1) names] publish_left_error [OF kepts(2) names'] by auto
  next
    case True
    then have "publish_artifact w g a e = write_manifest w (job_hashes g) ?a e3"
      by (simp add: publish_artifact_def sync o pay Let_def)
    then show ?thesis using write_manifest_left [OF laws kepts(2) names' _ _ _ _ job] free temp files(2) True by simp
  qed
qed

section \<open>Making the file\<close>

lemma failed_quietly_left:
  assumes "card_laws w view" and "card_kept view first e" and "names_ok a"
  shows "tx_inv w view first (failed_quietly w why a e)"
proof -
  obtain st a' e' where "art_fail w why a e = (st, a', e')" by (rule prod_cases3)
  then show ?thesis using art_fail_left [OF assms] by (simp add: failed_quietly_def)
qed

lemma continue_with_left:
  assumes laws: "card_laws w view" and inv: "tx_inv w view first (a, e)" and state: "art_state a = 2" and g: "art_writer a = Some g"
  shows "tx_inv w view first (continue_with w g a e)"
proof -
  let ?t = "art_temporary_path a" and ?job = "artifact_job w (art_temporary_path a)"
  have gen: "generating_ok view first a e" and names: "names_ok a" using inv state by (simp_all add: tx_inv_def)
  obtain l n where settled: "settled g" and states: "gen_state g \<in> {Job_running, Job_complete}" and job: "job_ok 3 n 48000 g l"
    and on: "job_on_card view first ?t ((e, art_output_open a), l)" and pending: "\<not> art_cleanup_pending a"
    and free: "\<forall>p \<in> {art_output_path a, ?t, art_manifest_path a, art_manifest_temporary_path a}. first p = None"
    and counts: "snap_total_frames (art_snapshot a) = gen_total_frames g"
    using gen g by (auto simp: generating_ok_def)
  obtain h y where rec: "gen_step (recorded ?job) maximum_step_frames g ((e, art_output_open a), l) = (h, y)" by (rule prod.exhaust)
  obtain e1 m l1 where y: "y = ((e1, m), l1)" by (metis surj_pair)
  have plain: "gen_step ?job maximum_step_frames g (e, art_output_open a) = (h, e1, m)" using gen_step_plain [OF rec] by (simp add: y)
  have left: "left_by (job_on_card view first ?t) (job_kept view first) (h, y)"
    using gen_step_left [OF artifact_job_keeps [OF laws] on, of g maximum_step_frames] states rec by auto
  have job1: "job_ok 3 n 48000 h l1" using gen_step_ok [OF job rec [unfolded y]] .
  have settled1: "settled h" using gen_step_settled [OF settled, of ?job maximum_step_frames "(e, art_output_open a)"] plain by simp
  have kept: "card_kept view first e1" using left by (auto simp: left_by_def y job_kept_def job_on_card_def split: if_splits)
  let ?a = "a\<lparr>art_writer := Some h, art_output_open := m, art_snapshot := (art_snapshot a)\<lparr>snap_frames_written := gen_frames_written h\<rparr>\<rparr>"
  have names1: "names_ok ?a" using names by (simp add: names_ok_def)
  have on1: "gen_state h \<noteq> Job_failed \<Longrightarrow> job_on_card view first ?t ((e1, m), l1)" using left by (simp add: left_by_def y)
  consider (failed) "gen_state h = Job_failed" | (complete) "gen_state h = Job_complete" | (running) "gen_state h = Job_running"
    using settled1 by (cases "gen_state h") (simp_all add: settled_def)
  then show ?thesis
  proof cases
    case failed
    then show ?thesis using failed_quietly_left [OF laws kept names1] by (simp add: continue_with_def plain Let_def)
  next
    case complete
    obtain st a2 e2 where publish: "publish_artifact w h ?a e1 = (st, a2, e2)" by (rule prod_cases3)
    have "publish_left w view first (publish_artifact w h ?a e1)"
      by (rule publish_artifact_left [OF laws names1 _ _ _ job1 complete]) (use free on1 complete in simp_all)
    then have "publish_left w view first (st, a2, e2)" by (simp add: publish)
    then show ?thesis using complete publish failed_quietly_left [OF laws, of first e2 a2]
      by (simp add: continue_with_def plain publish_left_def Let_def)
  next
    case running
    have "gen_total_frames h = gen_total_frames g"
      using gen_step_counts [of ?job maximum_step_frames g "(e, art_output_open a)"] by (simp add: plain)
    then have "generating_ok view first ?a e1"
      using running pending free settled1 job1 on1 counts by (auto simp: generating_ok_def)
    then show ?thesis using running kept names1 state by (simp add: continue_with_def plain tx_inv_def Let_def)
  qed
qed

end
