(* ===== verification/TxOwner.thy ===== *)
theory TxOwner
  imports TxPublish
begin

text \<open>
  Every request and every pass of the owner of a transmit artifact keeps its invariant, so that it holds
  in every state it can reach.
\<close>

section \<open>Requests\<close>

lemma closed_inv:
  assumes laws: "card_laws w view" and inv: "tx_inv w view first (a, e)" and "art_state a \<noteq> 1" "art_state a \<noteq> 2"
    and closing: "close_files w a e = (st, a', e')"
  shows "tx_inv w view first (a', e')" and "art_state a' = art_state a"
proof -
  note c = close_files_left [OF laws closing] and o = only_closedD [OF close_files_left(2) [OF laws closing]]
  show "art_state a' = art_state a" by (simp add: o)
  have "published w view a' e' = published w view a e" unfolding published_def c(1) o ..
  then show "tx_inv w view first (a', e')"
    using inv assms(3,4) c by (auto simp: tx_inv_def o names_ok_def card_kept_def)
qed

lemma selected_inv:
  assumes "card_kept view first e" and "\<not> art_payload_open a" and "\<not> art_output_open a"
  shows "tx_inv w view first ((select_output name a)\<lparr>art_encoder_name := x, art_profile := y\<rparr>, e)"
    and "tx_inv w view first (select_output name a, e)"
  using assms by (simp_all add: tx_inv_def select_output_def names_ok_def fresh_snapshot_def)

lemma inv_kept: "tx_inv w view first (a, e) \<Longrightarrow> card_kept view first e" and inv_names: "tx_inv w view first (a, e) \<Longrightarrow> names_ok a"
  by (simp_all add: tx_inv_def)

lemma serve_reset_inv:
  assumes laws: "card_laws w view" and inv: "tx_inv w view first (a, e)"
  shows "tx_inv w view first (snd (serve_reset w a e))"
proof -
  obtain st a' e' where run: "(if art_state a = 1 \<or> art_state a = 2 then art_fail w ''ABORTED'' a e else close_files w a e) = (st, a', e')"
    by (rule prod_cases3)
  have left: "tx_inv w view first (a', e') \<and> (is_ok st \<longrightarrow> \<not> art_payload_open a' \<and> \<not> art_output_open a')"
  proof (cases "art_state a = 1 \<or> art_state a = 2")
    case True
    then show ?thesis using run art_fail_left [OF laws inv_kept [OF inv] inv_names [OF inv]] by auto
  next
    case False
    then have closing: "close_files w a e = (st, a', e')" and "art_state a \<noteq> 1" "art_state a \<noteq> 2" using run by simp_all
    then show ?thesis using closed_inv(1) [OF laws inv _ _ closing] close_files_left(3) [OF laws closing] by simp
  qed
  then have "is_ok st \<Longrightarrow> tx_inv w view first (select_defaults a', e')"
    unfolding select_defaults_def by (intro selected_inv(2)) (use inv_kept in auto)
  then show ?thesis using left by (simp add: serve_reset_def run)
qed

text \<open>The mailbox and the choice of the encoder are not part of the invariant.\<close>

lemma inv_marks:
  "tx_inv w view first (a\<lparr>art_request_pending := b\<rparr>, e) = tx_inv w view first (a, e)"
  "tx_inv w view first (a\<lparr>art_response_pending := b\<rparr>, e) = tx_inv w view first (a, e)"
  "tx_inv w view first (a\<lparr>art_disconnected := b\<rparr>, e) = tx_inv w view first (a, e)"
  "tx_inv w view first (a\<lparr>art_processing_request := b\<rparr>, e) = tx_inv w view first (a, e)"
  "tx_inv w view first (a\<lparr>art_request_slot := r\<rparr>, e) = tx_inv w view first (a, e)"
  "tx_inv w view first (a\<lparr>art_response_slot := q\<rparr>, e) = tx_inv w view first (a, e)"
  "tx_inv w view first (a\<lparr>art_rate := n\<rparr>, e) = tx_inv w view first (a, e)"
  "tx_inv w view first (a\<lparr>art_interleave := i\<rparr>, e) = tx_inv w view first (a, e)"
  "tx_inv w view first (a\<lparr>art_encoder_name := x\<rparr>, e) = tx_inv w view first (a, e)"
  "tx_inv w view first (a\<lparr>art_profile := x\<rparr>, e) = tx_inv w view first (a, e)"
  by (simp_all add: tx_inv_def names_ok_def upload_ok_def generating_ok_def published_def)

lemma serve_mode_inv: "tx_inv w view first (a, e) \<Longrightarrow> tx_inv w view first (snd (serve_mode r a e))"
  by (simp add: serve_mode_def inv_marks)

lemma serve_select_inv:
  assumes laws: "card_laws w view" and inv: "tx_inv w view first (a, e)" and "art_state a \<noteq> 2"
  shows "tx_inv w view first (snd (serve_select w r a e))"
proof -
  obtain st a' e' where closing: "close_files w a e = (st, a', e')" by (rule prod_cases3)
  show ?thesis
  proof (cases "art_state a = 1 \<or> \<not> valid_filename (request_name r) ''WAV''")
    case True
    then show ?thesis using inv by (auto simp: serve_select_def)
  next
    case False
    note left = closed_inv(1) [OF laws inv _ assms(3) closing]
    show ?thesis using False left close_files_left(3) [OF laws closing] selected_inv(1) [OF inv_kept [OF left]]
      by (simp add: serve_select_def closing)
  qed
qed

lemma started_inv:
  assumes laws: "card_laws w view" and "start_left view first x"
  shows "tx_inv w view first (snd (failed_transaction w x))"
proof -
  obtain st a e where x: "x = (st, a, e)" by (rule prod_cases3)
  obtain st' a' e' where run: "failed_transaction w (st, a, e) = (st', a', e')" by (rule prod_cases3)
  have "is_ok st \<Longrightarrow> tx_inv w view first (a, e)" using assms(2) by (simp add: x start_left_def tx_inv_def)
  then show ?thesis using failed_transaction_left [OF laws _ _ _ run] assms(2) by (simp add: x start_left_def run)
qed

lemma serve_send_inv:
  assumes laws: "card_laws w view" and inv: "tx_inv w view first (a, e)"
  shows "tx_inv w view first (snd (serve_send w a e))"
proof (cases "art_state a = 1")
  case True
  then have "\<not> art_cleanup_pending a \<longrightarrow> \<not> art_output_open a" using inv by (simp add: tx_inv_def)
  from start_generation_left [OF laws inv_kept [OF inv] inv_names [OF inv] this] True show ?thesis
    using started_inv [OF laws] by (simp add: serve_send_def)
qed (use inv in \<open>simp add: serve_send_def\<close>)

lemma serve_generate_inv:
  assumes laws: "card_laws w view" and inv: "tx_inv w view first (a, e)" and "art_state a \<noteq> 2"
  shows "tx_inv w view first (snd (serve_generate w r a e))"
proof -
  obtain st a' e' where closing: "close_files w a e = (st, a', e')" by (rule prod_cases3)
  show ?thesis
  proof (cases "art_state a = 1 \<or> \<not> valid_filename (request_name r) ''WAV'' \<or> \<not> valid_filename (request_input_name r) ''BIN''")
    case True
    then show ?thesis using inv by (auto simp: serve_generate_def)
  next
    case False
    note left = closed_inv(1) [OF laws inv _ assms(3) closing]
    let ?a = "(select_output (request_name r) a')\<lparr>art_input_path := make_path (request_input_name r) None,
      art_rate := request_rate r, art_interleave := request_interleave r, art_encoder_name := request_encoder r,
      art_profile := request_profile r\<rparr>"
    have "start_left view first (start_generation w ?a e')" if "is_ok st"
      by (rule start_generation_left [OF laws inv_kept [OF left]])
        (use False close_files_left(3) [OF laws closing that] in \<open>auto simp: names_ok_def select_output_def fresh_snapshot_def\<close>)
    then show ?thesis using False left started_inv [OF laws] by (simp add: serve_generate_def closing)
  qed
qed

lemma write_payload_inv:
  assumes laws: "card_laws w view" and kept: "card_kept view first e" and names: "names_ok a"
    and open_file: "art_mounted a" "art_payload_open a" "first (art_input_path a) = None"
      "card_handle (view e) Payload_file = Some (art_input_path a, Create_new)"
    and c: "card_files (view e) (art_input_path a) = Some c" "length c = unat (snap_payload_bytes (art_snapshot a))"
    and shut: "\<not> art_cleanup_pending a \<longrightarrow> \<not> art_output_open a"
    and fits: "snap_payload_bytes (art_snapshot a) \<le> maximum_upload_bytes"
      "\<not> ucast (request_size r) > maximum_upload_bytes - snap_payload_bytes (art_snapshot a)"
  shows "tx_inv w view first (snd (write_payload w r a e))"
proof -
  let ?bs = "take (unat (request_size r)) (request_data r)" and ?n = "snap_payload_bytes (art_snapshot a)"
  obtain wrote k e1 where out: "card_write w Payload_file ?bs e = (wrote, k, e1)" by (rule prod_cases3)
  note law = card_writeD [OF laws out]
  have kept1: "card_kept view first e1"
  proof (rule kept_step [OF kept])
    fix q x assume "first q \<noteq> None" "card_files (view e) q = Some x"
    moreover have "q \<noteq> art_input_path a" using calculation(1) open_file(3) by auto
    ultimately show "card_files (view e1) q = Some x" using law(2) [of q] open_file(4) by simp
  qed
  show ?thesis
  proof (cases "wrote = Fr_ok \<and> k = unat (request_size r)")
    case False
    obtain st' a' e' where "failed_transaction w (payload_write_error, a, e1) = (st', a', e')" by (rule prod_cases3)
    then show ?thesis using False failed_transaction_left [OF laws kept1 names, of payload_write_error]
      by (auto simp: write_payload_def out is_ok_def status_defs)
  next
    case True
    then have k: "length ?bs = unat (request_size r)" using law(4) by simp
    have sum: "unat (?n + ucast (request_size r)) = unat ?n + unat (request_size r)" "?n + ucast (request_size r) \<le> maximum_upload_bytes"
      using fits by (simp_all add: maximum_upload_bytes_def word_le_nat_alt unat_sub unat_add_exact not_less)
    have "card_files (view e1) (art_input_path a) = Some (c @ ?bs)" using law(3) [OF _ _ open_file(4) c(1)] True k by simp
    moreover have "length (c @ ?bs) = unat (?n + ucast (request_size r))" using k sum(1) c(2) by simp
    ultimately show ?thesis using True kept1 names open_file law(1) shut sum(2)
      by (auto simp: write_payload_def out tx_inv_def upload_ok_def names_ok_def)
  qed
qed

lemma append_fresh:
  assumes laws: "card_laws w view" and kept: "card_kept view first e" and names: "names_ok a"
    and "art_mounted a" "\<not> art_payload_open a" "\<not> art_output_open a" "snap_payload_bytes (art_snapshot a) = 0"
    and fits: "\<not> ucast (request_size r) > maximum_upload_bytes - snap_payload_bytes (art_snapshot a)"
  shows "tx_inv w view first (snd (append_payload w r a e))"
proof -
  obtain opened e1 where o: "card_open w Payload_file (art_input_path a) Create_new e = (opened, e1)" by force
  note law = card_openD [OF laws o]
  have kept1: "card_kept view first e1" using kept law(5) map_le_trans by (auto simp: card_kept_def)
  show ?thesis
  proof (cases "opened = Fr_ok")
    case False
    obtain st' a' e' where "failed_transaction w (payload_exists_or_io_error, a, e1) = (st', a', e')" by (rule prod_cases3)
    then show ?thesis using False assms(5) failed_transaction_left [OF laws kept1 names, of payload_exists_or_io_error]
      by (auto simp: append_payload_def o is_ok_def status_defs)
  next
    case True
    then have "tx_inv w view first (snd (write_payload w r (a\<lparr>art_payload_open := True\<rparr>) e1))"
      using write_payload_inv [OF laws kept1, of "a\<lparr>art_payload_open := True\<rparr>" "[]" r] names assms(4,6,7) fits law(1,3)
        kept_free [OF kept law(2)] by (simp add: names_ok_def)
    then show ?thesis using True assms(5) by (simp add: append_payload_def o)
  qed
qed

lemma serve_data_inv:
  assumes laws: "card_laws w view" and inv: "tx_inv w view first (a, e)" and "\<not> art_cleanup_pending a"
  shows "tx_inv w view first (snd (serve_data w r a e))"
proof -
  note kept = inv_kept [OF inv] and names = inv_names [OF inv]
  obtain media a1 e1 where mount: "art_mount w a e = (media, a1, e1)" by (rule prod_cases3)
  note m = art_mount_left [OF laws mount]
  show ?thesis
  proof (cases "(art_state a \<noteq> 0 \<and> art_state a \<noteq> 1) \<or> request_size r = 0 \<or> unat (request_size r) > maximum_payload \<or>
      ucast (request_size r) > maximum_upload_bytes - snap_payload_bytes (art_snapshot a)")
    case True
    then show ?thesis using inv by (auto simp: serve_data_def)
  next
    case False
    then have served: "serve_data w r a e = (if \<not> is_ok media then (media, a1, e1) else append_payload w r a1 e1)"
      and fits: "\<not> ucast (request_size r) > maximum_upload_bytes - snap_payload_bytes (art_snapshot a)"
      and states: "art_state a = 0 \<or> art_state a = 1" by (auto simp: serve_data_def mount)
    show ?thesis
    proof (cases "art_state a = 1")
      case True
      then have up: "upload_ok view first a e" using inv by (simp add: tx_inv_def)
      then have same: "a1 = a" "e1 = e" using mount assms(3) by (auto simp: art_mount_def upload_ok_def split: if_splits)
      have "\<not> art_output_open a" using inv True assms(3) by (simp add: tx_inv_def)
      then have "tx_inv w view first (snd (write_payload w r a e))"
        using write_payload_inv [OF laws kept names] up fits by (auto simp: upload_ok_def)
      then show ?thesis using inv up by (simp add: served same append_payload_def upload_ok_def)
    next
      case False
      then have idle: "art_state a = 0" "\<not> art_payload_open a" "snap_payload_bytes (art_snapshot a) = 0" "\<not> art_output_open a"
        using states inv assms(3) by (auto simp: tx_inv_def)
      show ?thesis
      proof (cases "is_ok media")
        case False
        then show ?thesis using idle m(1,5,6) kept names only_closedD [OF m(2)]
          by (auto simp: served tx_inv_def card_kept_def names_ok_def)
      next
        case True
        have a1: "a1 = a\<lparr>art_mounted := True\<rparr>" and kept1: "card_kept view first e1"
          using m(3) [OF True] kept by (simp_all add: card_kept_def)
        show ?thesis using append_fresh [OF laws kept1] True a1 idle names assms(3) fits by (simp add: served names_ok_def)
      qed
    qed
  qed
qed

lemma serve_request_inv:
  assumes laws: "card_laws w view" and inv: "tx_inv w view first (a, e)"
  shows "tx_inv w view first (snd (serve_request w r a e))"
proof -
  have busy: "tx_inv w view first (snd (serve_request w r a e))"
    if "request_kind r \<noteq> Kind_reset" "art_cleanup_pending a \<or> player_busy w e \<or> art_state a = 2"
    using that inv by (auto simp: serve_request_def)
  show ?thesis
  proof (cases "art_cleanup_pending a \<or> player_busy w e \<or> art_state a = 2")
    case True
    then show ?thesis using busy serve_reset_inv [OF laws inv] by (cases "request_kind r") (auto simp: serve_request_def)
  next
    case False
    then show ?thesis using inv serve_reset_inv [OF laws inv] serve_mode_inv [OF inv] serve_select_inv [OF laws inv]
        serve_data_inv [OF laws inv] serve_send_inv [OF laws inv] serve_generate_inv [OF laws inv]
      by (cases "request_kind r") (simp_all add: serve_request_def)
  qed
qed

section \<open>Every pass\<close>

lemma quietly_inv:
  assumes "card_laws w view" and "tx_inv w view first (a, e)"
  shows "tx_inv w view first (failed_quietly w why a e)"
    and "art_state a \<noteq> 1 \<Longrightarrow> art_state a \<noteq> 2 \<Longrightarrow> tx_inv w view first (close_quietly w a e)"
proof -
  show "tx_inv w view first (failed_quietly w why a e)"
    by (rule failed_quietly_left [OF assms(1) inv_kept [OF assms(2)] inv_names [OF assms(2)]])
  obtain st a' e' where "close_files w a e = (st, a', e')" by (rule prod_cases3)
  then show "art_state a \<noteq> 1 \<Longrightarrow> art_state a \<noteq> 2 \<Longrightarrow> tx_inv w view first (close_quietly w a e)"
    using closed_inv(1) [OF assms] by (simp add: close_quietly_def)
qed

lemma abort_inv:
  assumes "card_laws w view" and "tx_inv w view first (a, e)"
  shows "tx_inv w view first (abort_tx_artifact w a e)"
  using assms quietly_inv [OF assms] by (simp add: abort_tx_artifact_def)

lemma generating_not_pending: "tx_inv w view first (a, e) \<Longrightarrow> art_state a = 2 \<Longrightarrow> \<not> art_cleanup_pending a"
  by (simp add: tx_inv_def generating_ok_def)

lemma serve_disconnect_inv:
  assumes laws: "card_laws w view" and inv: "tx_inv w view first (a, e)"
  shows "tx_inv w view first (serve_disconnect w a e)"
proof -
  let ?a = "a\<lparr>art_disconnected := False, art_request_pending := False, art_response_pending := False\<rparr>"
  have inv1: "tx_inv w view first (?a, e)" using inv by (simp add: inv_marks)
  note quiet = quietly_inv [OF laws inv1]
  show ?thesis using inv inv1 quiet generating_not_pending [OF inv] by (auto simp: serve_disconnect_def Let_def)
qed

lemma serve_mailbox_inv:
  assumes laws: "card_laws w view" and inv: "tx_inv w view first (a, e)"
  shows "tx_inv w view first (serve_mailbox w a e)"
proof -
  let ?a = "a\<lparr>art_request_pending := False, art_processing_request := True\<rparr>"
  obtain served a1 e1 where run: "serve_request w (art_request_slot a) ?a e = (served, a1, e1)" by (rule prod_cases3)
  have "tx_inv w view first (?a, e)" using inv by (simp add: inv_marks)
  from serve_request_inv [OF laws this, of "art_request_slot a"] have "tx_inv w view first (a1, e1)" by (simp add: run)
  then show ?thesis using inv by (simp add: serve_mailbox_def run inv_marks)
qed

lemma service_inv:
  assumes laws: "card_laws w view" and inv: "tx_inv w view first (a, e)"
  shows "tx_inv w view first (service_tx_artifact w a e)"
proof -
  obtain a1 e1 where one: "serve_disconnect w a e = (a1, e1)" by force
  obtain a2 e2 where two: "serve_mailbox w a1 e1 = (a2, e2)" by force
  have inv1: "tx_inv w view first (a1, e1)" using serve_disconnect_inv [OF laws inv] one by simp
  have inv2: "tx_inv w view first (a2, e2)" using serve_mailbox_inv [OF laws inv1] two by simp
  then show ?thesis using continue_with_left [OF laws inv2]
    by (simp add: service_tx_artifact_def one two continue_generation_def split: option.split)
qed

section \<open>What the owner can reach\<close>

text \<open>
  The steps of the owner and of the tasks around it, in any order: a pass of the owner, an abort by the
  player, a request and the taking of a reply by the USB task, a disconnection, and whatever else happens
  on the card as long as no file that is there changes or goes.
\<close>

inductive tx_step :: "'e tx_world \<Rightarrow> ('e \<Rightarrow> card_view) \<Rightarrow> tx_artifact \<times> 'e \<Rightarrow> tx_artifact \<times> 'e \<Rightarrow> bool" for w view where
  Service: "tx_step w view (a, e) (service_tx_artifact w a e)"
| Abort: "tx_step w view (a, e) (abort_tx_artifact w a e)"
| Submit: "tx_step w view (a, e) (snd (submit_tx_request r a), e)"
| Take: "tx_step w view (a, e) (snd (take_tx_reply a), e)"
| Disconnect: "tx_step w view (a, e) (disconnect_tx_artifact a, e)"
| Elsewhere: "map_le (card_files (view e)) (card_files (view e')) \<Longrightarrow> card_handle (view e') = card_handle (view e) \<Longrightarrow>
    tx_step w view (a, e) (a, e')"

inductive tx_later :: "'e tx_world \<Rightarrow> ('e \<Rightarrow> card_view) \<Rightarrow> tx_artifact \<times> 'e \<Rightarrow> tx_artifact \<times> 'e \<Rightarrow> bool" for w view where
  Now: "tx_later w view x x"
| Then: "tx_later w view x y \<Longrightarrow> tx_step w view y z \<Longrightarrow> tx_later w view x z"

abbreviation tx_reached :: "'e tx_world \<Rightarrow> ('e \<Rightarrow> card_view) \<Rightarrow> 'e \<Rightarrow> tx_artifact \<times> 'e \<Rightarrow> bool" where
  "tx_reached w view e0 x \<equiv> tx_later w view (fresh_artifact, e0) x"

lemma files_later: "map_le m m' \<Longrightarrow> m p = Some c \<Longrightarrow> m' p = Some c"
  by (auto simp: map_le_def dom_def)

lemma elsewhere_inv:
  assumes inv: "tx_inv w view first (a, e)" and more: "map_le (card_files (view e)) (card_files (view e'))"
    and same: "card_handle (view e') = card_handle (view e)"
  shows "tx_inv w view first (a, e')"
proof -
  note later = files_later [OF more]
  have kept: "card_kept view first e'" using inv_kept [OF inv] more map_le_trans by (auto simp: card_kept_def)
  have "upload_ok view first a e \<Longrightarrow> upload_ok view first a e'"
    unfolding upload_ok_def same using later by blast
  moreover have jobs: "job_on_card view first t ((e, m), l) \<Longrightarrow> job_on_card view first t ((e', m), l)" for t m l
    using kept later by (simp add: job_on_card_def same split: if_splits)
  have "generating_ok view first a e \<Longrightarrow> generating_ok view first a e'"
    unfolding generating_ok_def by (elim conjE exE) (intro conjI exI; (assumption | erule jobs))
  moreover have "published w view a e \<Longrightarrow> published w view a e'" unfolding published_def using later by blast
  ultimately show ?thesis using inv kept by (simp add: tx_inv_def)
qed

lemma step_inv:
  assumes laws: "card_laws w view" and "tx_step w view x y" and "tx_inv w view first x"
  shows "tx_inv w view first y"
  using assms(2,3)
proof cases
  case (Submit a e r)
  then show ?thesis using assms(3) by (simp add: submit_tx_request_def inv_marks)
next
  case (Take a e)
  then show ?thesis using assms(3) by (simp add: take_tx_reply_def inv_marks)
next
  case (Disconnect a e)
  then show ?thesis using assms(3) by (simp add: disconnect_tx_artifact_def inv_marks)
next
  case (Elsewhere e e' a)
  then show ?thesis using assms(3) elsewhere_inv [of w view first a e e'] by simp
qed (use service_inv [OF laws] abort_inv [OF laws] in auto)

lemma later_inv: "tx_later w view x y \<Longrightarrow> card_laws w view \<Longrightarrow> tx_inv w view first x \<Longrightarrow> tx_inv w view first y"
  by (induction rule: tx_later.induct) (auto intro: step_inv)

lemma artifact_fresh_inv: "tx_inv w view (card_files (view e0)) (fresh_artifact, e0)"
  by (simp add: tx_inv_def card_kept_def names_ok_def fresh_artifact_def fresh_snapshot_def make_path_def last_dot_def)

lemma reached_inv: "tx_reached w view e0 x \<Longrightarrow> card_laws w view \<Longrightarrow> tx_inv w view (card_files (view e0)) x"
  by (rule later_inv [OF _ _ artifact_fresh_inv])

text \<open>Between transactions the invariant holds of the card as it is.\<close>

lemma rebased_inv:
  assumes "tx_inv w view first (a, e)" and "art_state a \<noteq> 1" "art_state a \<noteq> 2"
  shows "tx_inv w view (card_files (view e)) (a, e)"
  using assms by (simp add: tx_inv_def card_kept_def)

section \<open>The making of a file ends\<close>

lemma gen_step_progress:
  assumes "job_ok 3 n trailing g l" and step: "gen_step ops m g e = (h, e1)"
    and "gen_state g = Job_running" "m \<noteq> 0" "gen_state h = Job_running"
  shows "unat (gen_frames_written g) < unat (gen_frames_written h)"
proof -
  obtain k y where rec: "gen_step (recorded ops) m g (e, l) = (k, y)" by (rule prod.exhaust)
  obtain x l1 where y: "y = (x, l1)" by force
  have k: "k = h" using gen_step_plain [OF rec] step by simp
  note rec = rec [unfolded y k]
  have "length (log_file l) < length (log_file l1)" by (rule gen_step_grows [OF assms(1) rec assms(3-5)])
  then show ?thesis
    using running_length(1) [OF assms(1,3)] running_length(1) [OF gen_step_ok [OF assms(1) rec] assms(5)] by simp
qed

lemma failed_state [simp]: "art_state (fst (failed_quietly w why a e)) = 4"
  by (simp add: failed_quietly_def art_fail_def split: prod.split)

lemma close_files_snapshot: "close_files w a e = (st, a', e') \<Longrightarrow> art_snapshot a' = art_snapshot a"
  by (auto simp: close_files_def Let_def split: prod.splits if_splits)

lemma rename_outputs_state: "rename_outputs w t a e = (st, a', e') \<Longrightarrow> is_ok st \<Longrightarrow> art_state a' = 3"
  by (auto simp: rename_outputs_def Let_def dest: close_files_snapshot split: prod.splits if_splits)

lemma write_manifest_state: "write_manifest w h a e = (st, a', e') \<Longrightarrow> is_ok st \<Longrightarrow> art_state a' = 3"
  by (auto simp: write_manifest_def Let_def dest: rename_outputs_state split: prod.splits if_splits)

lemma publish_artifact_state: "publish_artifact w g a e = (st, a', e') \<Longrightarrow> is_ok st \<Longrightarrow> art_state a' = 3"
  by (auto simp: publish_artifact_def Let_def dest: write_manifest_state split: prod.splits if_splits)

lemma continue_with_progress:
  assumes inv: "tx_inv w view first (a, e)" and "art_state a = 2" and g: "art_writer a = Some g"
    and run: "continue_with w g a e = (a', e')" and state: "art_state a' = 2"
  shows "unat (snap_frames_written (art_snapshot a)) < unat (snap_frames_written (art_snapshot a'))"
    and "snap_total_frames (art_snapshot a') = snap_total_frames (art_snapshot a)"
proof -
  let ?job = "artifact_job w (art_temporary_path a)"
  have "generating_ok view first a e" using inv assms(2) by (simp add: tx_inv_def)
  then obtain l n where states: "gen_state g \<in> {Job_running, Job_complete}" and job: "job_ok 3 n 48000 g l"
    and count: "snap_frames_written (art_snapshot a) = gen_frames_written g"
    using g by (auto simp: generating_ok_def)
  obtain h e1 m where step: "gen_step ?job maximum_step_frames g (e, art_output_open a) = (h, e1, m)" by (rule prod_cases3)
  let ?a = "a\<lparr>art_writer := Some h, art_output_open := m, art_snapshot := (art_snapshot a)\<lparr>snap_frames_written := gen_frames_written h\<rparr>\<rparr>"
  obtain st a2 e2 where publish: "publish_artifact w h ?a e1 = (st, a2, e2)" by (rule prod_cases3)
  have not4: "failed_quietly w why b x \<noteq> (a', e')" for why b x
  proof
    assume "failed_quietly w why b x = (a', e')"
    then show False using failed_state [of w why b x] state by simp
  qed
  have "art_state a2 = 3" if "is_ok st" using publish_artifact_state [OF publish that] .
  then have h: "gen_state h \<noteq> Job_failed" "gen_state h \<noteq> Job_complete" and a': "a' = ?a"
    using run state not4 by (auto simp: continue_with_def step publish Let_def split: if_splits)
  then have running: "gen_state g = Job_running" using states step by (auto simp: gen_step_def)
  then have "gen_state h = Job_running" using h gen_step_settled [of g ?job maximum_step_frames "(e, art_output_open a)"] step
    by (cases "gen_state h") (simp_all add: settled_def)
  then show "unat (snap_frames_written (art_snapshot a)) < unat (snap_frames_written (art_snapshot a'))"
    using gen_step_progress [OF job step running] by (simp add: a' count maximum_step_frames_def)
  show "snap_total_frames (art_snapshot a') = snap_total_frames (art_snapshot a)" by (simp add: a')
qed

lemma serve_request_generating:
  assumes "art_state a = 2" and "serve_request w r a e = (st, a', e')" and "art_state a' = 2"
  shows "a' = a" and "e' = e"
proof -
  obtain c b x where f: "art_fail w ''ABORTED'' a e = (c, b, x)" by (rule prod_cases3)
  then have "art_state b = 4" by (auto simp: art_fail_def split: prod.splits)
  then have "request_kind r \<noteq> Kind_reset"
    using assms by (auto simp: serve_request_def serve_reset_def f select_defaults_def select_output_def fresh_snapshot_def split: if_splits)
  then show "a' = a" "e' = e" using assms by (auto simp: serve_request_def split: if_splits)
qed

lemma service_progress:
  assumes inv: "tx_inv w view first (a, e)" and state: "art_state a = 2"
    and run: "service_tx_artifact w a e = (a', e')" and later: "art_state a' = 2"
  shows "unat (snap_frames_written (art_snapshot a)) < unat (snap_frames_written (art_snapshot a'))"
    and "snap_total_frames (art_snapshot a') = snap_total_frames (art_snapshot a)"
proof -
  obtain a1 e1 where one: "serve_disconnect w a e = (a1, e1)" by force
  have pending: "\<not> art_cleanup_pending a" by (rule generating_not_pending [OF inv state])
  then have a1: "tx_inv w view first (a1, e1)" "art_snapshot a1 = art_snapshot a" "e1 = e"
    using one inv state by (auto simp: serve_disconnect_def Let_def inv_marks split: if_splits)
  obtain a2 e2 where two: "serve_mailbox w a1 e1 = (a2, e2)" by force
  obtain st b x where served: "serve_request w (art_request_slot a1)
      (a1\<lparr>art_request_pending := False, art_processing_request := True\<rparr>) e1 = (st, b, x)" by (rule prod_cases3)
  have a2: "tx_inv w view first (a2, e2)" "art_snapshot a2 = art_snapshot a" if "art_state a2 = 2"
    using serve_request_generating [OF _ served] two served a1 state that
    by (auto simp: serve_mailbox_def inv_marks split: if_splits)
  have two_state: "art_state a2 = 2" using run later by (auto simp: service_tx_artifact_def one two split: if_splits)
  note a2 = a2 [OF this]
  obtain g where g: "art_writer a2 = Some g" using a2(1) two_state by (auto simp: tx_inv_def generating_ok_def)
  have "continue_with w g a2 e2 = (a', e')"
    using run two_state g by (simp add: service_tx_artifact_def one two continue_generation_def)
  from continue_with_progress [OF a2(1) two_state g this later]
  show "unat (snap_frames_written (art_snapshot a)) < unat (snap_frames_written (art_snapshot a'))"
    "snap_total_frames (art_snapshot a') = snap_total_frames (art_snapshot a)" by (simp_all add: a2(2))
qed

text \<open>A path along which a file is being made, with the count of frames done that each pass of the
  owner reports.\<close>

definition frames_reported :: "tx_artifact \<times> 'e \<Rightarrow> u64" where
  "frames_reported x = snap_frames_written (art_snapshot (fst x))"

definition total_reported :: "tx_artifact \<times> 'e \<Rightarrow> u64" where
  "total_reported x = snap_total_frames (art_snapshot (fst x))"

inductive tx_making :: "'e tx_world \<Rightarrow> ('e \<Rightarrow> card_view) \<Rightarrow> tx_artifact \<times> 'e \<Rightarrow> u64 list \<Rightarrow> tx_artifact \<times> 'e \<Rightarrow> bool" for w view where
  Making: "art_state (fst x) = 2 \<Longrightarrow> tx_making w view x [] x"
| Pass: "tx_making w view x counts (a, e) \<Longrightarrow> art_state (fst (service_tx_artifact w a e)) = 2 \<Longrightarrow>
    tx_making w view x (counts @ [frames_reported (service_tx_artifact w a e)]) (service_tx_artifact w a e)"
| Other: "tx_making w view x counts y \<Longrightarrow> tx_step w view y z \<Longrightarrow> art_state (fst z) = 2 \<Longrightarrow> tx_making w view x counts z"

lemma making_state: "tx_making w view x counts y \<Longrightarrow> art_state (fst y) = 2"
  by (induction rule: tx_making.induct) simp_all

lemma making_step:
  assumes "tx_step w view y z" and "art_state (fst z) = 2" "art_state (fst y) = 2" and "tx_inv w view first y"
  shows "frames_reported y \<le> frames_reported z \<and> total_reported z = total_reported y"
  using assms(1)
proof cases
  case (Service a e)
  obtain a' e' where run: "service_tx_artifact w a e = (a', e')" by force
  then show ?thesis using service_progress [of w view first a e a' e'] Service assms
    by (simp add: frames_reported_def total_reported_def word_le_nat_alt)
next
  case (Abort a e)
  then show ?thesis using assms(2,3) by (simp add: abort_tx_artifact_def)
qed (simp_all add: submit_tx_request_def take_tx_reply_def disconnect_tx_artifact_def frames_reported_def total_reported_def)

lemma making_progress:
  assumes "tx_making w view x counts y" and laws: "card_laws w view" and "tx_inv w view first x"
  shows "tx_inv w view first y \<and> sorted_wrt (<) (frames_reported x # counts) \<and>
    (\<forall>k \<in> set (frames_reported x # counts). k \<le> frames_reported y) \<and> total_reported y = total_reported x"
  using assms(1,3)
proof (induction rule: tx_making.induct)
  case (Making x)
  then show ?case by simp
next
  case (Pass x counts a e)
  obtain a' e' where run: "service_tx_artifact w a e = (a', e')" by force
  have state: "art_state a = 2" using making_state [OF Pass.hyps(1)] by simp
  have inv: "tx_inv w view first (a, e)" using Pass by simp
  have "frames_reported (a, e) < frames_reported (a', e')" "total_reported (a', e') = total_reported (a, e)"
    using service_progress [OF inv state run] Pass.hyps(2) run
    by (simp_all add: frames_reported_def total_reported_def word_less_nat_alt)
  then show ?case using service_inv [OF laws inv] Pass run by (fastforce simp: sorted_wrt_append)
next
  case (Other x counts y z)
  have inv: "tx_inv w view first y" using Other by simp
  have state: "art_state (fst y) = 2" by (rule making_state [OF Other.hyps(1)])
  show ?case using making_step [OF Other.hyps(2,3) state inv] step_inv [OF laws Other.hyps(2) inv] Other by fastforce
qed

lemma rising_length:
  assumes "sorted_wrt (<) (k # ks)" and "\<forall>n \<in> set (k # ks). n \<le> (m :: u64)"
  shows "unat k + length ks \<le> unat m"
  using assms
proof (induction ks arbitrary: k)
  case Nil
  then show ?case by (simp add: word_le_nat_alt)
next
  case (Cons n ks)
  then have "unat n + length ks \<le> unat m" "unat k < unat n" by (simp_all add: word_less_nat_alt)
  then show ?case by simp
qed

lemma generating_counts:
  assumes "tx_inv w view first (a, e)" and "art_state a = 2"
  shows "frames_reported (a, e) \<le> total_reported (a, e)"
proof -
  obtain g l n where g: "gen_state g \<in> {Job_running, Job_complete}" "job_ok 3 n 48000 g l"
    "snap_frames_written (art_snapshot a) = gen_frames_written g" "snap_total_frames (art_snapshot a) = gen_total_frames g"
    using assms by (auto simp: tx_inv_def generating_ok_def)
  then show ?thesis by (auto simp: job_ok_def state_ok_def frames_reported_def total_reported_def)
qed

end
