(* ===== verification/TxPromises.thy ===== *)
theory TxPromises
  imports TxOwner
begin

text \<open>
  What the owner of a transmit artifact promises, in every state it can reach; and a card and an encoder
  with which it publishes a file, so that the promises are about something.
\<close>

section \<open>A card in memory\<close>

text \<open>The card is its own view; the encoder reads its whole payload and has no frames, so that a file is
  the header and the silence.\<close>

definition demo_open :: "card_file \<Rightarrow> string \<Rightarrow> open_mode \<Rightarrow> card_view \<Rightarrow> card_result \<times> card_view" where
  "demo_open f p m e =
     (if m = Create_new then
        (if card_files e p = None
         then (Fr_ok, e\<lparr>card_files := (card_files e)(p := Some []), card_handle := (card_handle e)(f := Some (p, m))\<rparr>)
         else (Fr_exist, e))
      else if card_files e p = None then (Fr_no_file, e)
      else (Fr_ok, e\<lparr>card_handle := (card_handle e)(f := Some (p, m))\<rparr>))"

definition demo_contents :: "card_file \<Rightarrow> card_view \<Rightarrow> bytes" where
  "demo_contents f e =
     (case card_handle e f of None \<Rightarrow> [] | Some (p, m) \<Rightarrow> (case card_files e p of None \<Rightarrow> [] | Some c \<Rightarrow> c))"

definition demo_write :: "card_file \<Rightarrow> bytes \<Rightarrow> card_view \<Rightarrow> card_result \<times> nat \<times> card_view" where
  "demo_write f bs e =
     (case card_handle e f of
        None \<Rightarrow> (Fr_error, 0, e)
      | Some (p, m) \<Rightarrow>
          if m = Create_new \<and> card_files e p \<noteq> None
          then (Fr_ok, length bs, e\<lparr>card_files := (card_files e)(p := Some (demo_contents f e @ bs))\<rparr>)
          else (Fr_error, 0, e))"

definition demo_rename :: "string \<Rightarrow> string \<Rightarrow> card_view \<Rightarrow> card_result \<times> card_view" where
  "demo_rename old new e =
     (if card_files e new = None \<and> card_files e old \<noteq> None
      then (Fr_ok, e\<lparr>card_files := (card_files e)(old := None, new := card_files e old)\<rparr>) else (Fr_error, e))"

definition demo_encoder :: encoder_descriptor where
  "demo_encoder = \<lparr>encoder_id = Some ''SILENT'', encoder_version = Some ''v1'', workspace_bytes = 64,
     workspace_alignment = 8, has_construct = True, legacy_default = True\<rparr>"

definition demo_world :: "card_view tx_world" where
  "demo_world =
     \<lparr>card_open = demo_open, card_close = (\<lambda>f e. (Fr_ok, e\<lparr>card_handle := (card_handle e)(f := None)\<rparr>)),
      card_sync = (\<lambda>f e. (Fr_ok, e)), card_read = (\<lambda>n e. (Some (take n (demo_contents Payload_file e)), e)),
      card_write = demo_write, card_size = (\<lambda>f e. of_nat (length (demo_contents f e))),
      card_stat = (\<lambda>p e. (if card_files e p = None then Fr_no_file else Fr_ok, e)), card_mkdir = (\<lambda>p e. (Fr_exist, e)),
      card_mount = (\<lambda>e. (Fr_ok, e)), card_unmount = (\<lambda>e. (Fr_ok, e)), card_rename = demo_rename,
      media_local = (\<lambda>e. True), player_busy = (\<lambda>e. False), plugin_encoders = [demo_encoder],
      construct_encoder = (\<lambda>d e. (True, e)), destroy_encoder = (\<lambda>e. e),
      encoder_configure = (\<lambda>profile n e. Asks n e (\<lambda>bs e. Gives success e)), encoder_total_frames = (\<lambda>e. 0),
      encoder_read_float = (\<lambda>request e. Gives [] e), encoder_status = (\<lambda>e. success), encoder_stop = (\<lambda>e. e),
      build_id = ''demo''\<rparr>"

lemma demo_world_simps [simp]:
  "card_open demo_world = demo_open" "card_close demo_world f e = (Fr_ok, e\<lparr>card_handle := (card_handle e)(f := None)\<rparr>)"
  "card_sync demo_world f e = (Fr_ok, e)" "card_write demo_world = demo_write"
  "card_read demo_world n e = (Some (take n (demo_contents Payload_file e)), e)"
  "card_size demo_world f e = of_nat (length (demo_contents f e))"
  "card_stat demo_world p e = (if card_files e p = None then Fr_no_file else Fr_ok, e)"
  "card_mkdir demo_world p e = (Fr_exist, e)" "card_mount demo_world e = (Fr_ok, e)" "card_unmount demo_world e = (Fr_ok, e)"
  "card_rename demo_world = demo_rename" "media_local demo_world e = True" "player_busy demo_world e = False"
  "plugin_encoders demo_world = [demo_encoder]" "construct_encoder demo_world d e = (True, e)"
  "encoder_configure demo_world profile n e = Asks n e (\<lambda>bs e. Gives success e)" "encoder_total_frames demo_world e = 0"
  "encoder_status demo_world e = success" "build_id demo_world = ''demo''"
  by (simp_all add: demo_world_def)

lemma demo_laws: "card_laws demo_world (\<lambda>e. e)"
proof -
  have "open_law demo_world (\<lambda>e. e)"
    by (auto simp: open_law_def demo_world_def demo_open_def map_le_def split: if_splits)
  moreover have "write_law demo_world (\<lambda>e. e)"
    by (auto simp: write_law_def demo_world_def demo_write_def demo_contents_def split: option.splits if_splits)
  moreover have "rename_law demo_world (\<lambda>e. e)"
    by (auto simp: rename_law_def demo_world_def demo_rename_def)
  moreover have "stat_law demo_world (\<lambda>e. e)" "close_law demo_world (\<lambda>e. e)" "still_law demo_world (\<lambda>e. e)"
    "encoder_law demo_world (\<lambda>e. e)"
    by (simp_all add: stat_law_def close_law_def still_law_def encoder_law_def demo_world_def)
  ultimately show ?thesis by (simp add: card_laws_def)
qed

definition demo_start :: card_view where
  "demo_start = \<lparr>card_files = [''2:/WG/IN.BIN'' \<mapsto> [1, 2, 3]], card_handle = (\<lambda>f. None)\<rparr>"

definition demo_request :: tx_request where
  "demo_request = fresh_request\<lparr>request_kind := Kind_generate_file, request_name := ''OUT.WAV'', request_input_name := ''IN.BIN''\<rparr>"

lemma demo_names:
  "valid_filename ''OUT.WAV'' ''WAV''" "valid_filename ''IN.BIN'' ''BIN''"
  "make_path ''OUT.WAV'' None = ''2:/WG/OUT.WAV''" "make_path ''OUT.WAV'' (Some ''.BIN'') = ''2:/WG/OUT.BIN''"
  "make_path ''OUT.WAV'' (Some ''.TMP'') = ''2:/WG/OUT.TMP''" "make_path ''OUT.WAV'' (Some ''.JSON'') = ''2:/WG/OUT.JSON''"
  "make_path ''OUT.WAV'' (Some ''.JMP'') = ''2:/WG/OUT.JMP''" "make_path ''IN.BIN'' None = ''2:/WG/IN.BIN''"
  by code_simp+

lemma demo_tokens: "valid_token (Some ''SILENT'') 15 False" "valid_token (Some ''v1'') 63 True"
  by code_simp+

lemma demo_found: "find_encoder [demo_encoder] [] = Some demo_encoder"
  using demo_tokens by (simp add: find_encoder_def registered_encoders_def maximum_encoders_def descriptor_refused_def
      demo_encoder_def encoder_workspace_capacity_def encoder_workspace_alignment_def)

lemma demo_profile: "legacy_profile 600 1 = ''600:long''"
  by code_simp

section \<open>The file it makes\<close>

definition demo_named :: "tx_artifact \<times> card_view \<Rightarrow> bool" where
  "demo_named = (\<lambda>(a, e).
     art_output_open a \<and> art_mounted a \<and> \<not> art_manifest_open a \<and> \<not> art_disconnected a \<and> \<not> art_request_pending a \<and>
     snap_filename (art_snapshot a) = ''OUT.WAV'' \<and> art_descriptor a = Some demo_encoder \<and> art_profile a = ''600:long'' \<and>
     art_input_path a = ''2:/WG/IN.BIN'' \<and> art_output_path a = ''2:/WG/OUT.WAV'' \<and> art_temporary_path a = ''2:/WG/OUT.TMP'' \<and>
     art_manifest_path a = ''2:/WG/OUT.JSON'' \<and> art_manifest_temporary_path a = ''2:/WG/OUT.JMP'' \<and>
     card_handle e Output_file = Some (''2:/WG/OUT.TMP'', Create_new) \<and> card_files e ''2:/WG/OUT.TMP'' \<noteq> None \<and>
     card_files e ''2:/WG/OUT.WAV'' = None \<and> card_files e ''2:/WG/OUT.JSON'' = None \<and> card_files e ''2:/WG/OUT.JMP'' = None)"

definition demo_making :: "tx_artifact \<times> card_view \<Rightarrow> bool" where
  "demo_making = (\<lambda>(a, e). demo_named (a, e) \<and> art_state a = 2 \<and>
     (\<exists>g. art_writer a = Some g \<and> gen_state g = Job_running \<and> gen_waveform_frames g = 0 \<and>
        gen_payload_read g = gen_payload_bytes g))"

lemma sha_compress_state_length: "length (sha_compress_state st block) = 8"
  unfolding sha_compress_state_def Let_def by (simp only: prod.case_distrib [of length] list.size split: prod.split) simp

lemma sha256_text_length: "length (sha256_text msg) = 64"
proof -
  have "length (foldl sha_compress_state sha_initial blocks) = 8" for blocks
    by (induction blocks rule: rev_induct) (simp_all add: sha_initial_def sha_compress_state_length)
  moreover have "length (concat (map sha_word_text ws)) = 8 * length ws" for ws
    by (induction ws) (simp_all add: sha_word_text_def)
  ultimately show ?thesis by (simp add: sha256_text_def)
qed

lemma job_hashes_lengths:
  assumes "job_ok 3 n trailing g l" and "gen_state g = Job_complete"
  shows "length (hash_payload (job_hashes g)) = 64" "length (hash_wav (job_hashes g)) = 64" "length (hash_pcm (job_hashes g)) = 64"
  using job_complete(7) [OF assms] by (simp_all add: job_hashes_def sha256_text_length)

lemma demo_manifest_length:
  assumes "demo_named (a, e)" and "length (hash_payload h) = 64" "length (hash_wav h) = 64" "length (hash_pcm h) = 64"
  shows "length (manifest_text demo_world (a\<lparr>art_output_open := x, art_payload_open := y\<rparr>) h) < metadata_capacity"
  using assms uint64_text_length [of "snap_total_frames (art_snapshot a)"]
    uint64_text_length [of "ucast (snap_payload_bytes (art_snapshot a))"]
  by (simp add: demo_named_def manifest_text_def quoted_def key_text_def Let_def text_of_def demo_encoder_def
      metadata_capacity_def)

lemma demo_sink:
  assumes "card_handle e Output_file = Some (t, Create_new)" and "card_files e t \<noteq> None"
  shows "\<exists>c. file_sink_write demo_world t bs (e, True) = (success, e\<lparr>card_files := (card_files e)(t \<mapsto> c)\<rparr>, True)"
  using assms by (auto simp: file_sink_write_def sink_append_def demo_write_def)

definition last_step :: "wav_generator \<Rightarrow> bool" where
  "last_step g \<longleftrightarrow> gen_frames_written g + of_nat (step_limit maximum_step_frames g) = gen_total_frames g"

lemma demo_gen_step:
  assumes g: "gen_state g = Job_running" "gen_waveform_frames g = 0" "gen_payload_read g = gen_payload_bytes g"
    and left: "gen_frames_written g < gen_total_frames g"
    and on: "card_handle e Output_file = Some (t, Create_new)" "card_files e t \<noteq> None"
  shows "\<exists>h c. gen_step (artifact_job demo_world t) maximum_step_frames g (e, True) =
      (h, e\<lparr>card_files := (card_files e)(t \<mapsto> c)\<rparr>, True) \<and> gen_state h \<in> {Job_running, Job_complete} \<and>
      gen_waveform_frames h = 0 \<and> gen_payload_read h = gen_payload_bytes h \<and>
      (gen_state h = Job_complete \<longrightarrow> last_step g) \<and> gen_total_frames h = gen_total_frames g \<and>
      gen_frames_written h = gen_frames_written g + of_nat (step_limit maximum_step_frames g)"
proof -
  let ?job = "artifact_job demo_world t" and ?k = "step_limit maximum_step_frames g"
  let ?bs = "concat (map (frame_bytes (gen_sample_bytes g)) (replicate ?k (Finite 0)))"
  obtain c where c: "file_sink_write demo_world t ?bs (e, True) = (success, e\<lparr>card_files := (card_files e)(t \<mapsto> c)\<rparr>, True)"
    using demo_sink [OF on] by blast
  have "gen_total_frames g - gen_frames_written g \<noteq> 0" using left by auto
  then have k: "?k \<noteq> 0" by (simp add: step_limit_def maximum_step_frames_def unat_gt_0)
  have "gen_pull ?job ?k g (e, True) = Inr ([], g, e, True)" using g(2) by (simp add: gen_pull_def)
  then have step: "gen_step ?job maximum_step_frames g (e, True) = gen_emit ?job (replicate ?k (Finite 0)) g (e, True)"
    using g by (simp add: gen_step_def maximum_step_frames_def)
  have finite: "list_all is_finite (replicate ?k (Finite 0))" by (simp add: list_all_iff is_finite_def)
  show ?thesis unfolding step using g k finite c by (simp add: gen_emit_def last_step_def Let_def) blast
qed

lemma demo_running:
  assumes "tx_inv w view first (a, e)" and "art_state a = 2" and "art_writer a = Some g" and "gen_state g = Job_running"
  shows "gen_frames_written g < gen_total_frames g" and "\<exists>n l. job_ok 3 n 48000 g l"
proof -
  obtain n l where job: "job_ok 3 n 48000 g l" using assms by (auto simp: tx_inv_def generating_ok_def)
  then have "state_ok g" "sizes_ok 3 n 48000 g" using assms(4) by (simp_all add: job_ok_def)
  then show "gen_frames_written g < gen_total_frames g" using assms(4) by (auto simp: state_ok_def sizes_ok_def)
  show "\<exists>n l. job_ok 3 n 48000 g l" using job by blast
qed

lemma demo_renamed:
  assumes "demo_named (a, e)" and "art_output_path b = art_output_path a" "art_temporary_path b = art_temporary_path a"
    "art_manifest_path b = art_manifest_path a" "art_manifest_temporary_path b = art_manifest_temporary_path a"
    and "card_files x = (card_files e)(''2:/WG/OUT.JMP'' \<mapsto> c)"
  shows "is_ok (fst (rename_outputs demo_world t b x))"
  using assms by (simp add: rename_outputs_def demo_rename_def demo_named_def Let_def split: prod.split)

lemma demo_manifest:
  assumes named: "demo_named (a, e)" and hashes: "length (hash_payload h) = 64" "length (hash_wav h) = 64" "length (hash_pcm h) = 64"
    and b: "b = a\<lparr>art_output_open := False, art_payload_open := False\<rparr>" and x: "card_files x = card_files e"
  shows "is_ok (fst (write_manifest demo_world h b x))"
proof -
  have short: "length (manifest_text demo_world b h) < metadata_capacity"
    unfolding b by (rule demo_manifest_length [OF named hashes])
  define y where "y = x\<lparr>card_files := (card_files x)(''2:/WG/OUT.JMP'' \<mapsto> []),
        card_handle := (card_handle x)(Manifest_file := Some (''2:/WG/OUT.JMP'', Create_new))\<rparr>"
  define z where "z = y\<lparr>card_files := (card_files y)(''2:/WG/OUT.JMP'' \<mapsto> tag_bytes (manifest_text demo_world b h))\<rparr>"
  have paths: "art_manifest_temporary_path b = ''2:/WG/OUT.JMP''" using named by (simp add: demo_named_def b)
  have opened: "demo_open Manifest_file ''2:/WG/OUT.JMP'' Create_new x = (Fr_ok, y)"
    using named x by (simp add: demo_open_def demo_named_def y_def)
  have written: "demo_write Manifest_file (tag_bytes (manifest_text demo_world b h)) y = (Fr_ok, length (manifest_text demo_world b h), z)"
    by (simp add: demo_write_def demo_contents_def y_def z_def)
  have "is_ok (fst (rename_outputs demo_world (hash_wav h) (b\<lparr>art_manifest_open := False\<rparr>)
      (z\<lparr>card_handle := (card_handle z)(Manifest_file := None)\<rparr>)))"
    by (rule demo_renamed [OF named]) (simp_all add: b y_def z_def x)
  then show ?thesis using short by (simp add: write_manifest_def paths opened written Let_def)
qed

lemma demo_publish:
  assumes named: "demo_named (a, e)" and job: "job_ok 3 n trailing g l" "gen_state g = Job_complete"
  shows "is_ok (fst (publish_artifact demo_world g a e))"
proof -
  have "is_ok (fst (write_manifest demo_world (job_hashes g) (a\<lparr>art_output_open := False, art_payload_open := False\<rparr>) x))"
    if "card_files x = card_files e" for x
    by (rule demo_manifest [OF named job_hashes_lengths [OF job] refl that])
  then show ?thesis by (simp add: publish_artifact_def still_open_def Let_def)
qed

text \<open>A pass while the file is being made goes on with it or publishes it.\<close>

lemma demo_continue:
  assumes making: "demo_making (a, e)" and inv: "tx_inv demo_world (\<lambda>e. e) first (a, e)"
    and run: "continue_generation demo_world a e = (a', e')"
  shows "demo_making (a', e') \<and> (\<exists>g h. art_writer a = Some g \<and> art_writer a' = Some h \<and>
      gen_total_frames h = gen_total_frames g \<and>
      gen_frames_written h = gen_frames_written g + of_nat (step_limit maximum_step_frames g)) \<or>
    art_state a' = 3 \<and> (\<exists>g. art_writer a = Some g \<and> last_step g)"
proof -
  obtain g where g: "art_writer a = Some g" "gen_state g = Job_running" "gen_waveform_frames g = 0"
    "gen_payload_read g = gen_payload_bytes g" and named: "demo_named (a, e)" and state: "art_state a = 2"
    using making by (auto simp: demo_making_def)
  note running = demo_running [OF inv state g(1,2)]
  have on: "card_handle e Output_file = Some (art_temporary_path a, Create_new)" "card_files e (art_temporary_path a) \<noteq> None"
    "art_output_open a" using named by (simp_all add: demo_named_def)
  obtain h c where step: "gen_step (artifact_job demo_world (art_temporary_path a)) maximum_step_frames g (e, True) =
      (h, e\<lparr>card_files := (card_files e)(art_temporary_path a \<mapsto> c)\<rparr>, True)" and h: "gen_state h \<in> {Job_running, Job_complete}"
    "gen_waveform_frames h = 0" "gen_payload_read h = gen_payload_bytes h" "gen_state h = Job_complete \<longrightarrow> last_step g"
    and counts: "gen_total_frames h = gen_total_frames g"
      "gen_frames_written h = gen_frames_written g + of_nat (step_limit maximum_step_frames g)"
    using demo_gen_step [OF g(2-4) running(1) on(1,2)] by blast
  let ?e = "e\<lparr>card_files := (card_files e)(art_temporary_path a \<mapsto> c)\<rparr>"
  let ?a = "a\<lparr>art_writer := Some h, art_output_open := True,
    art_snapshot := (art_snapshot a)\<lparr>snap_frames_written := gen_frames_written h\<rparr>\<rparr>"
  have named1: "demo_named (?a, ?e)" using named by (simp add: demo_named_def)
  show ?thesis
  proof (cases "gen_state h = Job_complete")
    case False
    then have "continue_generation demo_world a e = (?a, ?e)"
      using h(1) on(3) by (simp add: continue_generation_def g(1) continue_with_def step Let_def)
    then show ?thesis using run False h named1 state counts g(1) by (auto simp: demo_making_def)
  next
    case True
    obtain n l where job: "job_ok 3 n 48000 g l" using running(2) by blast
    obtain k y where rec: "gen_step (recorded (artifact_job demo_world (art_temporary_path a))) maximum_step_frames g ((e, True), l) = (k, y)"
      by (rule prod.exhaust)
    have k: "k = h" using gen_step_plain [OF rec] step by simp
    obtain z l1 where y: "y = (z, l1)" by (rule prod.exhaust)
    have "job_ok 3 n 48000 h l1" using gen_step_ok [OF job rec [unfolded y k]] .
    from demo_publish [OF named1 this True] have ok: "is_ok (fst (publish_artifact demo_world h ?a ?e))" .
    obtain st b x where publish: "publish_artifact demo_world h ?a ?e = (st, b, x)" by (rule prod_cases3)
    then have "continue_generation demo_world a e = (b, x)" "art_state b = 3"
      using True on(3) ok publish_artifact_state [OF publish]
      by (simp_all add: continue_generation_def g(1) continue_with_def step Let_def)
    then show ?thesis using run h(4) True g(1) by simp
  qed
qed

text \<open>The request starts the file.\<close>

definition demo_asked :: tx_artifact where
  "demo_asked = snd (submit_tx_request demo_request fresh_artifact)"

lemma demo_begun:
  assumes "card_handle e Payload_file = Some (''2:/WG/IN.BIN'', Open_read)" and "card_files e ''2:/WG/IN.BIN'' = Some [1, 2, 3]"
    and "card_files e ''2:/WG/OUT.TMP'' = None"
  shows "\<exists>g c. gen_begin (artifact_job demo_world ''2:/WG/OUT.TMP'') profile 3 48000 pcm24_encoding fresh_generator (e, False) =
      (g, e\<lparr>card_files := (card_files e)(''2:/WG/OUT.TMP'' \<mapsto> c),
            card_handle := (card_handle e)(Output_file := Some (''2:/WG/OUT.TMP'', Create_new))\<rparr>, True) \<and>
    gen_state g = Job_running \<and> gen_status g = success \<and> gen_waveform_frames g = 0 \<and> gen_payload_read g = gen_payload_bytes g \<and>
    gen_frames_written g = 0 \<and> gen_total_frames g = 48000"
proof -
  have "file_bytes_read demo_world 3 e = ([1, 2, 3], e)"
    using assms(1,2) by (simp add: file_bytes_read_def demo_contents_def)
  moreover have "file_sink_write demo_world ''2:/WG/OUT.TMP'' bs (e, False) =
      (success, e\<lparr>card_files := (card_files e)(''2:/WG/OUT.TMP'' \<mapsto> bs),
            card_handle := (card_handle e)(Output_file := Some (''2:/WG/OUT.TMP'', Create_new))\<rparr>, True)" for bs
    using assms(3) by (simp add: file_sink_write_def demo_open_def sink_append_def demo_write_def demo_contents_def)
  moreover have "maximum_frames 3 = 1431655753" by (simp add: maximum_frames_def)
  ultimately show ?thesis
    by (simp add: gen_begin_def gen_stop_def fresh_generator_def gen_read_def gen_open_def pcm24_encoding_def Let_def) blast
qed

definition demo_ready :: tx_artifact where
  "demo_ready = demo_asked\<lparr>art_request_pending := False, art_processing_request := True,
     art_snapshot := fresh_snapshot\<lparr>snap_filename := ''OUT.WAV''\<rparr>, art_output_path := ''2:/WG/OUT.WAV'',
     art_temporary_path := ''2:/WG/OUT.TMP'', art_manifest_path := ''2:/WG/OUT.JSON'',
     art_manifest_temporary_path := ''2:/WG/OUT.JMP'', art_input_path := ''2:/WG/IN.BIN'', art_rate := 600, art_interleave := 1,
     art_encoder_name := [], art_profile := []\<rparr>"

lemma demo_asked_simp: "demo_asked = fresh_artifact\<lparr>art_request_slot := demo_request, art_request_pending := True\<rparr>"
  by (simp add: demo_asked_def submit_tx_request_def fresh_artifact_def)

lemma demo_starts:
  obtains b x where "start_generation demo_world demo_ready demo_start = (success, b, x)" "demo_making (b, x)"
    "\<exists>g. art_writer b = Some g \<and> gen_frames_written g = 0 \<and> gen_total_frames g = 48000"
proof -
  let ?e = "demo_start\<lparr>card_handle := (card_handle demo_start)(Payload_file := Some (''2:/WG/IN.BIN'', Open_read))\<rparr>"
  obtain g c where begun: "gen_begin (artifact_job demo_world ''2:/WG/OUT.TMP'') ''600:long'' 3 48000 pcm24_encoding fresh_generator (?e, False) =
      (g, ?e\<lparr>card_files := (card_files ?e)(''2:/WG/OUT.TMP'' \<mapsto> c),
            card_handle := (card_handle ?e)(Output_file := Some (''2:/WG/OUT.TMP'', Create_new))\<rparr>, True)"
    "gen_state g = Job_running" "gen_status g = success" "gen_waveform_frames g = 0" "gen_payload_read g = gen_payload_bytes g"
    and counts: "gen_frames_written g = 0" "gen_total_frames g = 48000"
    using demo_begun [of ?e "''600:long''"] by (auto simp: demo_start_def)
  have opened: "demo_open Payload_file ''2:/WG/IN.BIN'' Open_read demo_start = (Fr_ok, ?e)" "demo_contents Payload_file ?e = [1, 2, 3]"
    by (simp_all add: demo_open_def demo_contents_def demo_start_def)
  have absent: "card_files demo_start ''2:/WG/OUT.WAV'' = None" "card_files demo_start ''2:/WG/OUT.TMP'' = None"
    "card_files demo_start ''2:/WG/OUT.JSON'' = None" "card_files demo_start ''2:/WG/OUT.JMP'' = None"
    by (simp_all add: demo_start_def)
  obtain b x where run: "start_generation demo_world demo_ready demo_start = (success, b, x)" and making: "demo_making (b, x)"
    and g: "art_writer b = Some g"
    using begun absent
    by (simp add: start_generation_def demo_ready_def demo_asked_simp fresh_artifact_def demo_found art_mount_def
        check_outputs_absent_def check_absent_def open_payload_def open_named_payload_def opened maximum_upload_bytes_def
        construct_and_begin_def stop_writer_def begin_job_def demo_profile demo_making_def demo_named_def fresh_snapshot_def Let_def)
  show thesis using that [OF run making] g counts by blast
qed

lemma demo_mailbox:
  obtains a e g where "serve_mailbox demo_world demo_asked demo_start = (a, e)" "demo_making (a, e)" "art_writer a = Some g"
    "gen_frames_written g = 0" "gen_total_frames g = 48000"
proof -
  obtain b x where start: "start_generation demo_world demo_ready demo_start = (success, b, x)" "demo_making (b, x)"
    "\<exists>g. art_writer b = Some g \<and> gen_frames_written g = 0 \<and> gen_total_frames g = 48000"
    by (rule demo_starts)
  have "serve_generate demo_world demo_request (demo_asked\<lparr>art_request_pending := False, art_processing_request := True\<rparr>) demo_start =
      failed_transaction demo_world (start_generation demo_world demo_ready demo_start)"
    by (simp add: serve_generate_def demo_ready_def demo_asked_simp fresh_artifact_def fresh_snapshot_def demo_request_def
        fresh_request_def demo_names close_files_def still_open_def select_output_def Let_def)
  then have "serve_mailbox demo_world demo_asked demo_start =
      (b\<lparr>art_response_slot := reply_for success b, art_response_pending := True, art_processing_request := False\<rparr>, x)"
    using start(1)
    by (simp add: serve_mailbox_def serve_request_def demo_asked_simp fresh_artifact_def fresh_snapshot_def demo_request_def
        failed_transaction_def)
  then show thesis using that start(2,3) by (fastforce simp: demo_making_def demo_named_def)
qed

lemma making_bounded:
  assumes "tx_making w view x counts y" and "card_laws w view" and "tx_inv w view first x"
  shows "sorted_wrt (<) (frames_reported x # counts) \<and> (\<forall>k \<in> set (frames_reported x # counts). k \<le> total_reported x)"
proof -
  note y = making_progress [OF assms]
  then have "frames_reported y \<le> total_reported x"
    using generating_counts [of w view first "fst y" "snd y"] making_state [OF assms(1)] by simp
  then show ?thesis using y by fastforce
qed

lemma demo_pass:
  assumes "demo_making y" and "tx_inv demo_world (\<lambda>e. e) first y"
  shows "demo_making (service_tx_artifact demo_world (fst y) (snd y)) \<or>
    art_state (fst (service_tx_artifact demo_world (fst y) (snd y))) = 3"
proof -
  obtain a e where y: "y = (a, e)" by force
  obtain a' e' where run: "continue_generation demo_world a e = (a', e')" by force
  have "service_tx_artifact demo_world a e = (a', e')"
    using assms(1) run by (auto simp: y demo_making_def demo_named_def service_tx_artifact_def serve_disconnect_def serve_mailbox_def)
  then show ?thesis using demo_continue [OF assms [unfolded y] run] by (auto simp: y)
qed

lemma demo_passes:
  assumes "tx_reached demo_world (\<lambda>e. e) demo_start x" and "demo_making x"
  shows "\<exists>y. tx_reached demo_world (\<lambda>e. e) demo_start y \<and>
    (art_state (fst y) = 3 \<or> (\<exists>counts. length counts = n \<and> tx_making demo_world (\<lambda>e. e) x counts y) \<and> demo_making y)"
proof (induction n)
  case 0
  have "tx_making demo_world (\<lambda>e. e) x [] x" using assms(2) by (intro Making) (auto simp: demo_making_def)
  then show ?case using assms by blast
next
  case (Suc n)
  then obtain y where y: "tx_reached demo_world (\<lambda>e. e) demo_start y"
    "art_state (fst y) = 3 \<or> (\<exists>counts. length counts = n \<and> tx_making demo_world (\<lambda>e. e) x counts y) \<and> demo_making y" by blast
  show ?case
  proof (cases "art_state (fst y) = 3")
    case True
    then show ?thesis using y(1) by blast
  next
    case False
    obtain a e where ae: "y = (a, e)" by force
    let ?z = "service_tx_artifact demo_world a e"
    obtain counts where making: "tx_making demo_world (\<lambda>e. e) x counts (a, e)" "length counts = n" "demo_making (a, e)"
      using y(2) False by (auto simp: ae)
    have z: "tx_reached demo_world (\<lambda>e. e) demo_start ?z" using Then [OF y(1) [unfolded ae] Service] .
    have "demo_making ?z \<or> art_state (fst ?z) = 3"
      using demo_pass [OF making(3) reached_inv [OF y(1) demo_laws, unfolded ae]] by simp
    moreover have "tx_making demo_world (\<lambda>e. e) x (counts @ [frames_reported ?z]) ?z" if "demo_making ?z"
      by (rule Pass [OF making(1)]) (use that in \<open>auto simp: demo_making_def\<close>)
    moreover have "length (counts @ [frames_reported ?z]) = Suc n" using making(2) by simp
    ultimately show ?thesis using z by blast
  qed
qed

lemma demo_asked_reached: "tx_reached demo_world (\<lambda>e. e) demo_start (demo_asked, demo_start)"
  unfolding demo_asked_def by (rule Then [OF Now Submit])

lemma demo_first_pass:
  obtains x h where "tx_reached demo_world (\<lambda>e. e) demo_start x" "demo_making x" "art_writer (fst x) = Some h"
    "gen_frames_written h = 2048" "gen_total_frames h = 48000"
proof -
  obtain a e g where mail: "serve_mailbox demo_world demo_asked demo_start = (a, e)" "demo_making (a, e)"
    "art_writer a = Some g" "gen_frames_written g = 0" "gen_total_frames g = 48000" by (rule demo_mailbox)
  have inv: "tx_inv demo_world (\<lambda>e. e) (card_files demo_start) (a, e)"
    using serve_mailbox_inv [OF demo_laws reached_inv [OF demo_asked_reached demo_laws]] by (simp add: mail(1))
  obtain a' e' where run: "continue_generation demo_world a e = (a', e')" by force
  have "serve_disconnect demo_world demo_asked demo_start = (demo_asked, demo_start)"
    by (simp add: serve_disconnect_def demo_asked_simp fresh_artifact_def)
  then have "service_tx_artifact demo_world demo_asked demo_start = (a', e')"
    using mail(2) run by (simp add: service_tx_artifact_def mail(1) demo_making_def)
  then have reached: "tx_reached demo_world (\<lambda>e. e) demo_start (a', e')" using Then [OF demo_asked_reached Service] by simp
  have "step_limit maximum_step_frames g = 2048" "\<not> last_step g"
    using mail(4,5) by (simp_all add: last_step_def step_limit_def maximum_step_frames_def)
  then have "demo_making (a', e') \<and> (\<exists>h. art_writer a' = Some h \<and> gen_frames_written h = 2048 \<and> gen_total_frames h = 48000)"
    using demo_continue [OF mail(2) inv run] mail(3-5) by auto
  then show thesis using that [OF reached] by auto
qed

lemma demo_published:
  obtains a e where "tx_reached demo_world (\<lambda>e. e) demo_start (a, e)" "art_state a = 3"
proof -
  obtain x h where x: "tx_reached demo_world (\<lambda>e. e) demo_start x" "demo_making x" by (rule demo_first_pass)
  let ?n = "unat (total_reported x)"
  obtain y where y: "tx_reached demo_world (\<lambda>e. e) demo_start y"
    "art_state (fst y) = 3 \<or> (\<exists>counts. length counts = Suc ?n \<and> tx_making demo_world (\<lambda>e. e) x counts y) \<and> demo_making y"
    using demo_passes [OF x, of "Suc ?n"] by blast
  have "length counts \<le> ?n" if "tx_making demo_world (\<lambda>e. e) x counts y" for counts
    using making_bounded [OF that demo_laws reached_inv [OF x(1) demo_laws]]
      rising_length [of "frames_reported x" counts "total_reported x"] by simp
  then show thesis using that [of "fst y" "snd y"] y by fastforce
qed

text \<open>A second pass of it.\<close>

lemma demo_second_pass:
  obtains x y where "tx_reached demo_world (\<lambda>e. e) demo_start x" "tx_making demo_world (\<lambda>e. e) x [frames_reported y] y"
proof -
  obtain x h where x: "tx_reached demo_world (\<lambda>e. e) demo_start x" "demo_making x" "art_writer (fst x) = Some h"
    "gen_frames_written h = 2048" "gen_total_frames h = 48000" by (rule demo_first_pass)
  obtain a e where ae: "x = (a, e)" by force
  let ?y = "service_tx_artifact demo_world a e"
  obtain a' e' where run: "continue_generation demo_world a e = (a', e')" by force
  have y: "?y = (a', e')"
    using x(2) run by (auto simp: ae demo_making_def demo_named_def service_tx_artifact_def serve_disconnect_def serve_mailbox_def)
  have "\<not> last_step h" using x(4,5) by (simp add: last_step_def step_limit_def maximum_step_frames_def)
  then have "demo_making (a', e')"
    using demo_continue [OF x(2) [unfolded ae] reached_inv [OF x(1) demo_laws, unfolded ae] run] x(3) by (auto simp: ae)
  then have "art_state (fst ?y) = 2" by (simp add: y demo_making_def)
  moreover have "tx_making demo_world (\<lambda>e. e) x [] (a, e)" using x(2) unfolding ae by (intro Making) (simp add: demo_making_def)
  ultimately have "tx_making demo_world (\<lambda>e. e) x ([] @ [frames_reported ?y]) ?y" by (intro Pass)
  then show thesis using that [OF x(1)] by simp
qed

section \<open>The promises\<close>

text \<open>C6. What the owner reports complete is on the card, whatever requests, disconnections and aborts came before: under the
  name it reports there is a WAV file, its header with the sizes of what follows, finite frames of an
  encoder and the second of silence; the digest reported is the file's; and the manifest beside it names
  the file, its digest and that of its data.\<close>

theorem published_exact:
  assumes "card_laws w view" and "tx_reached w view e0 (a, e)" and "art_state a = 3"
  shows "let name = snap_filename (art_snapshot a) in
    \<exists>samples h a0. let data = pcm_bytes 3 (samples @ replicate 48000 (Finite 0)); wav = wav_header 3 (of_nat (length data)) @ data in
      list_all is_finite samples \<and> 36 + length data < 2 ^ 32 \<and>
      card_files (view e) (make_path name None) = Some wav \<and> snap_wav_sha256 (art_snapshot a) = sha256_text wav \<and>
      card_files (view e) (make_path name (Some ''.JSON'')) = Some (tag_bytes (manifest_text w a0 h)) \<and>
      snap_filename (art_snapshot a0) = name \<and> hash_wav h = sha256_text wav \<and> hash_pcm h = sha256_text data"
proof -
  have inv: "names_ok a" "published w view a e" using reached_inv [OF assms(2,1)] assms(3) by (simp_all add: tx_inv_def)
  then obtain g l n a0 where job: "job_ok 3 n 48000 g l" "gen_state g = Job_complete"
    and on: "card_files (view e) (art_output_path a) = Some (log_file l)" "snap_wav_sha256 (art_snapshot a) = hash_wav (job_hashes g)"
      "snap_filename (art_snapshot a0) = snap_filename (art_snapshot a)"
      "card_files (view e) (art_manifest_path a) = Some (tag_bytes (manifest_text w a0 (job_hashes g)))"
    by (auto simp: published_def)
  note complete = job_complete [OF job]
  have h: "job_hashes g = \<lparr>hash_payload = sha256_text (handed n (log_reads l)), hash_wav = sha256_text (log_file l),
      hash_pcm = sha256_text (pcm_bytes 3 (padded 48000 l))\<rparr>" using complete(7) by (simp add: job_hashes_def)
  show ?thesis unfolding Let_def
    by (rule exI [of _ "log_frames l"], rule exI [of _ "job_hashes g"], rule exI [of _ a0])
      (use complete(1,3,5) on h inv(1) in \<open>simp add: names_ok_def padded_def\<close>)
qed

theorem published_exact_witness:
  "\<exists>a e. tx_reached demo_world (\<lambda>e. e) demo_start (a, e) \<and> art_state a = 3 \<and>
    (\<exists>wav. card_files e (make_path (snap_filename (art_snapshot a)) None) = Some wav \<and> snap_wav_sha256 (art_snapshot a) = sha256_text wav)"
proof -
  obtain a e where reached: "tx_reached demo_world (\<lambda>e. e) demo_start (a, e)" "art_state a = 3" by (rule demo_published)
  from published_exact [OF demo_laws this] show ?thesis using reached unfolding Let_def by blast
qed

text \<open>C7. No file is ever lost or overwritten: whatever is on the card while no transaction is running, files published
  before among it, is there unchanged ever after, through every later transaction, completed, refused,
  failed or aborted, as long as nothing else takes it away.\<close>

theorem files_kept:
  assumes "card_laws w view" and "tx_reached w view e0 (a, e)" and "art_state a \<noteq> 1" "art_state a \<noteq> 2"
    and "tx_later w view (a, e) (a', e')" and "card_files (view e) p = Some c"
  shows "card_files (view e') p = Some c"
proof -
  have "tx_inv w view (card_files (view e)) (a, e)"
    by (rule rebased_inv [OF reached_inv [OF assms(2,1)] assms(3,4)])
  from inv_kept [OF later_inv [OF assms(5,1) this]] have "map_le (card_files (view e)) (card_files (view e'))"
    by (simp add: card_kept_def)
  from files_later [OF this assms(6)] show ?thesis .
qed

theorem files_kept_witness:
  "\<exists>a e. tx_reached demo_world (\<lambda>e. e) demo_start (a, e) \<and> art_state a = 3 \<and> card_files e ''2:/WG/IN.BIN'' = Some [1, 2, 3]"
proof -
  obtain a e where reached: "tx_reached demo_world (\<lambda>e. e) demo_start (a, e)" "art_state a = 3" by (rule demo_published)
  have "card_files e ''2:/WG/IN.BIN'' = Some [1, 2, 3]"
    by (rule files_kept [OF demo_laws Now _ _ reached(1)]) (simp_all add: fresh_artifact_def fresh_snapshot_def demo_start_def)
  then show ?thesis using reached by blast
qed

text \<open>C20. The making of a file ends: however the requests, replies, disconnections and aborts fall between them, each
  pass the owner makes while it reports a file in the making reports more frames done than the pass before it,
  and never more than the file will have; so there are at most as many passes as frames left.\<close>

theorem making_ends:
  assumes "card_laws w view" and "tx_reached w view e0 x" and "tx_making w view x counts y"
  shows "sorted_wrt (<) (frames_reported x # counts) \<and> (\<forall>k \<in> set counts. k \<le> total_reported x) \<and>
    unat (frames_reported x) + length counts \<le> unat (total_reported x)"
proof -
  have "sorted_wrt (<) (frames_reported x # counts) \<and> (\<forall>k \<in> set (frames_reported x # counts). k \<le> total_reported x)"
    by (rule making_bounded [OF assms(3,1) reached_inv [OF assms(2,1)]])
  then show ?thesis using rising_length [of "frames_reported x" counts "total_reported x"] by simp
qed

theorem making_ends_witness:
  "\<exists>x y. tx_reached demo_world (\<lambda>e. e) demo_start x \<and> tx_making demo_world (\<lambda>e. e) x [frames_reported y] y \<and>
    frames_reported x < frames_reported y \<and> frames_reported y \<le> total_reported x"
proof -
  obtain x y where x: "tx_reached demo_world (\<lambda>e. e) demo_start x" "tx_making demo_world (\<lambda>e. e) x [frames_reported y] y"
    by (rule demo_second_pass)
  have "frames_reported x < frames_reported y" "frames_reported y \<le> total_reported x"
    using making_ends [OF demo_laws x] by simp_all
  then show ?thesis using x by (intro exI [of _ x] exI [of _ y]) simp
qed

end
