(* ===== verification/Spec2Isabelle.thy ===== *)
theory Spec2Isabelle
  imports Status Crc32 Decimal Pcm24 Attenuation CutTally FinitePlayback Wav Sha256
    PlaylistSpell PlaylistRun Ep0Order MuxLink
    UacRun UacGaps UacControls TxProtocol WavArtifact TxPromises
begin

text \<open>
  A verification library of the waveform generator: the firmware's shared core
  (\<^verbatim>\<open>src/common\<close>) and the parts of the RT1170 player (\<^verbatim>\<open>src/rt1170\<close>) that decide what
  is played, when, and what is reported of it.

  \<^bold>\<open>The program.\<close> A host writes waveforms and a playlist file to the card and drives the
  player over USB, where a link of framed packets (DD-008) carries its control text and its binary
  data on channels of one serial port. A play takes 24-bit mono samples at 48 kHz from an engine or a prepared
  file, applies the attenuation of its route and the cuts of a latched schedule, and fills the
  FIFO of a route (a codec or a USB endpoint). The USB audio function packs that FIFO's frames into
  a packet a millisecond and reports which of them the host took. A playlist is a file of items that the sequencer
  plays one after the other; each leaves a numbered result block in a ring until the host
  acknowledges it.

  \<^bold>\<open>Conventions.\<close> Unsigned integers are words of their width, samples are integers (their
  range is \<open>is_pcm24\<close>), a \<^verbatim>\<open>std::string_view\<close> is a list of characters, a span of bytes a
  list of \<^typ>\<open>u8\<close>, a \<^verbatim>\<open>Result<T>\<close> the sum \<open>status + 'a\<close>, and an object's method a function
  that returns the object updated. An array a ring is kept in stays an array updated by
  index. What is not under \<^verbatim>\<open>src/\<close>, and the drivers, are arguments of the definitions: the
  file of a reader (\<open>Wav\<close>), the blocks of the engine (\<open>Producer\<close>), what the card answers
  (\<open>PlaylistFile\<close>), the commands, clocks and play results of a playlist (\<open>PlaylistRun\<close>), the
  events a USB pass reports (\<open>Ep0Order\<close>), the writers and callbacks of a link's ends
  (\<open>MuxSession\<close>), the stack's FIFO and the play's source (\<open>UacStream\<close>), the card and the encoder of a
  transmit artifact (\<open>TxArtifact\<close>).

  \<^bold>\<open>The theories.\<close>

  \<^item> \<open>Prelude\<close>: the words' widths and the lemmas that read word arithmetic as natural numbers
    (\<open>to_nat\<close>), little-endian bytes, string views, and the interface \<open>incremental\<close> of a routine
    that consumes its input in pieces. \<open>Status\<close> (\<^verbatim>\<open>common/status.hpp\<close>): outcomes, and
    \<open>fallible_incremental\<close>, its form for a routine that stops at the first failure. \<open>Ring\<close>: what
    a circular array holds, and the interface \<open>bounded_queue\<close>: whatever the order of its calls,
    what is taken out is what was put in, in order, within the capacity.

  \<^item> \<open>Crc32\<close> (\<^verbatim>\<open>common/crc32.hpp\<close>): the table-driven CRC-32. The locale \<open>reflected_crc\<close> has the
    theory of a reflected CRC of any polynomial with its highest bit set; the table computes it
    bit by bit and in any split, and a change of at most four bytes is always seen. \<open>Sha256\<close>
    (\<^verbatim>\<open>waveform-source/sha256.hpp\<close>): the incremental object equals SHA-256 of the whole input,
    padding and length included. \<open>Decimal\<close> (\<^verbatim>\<open>common/uint64_text.hpp\<close>): decimal and hexadecimal
    text of a number.

  \<^item> \<open>Pcm24\<close> (\<^verbatim>\<open>common/pcm24.hpp\<close>): samples and their three bytes. \<open>Attenuation\<close>
    (\<^verbatim>\<open>common/attenuation.hpp\<close>, \<^verbatim>\<open>common/attenuation_gains.hpp\<close>): levels in tenths of a decibel,
    the table of gains, the multiplication with its rounding to even (no overflow of 64 bits,
    never louder, monotone in the level), and exactly which texts are a level.

  \<^item> \<open>CutSchedule\<close>, \<open>CutStage\<close> (\<^verbatim>\<open>common/cut_schedule.hpp\<close>): the entries of a schedule, their
    grammar and the rules of a valid schedule; the stage that turns output and schedule into
    steps; the log. \<open>Producer\<close>: one pass of \<^verbatim>\<open>produce()\<close> of \<^verbatim>\<open>rt1170/player.cpp\<close>, and a play as
    such passes. The reference is the cut stream, a function of the whole output and the
    schedule; the invariant \<open>producer_ok\<close> ties the stage, the FIFO and the log to what of it is
    done, each pass keeps it, and the play ends with all of it. \<open>CutTally\<close>: what the log then
    tells of every prefix of the stream a route confirmed is exact, field by field; the place of
    a cut is given by the schedule alone (\<open>cut_place\<close>).

  \<^item> \<open>FinitePlayback\<close> (\<^verbatim>\<open>common/finite_playback.hpp\<close>, \<^verbatim>\<open>.cpp\<close>): the scheduler of a prepared
    playback, a state machine over five watermarks with one action in flight. \<open>scheduler_inv\<close>
    is kept by every operation, so it holds in every reachable state; a playback whose owner
    carries out what the scheduler asks completes; the lead it waits for suffices; the first
    error stays.

  \<^item> \<open>Wav\<close> (\<^verbatim>\<open>common/wav.hpp\<close>): the validator of a WAV file. Whatever the file's bytes and the
    answers of its reader, the chunk walk ends and an accepted payload lies inside the file.

  \<^item> \<open>Playlist\<close> (\<^verbatim>\<open>common/playlist.hpp\<close>): items, the grammar of a line, the item table and the
    parser that is fed the file in pieces, with \<^verbatim>\<open>parse_playlist_file()\<close> of the player.
    \<open>PlaylistFile\<close>: the parser computes a reference that cuts the whole file into lines, and what
    it leaves in the table is well formed. \<open>PlaylistSpell\<close>: every well-formed item has a line
    that means it.

  \<^item> \<open>ResultRing\<close> (\<^verbatim>\<open>common/playlist.hpp\<close>): result blocks and the ring of those not yet
    acknowledged. \<open>PlaylistRun\<close>: the placement of items in time and the sequencer,
    \<^verbatim>\<open>run_playlist()\<close> of the player with what it calls. Its lemmas follow the results through
    the sequencer (\<open>grows\<close>): against the plays it makes, whatever becomes of their results
    (\<open>plays_of\<close>), none is lost, each has the next number, and only blocks the host has acknowledged leave.

  \<^item> \<open>Ep0Order\<close> (\<^verbatim>\<open>rt1170/usb_ep0_order.hpp\<close>, \<^verbatim>\<open>.cpp\<close>, \<^verbatim>\<open>usb/usb_ep0_order_glue.c\<close>,
    \<^verbatim>\<open>run_tinyusb_passes()\<close> of \<^verbatim>\<open>usb/usb_tinyusb_port.c\<close>): the hold that puts SETUPs behind the
    completions that came first, driven by the passes of one interrupt.

  \<^item> \<open>Cobs\<close>, \<open>CdcMuxProtocol\<close> (\<^verbatim>\<open>common/dd008/cdc_mux_protocol.hpp\<close>, \<^verbatim>\<open>.cpp\<close>): byte stuffing, frames with
    their CRC-32C, the encoder and the incremental decoder: a frame is written and read back, the
    decoder finds the next packet after any junk, and a burst of four bytes is always refused.
    \<open>MuxSession\<close> (\<^verbatim>\<open>cdc_mux_session.hpp\<close>, \<^verbatim>\<open>.cpp\<close>): the state and operations of the host's and the
    device's end. \<open>MuxInvariant\<close>: what holds in every session their operations reach, and that
    sending a stream ends. \<open>MuxLink\<close>: both ends together, from the handshake to the bytes delivered.

  \<^item> \<open>UacFormat\<close>, \<open>UacStream\<close> (\<^verbatim>\<open>rt1170/usb_audio.hpp\<close>, \<^verbatim>\<open>.cpp\<close>): the capture formats, a packet's
    bytes, and the capture stream, which tops the stack's FIFO up, retires the record of each
    chunk a completion confirms, and judges the gaps between completions. \<open>UacPlay\<close>: in every run the
    play's statistics are those of exactly the frames confirmed, by an account kept beside the stream
    from the chunks queued, the completions and the FIFO's levels (\<open>account\<close>; \<open>stream_ok\<close>, \<open>account_ok\<close>).
    \<open>UacRun\<close>: on a FIFO that keeps its order the stream never starves. \<open>UacGaps\<close>: the missed
    intervals it counts against the frames the host really skipped, as an equation. \<open>UacControls\<close>: the clock's and
    the feature unit's requests, the log of the stack's assertions, the C entry points.

  \<^item> \<open>TxProtocol\<close> (\<^verbatim>\<open>common/tx_protocol.hpp\<close>, \<^verbatim>\<open>.cpp\<close>): the requests of the transmit link and the
    parser of its commands, which come without delimiters where the older ones do: each command is
    read back as its request, in order, however the commands follow one another.

  \<^item> \<open>Quantize\<close> (\<^verbatim>\<open>signal-lab/src/det_math.cpp\<close>): floats to samples. \<open>WavGenerator\<close>
    (\<^verbatim>\<open>waveform-source/wav_generator.hpp\<close>, \<^verbatim>\<open>.cpp\<close>): the job that turns an encoder's frames into a
    WAV file, an encoder that may read its payload whenever it runs. \<open>WavArtifact\<close>: what a completed
    job has written, which of these files the player's validator accepts, and that jobs end.

  \<^item> \<open>Encoders\<close> (\<^verbatim>\<open>waveform-source/encoder_registry.hpp\<close>, \<^verbatim>\<open>.cpp\<close>): the catalogue of encoder plug-ins.
    \<open>TxArtifact\<close> (\<^verbatim>\<open>rt1170/tx_artifact.hpp\<close>, \<^verbatim>\<open>.cpp\<close>, its refusals in \<^verbatim>\<open>rt1170/error_map.hpp\<close>): the owner
    of a transmit artifact, which takes requests from a mailbox, receives a payload, has a WAV job
    make its file step by step, and publishes it under its name. Its world, a record of
    operations on an environment, is the card's file system, the encoder and the player's marks.
    \<open>TxCard\<close>: what is relied on of the file system (\<open>card_laws\<close>), and what a job leaves of the
    environment it runs in. \<open>TxPublish\<close>, \<open>TxOwner\<close>: the invariant \<open>tx_inv\<close> over the card, kept by every
    step of the owner and of the tasks around it. \<open>TxPromises\<close>: what it reports complete is on the card, no
    file is lost, the making of a file ends; and a card in memory on which it publishes one.

  \<^bold>\<open>Interfaces.\<close> \<open>incremental\<close> has the CRC and SHA-256 as its instances, \<open>fallible_incremental\<close>
  the playlist parser and the packet decoder, \<open>reflected_crc\<close> the two polynomials of the code, and
  \<open>bounded_queue\<close> the ring of results, the hold of SETUPs and the records of USB chunks.

  \<^bold>\<open>Loops, bounds and fuel.\<close> Loops over a list are structural; the others have a measure: the
  WAV walk the bytes left (a chunk's header is eight), the acknowledgement the blocks kept, the
  passes of an interrupt the extra passes left (two), the reading of a file the bytes left, the
  sending of a stream the bytes left, the retiring of chunks their records, a top-up its two writes. The
  loops of the sequencer poll the outside world; they are given the list of what the polls
  find, and have not returned (\<^term>\<open>None\<close>) when it is used up. A play is a number of passes;
  that some number suffices is part of the theorem about it, and a finite playback has an
  explicit bound of at most five turns a frame and two. A transmit artifact takes at most as many
  passes as its file has frames.

  \<^bold>\<open>Not modelled.\<close> Drivers, the RTOS, the card's file system and the USB stack are outside the
  repository. The signal laboratory, the channel simulator and the host's rendering are
  floating-point processing. Of \<^verbatim>\<open>player.cpp\<close> only the producer, the playlist parser's loop and
  the sequencer are modelled: waits, STOP during a play and card checks before a playlist are
  not. A FIFO of the USB stack is an argument; \<open>UacRun\<close> states what is relied on of it. The prepare
  job, the card side of prepared playback, the USB adapter of the transmit link
  (\<^verbatim>\<open>rt1170/tx_usb.cpp\<close>), the live-command protocol and the USB service's commands are not modelled yet.
\<close>

end
